(* ===== verification/Prelude.thy ===== *)
theory Prelude
  imports Main "HOL-Library.Word"
begin

unbundle bit_operations_syntax

text \<open>
  Shared types and lemmas of the development: machine words of the C sources, little-endian and
  big-endian views of byte buffers, rotations, block-wise traversal of buffers, and the simplifier
  collections that the component theories use.

  All sources are modelled for the little-endian, 64-bit build (the only byte order the Makefiles
  and project files of \<open>src/Native\<close> are used with), so the \<open>fix_endian\<close> macros are identities and
  a cast between \<open>uint8_t*\<close> and \<open>uint32_t*\<close> or \<open>uint64_t*\<close> is the little-endian view below.
\<close>

section \<open>Machine types\<close>

type_synonym u8 = "8 word"
type_synonym u32 = "32 word"
type_synonym u64 = "64 word"
type_synonym bytes = "u8 list"

named_theorems bufs \<open>rules for buffers: lengths, lookups and updates of byte and word arrays\<close>
named_theorems bitwise \<open>rules that reduce a word equation to its bits\<close>

section \<open>Lists\<close>

lemma list_update_numeral [simp]:
  "(x # xs)[numeral n := v] = x # xs[pred_numeral n := v]"
  by (simp add: numeral_eq_Suc)

lemma list_25_cases:
  assumes "length (xs :: 'a list) = 25"
  obtains a0 a1 a2 a3 a4 a5 a6 a7 a8 a9 a10 a11 a12 a13 a14 a15 a16 a17 a18 a19 a20 a21 a22 a23 a24
  where "xs = [a0, a1, a2, a3, a4, a5, a6, a7, a8, a9, a10, a11, a12, a13, a14, a15, a16, a17, a18,
    a19, a20, a21, a22, a23, a24]"
  using assms by (auto simp: length_Suc_conv eval_nat_numeral)

lemma length_fold_update:
  assumes "\<And>i xs. length (f i xs) = length xs"
  shows "length (fold f is xs) = length xs"
  using assms by (induction "is" arbitrary: xs) auto

lemma fold_invariant_set:
  assumes "P s" and "\<And>i s. i \<in> set is \<Longrightarrow> P s \<Longrightarrow> P (f i s)"
  shows "P (fold f is s)"
  using assms by (induction "is" arbitrary: s) auto

text \<open>
  A buffer that is read in pieces of \<open>n\<close> elements: \<open>chunks n xs\<close> is the sequence of the
  full pieces, with the last, shorter piece kept.
\<close>

function chunks :: "nat \<Rightarrow> 'a list \<Rightarrow> 'a list list" where
  "chunks n xs = (if xs = [] \<or> n = 0 then [] else take n xs # chunks n (drop n xs))"
  by pat_completeness auto
termination
  by (relation "measure (\<lambda>(n, xs). length xs)") auto

declare chunks.simps [simp del]

lemma chunks_Nil [simp]: "chunks n [] = []"
  by (simp add: chunks.simps)

lemma chunks_append:
  "length xs = n \<Longrightarrow> 0 < n \<Longrightarrow> chunks n (xs @ ys) = xs # chunks n ys"
  by (subst chunks.simps) auto

lemma concat_chunks: "0 < n \<Longrightarrow> concat (chunks n xs) = xs"
proof (induction n xs rule: chunks.induct)
  case (1 n xs)
  then show ?case by (subst chunks.simps) auto
qed

lemma length_chunks: "0 < n \<Longrightarrow> length xs = n * k \<Longrightarrow> length (chunks n xs) = k"
proof (induction n xs arbitrary: k rule: chunks.induct)
  case (1 n xs)
  show ?case
  proof (cases k)
    case 0
    with 1 show ?thesis by simp
  next
    case (Suc j)
    with 1 have "xs \<noteq> []" by auto
    with 1 Suc show ?thesis by (subst chunks.simps) auto
  qed
qed

lemma nth_chunks:
  "0 < n \<Longrightarrow> length xs = n * k \<Longrightarrow> i < k \<Longrightarrow> chunks n xs ! i = take n (drop (n * i) xs)"
proof (induction n xs arbitrary: k i rule: chunks.induct)
  case (1 n xs)
  then obtain j where k: "k = Suc j" by (cases k) auto
  with 1 have ne: "xs \<noteq> []" by auto
  show ?case
  proof (cases i)
    case 0
    with ne 1 show ?thesis by (subst chunks.simps) auto
  next
    case (Suc i')
    with 1 ne k have "chunks n (drop n xs) ! i' = take n (drop (n * i') (drop n xs))"
      by auto
    with Suc ne 1 show ?thesis by (subst chunks.simps) (auto simp: add.commute)
  qed
qed

lemma chunks_append_blocks: "0 < n \<Longrightarrow> length x = n * k \<Longrightarrow> chunks n (x @ y) = chunks n x @ chunks n y"
proof (induction k arbitrary: x)
  case (Suc k)
  then have x: "length (take n x) = n" "length (drop n x) = n * k" by simp_all
  then have "chunks n (take n x @ drop n x @ y) = take n x # chunks n (drop n x) @ chunks n y"
    using Suc.IH [OF Suc.prems(1) x(2)] by (simp add: chunks_append Suc.prems(1))
  moreover have "chunks n (take n x @ drop n x) = take n x # chunks n (drop n x)"
    using x by (simp add: chunks_append Suc.prems(1) del: append_take_drop_id)
  ultimately show ?case by (metis append_Cons append_assoc append_take_drop_id)
qed simp

text \<open>\<open>memcpy(buf + off, bs, length bs)\<close>.\<close>

definition copy_at :: "'a list \<Rightarrow> nat \<Rightarrow> 'a list \<Rightarrow> 'a list" where
  "copy_at buf off bs = take off buf @ bs @ drop (off + length bs) buf"

lemma length_copy_at [simp, bufs]:
  "off + length bs \<le> length buf \<Longrightarrow> length (copy_at buf off bs) = length buf"
  by (simp add: copy_at_def)

lemma take_copy_at [bufs]:
  "off + length bs \<le> length buf \<Longrightarrow> take (off + length bs) (copy_at buf off bs) = take off buf @ bs"
  by (simp add: copy_at_def)

lemma slice_copy_at [bufs]:
  "j + l \<le> off \<Longrightarrow> off \<le> length buf \<Longrightarrow> take l (drop j (copy_at buf off bs)) = take l (drop j buf)"
  by (auto simp: copy_at_def drop_take min_def)

lemma copy_at_full [bufs]: "off + length bs = length buf \<Longrightarrow> copy_at buf off bs = take off buf @ bs"
  by (simp add: copy_at_def)

lemma map_nth_slice: "s + n \<le> length src \<Longrightarrow> map (\<lambda>i. src ! (s + i)) [0..<n] = take n (drop s src)"
  by (auto intro!: nth_equalityI)

text \<open>Cells stored one after the other, each computed from a cell of the same place or of another part of the list.\<close>

lemma fold_store_from:
  assumes "d + n \<le> length l" and "q = d \<or> q + n \<le> d \<or> d + n \<le> q"
  shows "fold (\<lambda>i l. l[d + i := f i (l ! (q + i))]) [0..<n] l = copy_at l d (map (\<lambda>i. f i (l ! (q + i))) [0..<n])"
  using assms
proof (induction n)
  case (Suc n)
  let ?c = "copy_at l d (map (\<lambda>i. f i (l ! (q + i))) [0..<n])"
  have "?c ! (q + n) = l ! (q + n)"
    using Suc.prems by (auto simp: copy_at_def nth_append add.commute)
  then have "fold (\<lambda>i l. l[d + i := f i (l ! (q + i))]) [0..<Suc n] l = ?c[d + n := f n (l ! (q + n))]"
    using Suc by auto
  also have "\<dots> = copy_at l d (map (\<lambda>i. f i (l ! (q + i))) [0..<Suc n])"
    using Suc.prems(1) by (simp add: copy_at_def list_update_append Cons_nth_drop_Suc [symmetric])
  finally show ?case .
qed (simp add: copy_at_def)

section \<open>Rotations\<close>

text \<open>The C idiom \<open>(x << s) | (x >> (W - s))\<close>.\<close>

definition rol64 :: "u64 \<Rightarrow> nat \<Rightarrow> u64" where
  "rol64 x s = push_bit s x OR drop_bit (64 - s) x"

definition rol32 :: "u32 \<Rightarrow> nat \<Rightarrow> u32" where
  "rol32 x s = push_bit s x OR drop_bit (32 - s) x"

definition ror64 :: "u64 \<Rightarrow> nat \<Rightarrow> u64" where
  "ror64 x s = drop_bit s x OR push_bit (64 - s) x"

definition ror32 :: "u32 \<Rightarrow> nat \<Rightarrow> u32" where
  "ror32 x s = drop_bit s x OR push_bit (32 - s) x"

section \<open>Byte order\<close>

text \<open>
  \<open>le_word\<close> reads a buffer as one little-endian word and \<open>le_bytes n\<close> writes a word to
  \<open>n\<close> bytes; bytes past the width of the word are not read and are written as zero.
\<close>

primrec le_word :: "bytes \<Rightarrow> 'a::len word" where
  "le_word [] = 0"
| "le_word (b # bs) = (ucast b :: 'a word) OR push_bit 8 (le_word bs)"

primrec le_bytes :: "nat \<Rightarrow> 'a::len word \<Rightarrow> bytes" where
  "le_bytes 0 w = []"
| "le_bytes (Suc n) w = (ucast w :: u8) # le_bytes n (drop_bit 8 w)"

lemma length_le_bytes [simp, bufs]: "length (le_bytes n w) = n"
  by (induction n arbitrary: w) auto

lemma nth_le_bytes [bufs]: "i < n \<Longrightarrow> le_bytes n w ! i = (ucast (drop_bit (8 * i) w) :: u8)"
proof (induction n arbitrary: w i)
  case 0
  then show ?case by simp
next
  case (Suc n)
  then show ?case by (cases i) (auto simp: drop_bit_drop_bit algebra_simps)
qed

lemma bit_le_word:
  "bit (le_word bs :: 'a::len word) i \<longleftrightarrow>
     i < LENGTH('a) \<and> i < 8 * length bs \<and> bit (bs ! (i div 8)) (i mod 8)"
proof (induction bs arbitrary: i)
  case Nil
  then show ?case by simp
next
  case (Cons b bs)
  show ?case
  proof (cases "i < 8")
    case True
    then show ?thesis by (auto simp: bit_simps)
  next
    case False
    then have "i div 8 = Suc ((i - 8) div 8)" and "i mod 8 = (i - 8) mod 8"
      by (simp_all add: le_div_geq le_mod_geq)
    moreover from False have "\<not> bit b i"
      using bit_imp_le_length [of b i] by auto
    ultimately show ?thesis
      using False Cons [of "i - 8"] by (auto simp: bit_simps)
  qed
qed

lemma le_word_le_bytes: "LENGTH('a) \<le> 8 * n \<Longrightarrow> le_word (le_bytes n (w :: 'a::len word)) = w"
proof (rule bit_eqI)
  fix i
  assume "LENGTH('a) \<le> 8 * n"
  then show "bit (le_word (le_bytes n w) :: 'a word) i \<longleftrightarrow> bit w i"
    using bit_imp_le_length [of w i]
    by (auto simp: bit_le_word nth_le_bytes bit_simps)
qed

lemma le_bytes_le_word:
  "8 * length bs \<le> LENGTH('a::len) \<Longrightarrow> le_bytes (length bs) (le_word bs :: 'a word) = bs"
proof (rule nth_equalityI)
  fix i
  assume len: "8 * length bs \<le> LENGTH('a)" and "i < length (le_bytes (length bs) (le_word bs :: 'a word))"
  then have i: "i < length bs" by simp
  show "le_bytes (length bs) (le_word bs :: 'a word) ! i = bs ! i"
  proof (rule bit_eqI)
    fix j
    assume "possible_bit TYPE(8 word) j"
    then have j: "j < 8" by (simp add: possible_bit_word)
    with i len have "8 * i + j < LENGTH('a)" by linarith
    with i j show "bit (le_bytes (length bs) (le_word bs :: 'a word) ! i) j \<longleftrightarrow> bit (bs ! i) j"
      by (auto simp: nth_le_bytes bit_simps bit_le_word)
  qed
qed simp

lemma le_word_4 [simp]: "le_word (le_bytes 4 (w :: u32)) = w"
  and le_word_8 [simp]: "le_word (le_bytes 8 (v :: u64)) = v"
  by (simp_all add: le_word_le_bytes)

lemma le_word_xor:
  assumes "length as = length bs"
  shows "le_word (map2 (XOR) as bs) = (le_word as XOR le_word bs :: 'a::len word)"
proof (rule bit_eqI)
  fix i
  show "bit (le_word (map2 (XOR) as bs) :: 'a word) i \<longleftrightarrow> bit (le_word as XOR le_word bs :: 'a word) i"
    using assms by (auto simp: bit_le_word bit_simps)
qed

text \<open>Big-endian reading of a byte string as a number.\<close>

primrec be_nat :: "bytes \<Rightarrow> nat" where
  "be_nat [] = 0"
| "be_nat (b # bs) = unat b * 256 ^ length bs + be_nat bs"

section \<open>Arrays of words over byte buffers\<close>

definition words_of :: "bytes \<Rightarrow> u64 list" where
  "words_of bs = map le_word (chunks 8 bs)"

definition bytes_of :: "u64 list \<Rightarrow> bytes" where
  "bytes_of ws = concat (map (le_bytes 8) ws)"

definition words32_of :: "bytes \<Rightarrow> u32 list" where
  "words32_of bs = map le_word (chunks 4 bs)"

definition bytes32_of :: "u32 list \<Rightarrow> bytes" where
  "bytes32_of ws = concat (map (le_bytes 4) ws)"

lemma length_bytes_of [simp, bufs]: "length (bytes_of ws) = 8 * length ws"
  by (induction ws) (auto simp: bytes_of_def)

lemma length_bytes32_of [simp, bufs]: "length (bytes32_of ws) = 4 * length ws"
  by (induction ws) (auto simp: bytes32_of_def)

lemma words_of_bytes_of [simp]: "words_of (bytes_of ws) = ws"
  by (induction ws) (auto simp: bytes_of_def words_of_def chunks_append)

lemma words32_of_bytes32_of [simp]: "words32_of (bytes32_of ws) = ws"
  by (induction ws) (auto simp: bytes32_of_def words32_of_def chunks_append)

lemma length_words_of: "length bs = 8 * k \<Longrightarrow> length (words_of bs) = k"
  by (simp add: words_of_def length_chunks)

lemma length_words32_of: "length bs = 4 * k \<Longrightarrow> length (words32_of bs) = k"
  by (simp add: words32_of_def length_chunks)

lemma bytes_of_words_of:
  assumes "length bs = 8 * k"
  shows "bytes_of (words_of bs) = bs"
proof -
  have "map (le_bytes 8 \<circ> (le_word :: bytes \<Rightarrow> u64)) (chunks 8 bs) = chunks 8 bs"
  proof (rule map_idI)
    fix c
    assume "c \<in> set (chunks 8 bs)"
    then obtain i where i: "i < k" and c: "c = chunks 8 bs ! i"
      using assms by (auto simp: in_set_conv_nth length_chunks)
    with assms have "length c = 8" by (auto simp: nth_chunks)
    then show "(le_bytes 8 \<circ> (le_word :: bytes \<Rightarrow> u64)) c = c"
      using le_bytes_le_word [where 'a = 64, of c] by simp
  qed
  then show ?thesis
    by (simp add: bytes_of_def words_of_def concat_chunks)
qed

lemma bytes32_of_words32_of:
  assumes "length bs = 4 * k"
  shows "bytes32_of (words32_of bs) = bs"
proof -
  have "map (le_bytes 4 \<circ> (le_word :: bytes \<Rightarrow> u32)) (chunks 4 bs) = chunks 4 bs"
  proof (rule map_idI)
    fix c
    assume "c \<in> set (chunks 4 bs)"
    then obtain i where i: "i < k" and c: "c = chunks 4 bs ! i"
      using assms by (auto simp: in_set_conv_nth length_chunks)
    with assms have "length c = 4" by (auto simp: nth_chunks)
    then show "(le_bytes 4 \<circ> (le_word :: bytes \<Rightarrow> u32)) c = c"
      using le_bytes_le_word [where 'a = 32, of c] by simp
  qed
  then show ?thesis
    by (simp add: bytes32_of_def words32_of_def concat_chunks)
qed

lemma nth_words_of [bufs]:
  "length bs = 8 * k \<Longrightarrow> j < k \<Longrightarrow> words_of bs ! j = le_word (take 8 (drop (8 * j) bs))"
  by (simp add: words_of_def nth_chunks length_chunks)

lemma bit_nth_words_of [bitwise]:
  assumes "length bs = 8 * k" and "j < k"
  shows "bit (words_of bs ! j) i \<longleftrightarrow> i < 64 \<and> bit (bs ! (8 * j + i div 8)) (i mod 8)"
proof (cases "i < 64")
  case True
  moreover from assms have "8 \<le> 8 * k - 8 * j" by auto
  moreover from True assms have "8 * j + i div 8 < 8 * k" by auto
  ultimately show ?thesis using assms by (simp add: nth_words_of bit_le_word min_def)
next
  case False
  then show ?thesis using assms by (simp add: nth_words_of bit_le_word)
qed

lemma words_of_eqI:
  assumes "length bs = 8 * k" and "length ws = k"
    and "\<And>j i. j < k \<Longrightarrow> i < 64 \<Longrightarrow> bit (bs ! (8 * j + i div 8)) (i mod 8) \<longleftrightarrow> bit (ws ! j) i"
  shows "words_of bs = ws"
proof (rule nth_equalityI)
  show "length (words_of bs) = length ws"
    using assms by (simp add: length_words_of)
next
  fix j
  assume "j < length (words_of bs)"
  with assms(1) have j: "j < k" by (simp add: length_words_of)
  show "words_of bs ! j = ws ! j"
  proof (rule bit_eqI)
    fix i
    assume "possible_bit TYPE(64 word) i"
    then have "i < 64" by (simp add: possible_bit_word)
    with j assms show "bit (words_of bs ! j) i \<longleftrightarrow> bit (ws ! j) i"
      by (simp add: bit_nth_words_of)
  qed
qed

lemma take_bytes_of: "take (8 * k) (bytes_of ws) = bytes_of (take k ws)"
proof (induction ws arbitrary: k)
  case Nil
  then show ?case by (simp add: bytes_of_def)
next
  case (Cons w ws)
  then show ?case by (cases k) (auto simp: bytes_of_def)
qed

lemma byte_index_eq:
  assumes "k < 8" and "m < (8 :: nat)"
  shows "8 * j + k = 8 * q + m \<longleftrightarrow> j = q \<and> k = m"
proof
  assume eq: "8 * j + k = 8 * q + m"
  then have "(8 * j + k) div 8 = (8 * q + m) div 8" by (rule arg_cong)
  with assms have "j = q" by simp
  with eq show "j = q \<and> k = m" by simp
qed simp

lemma byte_index_less:
  "k < 8 \<Longrightarrow> m < (8 :: nat) \<Longrightarrow> 8 * j + k < 8 * q + m \<longleftrightarrow> j < q \<or> j = q \<and> k < m"
  by auto

section \<open>Widths\<close>

lemma unat_ucast_small:
  "unat (x :: 'a::len word) < 2 ^ LENGTH('b) \<Longrightarrow> unat (ucast x :: 'b::len word) = unat x"
  by (simp add: unsigned_ucast_eq take_bit_nat_eq_self)

lemma unat_of_nat_small:
  "n < 2 ^ LENGTH('a) \<Longrightarrow> unat (of_nat n :: 'a::len word) = n"
  by (simp only: unat_of_nat mod_less)

lemma unat_less: "unat (x :: 'a::len word) < 2 ^ LENGTH('a)"
  by (rule unsigned_less)

lemma unat_u8_less: "unat (x :: u8) < 256"
  using unat_less [of x] by simp

lemma unat_ucast_32_64 [simp]: "unat (ucast (x :: u32) :: u64) = unat x"
  using unat_less [of x] by (simp add: unat_ucast_small)

lemma unat_mod_less: "m \<noteq> 0 \<Longrightarrow> unat (x mod m) < unat (m :: 'a::len word)"
  by (simp add: unat_mod unat_gt_0)

text \<open>Subtraction of \<open>size_t\<close> values, both below $2^{64}$.\<close>

definition size_sub :: "nat \<Rightarrow> nat \<Rightarrow> nat" where
  "size_sub a b = (if b \<le> a then a - b else 2 ^ 64 + a - b)"

lemma size_sub_le [simp]: "b \<le> a \<Longrightarrow> size_sub a b = a - b"
  by (simp add: size_sub_def)

lemma size_sub_pos: "a \<noteq> b \<Longrightarrow> b < 2 ^ 64 \<Longrightarrow> 0 < size_sub a b"
  by (auto simp: size_sub_def)

section \<open>Loops that may fail\<close>

text \<open>A loop over indices with a body that may fail, and the rule for its invariants.\<close>

fun loop_opt :: "(nat \<Rightarrow> 's \<Rightarrow> 's option) \<Rightarrow> nat list \<Rightarrow> 's \<Rightarrow> 's option" where
  "loop_opt f [] s = Some s"
| "loop_opt f (i # is) s = Option.bind (f i s) (loop_opt f is)"

lemma loop_opt_append: "loop_opt f (is @ js) s = Option.bind (loop_opt f is s) (loop_opt f js)"
proof (induction "is" arbitrary: s)
  case (Cons i "is")
  then show ?case by (cases "f i s") simp_all
qed simp

lemma loop_opt_invariant:
  assumes "I 0 s" and "\<And>t s. t < n \<Longrightarrow> I t s \<Longrightarrow> \<exists>s'. f (g t) s = Some s' \<and> I (Suc t) s'"
  shows "\<exists>s'. loop_opt f (map g [0..<n]) s = Some s' \<and> I n s'"
  using assms
proof (induction n)
  case (Suc n)
  then obtain s' where s': "loop_opt f (map g [0..<n]) s = Some s'" "I n s'" by (metis less_SucI)
  with Suc.prems(2) [of n s'] show ?case by (auto simp: loop_opt_append)
qed simp

text \<open>A loop that ends is a fold of what its body computes; it ends when its body keeps an invariant.\<close>

lemma loop_opt_fold:
  assumes "loop_opt f is s = Some s'" and "\<And>i s s'. i \<in> set is \<Longrightarrow> f i s = Some s' \<Longrightarrow> s' = g i s"
  shows "s' = fold g is s"
  using assms
proof (induction "is" arbitrary: s)
  case (Cons i "is")
  then obtain t where t: "f i s = Some t" "loop_opt f is t = Some s'" by (auto simp: bind_eq_Some_conv)
  from Cons.prems(2) [OF _ t(1)] have "t = g i s" by simp
  moreover have "s' = fold g is t" using Cons.IH [OF t(2)] Cons.prems(2) by simp
  ultimately show ?case by simp
qed simp

lemma loop_opt_ex:
  assumes "P s" and "\<And>i s. i \<in> set is \<Longrightarrow> P s \<Longrightarrow> \<exists>s'. f i s = Some s' \<and> P s'"
  shows "\<exists>s'. loop_opt f is s = Some s' \<and> P s'"
  using assms
proof (induction "is" arbitrary: s)
  case (Cons i "is")
  then obtain t where "f i s = Some t" "P t" by (metis list.set_intros(1))
  then show ?case using Cons.IH [of t] Cons.prems(2) by simp
qed simp

lemma loop_opt_Some: "loop_opt (\<lambda>i s. Some (g i s)) is s = Some (fold g is s)"
  by (induction "is" arbitrary: s) simp_all

lemma loop_opt_cong:
  assumes "\<And>i s. i \<in> set is \<Longrightarrow> f i s = g i s"
  shows "loop_opt f is s = loop_opt g is s"
  using assms
proof (induction "is" arbitrary: s)
  case (Cons i "is")
  then have "loop_opt f is = loop_opt g is" by (intro ext) simp
  then show ?case using Cons.prems by simp
qed simp

text \<open>A read of an array that may miss it.\<close>

definition read_at :: "'a list \<Rightarrow> nat \<Rightarrow> 'a option" where
  "read_at xs i = (if i < length xs then Some (xs ! i) else None)"

lemma read_at_inside [simp]: "i < length xs \<Longrightarrow> read_at xs i = Some (xs ! i)"
  by (simp add: read_at_def)

lemma read_at_Some: "read_at xs i = Some x \<longleftrightarrow> i < length xs \<and> x = xs ! i"
  by (auto simp: read_at_def)

end
