(* ===== verification/Keccak_Tiny.thy ===== *)
theory Keccak_Tiny
  imports Prelude
begin

unbundle bit_operations_syntax

text \<open>
  The Keccak sponge of the Ethash family: \<open>src/src/Native/libethhash/sha3.c\<close> and \<open>sha3.h\<close>
  (the copies in \<open>libetchash\<close>, \<open>libubqhash\<close> and \<open>libethhashb3\<close> are the same text).
  \<open>keccakf\<close> is the permutation with its unrolling macros written as folds over the index
  ranges they unroll to; \<open>hash\<close> is the byte-oriented sponge with its argument checks.
\<close>

section \<open>The permutation\<close>

definition rho :: "nat list" where
  "rho = [1, 3, 6, 10, 15, 21, 28, 36, 45, 55, 2, 14, 27, 41, 56, 8, 25, 43, 62, 18, 39, 61, 20, 44]"

definition pi_idx :: "nat list" where
  "pi_idx = [10, 7, 11, 17, 18, 3, 5, 16, 8, 21, 24, 4, 15, 23, 19, 13, 12, 2, 20, 14, 22, 9, 6, 1]"

definition RC :: "u64 list" where
  "RC = [1, 0x8082, 0x800000000000808a, 0x8000000080008000,
    0x808b, 0x80000001, 0x8000000080008081, 0x8000000000008009,
    0x8a, 0x88, 0x80008009, 0x8000000a,
    0x8000808b, 0x800000000000008b, 0x8000000000008089, 0x8000000000008003,
    0x8000000000008002, 0x8000000000000080, 0x800a, 0x800000008000000a,
    0x8000000080008081, 0x8000000000008080, 0x80000001, 0x8000000080008008]"

text \<open>\<open>FOR5(v, 1, e)\<close> and \<open>FOR5(v, 5, e)\<close> run \<open>e\<close> for these values of \<open>v\<close>.\<close>

abbreviation (input) for5_1 :: "nat list" where "for5_1 \<equiv> [0, 1, 2, 3, 4]"
abbreviation (input) for5_5 :: "nat list" where "for5_5 \<equiv> [0, 5, 10, 15, 20]"

definition theta :: "u64 list \<Rightarrow> u64 list" where
  "theta a =
     (let b = map (\<lambda>x. fold (\<lambda>y bx. bx XOR a ! (x + y)) for5_5 0) for5_1
      in fold (\<lambda>x. fold (\<lambda>y a.
           a[y + x := a ! (y + x) XOR (b ! ((x + 4) mod 5) XOR rol64 (b ! ((x + 1) mod 5)) 1)])
           for5_5) for5_1 a)"

definition rho_pi :: "u64 list \<Rightarrow> u64 list" where
  "rho_pi a =
     snd (fold (\<lambda>x (t, a). (a ! (pi_idx ! x), a[pi_idx ! x := rol64 t (rho ! x)]))
       [0, 1, 2, 3, 4, 5, 6, 7, 8, 9, 10, 11, 12, 13, 14, 15, 16, 17, 18, 19, 20, 21, 22, 23]
       (a ! 1, a))"

definition chi :: "u64 list \<Rightarrow> u64 list" where
  "chi a =
     fold (\<lambda>y a.
       let b = map (\<lambda>x. a ! (y + x)) for5_1
       in fold (\<lambda>x a. a[y + x := b ! x XOR (NOT (b ! ((x + 1) mod 5)) AND b ! ((x + 2) mod 5))])
            for5_1 a) for5_5 a"

definition iota :: "nat \<Rightarrow> u64 list \<Rightarrow> u64 list" where
  "iota i a = a[0 := a ! 0 XOR RC ! i]"

definition keccakf :: "u64 list \<Rightarrow> u64 list" where
  "keccakf a = fold (\<lambda>i a. iota i (chi (rho_pi (theta a)))) [0..<24] a"

lemma length_theta [simp, bufs]: "length (theta a) = length a"
  unfolding theta_def Let_def by (intro length_fold_update) (rule length_list_update)

lemma length_rho_pi [simp, bufs]: "length (rho_pi a) = length a"
  unfolding rho_pi_def
  by (rule fold_invariant_set [where P = "\<lambda>s. length (snd s) = length a"]) auto

lemma length_chi [simp, bufs]: "length (chi a) = length a"
  unfolding chi_def Let_def by (intro length_fold_update) (rule length_list_update)

lemma length_iota [simp, bufs]: "length (iota i a) = length a"
  by (simp add: iota_def)

lemma length_keccakf [simp, bufs]: "length (keccakf a) = length a"
  unfolding keccakf_def by (rule length_fold_update) simp

section \<open>The sponge\<close>

definition Plen :: nat where "Plen = 200"

text \<open>\<open>P(a)\<close>: the permutation on the state as the byte array it is declared as.\<close>

definition keccakP :: "bytes \<Rightarrow> bytes" where
  "keccakP a = bytes_of (keccakf (words_of a))"

text \<open>
  \<open>xorin(dst, src, len)\<close> and \<open>setout(src, dst, len)\<close>: byte loops over \<open>0 \<dots> len - 1\<close>.
  \<open>setout\<close> returns the bytes it writes to the output buffer.
\<close>

fun xorin :: "bytes \<Rightarrow> bytes \<Rightarrow> nat \<Rightarrow> bytes" where
  "xorin (d # ds) (s # ss) (Suc len) = (d XOR s) # xorin ds ss len"
| "xorin ds ss len = ds"

definition setout :: "bytes \<Rightarrow> nat \<Rightarrow> bytes" where
  "setout src len = take len src"

text \<open>\<open>foldP(in, inlen, xorin)\<close>: the state and the unread input after the full blocks.\<close>

function absorb :: "nat \<Rightarrow> bytes \<Rightarrow> bytes \<Rightarrow> bytes \<times> bytes" where
  "absorb rate a inp =
     (if rate \<noteq> 0 \<and> rate \<le> length inp then absorb rate (keccakP (xorin a inp rate)) (drop rate inp)
      else (a, inp))"
  by pat_completeness auto
termination
  by (relation "measure (\<lambda>(rate, a, inp). length inp)") auto

text \<open>\<open>foldP(out, outlen, setout)\<close> and the last, partial \<open>setout\<close>.\<close>

function squeeze :: "nat \<Rightarrow> bytes \<Rightarrow> nat \<Rightarrow> bytes" where
  "squeeze rate a outlen =
     (if rate \<noteq> 0 \<and> rate \<le> outlen then setout a rate @ squeeze rate (keccakP a) (outlen - rate)
      else setout a outlen)"
  by pat_completeness auto
termination
  by (relation "measure (\<lambda>(rate, a, outlen). outlen)") auto

declare absorb.simps [simp del] squeeze.simps [simp del]

text \<open>
  \<open>hash(out, outlen, in, inlen, rate, delim)\<close>: \<open>None\<close> is the return value \<open>-1\<close>. The
  buffers are lists, so the null-pointer checks cannot fail; a rate of \<open>Plen\<close> or more is
  rejected. The last block goes in after the domain byte and the frame bit.
\<close>

definition hash :: "nat \<Rightarrow> bytes \<Rightarrow> nat \<Rightarrow> u8 \<Rightarrow> bytes option" where
  "hash outlen inp rate delim =
     (if rate \<ge> Plen then None
      else
        let (a, rest) = absorb rate (replicate Plen 0) inp;
            a = a[length rest := a ! length rest XOR delim];
            a = a[rate - 1 := a ! (rate - 1) XOR 0x80];
            a = xorin a rest (length rest);
            a = keccakP a
        in Some (squeeze rate a outlen))"

definition sha3 :: "nat \<Rightarrow> nat \<Rightarrow> bytes \<Rightarrow> bytes option" where
  "sha3 bits outlen inp =
     (if outlen > bits div 8 then None else hash outlen inp (200 - bits div 4) 0x01)"

text \<open>\<open>sha3.h\<close>: the two wrappers the Ethash code calls, which ignore the return value.\<close>

definition SHA3_256 :: "bytes \<Rightarrow> bytes" where
  "SHA3_256 inp = the (sha3 256 32 inp)"

definition SHA3_512 :: "bytes \<Rightarrow> bytes" where
  "SHA3_512 inp = the (sha3 512 64 inp)"

section \<open>Lengths and the block-wise reading of the sponge\<close>

lemma length_keccakP [simp, bufs]: "length a = 200 \<Longrightarrow> length (keccakP a) = 200"
  by (simp add: keccakP_def length_words_of [of a 25])

lemma length_xorin [simp, bufs]: "length (xorin ds ss n) = length ds"
  by (induction ds ss n rule: xorin.induct) auto

lemma nth_xorin [bufs]:
  "n \<le> length ss \<Longrightarrow> i < length ds \<Longrightarrow>
     xorin ds ss n ! i = (if i < n then ds ! i XOR ss ! i else ds ! i)"
proof (induction ds ss n arbitrary: i rule: xorin.induct)
  case (1 d ds s ss len)
  then show ?case by (cases i) auto
qed auto

lemma absorb_step:
  "rate \<noteq> 0 \<Longrightarrow> rate \<le> length inp \<Longrightarrow>
     absorb rate a inp = absorb rate (keccakP (xorin a inp rate)) (drop rate inp)"
  by (simp add: absorb.simps [of rate a inp])

lemma absorb_stop: "length inp < rate \<Longrightarrow> absorb rate a inp = (a, inp)"
  by (simp add: absorb.simps [of rate a inp])

lemma absorb_lengths:
  "absorb rate a inp = (a', rest) \<Longrightarrow> 0 < rate \<Longrightarrow> length a = 200 \<Longrightarrow>
     length a' = 200 \<and> length rest = length inp mod rate"
proof (induction rate a inp arbitrary: a' rest rule: absorb.induct)
  case (1 rate a inp)
  show ?case
  proof (cases "rate \<le> length inp")
    case True
    with "1.prems" have step: "absorb rate (keccakP (xorin a inp rate)) (drop rate inp) = (a', rest)"
      by (simp add: absorb_step)
    have "length a' = 200 \<and> length rest = length (drop rate inp) mod rate"
      by (rule "1.IH" [OF _ step]) (use True "1.prems" in simp_all)
    with True show ?thesis by (simp add: le_mod_geq)
  next
    case False
    with "1.prems" show ?thesis by (auto simp: absorb_stop)
  qed
qed

lemma length_squeeze:
  "0 < rate \<Longrightarrow> rate \<le> 200 \<Longrightarrow> length a = 200 \<Longrightarrow> length (squeeze rate a outlen) = outlen"
proof (induction rate a outlen rule: squeeze.induct)
  case (1 rate a outlen)
  then show ?case by (subst squeeze.simps) (auto simp: setout_def)
qed

lemma hash_length:
  assumes "hash outlen inp rate delim = Some out" and "0 < rate"
  shows "length out = outlen"
proof -
  obtain a rest where ar: "absorb rate (replicate Plen 0) inp = (a, rest)"
    by fastforce
  with assms(2) have "length a = 200"
    using absorb_lengths by (fastforce simp: Plen_def)
  with assms ar show ?thesis
    by (auto simp: hash_def Plen_def Let_def length_squeeze split: if_splits)
qed

text \<open>A digest no longer than the rate is the prefix of the last state.\<close>

lemma squeeze_short: "outlen < rate \<Longrightarrow> squeeze rate a outlen = take outlen a"
  by (subst squeeze.simps) (simp add: setout_def)

lemma sha3_Some:
  "outlen \<le> bits div 8 \<Longrightarrow> 4 \<le> bits \<Longrightarrow> \<exists>out. sha3 bits outlen inp = Some out"
  by (auto simp: sha3_def hash_def Plen_def Let_def split: prod.splits)

lemma sha3_length:
  "sha3 bits outlen inp = Some out \<Longrightarrow> bits div 4 < 200 \<Longrightarrow> length out = outlen"
  by (auto simp: sha3_def dest!: hash_length split: if_splits)

lemma length_SHA3 [simp, bufs]: "length (SHA3_256 inp) = 32" "length (SHA3_512 inp) = 64"
  using sha3_Some [of 32 256 inp] sha3_Some [of 64 512 inp]
    sha3_length [of 256 32 inp] sha3_length [of 512 64 inp]
  by (auto simp: SHA3_256_def SHA3_512_def)

end
