(* ===== verification/Keccak_Progpow.thy ===== *)
theory Keccak_Progpow
  imports Keccak_Tiny
begin

unbundle bit_operations_syntax

text \<open>
  The Keccak of the ProgPoW family: \<open>keccak/keccakf1600.c\<close> and \<open>keccak/keccak.c\<close> of
  \<open>src/src/Native/libfiropow\<close> (the copies in \<open>libkawpow\<close>, \<open>libmeowpow\<close>, \<open>libmerakipow\<close>,
  \<open>libphihash\<close>, \<open>libprogpowz\<close> and \<open>libsccpow\<close> are the same text). The permutation is the one
  with 25 named lanes and two rounds per iteration; the sponge reads the message as 64-bit words.
\<close>

section \<open>The unrolled permutation\<close>

definition round_constants :: "u64 list" where
  "round_constants =
    [0x0000000000000001, 0x0000000000008082, 0x800000000000808a, 0x8000000080008000,
     0x000000000000808b, 0x0000000080000001, 0x8000000080008081, 0x8000000000008009,
     0x000000000000008a, 0x0000000000000088, 0x0000000080008009, 0x000000008000000a,
     0x000000008000808b, 0x800000000000008b, 0x8000000000008089, 0x8000000000008003,
     0x8000000000008002, 0x8000000000000080, 0x000000000000800a, 0x800000008000000a,
     0x8000000080008081, 0x8000000000008080, 0x0000000080000001, 0x8000000080008008]"

text \<open>Round \<open>round + 0\<close>: the lanes \<open>Axx\<close> give the lanes \<open>Exx\<close>.\<close>

definition keccakf1600_AE :: "u64 \<Rightarrow> u64 list \<Rightarrow> u64 list" where
  "keccakf1600_AE rc s =
     (let
      Aba = s ! 0;
      Abe = s ! 1;
      Abi = s ! 2;
      Abo = s ! 3;
      Abu = s ! 4;
      Aga = s ! 5;
      Age = s ! 6;
      Agi = s ! 7;
      Ago = s ! 8;
      Agu = s ! 9;
      Aka = s ! 10;
      Ake = s ! 11;
      Aki = s ! 12;
      Ako = s ! 13;
      Aku = s ! 14;
      Ama = s ! 15;
      Ame = s ! 16;
      Ami = s ! 17;
      Amo = s ! 18;
      Amu = s ! 19;
      Asa = s ! 20;
      Ase = s ! 21;
      Asi = s ! 22;
      Aso = s ! 23;
      Asu = s ! 24;
      Ba = Aba XOR Aga XOR Aka XOR Ama XOR Asa;
      Be = Abe XOR Age XOR Ake XOR Ame XOR Ase;
      Bi = Abi XOR Agi XOR Aki XOR Ami XOR Asi;
      Bo = Abo XOR Ago XOR Ako XOR Amo XOR Aso;
      Bu = Abu XOR Agu XOR Aku XOR Amu XOR Asu;
      Da = Bu XOR rol64 Be 1;
      De = Ba XOR rol64 Bi 1;
      Di = Be XOR rol64 Bo 1;
      Do = Bi XOR rol64 Bu 1;
      Du = Bo XOR rol64 Ba 1;
      Ba = Aba XOR Da;
      Be = rol64 (Age XOR De) 44;
      Bi = rol64 (Aki XOR Di) 43;
      Bo = rol64 (Amo XOR Do) 21;
      Bu = rol64 (Asu XOR Du) 14;
      Eba = Ba XOR (NOT Be AND Bi) XOR rc;
      Ebe = Be XOR (NOT Bi AND Bo);
      Ebi = Bi XOR (NOT Bo AND Bu);
      Ebo = Bo XOR (NOT Bu AND Ba);
      Ebu = Bu XOR (NOT Ba AND Be);
      Ba = rol64 (Abo XOR Do) 28;
      Be = rol64 (Agu XOR Du) 20;
      Bi = rol64 (Aka XOR Da) 3;
      Bo = rol64 (Ame XOR De) 45;
      Bu = rol64 (Asi XOR Di) 61;
      Ega = Ba XOR (NOT Be AND Bi);
      Ege = Be XOR (NOT Bi AND Bo);
      Egi = Bi XOR (NOT Bo AND Bu);
      Ego = Bo XOR (NOT Bu AND Ba);
      Egu = Bu XOR (NOT Ba AND Be);
      Ba = rol64 (Abe XOR De) 1;
      Be = rol64 (Agi XOR Di) 6;
      Bi = rol64 (Ako XOR Do) 25;
      Bo = rol64 (Amu XOR Du) 8;
      Bu = rol64 (Asa XOR Da) 18;
      Eka = Ba XOR (NOT Be AND Bi);
      Eke = Be XOR (NOT Bi AND Bo);
      Eki = Bi XOR (NOT Bo AND Bu);
      Eko = Bo XOR (NOT Bu AND Ba);
      Eku = Bu XOR (NOT Ba AND Be);
      Ba = rol64 (Abu XOR Du) 27;
      Be = rol64 (Aga XOR Da) 36;
      Bi = rol64 (Ake XOR De) 10;
      Bo = rol64 (Ami XOR Di) 15;
      Bu = rol64 (Aso XOR Do) 56;
      Ema = Ba XOR (NOT Be AND Bi);
      Eme = Be XOR (NOT Bi AND Bo);
      Emi = Bi XOR (NOT Bo AND Bu);
      Emo = Bo XOR (NOT Bu AND Ba);
      Emu = Bu XOR (NOT Ba AND Be);
      Ba = rol64 (Abi XOR Di) 62;
      Be = rol64 (Ago XOR Do) 55;
      Bi = rol64 (Aku XOR Du) 39;
      Bo = rol64 (Ama XOR Da) 41;
      Bu = rol64 (Ase XOR De) 2;
      Esa = Ba XOR (NOT Be AND Bi);
      Ese = Be XOR (NOT Bi AND Bo);
      Esi = Bi XOR (NOT Bo AND Bu);
      Eso = Bo XOR (NOT Bu AND Ba);
      Esu = Bu XOR (NOT Ba AND Be)
      in [Eba, Ebe, Ebi, Ebo, Ebu, Ega, Ege, Egi, Ego, Egu, Eka, Eke, Eki, Eko, Eku, Ema, Eme,
       Emi, Emo, Emu, Esa, Ese, Esi, Eso, Esu])"

text \<open>Round \<open>round + 1\<close>: the lanes \<open>Exx\<close> give the lanes \<open>Axx\<close>.\<close>

definition keccakf1600_EA :: "u64 \<Rightarrow> u64 list \<Rightarrow> u64 list" where
  "keccakf1600_EA rc s =
     (let
      Eba = s ! 0;
      Ebe = s ! 1;
      Ebi = s ! 2;
      Ebo = s ! 3;
      Ebu = s ! 4;
      Ega = s ! 5;
      Ege = s ! 6;
      Egi = s ! 7;
      Ego = s ! 8;
      Egu = s ! 9;
      Eka = s ! 10;
      Eke = s ! 11;
      Eki = s ! 12;
      Eko = s ! 13;
      Eku = s ! 14;
      Ema = s ! 15;
      Eme = s ! 16;
      Emi = s ! 17;
      Emo = s ! 18;
      Emu = s ! 19;
      Esa = s ! 20;
      Ese = s ! 21;
      Esi = s ! 22;
      Eso = s ! 23;
      Esu = s ! 24;
      Ba = Eba XOR Ega XOR Eka XOR Ema XOR Esa;
      Be = Ebe XOR Ege XOR Eke XOR Eme XOR Ese;
      Bi = Ebi XOR Egi XOR Eki XOR Emi XOR Esi;
      Bo = Ebo XOR Ego XOR Eko XOR Emo XOR Eso;
      Bu = Ebu XOR Egu XOR Eku XOR Emu XOR Esu;
      Da = Bu XOR rol64 Be 1;
      De = Ba XOR rol64 Bi 1;
      Di = Be XOR rol64 Bo 1;
      Do = Bi XOR rol64 Bu 1;
      Du = Bo XOR rol64 Ba 1;
      Ba = Eba XOR Da;
      Be = rol64 (Ege XOR De) 44;
      Bi = rol64 (Eki XOR Di) 43;
      Bo = rol64 (Emo XOR Do) 21;
      Bu = rol64 (Esu XOR Du) 14;
      Aba = Ba XOR (NOT Be AND Bi) XOR rc;
      Abe = Be XOR (NOT Bi AND Bo);
      Abi = Bi XOR (NOT Bo AND Bu);
      Abo = Bo XOR (NOT Bu AND Ba);
      Abu = Bu XOR (NOT Ba AND Be);
      Ba = rol64 (Ebo XOR Do) 28;
      Be = rol64 (Egu XOR Du) 20;
      Bi = rol64 (Eka XOR Da) 3;
      Bo = rol64 (Eme XOR De) 45;
      Bu = rol64 (Esi XOR Di) 61;
      Aga = Ba XOR (NOT Be AND Bi);
      Age = Be XOR (NOT Bi AND Bo);
      Agi = Bi XOR (NOT Bo AND Bu);
      Ago = Bo XOR (NOT Bu AND Ba);
      Agu = Bu XOR (NOT Ba AND Be);
      Ba = rol64 (Ebe XOR De) 1;
      Be = rol64 (Egi XOR Di) 6;
      Bi = rol64 (Eko XOR Do) 25;
      Bo = rol64 (Emu XOR Du) 8;
      Bu = rol64 (Esa XOR Da) 18;
      Aka = Ba XOR (NOT Be AND Bi);
      Ake = Be XOR (NOT Bi AND Bo);
      Aki = Bi XOR (NOT Bo AND Bu);
      Ako = Bo XOR (NOT Bu AND Ba);
      Aku = Bu XOR (NOT Ba AND Be);
      Ba = rol64 (Ebu XOR Du) 27;
      Be = rol64 (Ega XOR Da) 36;
      Bi = rol64 (Eke XOR De) 10;
      Bo = rol64 (Emi XOR Di) 15;
      Bu = rol64 (Eso XOR Do) 56;
      Ama = Ba XOR (NOT Be AND Bi);
      Ame = Be XOR (NOT Bi AND Bo);
      Ami = Bi XOR (NOT Bo AND Bu);
      Amo = Bo XOR (NOT Bu AND Ba);
      Amu = Bu XOR (NOT Ba AND Be);
      Ba = rol64 (Ebi XOR Di) 62;
      Be = rol64 (Ego XOR Do) 55;
      Bi = rol64 (Eku XOR Du) 39;
      Bo = rol64 (Ema XOR Da) 41;
      Bu = rol64 (Ese XOR De) 2;
      Asa = Ba XOR (NOT Be AND Bi);
      Ase = Be XOR (NOT Bi AND Bo);
      Asi = Bi XOR (NOT Bo AND Bu);
      Aso = Bo XOR (NOT Bu AND Ba);
      Asu = Bu XOR (NOT Ba AND Be)
      in [Aba, Abe, Abi, Abo, Abu, Aga, Age, Agi, Ago, Agu, Aka, Ake, Aki, Ako, Aku, Ama, Ame,
       Ami, Amo, Amu, Asa, Ase, Asi, Aso, Asu])"

text \<open>The loop \<open>for (round = 0; round < 24; round += 2)\<close>.\<close>

definition ethash_keccakf1600 :: "u64 list \<Rightarrow> u64 list" where
  "ethash_keccakf1600 state =
     fold (\<lambda>round s. keccakf1600_EA (round_constants ! (round + 1))
         (keccakf1600_AE (round_constants ! round) s))
       [0, 2, 4, 6, 8, 10, 12, 14, 16, 18, 20, 22] state"


lemmas keccak_steps = theta_def rho_pi_def chi_def

text \<open>One round of each permutation on 25 named lanes.\<close>

lemma keccakf1600_AE_explicit:
  "keccakf1600_AE (RC ! i) [a0, a1, a2, a3, a4, a5, a6, a7, a8, a9, a10, a11, a12, a13, a14, a15, a16, a17, a18,
    a19, a20, a21, a22, a23, a24] =
   iota i (chi (rho_pi (theta [a0, a1, a2, a3, a4, a5, a6, a7, a8, a9, a10, a11, a12, a13, a14, a15, a16, a17, a18,
    a19, a20, a21, a22, a23, a24])))"
  by (simp add: keccak_steps keccakf1600_AE_def iota_def pi_idx_def rho_def Let_def xor.assoc)

lemma keccakf1600_EA_AE: "keccakf1600_EA = keccakf1600_AE"
  by (intro ext) (simp only: keccakf1600_EA_def keccakf1600_AE_def)

lemma keccakf1600_AE_round:
  "length s = 25 \<Longrightarrow> keccakf1600_AE (RC ! i) s = iota i (chi (rho_pi (theta s)))"
  by (erule list_25_cases) (simp only: keccakf1600_AE_explicit)

lemma round_constants_RC: "round_constants = RC"
  by (simp add: round_constants_def RC_def)

lemma keccakf_two_rounds:
  "keccakf s = fold (\<lambda>r s. iota (r + 1) (chi (rho_pi (theta (iota r (chi (rho_pi (theta s))))))))
     [0, 2, 4, 6, 8, 10, 12, 14, 16, 18, 20, 22] s"
proof -
  have "[0..<24] = [0, 1, 2, 3, 4, 5, 6, 7, 8, 9, 10, 11, 12, 13, 14, 15, 16, 17, 18, 19, 20, 21,
      22, 23]"
    by (simp add: upt_rec)
  then show ?thesis by (simp add: keccakf_def)
qed

lemma ethash_keccakf1600_keccakf: "length s = 25 \<Longrightarrow> ethash_keccakf1600 s = keccakf s"
  unfolding ethash_keccakf1600_def keccakf_two_rounds round_constants_RC keccakf1600_EA_AE
  by (simp add: keccakf1600_AE_round)

section \<open>The word-oriented sponge\<close>

definition load_le :: "bytes \<Rightarrow> u64" where
  "load_le data = le_word (take 8 data)"

text \<open>
  The inner loop over a block: \<open>n\<close> words of the message, starting at state index \<open>i\<close>, each
  xored into the state while \<open>data\<close> advances by a word.
\<close>

fun xor_words :: "nat \<Rightarrow> nat \<Rightarrow> u64 list \<Rightarrow> bytes \<Rightarrow> u64 list \<times> bytes" where
  "xor_words 0 i state data = (state, data)"
| "xor_words (Suc n) i state data =
     xor_words n (Suc i) (state[i := state ! i XOR load_le data]) (drop 8 data)"

text \<open>\<open>while (size >= block_size)\<close>; \<open>size\<close> is the number of unread bytes.\<close>

function absorb_blocks :: "nat \<Rightarrow> u64 list \<Rightarrow> bytes \<Rightarrow> u64 list \<times> bytes" where
  "absorb_blocks block_size state data =
     (if 8 \<le> block_size \<and> block_size \<le> length data then
        let (state, data') = xor_words (block_size div 8) 0 state data
        in absorb_blocks block_size (ethash_keccakf1600 state) (drop block_size data)
      else (state, data))"
  by pat_completeness auto
termination
  by (relation "measure (\<lambda>(b, s, d). length d)") auto

declare absorb_blocks.simps [simp del]

text \<open>
  \<open>keccak(out, bits, data, size)\<close>. After the full blocks, the remaining whole words go in at
  \<open>state_iter\<close>, then the last bytes with the end mark \<open>0x01\<close> as one word, then the frame bit.
\<close>

definition keccak :: "nat \<Rightarrow> bytes \<Rightarrow> u64 list" where
  "keccak bits data =
     (let hash_size = bits div 8;
          block_size = (1600 - bits * 2) div 8;
          (state, rest) = absorb_blocks block_size (replicate 25 0) data;
          state_iter = length rest div 8;
          (state, rest) = xor_words state_iter 0 state rest;
          last_word = le_word (rest @ 0x01 # replicate (7 - length rest) 0);
          state = state[state_iter := state ! state_iter XOR last_word];
          state = state[block_size div 8 - 1 := state ! (block_size div 8 - 1) XOR 0x8000000000000000];
          state = ethash_keccakf1600 state
      in take (hash_size div 8) state)"

definition ethash_keccak256 :: "bytes \<Rightarrow> bytes" where
  "ethash_keccak256 data = bytes_of (keccak 256 data)"

definition ethash_keccak512 :: "bytes \<Rightarrow> bytes" where
  "ethash_keccak512 data = bytes_of (keccak 512 data)"

definition ethash_keccak256_32 :: "bytes \<Rightarrow> bytes" where
  "ethash_keccak256_32 data = bytes_of (keccak 256 (take 32 data))"

definition ethash_keccak512_64 :: "bytes \<Rightarrow> bytes" where
  "ethash_keccak512_64 data = bytes_of (keccak 512 (take 64 data))"

section \<open>The two sponges agree\<close>

lemma length_xor_words [simp]: "length (fst (xor_words n i s d)) = length s"
  by (induction n i s d rule: xor_words.induct) auto

lemma snd_xor_words [simp]: "snd (xor_words n i s d) = drop (8 * n) d"
  by (induction n i s d rule: xor_words.induct) (auto simp: add.commute)

lemma nth_xor_words:
  "i + n \<le> length s \<Longrightarrow> j < length s \<Longrightarrow>
     fst (xor_words n i s d) ! j =
       (if i \<le> j \<and> j < i + n then s ! j XOR load_le (drop (8 * (j - i)) d) else s ! j)"
proof (induction n i s d rule: xor_words.induct)
  case (1 i s d)
  then show ?case by auto
next
  case (2 n i s d)
  show ?case
  proof (cases "j = i")
    case True
    with 2 show ?thesis by simp
  next
    case False
    moreover have "i < j \<Longrightarrow> 8 * (j - Suc i) + 8 = 8 * (j - i)" by simp
    ultimately show ?thesis using 2 by (auto simp: not_less_eq_eq)
  qed
qed

lemma bit_load_le:
  "8 * (Suc j) \<le> length d \<Longrightarrow>
     bit (load_le (drop (8 * j) d)) i \<longleftrightarrow> i < 64 \<and> bit (d ! (8 * j + i div 8)) (i mod 8)"
  by (auto simp: load_le_def bit_le_word min_def)

lemma xorin_words:
  assumes "length a = 200" and "8 * n \<le> length d" and "n \<le> 25"
  shows "words_of (xorin a d (8 * n)) = fst (xor_words n 0 (words_of a) d)"
proof (rule words_of_eqI [where k = 25])
  fix j i :: nat
  assume j: "j < 25" and i: "i < 64"
  then have "8 * j + i div 8 < 200" by auto
  moreover have "8 * j + i div 8 < 8 * n \<longleftrightarrow> j < n" using i by auto
  ultimately show "bit (xorin a d (8 * n) ! (8 * j + i div 8)) (i mod 8) \<longleftrightarrow>
      bit (fst (xor_words n 0 (words_of a) d) ! j) i"
    using assms i j
    by (auto simp: nth_xorin nth_xor_words length_words_of [of _ 25] bit_xor_iff
        bit_nth_words_of [where k = 25] bit_load_le)
qed (use assms in \<open>simp_all add: length_words_of [of _ 25]\<close>)

lemma absorb_blocks_absorb:
  assumes "8 \<le> 8 * r" and "r \<le> 25" and "length a = 200"
  shows "absorb_blocks (8 * r) (words_of a) d =
     (words_of (fst (absorb (8 * r) a d)), snd (absorb (8 * r) a d))"
  using assms(3)
proof (induction "8 * r" a d rule: absorb.induct)
  case (1 a inp)
  show ?case
  proof (cases "8 * r \<le> length inp")
    case True
    have xw: "fst (xor_words r 0 (words_of a) inp) = words_of (xorin a inp (8 * r))"
      using True assms "1.prems" by (simp add: xorin_words)
    have "absorb_blocks (8 * r) (words_of a) inp =
        absorb_blocks (8 * r) (ethash_keccakf1600 (words_of (xorin a inp (8 * r)))) (drop (8 * r) inp)"
      using True assms by (simp add: absorb_blocks.simps [of "8 * r" "words_of a"] split_beta xw)
    also have "\<dots> = absorb_blocks (8 * r) (words_of (keccakP (xorin a inp (8 * r)))) (drop (8 * r) inp)"
      using "1.prems" by (simp add: ethash_keccakf1600_keccakf keccakP_def length_words_of [of _ 25])
    also have "\<dots> = (words_of (fst (absorb (8 * r) (keccakP (xorin a inp (8 * r))) (drop (8 * r) inp))),
        snd (absorb (8 * r) (keccakP (xorin a inp (8 * r))) (drop (8 * r) inp)))"
      by (rule "1.hyps") (use True assms "1.prems" in simp_all)
    finally show ?thesis using True assms by (simp add: absorb_step)
  next
    case False
    then show ?thesis by (simp add: absorb_stop absorb_blocks.simps [of "8 * r" "words_of a"])
  qed
qed

lemma bit_frame_byte: "bit (0x80 :: u8) k \<longleftrightarrow> k = 7"
proof -
  have "(0x80 :: u8) = push_bit 7 1" by simp
  then show ?thesis by (simp only: bit_push_bit_iff) (auto simp: bit_1_iff)
qed

lemma bit_frame_word: "bit (0x8000000000000000 :: u64) k \<longleftrightarrow> k = 63"
proof -
  have "(0x8000000000000000 :: u64) = push_bit 63 1" by simp
  then show ?thesis by (simp only: bit_push_bit_iff) (auto simp: bit_1_iff)
qed

lemma bit_if_0: "bit (if c then x else 0 :: 'a::len word) k \<longleftrightarrow> c \<and> bit x k"
  by simp

text \<open>The padded last block, byte by byte on one side and word by word on the other.\<close>

definition pad_bytes :: "nat \<Rightarrow> bytes \<Rightarrow> bytes \<Rightarrow> bytes" where
  "pad_bytes rate a rest =
     (let a = a[length rest := a ! length rest XOR 0x01];
          a = a[rate - 1 := a ! (rate - 1) XOR 0x80]
      in xorin a rest (length rest))"

definition pad_words :: "nat \<Rightarrow> u64 list \<Rightarrow> bytes \<Rightarrow> u64 list" where
  "pad_words rate state rest =
     (let state_iter = length rest div 8;
          (state, rest) = xor_words state_iter 0 state rest;
          last_word = le_word (rest @ 0x01 # replicate (7 - length rest) 0);
          state = state[state_iter := state ! state_iter XOR last_word]
      in state[rate div 8 - 1 := state ! (rate div 8 - 1) XOR 0x8000000000000000])"

lemma bit_last_word:
  assumes "i < 64" and "length m < 8"
  shows "bit (le_word (m @ 0x01 # replicate (7 - length m) 0) :: u64) i \<longleftrightarrow>
     (i div 8 < length m \<and> bit (m ! (i div 8)) (i mod 8)) \<or> (i div 8 = length m \<and> i mod 8 = 0)"
  using assms by (auto simp: bit_le_word nth_append nth_Cons' bit_1_iff)

lemma bit_pad_bytes:
  assumes "B < length a"
  shows "bit (pad_bytes rate a rest ! B) k \<longleftrightarrow>
     (((bit (a ! B) k \<noteq> (B = length rest \<and> k = 0)) \<noteq> (B = rate - 1 \<and> k = 7))
       \<noteq> (B < length rest \<and> bit (rest ! B) k))"
proof -
  have "pad_bytes rate a rest ! B =
      ((a ! B XOR (if B = length rest then 0x01 else 0)) XOR (if B = rate - 1 then 0x80 else 0))
      XOR (if B < length rest then rest ! B else 0)"
    using assms by (simp add: pad_bytes_def Let_def nth_xorin nth_list_update)
  then show ?thesis
    by (simp only: bit_xor_iff bit_frame_byte bit_if_0 bit_1_iff)
qed

lemma pad_bytes_words:
  assumes "length a = 200" and "length rest < 8 * r" and "r < 25"
  shows "words_of (pad_bytes (8 * r) a rest) = pad_words (8 * r) (words_of a) rest"
proof (rule words_of_eqI [where k = 25])
  fix j i :: nat
  assume j: "j < 25" and i: "i < 64"
  define q m k where "q = length rest div 8" and "m = length rest mod 8" and "k = i div 8"
  have l: "length rest = 8 * q + m" and m: "m < 8" by (simp_all add: q_def m_def)
  have k: "k < 8" and ik: "i = 63 \<longleftrightarrow> k = 7 \<and> i mod 8 = 7"
    using i by (auto simp: k_def, presburger)
  have q: "q < r" using l assms by linarith
  have r1: "8 * r - 1 = 8 * (r - 1) + 7" using q by simp
  have eqs: "8 * j + k = 8 * q + m \<longleftrightarrow> j = q \<and> k = m" "8 * j + k < 8 * q + m \<longleftrightarrow> j < q \<or> j = q \<and> k < m"
    "8 * j + k = 8 * r - 1 \<longleftrightarrow> j = r - 1 \<and> k = 7" "8 * j + k < 200"
    using k m j by (simp_all only: r1 byte_index_eq byte_index_less)
  have m_drop: "length (drop (8 * q) rest) = m" using l by simp
  have byte: "bit (pad_bytes (8 * r) a rest ! (8 * j + k)) (i mod 8) \<longleftrightarrow>
      (((bit (a ! (8 * j + k)) (i mod 8) \<noteq> (j = q \<and> k = m \<and> i mod 8 = 0))
        \<noteq> (j = r - 1 \<and> k = 7 \<and> i mod 8 = 7))
        \<noteq> ((j < q \<or> j = q \<and> k < m) \<and> bit (rest ! (8 * j + k)) (i mod 8)))"
    using assms eqs l by (simp add: bit_pad_bytes)
  have word: "bit (pad_words (8 * r) (words_of a) rest ! j) i \<longleftrightarrow>
      (((bit (a ! (8 * j + k)) (i mod 8) \<noteq> (j = q \<and> k = m \<and> i mod 8 = 0))
        \<noteq> (j = r - 1 \<and> k = 7 \<and> i mod 8 = 7))
        \<noteq> ((j < q \<or> j = q \<and> k < m) \<and> bit (rest ! (8 * j + k)) (i mod 8)))"
  proof -
    have state: "bit (fst (xor_words q 0 (words_of a) rest) ! j) i \<longleftrightarrow>
        (bit (a ! (8 * j + k)) (i mod 8) \<noteq> (j < q \<and> bit (rest ! (8 * j + k)) (i mod 8)))"
      using assms i j q l
      by (simp add: nth_xor_words length_words_of [of _ 25] bit_xor_iff k_def
          bit_nth_words_of [where k = 25] bit_load_le)
    have last: "bit (le_word (drop (8 * q) rest @ 0x01 # replicate (7 - m) 0) :: u64) i \<longleftrightarrow>
        (k < m \<and> bit (rest ! (8 * q + k)) (i mod 8)) \<or> (k = m \<and> i mod 8 = 0)"
      using bit_last_word [OF i, of "drop (8 * q) rest"] m m_drop l by (auto simp: k_def)
    let ?s = "fst (xor_words q 0 (words_of a) rest)"
    let ?w = "le_word (drop (8 * q) rest @ 0x01 # replicate (7 - m) 0) :: u64"
    have "pad_words (8 * r) (words_of a) rest ! j =
        (?s ! j XOR (if j = q then ?w else 0)) XOR (if j = r - 1 then 0x8000000000000000 else 0)"
      using assms j q m_drop
      by (simp add: pad_words_def Let_def split_beta nth_list_update length_words_of [of _ 25]
          q_def [symmetric])
    then show ?thesis
      by (simp only: bit_xor_iff bit_if_0 bit_frame_word state last ik) auto
  qed
  show "bit (pad_bytes (8 * r) a rest ! (8 * j + i div 8)) (i mod 8) \<longleftrightarrow>
      bit (pad_words (8 * r) (words_of a) rest ! j) i"
    using byte word by (simp add: k_def)
qed (use assms in \<open>simp_all add: pad_bytes_def pad_words_def Let_def length_words_of [of _ 25] split_beta\<close>)

lemma hash_pad_bytes:
  "rate < 200 \<Longrightarrow> outlen < rate \<Longrightarrow> hash outlen inp rate 0x01 =
     Some (take outlen (keccakP (case_prod (pad_bytes rate) (absorb rate (replicate 200 0) inp))))"
  by (simp add: hash_def Plen_def pad_bytes_def Let_def split_beta squeeze_short)

lemma keccak_pad_words:
  "keccak bits data =
     (let block_size = (1600 - bits * 2) div 8
      in take (bits div 8 div 8) (ethash_keccakf1600
           (case_prod (pad_words block_size) (absorb_blocks block_size (replicate 25 0) data))))"
  by (simp add: keccak_def pad_words_def Let_def split_beta)

lemma words_of_zeros: "words_of (replicate 200 0) = replicate 25 0"
  by (rule words_of_eqI [where k = 25]) simp_all

lemma keccak_hash:
  assumes r: "0 < r" "r < 25" and out: "n < r"
    and bits: "(1600 - bits * 2) div 8 = 8 * r" "bits div 8 div 8 = n"
  shows "hash (8 * n) data (8 * r) 0x01 = Some (bytes_of (keccak bits data))"
proof -
  obtain a rest where ar: "absorb (8 * r) (replicate 200 0) data = (a, rest)"
    by fastforce
  with r have len: "length a = 200" "length rest < 8 * r"
    using absorb_lengths [OF ar] by auto
  have "absorb_blocks (8 * r) (replicate 25 0) data = (words_of a, rest)"
    using absorb_blocks_absorb [of r "replicate 200 0" data] r ar by (simp add: words_of_zeros)
  then have "keccak bits data = take n (ethash_keccakf1600 (pad_words (8 * r) (words_of a) rest))"
    by (simp add: keccak_pad_words bits)
  also have "\<dots> = take n (keccakf (words_of (pad_bytes (8 * r) a rest)))"
    using len r by (simp add: pad_bytes_words ethash_keccakf1600_keccakf length_words_of [of _ 25]
        pad_bytes_words [symmetric] pad_bytes_def Let_def)
  finally show ?thesis
    using r out ar by (simp add: hash_pad_bytes keccakP_def take_bytes_of)
qed

lemma ethash_keccak_sha3:
  "sha3 256 32 data = Some (ethash_keccak256 data)"
  "sha3 512 64 data = Some (ethash_keccak512 data)"
  using keccak_hash [of 17 4 256 data] keccak_hash [of 9 8 512 data]
  by (simp_all add: sha3_def ethash_keccak256_def ethash_keccak512_def)

end
