(* ===== verification/Ethash.thy ===== *)
theory Ethash
  imports Keccak_Tiny "HOL-Library.Monad_Syntax"
begin

unbundle bit_operations_syntax

text \<open>
  The Ethash algorithm of \<open>src/src/Native/libethhash\<close>: \<open>internal.c\<close>, \<open>internal.h\<close>, \<open>fnv.h\<close> and
  the constants of \<open>ethash.h\<close>. A \<open>node\<close> (a union of 64 bytes, 16 words and 8 double words) is the
  list of its 16 words; \<open>bytes32_of\<close> is its byte view. The functions that the variants of the
  algorithm share (\<open>libetchash\<close>, \<open>libubqhash\<close>, \<open>libethhashb3\<close>) take the digests they call as
  arguments \<open>H512\<close> and \<open>H256\<close>; the functions named as in the source fix them to Keccak.

  A run that C leaves undefined, that aborts or that does not end is a value \<open>Inl fault\<close>;
  \<open>Inr\<close> holds the result of a run that returns. The inner functions return \<open>None\<close> when an array of nodes
  is read outside of its bounds (a \<open>node\<close> itself has a fixed size, so the words of a node need no check);
  the functions that call them turn this into \<open>Inl OutOfBounds\<close>. The \<open>HAVE_SSE2\<close> branches (MSVC only) are not modelled.
\<close>

section \<open>Constants and data\<close>

datatype fault = AssertFail | OutOfBounds | DivByZero | NullDeref | Diverge

type_synonym node = "u32 list"

abbreviation (input) NODE_WORDS :: nat where "NODE_WORDS \<equiv> 16"
abbreviation (input) MIX_WORDS :: nat where "MIX_WORDS \<equiv> 32"
abbreviation (input) MIX_NODES :: u32 where "MIX_NODES \<equiv> 2"
abbreviation (input) ETHASH_EPOCH_LENGTH :: u64 where "ETHASH_EPOCH_LENGTH \<equiv> 30000"
abbreviation (input) ETHASH_DATASET_PARENTS :: nat where "ETHASH_DATASET_PARENTS \<equiv> 256"
abbreviation (input) ETHASH_CACHE_ROUNDS :: nat where "ETHASH_CACHE_ROUNDS \<equiv> 3"
abbreviation (input) ETHASH_ACCESSES :: nat where "ETHASH_ACCESSES \<equiv> 64"

definition FNV_PRIME :: u32 where "FNV_PRIME = 0x01000193"

definition fnv_hash :: "u32 \<Rightarrow> u32 \<Rightarrow> u32" where
  "fnv_hash x y = x * FNV_PRIME XOR y"

record ethash_light =
  cache :: "node list"
  cache_size :: u64
  block_number :: u64

record ethash_return_value =
  result :: bytes
  mix_hash :: bytes
  success :: bool

section \<open>The cache\<close>

text \<open>
  \<open>ethash_compute_cache_nodes\<close>. The first loop chains the digest through the nodes; a round
  visits every node in place. The arithmetic on \<open>i\<close>, \<open>idx\<close> and \<open>num_nodes\<close> is that of
  \<open>uint32_t\<close>. A size of zero gives no room for \<open>nodes[0]\<close>; when \<open>num_nodes\<close> is zero for another size, the
  first loop runs until its counter is zero again and the rounds do nothing. The result is the
  part of the buffer that was written.
\<close>

primrec cache_chain :: "(bytes \<Rightarrow> bytes) \<Rightarrow> nat \<Rightarrow> node \<Rightarrow> node list" where
  "cache_chain H512 0 prev = []"
| "cache_chain H512 (Suc n) prev =
     (let nd = words32_of (H512 (bytes32_of prev)) in nd # cache_chain H512 n nd)"

definition cache_mix_node :: "(bytes \<Rightarrow> bytes) \<Rightarrow> u32 \<Rightarrow> nat \<Rightarrow> node list \<Rightarrow> node list option" where
  "cache_mix_node H512 num_nodes i nodes =
     do {
       node_i \<leftarrow> read_at nodes i;
       let idx = unat (node_i ! 0 mod num_nodes);
       data \<leftarrow> read_at nodes (unat ((num_nodes - 1 + of_nat i) mod num_nodes));
       node_idx \<leftarrow> read_at nodes idx;
       let data = map2 (XOR) data node_idx;
       Some (nodes[i := words32_of (H512 (bytes32_of data))])
     }"

definition cache_round :: "(bytes \<Rightarrow> bytes) \<Rightarrow> u32 \<Rightarrow> node list \<Rightarrow> node list option" where
  "cache_round H512 num_nodes nodes = loop_opt (cache_mix_node H512 num_nodes) [0..<unat num_nodes] nodes"

definition compute_cache_nodes :: "(bytes \<Rightarrow> bytes) \<Rightarrow> u64 \<Rightarrow> bytes \<Rightarrow> fault + node list option" where
  "compute_cache_nodes H512 sz seed =
     (if sz mod 64 \<noteq> 0 then Inr None
      else if sz div 64 = 0 then Inl OutOfBounds
      else
        let num_nodes = (ucast (sz div 64) :: u32);
            written = (if num_nodes = 0 then 2 ^ 32 else unat num_nodes);
            node0 = words32_of (H512 (take 32 seed));
            nodes = node0 # cache_chain H512 (written - 1) node0
        in case loop_opt (\<lambda>j. cache_round H512 num_nodes) [0..<ETHASH_CACHE_ROUNDS] nodes of
             None \<Rightarrow> Inl OutOfBounds
           | Some nodes \<Rightarrow> Inr (Some nodes))"

definition ethash_compute_cache_nodes :: "u64 \<Rightarrow> bytes \<Rightarrow> fault + node list option" where
  "ethash_compute_cache_nodes = compute_cache_nodes SHA3_512"

section \<open>Dataset items\<close>

text \<open>
  \<open>ethash_calculate_dag_item\<close>: the parents are selected by the words of the item being built.
  \<open>dag_item\<close> is the body; the function divides by \<open>num_parent_nodes\<close>.
\<close>

definition num_parent_nodes :: "ethash_light \<Rightarrow> u32" where
  "num_parent_nodes light = ucast (cache_size light div 64)"

definition dag_parent :: "ethash_light \<Rightarrow> u32 \<Rightarrow> nat \<Rightarrow> node \<Rightarrow> node option" where
  "dag_parent light node_index i ret =
     do {
       let parent_index = fnv_hash (node_index XOR of_nat i) (ret ! (i mod NODE_WORDS)) mod num_parent_nodes light;
       parent \<leftarrow> read_at (cache light) (unat parent_index);
       Some (map2 fnv_hash ret parent)
     }"

definition dag_item :: "(bytes \<Rightarrow> bytes) \<Rightarrow> u32 \<Rightarrow> ethash_light \<Rightarrow> node option" where
  "dag_item H512 node_index light =
     do {
       init \<leftarrow> read_at (cache light) (unat (node_index mod num_parent_nodes light));
       let ret = init[0 := init ! 0 XOR node_index];
       let ret = words32_of (H512 (bytes32_of ret));
       ret \<leftarrow> loop_opt (dag_parent light node_index) [0..<ETHASH_DATASET_PARENTS] ret;
       Some (words32_of (H512 (bytes32_of ret)))
     }"

definition ethash_calculate_dag_item :: "u32 \<Rightarrow> ethash_light \<Rightarrow> fault + node" where
  "ethash_calculate_dag_item node_index light =
     (if num_parent_nodes light = 0 then Inl DivByZero
      else case dag_item SHA3_512 node_index light of None \<Rightarrow> Inl OutOfBounds | Some ret \<Rightarrow> Inr ret)"

text \<open>
  \<open>ethash_compute_full_data\<close>. The callback is a parameter: its answer when it is called at node
  \<open>n\<close> (the floating-point percentage it is shown is not modelled). The result is the memory
  written so far and the return value. With a callback the code divides by \<open>max_n / 100\<close>.
\<close>

fun full_data_loop ::
    "(u32 \<Rightarrow> node option) \<Rightarrow> (u32 \<Rightarrow> int) option \<Rightarrow> nat \<Rightarrow> nat list \<Rightarrow> node list \<Rightarrow> fault + node list \<times> bool" where
  "full_data_loop item callback step [] mem = Inr (mem, True)"
| "full_data_loop item callback step (n # ns) mem =
     (if (case callback of None \<Rightarrow> False | Some cb \<Rightarrow> n mod step = 0 \<and> cb (of_nat n) \<noteq> 0)
      then Inr (mem, False)
      else case item (of_nat n) of
             None \<Rightarrow> Inl OutOfBounds
           | Some nd \<Rightarrow> full_data_loop item callback step ns (mem @ [nd]))"

definition compute_full_data ::
    "(bytes \<Rightarrow> bytes) \<Rightarrow> u64 \<Rightarrow> ethash_light \<Rightarrow> (u32 \<Rightarrow> int) option \<Rightarrow> fault + node list \<times> bool" where
  "compute_full_data H512 full_size light callback =
     (if full_size mod 128 \<noteq> 0 \<or> full_size mod 64 \<noteq> 0 then Inr ([], False)
      else
        let max_n = (ucast (full_size div 64) :: u32)
        in if max_n \<noteq> 0 \<and> callback \<noteq> None \<and> max_n div 100 = 0 then Inl DivByZero
           else if max_n \<noteq> 0 \<and> num_parent_nodes light = 0 then Inl DivByZero
           else full_data_loop (\<lambda>n. dag_item H512 n light) callback (unat (max_n div 100)) [0..<unat max_n] [])"

definition ethash_compute_full_data ::
    "u64 \<Rightarrow> ethash_light \<Rightarrow> (u32 \<Rightarrow> int) option \<Rightarrow> fault + node list \<times> bool" where
  "ethash_compute_full_data = compute_full_data SHA3_512"

section \<open>The proof-of-work hash\<close>

text \<open>
  \<open>ethash_hash\<close>. \<open>mix\<close> is the array of \<open>MIX_WORDS\<close> words behind \<open>s_mix[0]\<close>; its nodes are
  consecutive slices. \<open>lookup\<close> is the choice between \<open>full_nodes\<close> and the light cache; it may miss the array.
\<close>

definition mix_node :: "(u32 \<Rightarrow> node option) \<Rightarrow> u32 \<Rightarrow> nat \<Rightarrow> u32 list \<Rightarrow> u32 list option" where
  "mix_node lookup index n mix =
     do {
       dag_node \<leftarrow> lookup (index * MIX_NODES + of_nat n);
       Some (take (NODE_WORDS * n) mix
         @ map2 fnv_hash (take NODE_WORDS (drop (NODE_WORDS * n) mix)) dag_node
         @ drop (NODE_WORDS * n + NODE_WORDS) mix)
     }"

definition mix_access :: "(u32 \<Rightarrow> node option) \<Rightarrow> u32 \<Rightarrow> u32 \<Rightarrow> nat \<Rightarrow> u32 list \<Rightarrow> u32 list option" where
  "mix_access lookup num_full_pages s0 i mix =
     (let index = fnv_hash (s0 XOR of_nat i) (mix ! (i mod MIX_WORDS)) mod num_full_pages
      in loop_opt (mix_node lookup index) [0, 1] mix)"

definition compress_mix :: "u32 list \<Rightarrow> u32 list" where
  "compress_mix mix =
     fold (\<lambda>w mix.
       let reduction = mix ! (w + 0);
           reduction = reduction * FNV_PRIME XOR mix ! (w + 1);
           reduction = reduction * FNV_PRIME XOR mix ! (w + 2);
           reduction = reduction * FNV_PRIME XOR mix ! (w + 3)
       in mix[w div 4 := reduction]) [0, 4, 8, 12, 16, 20, 24, 28] mix"

definition mix_loop :: "(u32 \<Rightarrow> node option) \<Rightarrow> u32 \<Rightarrow> node \<Rightarrow> u32 list option" where
  "mix_loop lookup num_full_pages s =
     (let mix = map (\<lambda>w. s ! (w mod NODE_WORDS)) [0..<MIX_WORDS]
      in loop_opt (mix_access lookup num_full_pages (s ! 0)) [0..<ETHASH_ACCESSES] mix)"

definition hash_body ::
    "(bytes \<Rightarrow> bytes) \<Rightarrow> (bytes \<Rightarrow> bytes) \<Rightarrow> (u32 \<Rightarrow> node option) \<Rightarrow> u64 \<Rightarrow> bytes \<Rightarrow> u64 \<Rightarrow> (bytes \<times> bytes) option" where
  "hash_body H512 H256 lookup full_size header_hash nonce =
     do {
       let s = words32_of (H512 (take 32 header_hash @ le_bytes 8 nonce));
       let num_full_pages = (ucast (full_size div 128) :: u32);
       mix \<leftarrow> mix_loop lookup num_full_pages s;
       let mix_bytes = take 32 (bytes32_of (compress_mix mix));
       Some (mix_bytes, H256 (bytes32_of s @ mix_bytes))
     }"

definition hash_with ::
    "(bytes \<Rightarrow> bytes) \<Rightarrow> (bytes \<Rightarrow> bytes) \<Rightarrow> (bytes \<Rightarrow> bytes) \<Rightarrow> node list option \<Rightarrow> ethash_light option
     \<Rightarrow> u64 \<Rightarrow> bytes \<Rightarrow> u64 \<Rightarrow> fault + ethash_return_value option" where
  "hash_with Hitem H512 H256 full_nodes light full_size header_hash nonce =
     (if full_size mod 32 \<noteq> 0 then Inr None
      else if (ucast (full_size div 128) :: u32) = 0 then Inl DivByZero
      else
        let body = (\<lambda>lookup. case hash_body H512 H256 lookup full_size header_hash nonce of
              None \<Rightarrow> Inl OutOfBounds
            | Some (m, r) \<Rightarrow> Inr (Some \<lparr>result = r, mix_hash = m, success = True\<rparr>))
        in case full_nodes of
             Some nodes \<Rightarrow> body (\<lambda>k. read_at nodes (unat k))
           | None \<Rightarrow>
               (case light of
                  None \<Rightarrow> Inl NullDeref
                | Some l \<Rightarrow> if num_parent_nodes l = 0 then Inl DivByZero
                            else body (\<lambda>k. dag_item Hitem k l)))"

definition ethash_hash ::
    "node list option \<Rightarrow> ethash_light option \<Rightarrow> u64 \<Rightarrow> bytes \<Rightarrow> u64 \<Rightarrow> fault + ethash_return_value option" where
  "ethash_hash = hash_with SHA3_512 SHA3_512 SHA3_256"

section \<open>Quick verification, seeds and difficulty\<close>

definition quick_hash :: "(bytes \<Rightarrow> bytes) \<Rightarrow> (bytes \<Rightarrow> bytes) \<Rightarrow> bytes \<Rightarrow> u64 \<Rightarrow> bytes \<Rightarrow> bytes" where
  "quick_hash H512 H256 header_hash nonce mixh =
     (let buf = H512 (take 32 header_hash @ le_bytes 8 nonce)
      in H256 (buf @ take 32 mixh))"

definition ethash_quick_hash :: "bytes \<Rightarrow> u64 \<Rightarrow> bytes \<Rightarrow> bytes" where
  "ethash_quick_hash = quick_hash SHA3_512 SHA3_256"

text \<open>
  \<open>ethash_get_seedhash\<close>: the counter \<open>i\<close> of the loop is 32 bits wide while \<open>epochs\<close> is 64
  bits wide, so the loop is a partial function.
\<close>

partial_function (option) seedhash_loop :: "u64 \<Rightarrow> u32 \<Rightarrow> bytes \<Rightarrow> bytes option" where
  "seedhash_loop epochs i ret =
     (if ucast i < epochs then seedhash_loop epochs (i + 1) (SHA3_256 ret) else Some ret)"

definition ethash_get_seedhash :: "u64 \<Rightarrow> fault + bytes" where
  "ethash_get_seedhash blocknr =
     (case seedhash_loop (blocknr div ETHASH_EPOCH_LENGTH) 0 (replicate 32 0) of
        None \<Rightarrow> Inl Diverge
      | Some ret \<Rightarrow> Inr ret)"

text \<open>\<open>ethash_check_difficulty\<close>: the loop over the 32 bytes, most significant first.\<close>

fun ethash_check_difficulty :: "bytes \<Rightarrow> bytes \<Rightarrow> bool" where
  "ethash_check_difficulty (h # hs) (b # boundary) =
     (if h = b then ethash_check_difficulty hs boundary else h < b)"
| "ethash_check_difficulty hs boundary = True"

definition ethash_quick_check_difficulty :: "bytes \<Rightarrow> u64 \<Rightarrow> bytes \<Rightarrow> bytes \<Rightarrow> bool" where
  "ethash_quick_check_difficulty header_hash nonce mixh boundary =
     ethash_check_difficulty (ethash_quick_hash header_hash nonce mixh) boundary"

section \<open>Light and full clients\<close>

text \<open>
  \<open>calloc_ok\<close> and \<open>malloc_ok\<close> are the answers of the two allocations. \<open>None\<close> is \<open>NULL\<close>.
\<close>

definition ethash_light_new_internal ::
    "bool \<Rightarrow> bool \<Rightarrow> u64 \<Rightarrow> bytes \<Rightarrow> fault + ethash_light option" where
  "ethash_light_new_internal calloc_ok malloc_ok sz seed =
     (if \<not> calloc_ok then Inr None
      else if \<not> malloc_ok then Inr None
      else case ethash_compute_cache_nodes sz seed of
             Inl e \<Rightarrow> Inl e
           | Inr None \<Rightarrow> Inr None
           | Inr (Some nodes) \<Rightarrow> Inr (Some \<lparr>cache = nodes, cache_size = sz, block_number = 0\<rparr>))"

text \<open>
  The compute functions report a refused \<open>full_size\<close> by \<open>success = false\<close>; the other fields
  are then not written.
\<close>

definition compute_result :: "fault + ethash_return_value option \<Rightarrow> fault + ethash_return_value" where
  "compute_result r =
     (case r of
        Inl e \<Rightarrow> Inl e
      | Inr None \<Rightarrow> Inr \<lparr>result = [], mix_hash = [], success = False\<rparr>
      | Inr (Some ret) \<Rightarrow> Inr ret)"

definition ethash_light_compute_internal ::
    "ethash_light \<Rightarrow> u64 \<Rightarrow> bytes \<Rightarrow> u64 \<Rightarrow> fault + ethash_return_value" where
  "ethash_light_compute_internal light full_size header_hash nonce =
     compute_result (ethash_hash None (Some light) full_size header_hash nonce)"

record ethash_full =
  file_size :: u64
  data :: "node list"

definition ethash_full_compute ::
    "ethash_full \<Rightarrow> bytes \<Rightarrow> u64 \<Rightarrow> fault + ethash_return_value" where
  "ethash_full_compute full header_hash nonce =
     compute_result (ethash_hash (Some (data full)) None (file_size full) header_hash nonce)"

lemma compute_result_success: "compute_result x = Inr r \<Longrightarrow> success r \<Longrightarrow> x = Inr (Some r)"
  by (auto simp: compute_result_def split: sum.splits option.splits)

section \<open>Well-formed light clients\<close>

definition wf_nodes :: "nat \<Rightarrow> node list \<Rightarrow> bool" where
  "wf_nodes n nodes \<longleftrightarrow> length nodes = n \<and> list_all (\<lambda>nd. length nd = NODE_WORDS) nodes"

definition wf_light :: "ethash_light \<Rightarrow> bool" where
  "wf_light light \<longleftrightarrow>
     num_parent_nodes light \<noteq> 0 \<and> wf_nodes (unat (num_parent_nodes light)) (cache light)"

lemma wf_nodes_nth: "wf_nodes n nodes \<Longrightarrow> i < n \<Longrightarrow> length (nodes ! i) = 16"
  by (auto simp: wf_nodes_def list_all_length)

lemma wf_nodes_update: "wf_nodes n nodes \<Longrightarrow> length nd = 16 \<Longrightarrow> wf_nodes n (nodes[i := nd])"
  by (auto simp: wf_nodes_def list_all_iff dest!: subsetD [OF set_update_subset_insert])

lemma compute_cache_nodes_refuses:
  "sz mod 64 \<noteq> 0 \<Longrightarrow> compute_cache_nodes H512 sz seed = Inr None"
  "compute_cache_nodes H512 0 seed = Inl OutOfBounds"
  by (simp_all add: compute_cache_nodes_def)

section \<open>The cache as a recursive function\<close>

text \<open>
  Strict memory-hard hashing: the value of node \<open>i\<close> of \<open>N\<close> after \<open>j\<close> rounds. A round hashes the node
  before it, cyclically, XORed with the node that its old value selects; of those, the ones below
  \<open>i\<close> have already been replaced.
\<close>

function seq_memo :: "(bytes \<Rightarrow> bytes) \<Rightarrow> nat \<Rightarrow> bytes \<Rightarrow> nat \<Rightarrow> nat \<Rightarrow> node" where
  "seq_memo H N seed 0 0 = words32_of (H (take 32 seed))"
| "seq_memo H N seed 0 (Suc i) = words32_of (H (bytes32_of (seq_memo H N seed 0 i)))"
| "seq_memo H N seed (Suc j) i =
     (let prev = (if i = 0 then seq_memo H N seed j (N - 1) else seq_memo H N seed (Suc j) (i - 1));
          idx = unat (seq_memo H N seed j i ! 0) mod N;
          other = (if idx < i then seq_memo H N seed (Suc j) idx else seq_memo H N seed j idx)
      in words32_of (H (bytes32_of (map2 (XOR) prev other))))"
  by pat_completeness auto
termination
  by (relation "measures [\<lambda>(H, N, seed, j, i). j, \<lambda>(H, N, seed, j, i). i]") auto

declare seq_memo.simps(3) [simp del]

lemma cache_chain_seq: "cache_chain H k (seq_memo H N seed 0 i) = map (seq_memo H N seed 0) [Suc i..<Suc i + k]"
proof (induction k arbitrary: i)
  case (Suc k)
  then show ?case using Suc.IH [of "Suc i"] by (simp add: upt_conv_Cons del: upt_Suc)
qed simp

lemma prev_index:
  fixes n :: u32
  assumes "i < unat n" and "unat n \<le> 2 ^ 31"
  shows "unat ((n - 1 + of_nat i) mod n) = (if i = 0 then unat n - 1 else i - 1)"
proof -
  have "n \<noteq> 0" using assms(1) by auto
  then have "n - 1 + of_nat i = of_nat (unat n - 1 + i)" by (simp add: of_nat_diff unat_gt_0 Suc_leI)
  moreover have "unat (of_nat (unat n - 1 + i) :: u32) = unat n - 1 + i" using assms by (intro unat_of_nat_small) simp
  ultimately have "unat ((n - 1 + of_nat i) mod n) = (unat n - 1 + i) mod unat n" by (simp add: unat_mod)
  also have "\<dots> = (if i = 0 then unat n - 1 else i - 1)"
  proof (cases "i = 0")
    case False
    then have "unat n - 1 + i = i - 1 + unat n" using assms(1) by simp
    then have "(unat n - 1 + i) mod unat n = (i - 1) mod unat n" by (simp only: mod_add_self2)
    then show ?thesis using False assms(1) by simp
  qed (use assms(1) in simp)
  finally show ?thesis .
qed

text \<open>The array in the middle of a round.\<close>

definition seq_row :: "(bytes \<Rightarrow> bytes) \<Rightarrow> nat \<Rightarrow> bytes \<Rightarrow> nat \<Rightarrow> nat \<Rightarrow> node list" where
  "seq_row H N seed j i = map (seq_memo H N seed (Suc j)) [0..<i] @ map (seq_memo H N seed j) [i..<N]"

lemma nth_seq_row:
  "i \<le> N \<Longrightarrow> k < N \<Longrightarrow> seq_row H N seed j i ! k = (if k < i then seq_memo H N seed (Suc j) k else seq_memo H N seed j k)"
  by (simp add: seq_row_def nth_append)

lemma length_seq_row [simp]: "i \<le> N \<Longrightarrow> length (seq_row H N seed j i) = N"
  by (simp add: seq_row_def)

lemma seq_row_step:
  assumes "i < N"
  shows "(seq_row H N seed j i)[i := seq_memo H N seed (Suc j) i] = seq_row H N seed j (Suc i)"
  using assms by (simp add: seq_row_def upt_conv_Cons [of i N] list_update_append)

lemma cache_mix_node_seq:
  assumes "N = unat n" and "N \<le> 2 ^ 31" and "i < N"
  shows "cache_mix_node H n i (seq_row H N seed j i) = Some (seq_row H N seed j (Suc i))"
proof -
  let ?row = "seq_row H N seed j i" and ?idx = "unat (seq_memo H N seed j i ! 0) mod N"
  let ?p = "if i = 0 then N - 1 else i - 1"
  have idx: "?idx < N" and p: "?p < N" using assms(3) by auto
  have "unat ((n - 1 + of_nat i) mod n) = ?p" using prev_index [of i n] assms by simp
  moreover have "?row ! i = seq_memo H N seed j i" using assms(3) by (simp add: nth_seq_row)
  moreover have "?row ! ?idx = (if ?idx < i then seq_memo H N seed (Suc j) ?idx else seq_memo H N seed j ?idx)"
    using assms(3) idx by (simp only: nth_seq_row less_imp_le)
  moreover have "?row ! ?p = (if i = 0 then seq_memo H N seed j (N - 1) else seq_memo H N seed (Suc j) (i - 1))"
    using assms(3) p by (auto simp: nth_seq_row)
  ultimately have "cache_mix_node H n i ?row = Some (?row[i := seq_memo H N seed (Suc j) i])"
    using assms(1,3) idx p by (simp add: cache_mix_node_def unat_mod seq_memo.simps(3) Let_def)
  then show ?thesis using seq_row_step [OF assms(3)] by simp
qed

lemma cache_round_seq:
  assumes "N = unat n" and "N \<le> 2 ^ 31"
  shows "cache_round H n (map (seq_memo H N seed j) [0..<N]) = Some (map (seq_memo H N seed (Suc j)) [0..<N])"
proof -
  have "\<exists>s'. loop_opt (cache_mix_node H n) (map (\<lambda>i. i) [0..<N]) (seq_row H N seed j 0) = Some s' \<and> s' = seq_row H N seed j N"
    by (rule loop_opt_invariant) (use cache_mix_node_seq [OF assms] in auto)
  then show ?thesis using assms(1) by (simp add: cache_round_def seq_row_def)
qed

lemma compute_cache_nodes_seq:
  assumes "sz mod 64 = 0" and "0 < sz" and "unat sz \<le> 2 ^ 37"
  shows "compute_cache_nodes H sz seed = Inr (Some (map (seq_memo H (unat sz div 64) seed 3) [0..<unat sz div 64]))"
proof -
  let ?N = "unat sz div 64" and ?n = "ucast (sz div 64) :: u32"
  have N: "?N \<le> 2 ^ 31" using assms(3) by simp
  then have n: "?N = unat ?n" by (simp add: unat_ucast_small unat_div)
  have "unat sz mod 64 = 0" using assms(1) by (simp add: word_unat_eq_iff unat_mod)
  then have pos: "0 < ?N" using assms(2) by (auto simp: word_less_nat_alt)
  then have nz: "?n \<noteq> 0" "sz div 64 \<noteq> 0" using n by (auto simp: word_unat_eq_iff unat_div)
  have "words32_of (H (take 32 seed)) # cache_chain H (?N - 1) (words32_of (H (take 32 seed))) =
      map (seq_memo H ?N seed 0) [0..<?N]"
    using cache_chain_seq [of H "?N - 1" ?N seed 0] pos by (simp add: upt_conv_Cons)
  moreover have "[0..<3] = [0, 1, 2 :: nat]" by (simp add: upt_rec)
  ultimately show ?thesis
    using nz assms(1) cache_round_seq [OF n N]
    by (simp add: compute_cache_nodes_def Let_def n [symmetric] numeral_3_eq_3)
qed

section \<open>The value of a dataset item\<close>

text \<open>The item when no read misses the cache.\<close>

definition dag_step_value :: "ethash_light \<Rightarrow> u32 \<Rightarrow> nat \<Rightarrow> node \<Rightarrow> node" where
  "dag_step_value light k i ret =
     map2 fnv_hash ret (cache light ! unat (fnv_hash (k XOR of_nat i) (ret ! (i mod 16)) mod num_parent_nodes light))"

definition dag_value :: "(bytes \<Rightarrow> bytes) \<Rightarrow> u32 \<Rightarrow> ethash_light \<Rightarrow> node" where
  "dag_value H k light =
     (let init = cache light ! unat (k mod num_parent_nodes light)
      in words32_of (H (bytes32_of (fold (dag_step_value light k) [0..<256]
           (words32_of (H (bytes32_of (init[0 := init ! 0 XOR k]))))))))"

lemma dag_item_value: "dag_item H k light = Some x \<Longrightarrow> x = dag_value H k light"
proof -
  assume "dag_item H k light = Some x"
  then obtain r where r: "loop_opt (dag_parent light k) [0..<256]
        (words32_of (H (bytes32_of ((cache light ! unat (k mod num_parent_nodes light))
          [0 := cache light ! unat (k mod num_parent_nodes light) ! 0 XOR k])))) = Some r"
      "x = words32_of (H (bytes32_of r))"
    by (auto simp: dag_item_def bind_eq_Some_conv read_at_Some Let_def)
  from loop_opt_fold [OF r(1), of "dag_step_value light k"] show ?thesis
    using r(2) by (auto simp: dag_value_def Let_def dag_parent_def dag_step_value_def bind_eq_Some_conv read_at_Some)
qed

lemma dag_item_wf:
  assumes "wf_light light"
  shows "dag_item H k light = Some (dag_value H k light)"
proof -
  have n: "num_parent_nodes light \<noteq> 0" "length (cache light) = unat (num_parent_nodes light)"
    using assms by (simp_all add: wf_light_def wf_nodes_def)
  then have in_cache: "unat (x mod num_parent_nodes light) < length (cache light)" for x by (simp add: unat_mod_less)
  have "\<exists>s'. loop_opt (dag_parent light k) [0..<256] s = Some s' \<and> True" for s
    by (rule loop_opt_ex) (simp_all add: dag_parent_def in_cache Let_def)
  then have "\<exists>x. dag_item H k light = Some x" by (auto simp: dag_item_def in_cache Let_def bind_eq_Some_conv)
  then show ?thesis using dag_item_value by blast
qed

section \<open>The contract of the digests\<close>

text \<open>
  What the algorithm relies on of the digests it calls: their output lengths. The lemmas are
  proved once for any pair of digests and interpreted for each variant.
\<close>

locale digest_pair =
  fixes H512 H256 :: "bytes \<Rightarrow> bytes"
  assumes length_H512 [simp]: "length (H512 m) = 64"
    and length_H256 [simp]: "length (H256 m) = 32"
begin

lemma length_digest_node [simp]: "length (words32_of (H512 m)) = 16"
  by (rule length_words32_of) simp

lemma digest_node_bytes: "bytes32_of (words32_of (H512 m)) = H512 m"
  by (rule bytes32_of_words32_of [where k = 16]) simp

lemma wf_cache_chain: "length prev = 16 \<Longrightarrow> wf_nodes n (cache_chain H512 n prev)"
proof (induction n arbitrary: prev)
  case 0
  then show ?case by (simp add: wf_nodes_def)
next
  case (Suc n)
  then show ?case by (auto simp: wf_nodes_def Let_def)
qed

lemma wf_cache_mix_node:
  assumes "wf_nodes (unat n) nodes" and "i < unat n"
  shows "\<exists>nodes'. cache_mix_node H512 n i nodes = Some nodes' \<and> wf_nodes (unat n) nodes'"
proof -
  have "unat (x mod n) < length nodes" for x using assms by (auto simp: wf_nodes_def intro!: unat_mod_less)
  moreover have "i < length nodes" using assms by (simp add: wf_nodes_def)
  ultimately show ?thesis using assms by (simp add: cache_mix_node_def Let_def wf_nodes_update)
qed

lemma wf_cache_round:
  assumes "wf_nodes (unat n) nodes"
  shows "\<exists>nodes'. cache_round H512 n nodes = Some nodes' \<and> wf_nodes (unat n) nodes'"
  unfolding cache_round_def by (rule loop_opt_ex) (simp_all add: assms wf_cache_mix_node)

lemma wf_compute_cache_nodes:
  assumes "sz mod 64 = 0" and "(ucast (sz div 64) :: u32) \<noteq> 0"
  shows "\<exists>nodes. compute_cache_nodes H512 sz seed = Inr (Some nodes) \<and>
    wf_nodes (unat (ucast (sz div 64) :: u32)) nodes"
proof -
  let ?n = "ucast (sz div 64) :: u32" and ?nd = "words32_of (H512 (take 32 seed))"
  have "wf_nodes (unat ?n) (?nd # cache_chain H512 (unat ?n - 1) ?nd)"
    using wf_cache_chain [of ?nd "unat ?n - 1"] assms(2) by (auto simp: wf_nodes_def unat_gt_0)
  then have "\<exists>nodes. loop_opt (\<lambda>j. cache_round H512 ?n) [0..<3] (?nd # cache_chain H512 (unat ?n - 1) ?nd) = Some nodes \<and>
      wf_nodes (unat ?n) nodes"
    by (rule loop_opt_ex) (rule wf_cache_round)
  then obtain nodes where "loop_opt (\<lambda>j. cache_round H512 ?n) [0..<3] (?nd # cache_chain H512 (unat ?n - 1) ?nd) = Some nodes"
      "wf_nodes (unat ?n) nodes" by blast
  moreover have "sz div 64 \<noteq> 0" using assms(2) by auto
  ultimately show ?thesis using assms by (simp add: compute_cache_nodes_def Let_def)
qed

lemma length_dag_value [simp]: "length (dag_value H512 k light) = 16"
  by (simp add: dag_value_def Let_def)

text \<open>The final hash is the quick hash of the mix it returns.\<close>

lemma quick_hash_hash_with:
  assumes "hash_with Hitem H512 H256 full_nodes light full_size header nonce = Inr (Some ret)"
  shows "quick_hash H512 H256 header nonce (mix_hash ret) = result ret"
  using assms
  by (auto simp: hash_with_def hash_body_def quick_hash_def Let_def digest_node_bytes bind_eq_Some_conv
      split: if_splits option.splits)

end

interpretation keccak_pair: digest_pair SHA3_512 SHA3_256
  by unfold_locales simp_all

section \<open>Light and full evaluation agree\<close>

lemma page_index:
  assumes "n < (2 :: nat)" and "P \<noteq> 0" and "2 * unat (P :: u32) \<le> 2 ^ 32"
  shows "unat (x mod P * 2 + of_nat n) < 2 * unat P"
proof -
  have "unat (x mod P) < unat P" using assms(2) by (rule unat_mod_less)
  with assms have lt: "2 * unat (x mod P) + n < 2 * unat P" by linarith
  then have "unat (of_nat (2 * unat (x mod P) + n) :: u32) = 2 * unat (x mod P) + n"
    using assms(3) by (intro unat_of_nat_small) simp
  with lt show ?thesis by (simp add: mult.commute)
qed

lemma mix_access_cong:
  assumes "\<And>k. unat k < 2 * unat P \<Longrightarrow> f k = g k" and "P \<noteq> 0" and "2 * unat P \<le> 2 ^ 32"
  shows "mix_access f P s0 i mix = mix_access g P s0 i mix"
proof -
  have page: "f (x mod P * 2 + of_nat n) = g (x mod P * 2 + of_nat n)" if "n < 2" for n x
    by (rule assms(1), rule page_index) (use that assms in simp_all)
  have "mix_node f (x mod P) n mix = mix_node g (x mod P) n mix" if "n \<in> set [0, 1]" for n x mix
  proof -
    from that have "n < 2" by auto
    then show ?thesis by (simp only: mix_node_def page)
  qed
  then show ?thesis unfolding mix_access_def Let_def by (intro loop_opt_cong)
qed

lemma hash_body_cong:
  assumes "\<And>k. unat k < 2 * unat (ucast (full_size div 128) :: u32) \<Longrightarrow> f k = g k"
    and "(ucast (full_size div 128) :: u32) \<noteq> 0"
    and "2 * unat (ucast (full_size div 128) :: u32) \<le> 2 ^ 32"
  shows "hash_body H512 H256 f full_size h n = hash_body H512 H256 g full_size h n"
proof -
  have "mix_access f (ucast (full_size div 128)) s0 = mix_access g (ucast (full_size div 128)) s0"
    for s0 by (intro ext mix_access_cong assms)
  then have "mix_loop f (ucast (full_size div 128)) = mix_loop g (ucast (full_size div 128))"
    by (intro ext) (simp only: mix_loop_def)
  then show ?thesis by (simp only: hash_body_def Let_def)
qed

lemma full_data_loop_prefix:
  assumes "full_data_loop item callback step ns mem = Inr (mem', ok)"
    and "\<And>n nd. item n = Some nd \<Longrightarrow> nd = v n"
  shows "\<exists>k \<le> length ns. mem' = mem @ map (\<lambda>n. v (of_nat n)) (take k ns) \<and> (ok \<longleftrightarrow> k = length ns)"
  using assms
proof (induction item callback step ns mem rule: full_data_loop.induct)
  case (2 item callback step n ns mem)
  show ?case
  proof (cases "case callback of None \<Rightarrow> False | Some cb \<Rightarrow> n mod step = 0 \<and> cb (of_nat n) \<noteq> 0")
    case True
    with "2.prems" show ?thesis by (intro exI [of _ 0]) simp
  next
    case False
    then obtain nd where nd: "item (of_nat n) = Some nd" "full_data_loop item callback step ns (mem @ [nd]) = Inr (mem', ok)"
      using "2.prems"(1) by (auto split: option.splits)
    from "2.IH" [OF False nd "2.prems"(2)] obtain k where "k \<le> length ns" "ok \<longleftrightarrow> k = length ns"
        "mem' = (mem @ [nd]) @ map (\<lambda>n. v (of_nat n)) (take k ns)" by blast
    moreover have "nd = v (of_nat n)" using "2.prems"(2) [OF nd(1)] .
    ultimately show ?thesis by (intro exI [of _ "Suc k"]) simp
  qed
qed simp

lemma full_data_loop_all:
  assumes "callback = None \<or> (\<exists>cb. callback = Some cb \<and> (\<forall>n. cb n = 0))" and "\<And>n. item n = Some (v n)"
  shows "full_data_loop item callback step ns mem = Inr (mem @ map (\<lambda>n. v (of_nat n)) ns, True)"
  using assms by (induction item callback step ns mem rule: full_data_loop.induct) auto

definition dag_nodes :: "(bytes \<Rightarrow> bytes) \<Rightarrow> u64 \<Rightarrow> ethash_light \<Rightarrow> node list" where
  "dag_nodes H512 full_size light =
     map (\<lambda>n. dag_value H512 (of_nat n) light) [0..<unat (full_size div 64)]"

lemma compute_full_data_prefix:
  assumes "compute_full_data H512 full_size light callback = Inr (nodes, ok)" and "full_size mod 128 = 0"
    and "unat (full_size div 64) < 2 ^ 32"
  shows "\<exists>k \<le> unat (full_size div 64). nodes = take k (dag_nodes H512 full_size light) \<and>
    (ok \<longleftrightarrow> k = unat (full_size div 64))"
proof -
  have "unat full_size mod 128 = 0" using assms(2) by (simp add: word_unat_eq_iff unat_mod)
  then have "full_size mod 64 = 0"
    using mod_mod_cancel [of 64 128 "unat full_size"] by (simp add: word_unat_eq_iff unat_mod)
  moreover have "unat (ucast (full_size div 64) :: u32) = unat (full_size div 64)"
    using assms(3) by (simp add: unat_ucast_small)
  ultimately obtain step where
      "full_data_loop (\<lambda>n. dag_item H512 n light) callback step [0..<unat (full_size div 64)] [] = Inr (nodes, ok)"
    using assms(1,2) by (auto simp: compute_full_data_def Let_def split: if_splits)
  from full_data_loop_prefix [OF this dag_item_value] show ?thesis
    by (auto simp: dag_nodes_def take_map)
qed

lemma compute_full_data_nodes:
  assumes "compute_full_data H512 full_size light callback = Inr (nodes, True)"
    and "unat (full_size div 64) < 2 ^ 32"
  shows "full_size mod 128 = 0" and "nodes = dag_nodes H512 full_size light"
proof -
  show size: "full_size mod 128 = 0" using assms(1) by (auto simp: compute_full_data_def split: if_splits)
  show "nodes = dag_nodes H512 full_size light"
    using compute_full_data_prefix [OF assms(1) size assms(2)] by (auto simp: dag_nodes_def)
qed

lemma light_full_agree:
  assumes size: "unat (full_size div 64) < 2 ^ 32" and light: "wf_light light"
  shows "hash_with Hitem H512 H256 (Some (dag_nodes Hitem full_size light)) None full_size h n =
    hash_with Hitem H512 H256 None (Some light) full_size h n"
proof (cases "(ucast (full_size div 128) :: u32) = 0")
  case True
  then show ?thesis by (simp add: hash_with_def)
next
  case False
  let ?N = "unat full_size" and ?P = "ucast (full_size div 128) :: u32"
  let ?nodes = "dag_nodes Hitem full_size light"
  have "unat ?P = ?N div 128"
    using size by (simp add: unat_ucast_small unat_div)
  then have dbl: "2 * unat ?P \<le> ?N div 64" by simp
  have "hash_body H512 H256 (\<lambda>k. read_at ?nodes (unat k)) full_size h n =
      hash_body H512 H256 (\<lambda>k. dag_item Hitem k light) full_size h n"
  proof (rule hash_body_cong [OF _ False])
    show "2 * unat ?P \<le> 2 ^ 32" using dbl size by (simp add: unat_div)
    show "read_at ?nodes (unat k) = dag_item Hitem k light" if "unat k < 2 * unat ?P" for k
      using that dbl by (simp add: dag_nodes_def unat_div dag_item_wf [OF light] read_at_def)
  qed
  with light show ?thesis by (simp add: hash_with_def wf_light_def)
qed

section \<open>Difficulty\<close>

lemma be_nat_less: "be_nat bs < 256 ^ length bs"
proof (induction bs)
  case Nil
  then show ?case by simp
next
  case (Cons b bs)
  then have "be_nat (b # bs) < (unat b + 1) * 256 ^ length bs" by simp
  also have "\<dots> \<le> 256 * 256 ^ length bs"
    by (rule mult_le_mono1) (use unat_u8_less [of b] in simp)
  finally show ?case by simp
qed

lemma check_difficulty_be_nat:
  "length hs = length bs \<Longrightarrow> ethash_check_difficulty hs bs \<longleftrightarrow> be_nat hs \<le> be_nat bs"
proof (induction hs bs rule: ethash_check_difficulty.induct)
  case (1 h hs b bs)
  then have len: "length hs = length bs" by simp
  consider "h = b" | "h < b" | "b < h" by fastforce
  then show ?case
  proof cases
    case 1
    with "1.IH" len show ?thesis by simp
  next
    case 2
    then have "(unat h + 1) * 256 ^ length bs \<le> unat b * 256 ^ length bs"
      by (intro mult_right_mono) (auto simp: word_less_nat_alt)
    with 2 len be_nat_less [of hs] show ?thesis by auto
  next
    case 3
    then have "(unat b + 1) * 256 ^ length bs \<le> unat h * 256 ^ length bs"
      by (intro mult_right_mono) (auto simp: word_less_nat_alt)
    with 3 len be_nat_less [of bs] show ?thesis by auto
  qed
qed auto

section \<open>Seeds\<close>

lemma seedhash_loop_counts:
  assumes "unat epochs < 2 ^ 32" and "unat i \<le> unat epochs"
  shows "seedhash_loop epochs i ret = Some ((SHA3_256 ^^ (unat epochs - unat i)) ret)"
  using assms
proof (induction "unat epochs - unat i" arbitrary: i ret)
  case 0
  then have "\<not> ucast i < epochs" by (simp add: word_less_nat_alt unat_ucast_small)
  with 0 show ?case by (simp add: seedhash_loop.simps)
next
  case (Suc k)
  then have lt: "unat i < unat epochs" by simp
  then have less: "ucast i < epochs" by (simp add: word_less_nat_alt)
  have i1: "unat (i + 1) = unat i + 1"
    using lt Suc.prems(1) by (simp add: unat_word_ariths)
  have left: "unat epochs - unat i = Suc (unat epochs - unat (i + 1))" using lt i1 by simp
  have "seedhash_loop epochs i ret = seedhash_loop epochs (i + 1) (SHA3_256 ret)"
    using less by (simp add: seedhash_loop.simps)
  also have "\<dots> = Some ((SHA3_256 ^^ (unat epochs - unat (i + 1))) (SHA3_256 ret))"
    by (rule Suc.hyps(1)) (use Suc lt i1 in simp_all)
  also have "\<dots> = Some ((SHA3_256 ^^ (unat epochs - unat i)) ret)"
    unfolding left by (simp only: funpow_Suc_right comp_def)
  finally show ?case .
qed

lemma seedhash_loop_diverges:
  assumes "2 ^ 32 \<le> unat epochs"
  shows "seedhash_loop epochs i ret = None"
proof -
  have "unat epochs < 2 ^ 32" if "seedhash_loop epochs i ret = Some r" for r
  proof (rule seedhash_loop.raw_induct [where P = "\<lambda>e i ret r. unat e < 2 ^ 32", OF _ that])
    fix loop :: "u64 \<Rightarrow> u32 \<Rightarrow> bytes \<Rightarrow> bytes option" and e i ret r
    assume IH: "\<And>e i ret r. loop e i ret = Some r \<Longrightarrow> unat e < 2 ^ 32"
      and step: "(if ucast i < e then loop e (i + 1) (SHA3_256 ret) else Some ret) = Some r"
    show "unat e < 2 ^ 32"
    proof (cases "ucast i < e")
      case True
      with step have "loop e (i + 1) (SHA3_256 ret) = Some r" by simp
      then show ?thesis by (rule IH)
    next
      case False
      then have "unat e \<le> unat i" by (simp add: word_less_nat_alt)
      also have "unat i < 2 ^ 32" using unat_less [of i] by simp
      finally show ?thesis .
    qed
  qed
  with assms show ?thesis by fastforce
qed

end
