(* ===== verification/Ethash_Client.thy ===== *)
theory Ethash_Client
  imports Ethash Data_Sizes
begin

unbundle bit_operations_syntax

text \<open>
  The light client as the pool uses it (\<open>src/src/Native/libethhash/internal.c\<close>): the size tables,
  the construction of a client for a block number, and the computation of a proof of work. The
  last section shows that for every block number the tables cover, nothing in this chain of calls
  can fail once memory was allocated.
\<close>

section \<open>Operations\<close>

definition ethash_get_datasize :: "u64 \<Rightarrow> fault + u64" where
  "ethash_get_datasize blocknr =
     (if blocknr div ETHASH_EPOCH_LENGTH < 2048
      then Inr (of_nat (dag_sizes ! unat (blocknr div ETHASH_EPOCH_LENGTH))) else Inl AssertFail)"

definition ethash_get_cachesize :: "u64 \<Rightarrow> fault + u64" where
  "ethash_get_cachesize blocknr =
     (if blocknr div ETHASH_EPOCH_LENGTH < 2048
      then Inr (of_nat (cache_sizes ! unat (blocknr div ETHASH_EPOCH_LENGTH))) else Inl AssertFail)"

text \<open>
  \<open>ethash_light_new\<close> stores the block number in the object it got without testing for \<open>NULL\<close>.
\<close>

definition ethash_light_new :: "bool \<Rightarrow> bool \<Rightarrow> u64 \<Rightarrow> fault + ethash_light" where
  "ethash_light_new calloc_ok malloc_ok blocknr =
     (case ethash_get_seedhash blocknr of
        Inl e \<Rightarrow> Inl e
      | Inr seedhash \<Rightarrow>
          (case ethash_get_cachesize blocknr of
             Inl e \<Rightarrow> Inl e
           | Inr sz \<Rightarrow>
               (case ethash_light_new_internal calloc_ok malloc_ok sz seedhash of
                  Inl e \<Rightarrow> Inl e
                | Inr None \<Rightarrow> Inl NullDeref
                | Inr (Some ret) \<Rightarrow> Inr (ret\<lparr>block_number := blocknr\<rparr>))))"

definition ethash_light_compute :: "ethash_light \<Rightarrow> bytes \<Rightarrow> u64 \<Rightarrow> fault + ethash_return_value" where
  "ethash_light_compute light header_hash nonce =
     (case ethash_get_datasize (block_number light) of
        Inl e \<Rightarrow> Inl e
      | Inr full_size \<Rightarrow> ethash_light_compute_internal light full_size header_hash nonce)"

section \<open>The tables give usable sizes\<close>

lemma epoch_less:
  "unat b < 2048 * 30000 \<Longrightarrow> b div 30000 < (2048 :: u64) \<and> unat (b div 30000) < 2048"
  by (auto simp: word_less_nat_alt unat_div less_mult_imp_div_less)

lemma word_size:
  assumes "n < 2 ^ 36" and "k \<in> {32, 64, 128}"
  shows "(of_nat n :: u64) mod of_nat k = 0 \<longleftrightarrow> n mod k = 0"
    and "unat ((of_nat n :: u64) div of_nat k) = n div k"
    and "64 \<le> k \<Longrightarrow> unat (ucast ((of_nat n :: u64) div of_nat k) :: u32) = n div k"
proof -
  have n: "unat (of_nat n :: u64) = n" using assms(1) by (intro unat_of_nat_small) simp
  have k: "unat (of_nat k :: u64) = k" using assms(2) by auto
  show "(of_nat n :: u64) mod of_nat k = 0 \<longleftrightarrow> n mod k = 0"
    by (simp add: word_unat_eq_iff unat_mod n k)
  show d: "unat ((of_nat n :: u64) div of_nat k) = n div k"
    by (simp add: unat_div n k)
  assume "64 \<le> k"
  with assms have "n div k < 2 ^ 32" by auto
  then show "unat (ucast ((of_nat n :: u64) div of_nat k) :: u32) = n div k"
    by (simp add: unat_ucast_small d)
qed

text \<open>What the algorithm needs of a dataset size and of a cache size.\<close>

definition good_datasize :: "u64 \<Rightarrow> bool" where
  "good_datasize sz \<longleftrightarrow> sz mod 128 = 0 \<and> sz mod 32 = 0 \<and> (ucast (sz div 128) :: u32) \<noteq> 0
     \<and> unat (sz div 64) < 2 ^ 32"

definition good_cachesize :: "u64 \<Rightarrow> bool" where
  "good_cachesize sz \<longleftrightarrow> sz mod 64 = 0 \<and> (ucast (sz div 64) :: u32) \<noteq> 0"

lemma good_dag_sizes:
  assumes "e < 2048"
  shows "good_datasize (of_nat (dag_sizes ! e))"
proof -
  define n where "n = dag_sizes ! e"
  from dag_sizes_nth [OF assms] have n: "n mod 128 = 0" "1073739904 \<le> n" "n \<le> 18245220736"
    by (simp_all add: n_def)
  have n32: "n mod 32 = 0" using mod_mod_cancel [of 32 128 n] n(1) by simp
  have lt: "n < 2 ^ 36" using n(3) by simp
  have pos: "0 < n div 128" using n(2) by auto
  have "unat ((of_nat n :: u64) div 64) < 2 ^ 32" using word_size(2) [OF lt, of 64] n(3) by auto
  then show ?thesis
    using word_size(1) [OF lt, of 128] word_size(1) [OF lt, of 32] word_size(3) [OF lt, of 128] n(1) n32 pos
    unfolding n_def [symmetric] by (auto simp: good_datasize_def)
qed

lemma good_cache_sizes:
  assumes "e < 2048"
  shows "good_cachesize (of_nat (cache_sizes ! e))"
proof -
  define n where "n = cache_sizes ! e"
  from cache_sizes_nth [OF assms] have n: "n mod 64 = 0" "16776896 \<le> n" "n \<le> 285081536"
    by (simp_all add: n_def)
  then have lt: "n < 2 ^ 36" by simp
  have pos: "0 < n div 64" using n(2) by auto
  show ?thesis
    using word_size(1) [OF lt, of 64] word_size(3) [OF lt, of 64] n(1) pos
    unfolding n_def [symmetric] by (auto simp: good_cachesize_def)
qed

lemma datasize_ok:
  "unat b < 2048 * 30000 \<Longrightarrow> \<exists>sz. ethash_get_datasize b = Inr sz \<and> good_datasize sz"
  using epoch_less [of b] by (simp add: ethash_get_datasize_def good_dag_sizes)

lemma cachesize_ok:
  "unat b < 2048 * 30000 \<Longrightarrow> \<exists>sz. ethash_get_cachesize b = Inr sz \<and> good_cachesize sz"
  using epoch_less [of b] by (simp add: ethash_get_cachesize_def good_cache_sizes)

lemma seedhash_ok: "unat b < 2048 * 30000 \<Longrightarrow> \<exists>h. ethash_get_seedhash b = Inr h"
  using seedhash_loop_counts [of "b div 30000" 0 "replicate 32 0"] epoch_less [of b]
  by (simp add: ethash_get_seedhash_def)

context digest_pair
begin

lemma good_cache_light:
  assumes "good_cachesize sz"
  shows "\<exists>nodes. compute_cache_nodes H512 sz seed = Inr (Some nodes) \<and>
    wf_light \<lparr>cache = nodes, cache_size = sz, block_number = b\<rparr>"
  using wf_compute_cache_nodes [of sz seed] assms by (auto simp: good_cachesize_def wf_light_def num_parent_nodes_def)

end

lemma light_new_ok:
  assumes "unat b < 2048 * 30000"
  shows "\<exists>light. ethash_light_new True True b = Inr light \<and> wf_light light \<and> block_number light = b"
proof -
  obtain h where h: "ethash_get_seedhash b = Inr h" using seedhash_ok [OF assms] by blast
  obtain sz where sz: "ethash_get_cachesize b = Inr sz" "good_cachesize sz"
    using cachesize_ok [OF assms] by blast
  obtain nodes where "compute_cache_nodes SHA3_512 sz h = Inr (Some nodes)"
      "wf_light \<lparr>cache = nodes, cache_size = sz, block_number = b\<rparr>"
    using keccak_pair.good_cache_light [OF sz(2)] by blast
  with h sz show ?thesis
    by (simp add: ethash_light_new_def ethash_light_new_internal_def ethash_compute_cache_nodes_def)
qed

section \<open>No read misses its array\<close>

lemma mix_node_total:
  assumes "\<And>k. \<exists>nd. lookup k = Some nd \<and> length nd = 16" and "n < 2" and "length mix = 32"
  shows "\<exists>mix'. mix_node lookup index n mix = Some mix' \<and> length mix' = 32"
proof -
  obtain nd where "lookup (index * MIX_NODES + of_nat n) = Some nd" "length nd = 16" using assms(1) by blast
  then show ?thesis using assms(2,3) by (auto simp: mix_node_def)
qed

lemma mix_access_total:
  assumes "\<And>k. \<exists>nd. lookup k = Some nd \<and> length nd = 16" and "length mix = 32"
  shows "\<exists>mix'. mix_access lookup p s0 i mix = Some mix' \<and> length mix' = 32"
  unfolding mix_access_def Let_def by (rule loop_opt_ex) (use assms in \<open>auto intro!: mix_node_total\<close>)

lemma length_compress_mix: "length (compress_mix mix) = length mix"
  unfolding compress_mix_def Let_def by (rule length_fold_update) simp

lemma mix_loop_total:
  assumes "\<And>k. \<exists>nd. lookup k = Some nd \<and> length nd = 16"
  shows "\<exists>mix. mix_loop lookup p s = Some mix \<and> length mix = 32"
  unfolding mix_loop_def Let_def by (rule loop_opt_ex) (use assms in \<open>auto intro!: mix_access_total\<close>)

context digest_pair
begin

lemma hash_body_total:
  assumes "\<And>k. \<exists>nd. lookup k = Some nd \<and> length nd = 16"
  shows "\<exists>m r. hash_body H512 H256 lookup sz h n = Some (m, r) \<and> length m = 32 \<and> length r = 32"
proof -
  obtain mix where mix: "mix_loop lookup (ucast (sz div 128)) (words32_of (H512 (take 32 h @ le_bytes 8 n))) = Some mix"
      "length mix = 32" using mix_loop_total [of lookup] assms by blast
  moreover have "length (compress_mix mix) = 32" using mix(2) by (simp only: length_compress_mix)
  ultimately show ?thesis by (simp add: hash_body_def Let_def)
qed

lemma good_hash:
  assumes "wf_light light" and "good_datasize sz"
  shows "\<exists>r. hash_with SHA3_512 H512 H256 None (Some light) sz header nonce = Inr (Some r) \<and> success r \<and>
    length (result r) = 32 \<and> length (mix_hash r) = 32"
proof -
  have "\<exists>nd. dag_item SHA3_512 k light = Some nd \<and> length nd = 16" for k using dag_item_wf [OF assms(1)] by simp
  then obtain m r where
      "hash_body H512 H256 (\<lambda>k. dag_item SHA3_512 k light) sz header nonce = Some (m, r)" "length m = 32" "length r = 32"
    using hash_body_total [of "\<lambda>k. dag_item SHA3_512 k light" sz header nonce] by blast
  with assms show ?thesis by (simp add: hash_with_def wf_light_def good_datasize_def)
qed

end

lemma light_compute_ok:
  assumes "wf_light light" and "unat (block_number light) < 2048 * 30000"
  shows "\<exists>r. ethash_light_compute light header nonce = Inr r \<and> success r \<and>
    length (result r) = 32 \<and> length (mix_hash r) = 32"
proof -
  obtain sz where sz: "ethash_get_datasize (block_number light) = Inr sz" "good_datasize sz"
    using datasize_ok [OF assms(2)] by blast
  obtain r where "hash_with SHA3_512 SHA3_512 SHA3_256 None (Some light) sz header nonce = Inr (Some r)"
      "success r" "length (result r) = 32" "length (mix_hash r) = 32"
    using keccak_pair.good_hash [OF assms(1) sz(2)] by blast
  with sz show ?thesis
    by (simp add: ethash_light_compute_def ethash_light_compute_internal_def compute_result_def ethash_hash_def)
qed

end
