(* ===== verification/Ethash_IO.thy ===== *)
theory Ethash_IO
  imports Ethash
begin

unbundle bit_operations_syntax

text \<open>
  The DAG file of the full client: \<open>io.c\<close>, \<open>io.h\<close>, \<open>io_posix.c\<close> and the functions
  \<open>ethash_mmap\<close> and \<open>ethash_full_new_internal\<close> of \<open>internal.c\<close> in \<open>src/src/Native/libethhash\<close>.

  The file system is a map from paths to file contents. The answers of the C library and of the
  operating system (does a call succeed, did a failed flush reach the disk) are the fields of
  \<open>io_env\<close> and \<open>full_env\<close>: parameters that a theorem quantifies over. A memory mapping is shared,
  so what is stored through it is stored in the file.
\<close>

section \<open>File names\<close>

definition hex_digit :: "nat \<Rightarrow> char" where
  "hex_digit d = ''0123456789abcdef'' ! d"

definition hex_byte :: "u8 \<Rightarrow> string" where
  "hex_byte b = [hex_digit (unat b div 16), hex_digit (unat b mod 16)]"

text \<open>
  \<open>snprintf(output, \<dots>, "full-R%u-%016" PRIx64, revision, hash)\<close>: the first eight bytes of the
  seed hash, read as a big-endian number and printed with 16 hexadecimal digits.
\<close>

definition ethash_io_mutable_name :: "bytes \<Rightarrow> string" where
  "ethash_io_mutable_name seed_hash = ''full-R23-'' @ concat (map hex_byte (take 8 seed_hash))"

text \<open>
  \<open>ethash_strncat\<close>: appends at most \<open>count\<close> characters if the result with its terminator fits
  the buffer; \<open>None\<close> is \<open>NULL\<close>. \<open>ethash_io_create_filename\<close> ignores its results.
\<close>

definition ethash_strncat :: "string \<Rightarrow> nat \<Rightarrow> string \<Rightarrow> nat \<Rightarrow> string option" where
  "ethash_strncat dest dest_size src count =
     (if length dest + count + 1 \<le> dest_size then Some (dest @ take count src) else None)"

definition strncat_or_keep :: "string \<Rightarrow> nat \<Rightarrow> string \<Rightarrow> nat \<Rightarrow> string" where
  "strncat_or_keep dest dest_size src count =
     (case ethash_strncat dest dest_size src count of Some d \<Rightarrow> d | None \<Rightarrow> dest)"

definition needs_separator :: "string \<Rightarrow> bool" where
  "needs_separator dirname \<longleftrightarrow> dirname = [] \<or> last dirname \<noteq> CHR ''/''"

definition ethash_io_create_filename :: "string \<Rightarrow> string \<Rightarrow> nat \<Rightarrow> string" where
  "ethash_io_create_filename dirname filename filename_length =
     (let dirlen = length dirname;
          dest_size = dirlen + filename_length + 1 + (if needs_separator dirname then 1 else 0);
          name = strncat_or_keep [] dest_size dirname dirlen;
          name = (if needs_separator dirname then strncat_or_keep name dest_size ''/'' 1 else name)
      in strncat_or_keep name dest_size filename filename_length)"

text \<open>
  \<open>ethash_get_default_dirname\<close>: \<open>home_env\<close> is \<open>getenv("HOME")\<close> and \<open>home_pw\<close> the home directory
  of the password entry. \<open>sizeof(dir_suffix)\<close> counts the terminator.
\<close>

definition ethash_get_default_dirname ::
    "string \<Rightarrow> string option \<Rightarrow> string option \<Rightarrow> nat \<Rightarrow> string option" where
  "ethash_get_default_dirname dir_suffix home_env home_pw buffsize =
     (if buffsize = 0 then None
      else
        let home = (if home_env = None \<or> home_env = Some [] then
              (if home_pw \<noteq> None then home_pw else home_env) else home_env)
        in case home of
             None \<Rightarrow> None
           | Some home_dir \<Rightarrow>
               if home_dir = [] then None
               else
                 (case ethash_strncat [] buffsize home_dir (length home_dir) of
                    None \<Rightarrow> None
                  | Some s \<Rightarrow>
                      (case (if last home_dir \<noteq> CHR ''/'' then ethash_strncat s buffsize ''/'' 1
                             else Some s) of
                         None \<Rightarrow> None
                       | Some s \<Rightarrow> ethash_strncat s buffsize dir_suffix (length dir_suffix + 1))))"

section \<open>Preparing the file\<close>

type_synonym fs = "string \<rightharpoonup> bytes"

datatype ethash_io_rc = ETHASH_IO_FAIL | ETHASH_IO_MEMO_SIZE_MISMATCH | ETHASH_IO_MEMO_MISMATCH
  | ETHASH_IO_MEMO_MATCH

record io_env =
  mkdir_ok :: bool
  filename_ok :: bool
  fopen_rb_ok :: bool
  fstat_ok :: bool
  fread_ok :: bool
  fopen_wb_ok :: bool
  fseek_ok :: bool
  fputc_ok :: bool
  fflush_ok :: bool
  flushed_anyway :: bool

abbreviation (input) ETHASH_DAG_MAGIC_NUM_SIZE :: nat where "ETHASH_DAG_MAGIC_NUM_SIZE \<equiv> 8"

definition ETHASH_DAG_MAGIC_NUM :: u64 where
  "ETHASH_DAG_MAGIC_NUM = 0xFEE1DEADBADDCAFE"

definition dag_path :: "string \<Rightarrow> bytes \<Rightarrow> string" where
  "dag_path dirname seedhash =
     (let mutable_name = ethash_io_mutable_name seedhash
      in ethash_io_create_filename dirname mutable_name (length mutable_name))"

text \<open>\<open>ethash_fseek\<close>: an offset above \<open>INT64_MAX\<close> is refused before the call to \<open>fseeko\<close>.\<close>

definition ethash_fseek :: "bool \<Rightarrow> u64 \<Rightarrow> bool" where
  "ethash_fseek fseeko_ok offset \<longleftrightarrow> \<not> (offset > 0x7FFFFFFFFFFFFFFF) \<and> fseeko_ok"

text \<open>
  A file opened with \<open>wb+\<close> is empty; writing one byte at \<open>offset\<close> leaves a hole that reads as
  zeros before it.
\<close>

definition new_dag_file :: "u64 \<Rightarrow> bytes" where
  "new_dag_file offset = replicate (unat offset) 0 @ [10]"

text \<open>The offset \<open>file_size + ETHASH_DAG_MAGIC_NUM_SIZE - 1\<close> of the last byte, in \<open>uint64_t\<close>.\<close>

definition dag_offset :: "u64 \<Rightarrow> u64" where
  "dag_offset fsize = fsize + 8 - 1"

definition check_memo :: "io_env \<Rightarrow> bytes \<Rightarrow> u64 \<Rightarrow> ethash_io_rc" where
  "check_memo env content fsize =
     (if \<not> fstat_ok env then ETHASH_IO_FAIL
      else if length content < ETHASH_DAG_MAGIC_NUM_SIZE then ETHASH_IO_MEMO_SIZE_MISMATCH
      else if unat fsize \<noteq> length content - ETHASH_DAG_MAGIC_NUM_SIZE then ETHASH_IO_MEMO_SIZE_MISMATCH
      else if \<not> fread_ok env then ETHASH_IO_MEMO_SIZE_MISMATCH
      else if le_word (take ETHASH_DAG_MAGIC_NUM_SIZE content) \<noteq> ETHASH_DAG_MAGIC_NUM
        then ETHASH_IO_MEMO_SIZE_MISMATCH
      else ETHASH_IO_MEMO_MATCH)"

definition create_memo :: "io_env \<Rightarrow> fs \<Rightarrow> string \<Rightarrow> u64 \<Rightarrow> ethash_io_rc \<times> fs" where
  "create_memo env files path fsize =
     (if \<not> fopen_wb_ok env then (ETHASH_IO_FAIL, files)
      else
        let files = files(path \<mapsto> []);
            offset = dag_offset fsize
        in if \<not> ethash_fseek (fseek_ok env) offset then (ETHASH_IO_FAIL, files)
           else if \<not> fputc_ok env then (ETHASH_IO_FAIL, files)
           else if \<not> fflush_ok env then
             (ETHASH_IO_FAIL, if flushed_anyway env then files(path \<mapsto> new_dag_file offset) else files)
           else (ETHASH_IO_MEMO_MISMATCH, files(path \<mapsto> new_dag_file offset)))"

definition ethash_io_prepare ::
    "io_env \<Rightarrow> fs \<Rightarrow> string \<Rightarrow> bytes \<Rightarrow> u64 \<Rightarrow> bool \<Rightarrow> ethash_io_rc \<times> fs" where
  "ethash_io_prepare env files dirname seedhash fsize force_create =
     (if \<not> mkdir_ok env then (ETHASH_IO_FAIL, files)
      else if \<not> filename_ok env then (ETHASH_IO_FAIL, files)
      else
        let path = dag_path dirname seedhash
        in case (if force_create \<or> \<not> fopen_rb_ok env then None else files path) of
             Some content \<Rightarrow> (check_memo env content fsize, files)
           | None \<Rightarrow> create_memo env files path fsize)"

section \<open>Opening the full client\<close>

record full_env =
  calloc_ok :: bool
  prepare1 :: io_env
  prepare2 :: io_env
  mmap_ok :: bool
  rewind_ok :: bool
  fwrite_ok :: bool
  final_fflush_ok :: bool
  magic_on_disk :: bool

definition magic_bytes :: bytes where
  "magic_bytes = le_bytes 8 ETHASH_DAG_MAGIC_NUM"

definition payload_bytes :: "node list \<Rightarrow> bytes" where
  "payload_bytes nodes = concat (map bytes32_of nodes)"

definition payload_nodes :: "bytes \<Rightarrow> node list" where
  "payload_nodes payload = map words32_of (chunks 64 payload)"

text \<open>What the mapped file holds once \<open>nodes\<close> were stored at \<open>data\<close>, the rest untouched.\<close>

definition store_nodes :: "bytes \<Rightarrow> node list \<Rightarrow> bytes" where
  "store_nodes content nodes =
     take 8 content @ payload_bytes nodes @ drop (8 + length (payload_bytes nodes)) content"

definition fill_dag ::
    "full_env \<Rightarrow> fs \<Rightarrow> string \<Rightarrow> u64 \<Rightarrow> ethash_light \<Rightarrow> (u32 \<Rightarrow> int) option
     \<Rightarrow> (fault + ethash_full option) \<times> fs" where
  "fill_dag env files path full_size light callback =
     (if \<not> mmap_ok env then (Inr None, files)
      else
        let content = (case files path of Some c \<Rightarrow> c | None \<Rightarrow> [])
        in case ethash_compute_full_data full_size light callback of
             Inl e \<Rightarrow> (Inl e, files)
           | Inr (nodes, ok) \<Rightarrow>
               let content = store_nodes content nodes;
                   files = files(path \<mapsto> content)
               in if \<not> ok then (Inr None, files)
                  else if \<not> rewind_ok env then (Inr None, files)
                  else if \<not> fwrite_ok env then (Inr None, files)
                  else
                    let marked = files(path \<mapsto> magic_bytes @ drop 8 content)
                    in if \<not> final_fflush_ok env
                       then (Inr None, if magic_on_disk env then marked else files)
                       else (Inr (Some \<lparr>file_size = full_size, data = nodes\<rparr>), marked))"

definition ethash_full_new_internal ::
    "full_env \<Rightarrow> fs \<Rightarrow> string \<Rightarrow> bytes \<Rightarrow> u64 \<Rightarrow> ethash_light \<Rightarrow> (u32 \<Rightarrow> int) option
     \<Rightarrow> (fault + ethash_full option) \<times> fs" where
  "ethash_full_new_internal env files dirname seed_hash full_size light callback =
     (let path = dag_path dirname seed_hash
      in if \<not> calloc_ok env then (Inr None, files)
         else case ethash_io_prepare (prepare1 env) files dirname seed_hash full_size False of
             (ETHASH_IO_FAIL, files) \<Rightarrow> (Inr None, files)
           | (ETHASH_IO_MEMO_MATCH, files) \<Rightarrow>
               if \<not> mmap_ok env then (Inr None, files)
               else (Inr (Some \<lparr>file_size = full_size,
                      data = payload_nodes (drop 8 (the (files path)))\<rparr>), files)
           | (ETHASH_IO_MEMO_SIZE_MISMATCH, files) \<Rightarrow>
               (case ethash_io_prepare (prepare2 env) files dirname seed_hash full_size True of
                  (ETHASH_IO_MEMO_MISMATCH, files) \<Rightarrow> fill_dag env files path full_size light callback
                | (_, files) \<Rightarrow> (Inr None, files))
           | (ETHASH_IO_MEMO_MISMATCH, files) \<Rightarrow> fill_dag env files path full_size light callback)"

section \<open>The DAG file and the nodes it stands for\<close>

lemma length_payload_bytes:
  "list_all (\<lambda>nd. length nd = 16) nodes \<Longrightarrow> length (payload_bytes nodes) = 64 * length nodes"
  by (induction nodes) (auto simp: payload_bytes_def)

lemma payload_nodes_bytes:
  "list_all (\<lambda>nd. length nd = 16) nodes \<Longrightarrow> payload_nodes (payload_bytes nodes) = nodes"
  by (induction nodes) (auto simp: payload_bytes_def payload_nodes_def chunks_append)

abbreviation keccak_dag :: "u64 \<Rightarrow> ethash_light \<Rightarrow> node list" where
  "keccak_dag \<equiv> dag_nodes SHA3_512"

lemma wf_keccak_dag: "list_all (\<lambda>nd. length nd = 16) (keccak_dag full_size light)"
  by (auto simp: dag_nodes_def list_all_iff)

definition complete_dag :: "u64 \<Rightarrow> ethash_light \<Rightarrow> bytes" where
  "complete_dag full_size light = magic_bytes @ payload_bytes (keccak_dag full_size light)"

text \<open>
  The meaning of the magic number: a file of the expected length that starts with it holds the
  whole dataset.
\<close>

definition memo_sound :: "u64 \<Rightarrow> ethash_light \<Rightarrow> bytes option \<Rightarrow> bool" where
  "memo_sound full_size light file =
     (case file of
        None \<Rightarrow> True
      | Some c \<Rightarrow> length c = 8 + unat full_size \<and> take 8 c = magic_bytes \<longrightarrow>
                  c = complete_dag full_size light)"

lemma length_magic_bytes [simp]: "length magic_bytes = 8"
  by (simp add: magic_bytes_def)

lemma magic_bytes_ne [simp]: "magic_bytes \<noteq> []"
  using length_magic_bytes by (metis length_0_conv zero_neq_numeral)

lemma hd_magic_bytes: "hd magic_bytes = 0xFE"
  by (simp add: hd_conv_nth magic_bytes_def nth_le_bytes ETHASH_DAG_MAGIC_NUM_def
      flip: length_greater_0_conv)

lemma memo_sound_unmarked:
  assumes "hd c \<noteq> 0xFE"
  shows "memo_sound full_size light (Some c)"
proof -
  have "take 8 c \<noteq> magic_bytes"
  proof
    assume eq: "take 8 c = magic_bytes"
    then have "c \<noteq> []" using magic_bytes_ne by fastforce
    then have "hd c = hd (take 8 c)" by simp
    with eq assms show False by (simp add: hd_magic_bytes)
  qed
  then show ?thesis by (simp add: memo_sound_def)
qed

lemma memo_sound_empty: "memo_sound full_size light (Some [])"
  by (simp add: memo_sound_def)

lemma hd_new_dag_file: "hd (new_dag_file offset) \<noteq> 0xFE"
  by (cases "unat offset") (auto simp: new_dag_file_def)

lemma new_dag_file_ne: "new_dag_file offset \<noteq> []"
  by (simp add: new_dag_file_def)

lemma hd_store_nodes: "c \<noteq> [] \<Longrightarrow> hd (store_nodes c nodes) = hd c"
  by (cases c) (auto simp: store_nodes_def)

lemma length_new_dag_file:
  assumes "unat (full_size div 64) < 2 ^ 32"
  shows "length (new_dag_file (dag_offset full_size)) = 8 + unat full_size"
proof -
  have "unat full_size < 2 ^ 38" using assms by (simp add: unat_div)
  then have "unat (full_size + 7) = unat full_size + 7" by (simp add: unat_word_ariths)
  moreover have "dag_offset full_size = full_size + 7" by (simp add: dag_offset_def)
  ultimately show ?thesis by (simp only: new_dag_file_def length_append length_replicate) simp
qed

section \<open>What the operations leave on disk\<close>

lemma create_memo_sound:
  assumes "create_memo env files path fsize = (rc, files')" and "memo_sound full_size light (files path)"
  shows "memo_sound full_size light (files' path)"
proof -
  have "files' path \<in> {files path, Some [], Some (new_dag_file (dag_offset fsize))}"
    using assms(1) by (auto simp only: create_memo_def Let_def fun_upd_same prod.inject insert_iff
        split: if_splits)
  with assms(2) memo_sound_empty memo_sound_unmarked [OF hd_new_dag_file] show ?thesis by auto
qed

lemma prepare_cases:
  assumes "ethash_io_prepare env files dirname seed fsize force = (rc, files')"
  obtains (kept) "files' = files" "rc \<noteq> ETHASH_IO_MEMO_MISMATCH"
    "rc = ETHASH_IO_MEMO_MATCH \<longrightarrow> (\<exists>c. files (dag_path dirname seed) = Some c \<and>
       length c = 8 + unat fsize \<and> take 8 c = magic_bytes \<and> \<not> force)"
  | (created) "create_memo env files (dag_path dirname seed) fsize = (rc, files')"
proof (cases "mkdir_ok env \<and> filename_ok env")
  case False
  with assms have "files' = files" "rc = ETHASH_IO_FAIL"
    by (auto simp: ethash_io_prepare_def split: if_splits)
  then show ?thesis by (intro kept) simp_all
next
  case True
  let ?file = "if force \<or> \<not> fopen_rb_ok env then None else files (dag_path dirname seed)"
  show ?thesis
  proof (cases ?file)
    case None
    with True assms have "create_memo env files (dag_path dirname seed) fsize = (rc, files')"
      by (simp add: ethash_io_prepare_def Let_def)
    then show ?thesis by (rule created)
  next
    case (Some c)
    with True assms have f: "files' = files" and rc: "rc = check_memo env c fsize"
      by (auto simp: ethash_io_prepare_def Let_def)
    show ?thesis
    proof (rule kept)
      show "files' = files" by (rule f)
      show "rc \<noteq> ETHASH_IO_MEMO_MISMATCH" by (simp add: rc check_memo_def)
      have "take 8 c = magic_bytes" "length c = 8 + unat fsize" if "rc = ETHASH_IO_MEMO_MATCH"
        using that le_bytes_le_word [where 'a = 64, of "take 8 c"]
        by (auto simp: rc check_memo_def magic_bytes_def split: if_splits)
      with Some show "rc = ETHASH_IO_MEMO_MATCH \<longrightarrow> (\<exists>c. files (dag_path dirname seed) = Some c \<and>
          length c = 8 + unat fsize \<and> take 8 c = magic_bytes \<and> \<not> force)"
        by (auto split: if_splits)
    qed
  qed
qed

lemma create_memo_mismatch:
  "create_memo env files path fsize = (rc, files') \<Longrightarrow> rc = ETHASH_IO_FAIL \<or>
     rc = ETHASH_IO_MEMO_MISMATCH \<and> files' = files(path \<mapsto> new_dag_file (dag_offset fsize))"
  by (auto simp: create_memo_def Let_def split: if_splits)

lemma prepare_sound:
  assumes "ethash_io_prepare env files dirname seed fsize force = (rc, files')"
    and "memo_sound full_size light (files (dag_path dirname seed))"
  shows "memo_sound full_size light (files' (dag_path dirname seed))"
  using assms(1) by (rule prepare_cases) (use assms(2) in \<open>auto intro: create_memo_sound\<close>)

lemma prepare_mismatch:
  assumes "ethash_io_prepare env files dirname seed fsize force = (ETHASH_IO_MEMO_MISMATCH, files')"
  shows "files' (dag_path dirname seed) = Some (new_dag_file (dag_offset fsize))"
  using assms by (rule prepare_cases) (auto dest: create_memo_mismatch)

lemma length_keccak_payload:
  assumes "full_size mod 128 = 0"
  shows "length (payload_bytes (keccak_dag full_size light)) = unat full_size"
proof -
  have "unat full_size mod 64 = 0"
    using arg_cong [OF assms, of unat] mod_mod_cancel [of 64 128 "unat full_size"]
    by (simp add: unat_mod)
  then have "64 * (unat full_size div 64) = unat full_size" by auto
  then show ?thesis
    using length_payload_bytes [OF wf_keccak_dag, of full_size light]
    by (simp add: dag_nodes_def unat_div)
qed

lemma filled_dag_complete:
  assumes "unat (full_size div 64) < 2 ^ 32" and "full_size mod 128 = 0"
  shows "magic_bytes @ drop 8 (store_nodes (new_dag_file (dag_offset full_size)) (keccak_dag full_size light))
     = complete_dag full_size light"
  using length_keccak_payload [OF assms(2)] length_new_dag_file [OF assms(1)]
  by (simp add: store_nodes_def complete_dag_def)

lemma fill_dag_sound:
  assumes "fill_dag env files path full_size light callback = (r, files')"
    and prepared: "files path = Some (new_dag_file (dag_offset full_size))"
    and size: "unat (full_size div 64) < 2 ^ 32"
  shows "memo_sound full_size light (files' path)"
    and "r = Inr (Some full) \<Longrightarrow> full = \<lparr>file_size = full_size, data = keccak_dag full_size light\<rparr> \<and>
      files' path = Some (complete_dag full_size light)"
proof -
  let ?c = "new_dag_file (dag_offset full_size)"
  have unmarked: "memo_sound full_size light (Some ?c)"
    "memo_sound full_size light (Some (store_nodes ?c nodes))" for nodes
    by (simp_all add: memo_sound_unmarked hd_new_dag_file hd_store_nodes new_dag_file_ne)
  have finished: "nodes = keccak_dag full_size light"
    "magic_bytes @ drop 8 (store_nodes ?c nodes) = complete_dag full_size light"
    if "ethash_compute_full_data full_size light callback = Inr (nodes, True)" for nodes
    using that size compute_full_data_nodes [of SHA3_512 full_size light callback nodes]
    by (simp_all add: ethash_compute_full_data_def filled_dag_complete)
  have complete: "memo_sound full_size light (Some (complete_dag full_size light))"
    by (simp add: memo_sound_def)
  show "memo_sound full_size light (files' path)"
    using assms(1) prepared unmarked complete finished
    by (auto simp: fill_dag_def Let_def split: if_splits sum.splits prod.splits)
  show "full = \<lparr>file_size = full_size, data = keccak_dag full_size light\<rparr> \<and>
      files' path = Some (complete_dag full_size light)" if "r = Inr (Some full)"
    using that assms(1) prepared finished
    by (auto simp: fill_dag_def Let_def split: if_splits sum.splits prod.splits)
qed

lemma full_new_cases:
  assumes new: "ethash_full_new_internal env files dirname seed full_size light callback = (r, files')"
  obtains (stopped) "r = Inr None"
      "\<And>sz l. memo_sound sz l (files (dag_path dirname seed)) \<Longrightarrow>
         memo_sound sz l (files' (dag_path dirname seed))"
  | (matched) c where "files' = files" "files (dag_path dirname seed) = Some c"
      "length c = 8 + unat full_size" "take 8 c = magic_bytes"
      "r = Inr None \<or> r = Inr (Some \<lparr>file_size = full_size, data = payload_nodes (drop 8 c)\<rparr>)"
  | (filled) fs1 where "fs1 (dag_path dirname seed) = Some (new_dag_file (dag_offset full_size))"
      "fill_dag env fs1 (dag_path dirname seed) full_size light callback = (r, files')"
proof (cases "calloc_ok env")
  case False
  with new have "r = Inr None" "files' = files" by (auto simp: ethash_full_new_internal_def)
  then show ?thesis by (intro stopped) simp_all
next
  case True
  let ?path = "dag_path dirname seed"
  obtain rc fs1 where p1: "ethash_io_prepare (prepare1 env) files dirname seed full_size False = (rc, fs1)"
    by fastforce
  note new' = new [unfolded ethash_full_new_internal_def Let_def p1]
  show ?thesis
  proof (cases rc)
    case ETHASH_IO_FAIL
    with new' True have "r = Inr None" "files' = fs1" by auto
    then show ?thesis using prepare_sound [OF p1] by (intro stopped) simp_all
  next
    case ETHASH_IO_MEMO_MATCH
    then obtain c where c: "files ?path = Some c" "length c = 8 + unat full_size"
        "take 8 c = magic_bytes" "fs1 = files"
      using prepare_cases [OF p1] create_memo_mismatch by (metis ethash_io_rc.distinct)
    with new' True ETHASH_IO_MEMO_MATCH show ?thesis
      by (intro matched [of c]) (auto split: if_splits)
  next
    case ETHASH_IO_MEMO_MISMATCH
    with new' True p1 show ?thesis by (intro filled [of fs1]) (auto simp: prepare_mismatch)
  next
    case ETHASH_IO_MEMO_SIZE_MISMATCH
    obtain rc2 fs2 where p2: "ethash_io_prepare (prepare2 env) fs1 dirname seed full_size True = (rc2, fs2)"
      by fastforce
    show ?thesis
    proof (cases "rc2 = ETHASH_IO_MEMO_MISMATCH")
      case True
      with new' \<open>calloc_ok env\<close> ETHASH_IO_MEMO_SIZE_MISMATCH p2 show ?thesis
        by (intro filled [of fs2]) (auto simp: prepare_mismatch)
    next
      case False
      with new' \<open>calloc_ok env\<close> ETHASH_IO_MEMO_SIZE_MISMATCH p2 have "r = Inr None" "files' = fs2"
        by (auto split: ethash_io_rc.splits)
      then show ?thesis using prepare_sound [OF p1] prepare_sound [OF p2] by (intro stopped) simp_all
    qed
  qed
qed

lemma full_new_sound:
  assumes "ethash_full_new_internal env files dirname seed full_size light callback = (r, files')"
    and sound: "memo_sound full_size light (files (dag_path dirname seed))"
    and size: "unat (full_size div 64) < 2 ^ 32"
  shows "memo_sound full_size light (files' (dag_path dirname seed))"
  using assms(1)
proof (cases rule: full_new_cases)
  case (filled fs1)
  then show ?thesis using size by (blast intro: fill_dag_sound(1))
qed (use sound in simp_all)

lemma full_new_data:
  assumes "ethash_full_new_internal env files dirname seed full_size light callback =
      (Inr (Some full), files')"
    and sound: "memo_sound full_size light (files (dag_path dirname seed))"
    and size: "unat (full_size div 64) < 2 ^ 32"
  shows "full = \<lparr>file_size = full_size, data = keccak_dag full_size light\<rparr>"
  using assms(1)
proof (cases rule: full_new_cases)
  case (matched c)
  with sound have "payload_nodes (drop 8 c) = keccak_dag full_size light"
    by (simp add: memo_sound_def complete_dag_def payload_nodes_bytes wf_keccak_dag)
  with matched show ?thesis by simp
next
  case (filled fs1)
  then show ?thesis using fill_dag_sound(2) [OF filled(2,1) size] by simp
qed simp

section \<open>Runs of the pool on one DAG file\<close>

text \<open>
  Any number of processes, one after the other, open the full client for the same epoch, with any
  answers of the operating system; a process may be killed while it fills the file (the mapped
  part of the file is then arbitrary); other files change as they like.
\<close>

inductive dag_step :: "string \<Rightarrow> bytes \<Rightarrow> u64 \<Rightarrow> ethash_light \<Rightarrow> fs \<Rightarrow> fs \<Rightarrow> bool"
  for dirname seed full_size light where
  opened: "ethash_full_new_internal env files dirname seed full_size light callback = (r, files') \<Longrightarrow>
     dag_step dirname seed full_size light files files'"
| killed: "ethash_io_prepare env files dirname seed full_size force = (ETHASH_IO_MEMO_MISMATCH, files') \<Longrightarrow>
     files' (dag_path dirname seed) = Some content \<Longrightarrow>
     dag_step dirname seed full_size light files
       (files'(dag_path dirname seed \<mapsto> take 8 content @ payload))"
| elsewhere: "path \<noteq> dag_path dirname seed \<Longrightarrow>
     dag_step dirname seed full_size light files (files(path := file))"

inductive_cases dag_stepE: "dag_step dirname seed full_size light files files'"

lemma hd_take_append: "c \<noteq> [] \<Longrightarrow> 0 < n \<Longrightarrow> hd (take n c @ xs) = hd c"
  by (cases c; cases n) auto

lemma dag_step_sound:
  assumes "dag_step dirname seed full_size light files files'"
    and "memo_sound full_size light (files (dag_path dirname seed))"
    and "unat (full_size div 64) < 2 ^ 32"
  shows "memo_sound full_size light (files' (dag_path dirname seed))"
  using assms
proof (cases rule: dag_step.cases)
  case (opened env callback r)
  with assms show ?thesis by (blast intro: full_new_sound)
next
  case (killed env force files' content payload)
  then have "content = new_dag_file (dag_offset full_size)" by (simp add: prepare_mismatch)
  then have "hd (take 8 content @ payload) \<noteq> 0xFE"
    by (simp add: hd_take_append new_dag_file_ne hd_new_dag_file)
  with killed show ?thesis by (simp add: memo_sound_unmarked)
qed simp

lemma dag_run_sound:
  assumes "(dag_step dirname seed full_size light)\<^sup>*\<^sup>* files files'"
    and "memo_sound full_size light (files (dag_path dirname seed))"
    and "unat (full_size div 64) < 2 ^ 32"
  shows "memo_sound full_size light (files' (dag_path dirname seed))"
  using assms by (induction rule: rtranclp_induct) (auto intro: dag_step_sound)


section \<open>Reopening\<close>

definition io_all_ok :: "io_env \<Rightarrow> bool" where
  "io_all_ok env \<longleftrightarrow> mkdir_ok env \<and> filename_ok env \<and> fopen_rb_ok env \<and> fstat_ok env \<and> fread_ok env"

lemma marked_match:
  assumes "io_all_ok env" and "files (dag_path dirname seed) = Some c"
    and "length c = 8 + unat full_size" and "take 8 c = magic_bytes"
  shows "ethash_io_prepare env files dirname seed full_size False = (ETHASH_IO_MEMO_MATCH, files)"
  using assms by (auto simp: io_all_ok_def ethash_io_prepare_def check_memo_def magic_bytes_def)

lemma full_new_complete:
  assumes new: "ethash_full_new_internal env files dirname seed full_size light callback =
      (Inr (Some full), files')"
    and sound: "memo_sound full_size light (files (dag_path dirname seed))"
    and size: "unat (full_size div 64) < 2 ^ 32"
  shows "files' (dag_path dirname seed) = Some (complete_dag full_size light)"
  using new
proof (cases rule: full_new_cases)
  case (matched c)
  with sound show ?thesis by (simp add: memo_sound_def)
next
  case (filled fs1)
  then show ?thesis using fill_dag_sound(2) [OF filled(2,1) size] by simp
qed simp

lemma fill_dag_size:
  assumes "fill_dag env files path full_size light callback = (Inr (Some full), files')"
  shows "full_size mod 128 = 0"
proof -
  obtain nodes where "ethash_compute_full_data full_size light callback = Inr (nodes, True)"
    using assms by (auto simp: fill_dag_def Let_def split: if_splits sum.splits prod.splits)
  then show ?thesis by (auto simp: ethash_compute_full_data_def compute_full_data_def split: if_splits)
qed

text \<open>A full client is always backed by a marked file of the right length, which need not be the dataset.\<close>

lemma full_new_marked:
  assumes new: "ethash_full_new_internal env files dirname seed full_size light callback =
      (Inr (Some full), files')"
    and size: "unat (full_size div 64) < 2 ^ 32"
  shows "\<exists>c. files' (dag_path dirname seed) = Some c \<and> length c = 8 + unat full_size \<and> take 8 c = magic_bytes \<and>
    full = \<lparr>file_size = full_size, data = payload_nodes (drop 8 c)\<rparr>"
  using new
proof (cases rule: full_new_cases)
  case (filled fs1)
  note f = fill_dag_sound(2) [OF filled(2,1) size refl]
  have "length (complete_dag full_size light) = 8 + unat full_size"
    using length_keccak_payload [OF fill_dag_size [OF filled(2)]] by (simp add: complete_dag_def)
  then show ?thesis
    using f by (intro exI [of _ "complete_dag full_size light"]) (simp add: complete_dag_def payload_nodes_bytes wf_keccak_dag)
qed auto

lemma full_new_reopen:
  assumes new: "ethash_full_new_internal env files dirname seed full_size light callback =
      (Inr (Some full), files')"
    and size: "unat (full_size div 64) < 2 ^ 32"
    and env': "calloc_ok env'" "io_all_ok (prepare1 env')" "mmap_ok env'"
  shows "ethash_full_new_internal env' files' dirname seed full_size light' callback' =
      (Inr (Some full), files')"
proof -
  obtain c where c: "files' (dag_path dirname seed) = Some c" "length c = 8 + unat full_size" "take 8 c = magic_bytes"
      "full = \<lparr>file_size = full_size, data = payload_nodes (drop 8 c)\<rparr>"
    using full_new_marked [OF new size] by blast
  then have "ethash_io_prepare (prepare1 env') files' dirname seed full_size False = (ETHASH_IO_MEMO_MATCH, files')"
    using env'(2) by (intro marked_match)
  with env' c show ?thesis by (simp add: ethash_full_new_internal_def)
qed

section \<open>Success\<close>

text \<open>Every call of the C library and of the system that the full client makes is answered well.\<close>

definition io_ok :: "io_env \<Rightarrow> bool" where
  "io_ok env \<longleftrightarrow> io_all_ok env \<and> fopen_wb_ok env \<and> fseek_ok env \<and> fputc_ok env \<and> fflush_ok env"

definition os_ok :: "full_env \<Rightarrow> bool" where
  "os_ok env \<longleftrightarrow> calloc_ok env \<and> io_ok (prepare1 env) \<and> io_ok (prepare2 env) \<and> mmap_ok env \<and> rewind_ok env
     \<and> fwrite_ok env \<and> final_fflush_ok env"

text \<open>A callback that never asks to stop; the code needs at least 100 nodes to call it.\<close>

definition quiet_callback :: "u64 \<Rightarrow> (u32 \<Rightarrow> int) option \<Rightarrow> bool" where
  "quiet_callback full_size callback \<longleftrightarrow>
     callback = None \<or> (\<exists>cb. callback = Some cb \<and> (\<forall>n. cb n = 0)) \<and> 100 \<le> unat (full_size div 64)"

definition calm_io :: io_env where
  "calm_io = \<lparr>mkdir_ok = True, filename_ok = True, fopen_rb_ok = True, fstat_ok = True, fread_ok = True,
     fopen_wb_ok = True, fseek_ok = True, fputc_ok = True, fflush_ok = True, flushed_anyway = False\<rparr>"

definition calm_env :: full_env where
  "calm_env = \<lparr>calloc_ok = True, prepare1 = calm_io, prepare2 = calm_io, mmap_ok = True, rewind_ok = True,
     fwrite_ok = True, final_fflush_ok = True, magic_on_disk = False\<rparr>"

lemma calm_ok: "io_ok calm_io" "io_all_ok calm_io" "os_ok calm_env"
  by (simp_all add: calm_io_def calm_env_def io_ok_def io_all_ok_def os_ok_def)

lemma mod_128_64: "(x :: u64) mod 128 = 0 \<Longrightarrow> x mod 64 = 0"
  using mod_mod_cancel [of 64 128 "unat x"] by (simp add: word_unat_eq_iff unat_mod)

lemma compute_full_data_ok:
  assumes "full_size mod 128 = 0" and "unat (full_size div 64) < 2 ^ 32" and "wf_light light"
    and "quiet_callback full_size callback"
  shows "ethash_compute_full_data full_size light callback = Inr (keccak_dag full_size light, True)"
proof -
  have max: "unat (ucast (full_size div 64) :: u32) = unat (full_size div 64)"
    using assms(2) by (simp add: unat_ucast_small)
  then have "callback = None \<or> (ucast (full_size div 64) :: u32) div 100 \<noteq> 0"
    using assms(4) by (auto simp: quiet_callback_def word_unat_eq_iff unat_div)
  moreover have "callback = None \<or> (\<exists>cb. callback = Some cb \<and> (\<forall>n. cb n = 0))"
    using assms(4) by (auto simp: quiet_callback_def)
  note full_data_loop_all [OF this, of "\<lambda>n. dag_item SHA3_512 n light" "\<lambda>n. dag_value SHA3_512 n light", OF dag_item_wf [OF assms(3)]]
  moreover have "num_parent_nodes light \<noteq> 0" using assms(3) by (simp add: wf_light_def)
  ultimately show ?thesis
    using assms(1) mod_128_64 [OF assms(1)]
    by (auto simp: ethash_compute_full_data_def compute_full_data_def Let_def dag_nodes_def max)
qed

lemma create_memo_ok:
  assumes "io_ok env" and "unat (full_size div 64) < 2 ^ 32"
  shows "create_memo env files path full_size =
    (ETHASH_IO_MEMO_MISMATCH, files(path \<mapsto> new_dag_file (dag_offset full_size)))"
proof -
  have "unat full_size < 2 ^ 38" using assms(2) by (simp add: unat_div)
  then have "unat (dag_offset full_size) < 2 ^ 39" by (simp add: dag_offset_def unat_word_ariths)
  then have "\<not> dag_offset full_size > 0x7FFFFFFFFFFFFFFF" by (simp add: word_less_nat_alt)
  with assms(1) show ?thesis by (simp add: create_memo_def Let_def ethash_fseek_def io_ok_def)
qed

lemma prepare_ok:
  assumes "io_ok env" and "unat (full_size div 64) < 2 ^ 32"
  shows "\<exists>rc files'. ethash_io_prepare env files dirname seed full_size force = (rc, files') \<and>
    rc \<noteq> ETHASH_IO_FAIL \<and> (force \<longrightarrow> rc = ETHASH_IO_MEMO_MISMATCH)"
  using assms create_memo_ok [OF assms]
  by (auto simp: ethash_io_prepare_def io_ok_def io_all_ok_def check_memo_def Let_def split: option.splits)

lemma full_new_succeeds:
  assumes "os_ok env" and "full_size mod 128 = 0" and "unat (full_size div 64) < 2 ^ 32"
    and "wf_light light" and "quiet_callback full_size callback"
  shows "\<exists>full files'. ethash_full_new_internal env files dirname seed full_size light callback =
    (Inr (Some full), files')"
proof -
  note dag = compute_full_data_ok [OF assms(2-5)]
  have io: "io_ok (prepare1 env)" "io_ok (prepare2 env)" "calloc_ok env" "mmap_ok env"
    using assms(1) by (simp_all add: os_ok_def)
  have fill: "\<exists>full files'. fill_dag env fs1 path full_size light callback = (Inr (Some full), files')" for fs1 path
    using assms(1) dag by (simp add: fill_dag_def os_ok_def Let_def)
  obtain rc fs1 where p1: "ethash_io_prepare (prepare1 env) files dirname seed full_size False = (rc, fs1)"
      "rc \<noteq> ETHASH_IO_FAIL"
    using prepare_ok [OF io(1) assms(3)] by metis
  obtain fs2 where p2: "ethash_io_prepare (prepare2 env) fs1 dirname seed full_size True = (ETHASH_IO_MEMO_MISMATCH, fs2)"
    using prepare_ok [OF io(2) assms(3)] by metis
  show ?thesis
    using p1 p2 io fill by (cases rc) (simp_all add: ethash_full_new_internal_def Let_def)
qed

section \<open>File names are distinct\<close>

lemma dag_path_closed:
  "dag_path dirname seed = (if needs_separator dirname then dirname @ ''/'' else dirname) @ ethash_io_mutable_name seed"
  by (simp add: dag_path_def ethash_io_create_filename_def strncat_or_keep_def ethash_strncat_def Let_def)

lemma hex_digit_eq: "m < 16 \<Longrightarrow> n < 16 \<Longrightarrow> hex_digit m = hex_digit n \<longleftrightarrow> m = n"
proof -
  assume "m < 16" "n < 16"
  moreover have "distinct ''0123456789abcdef''" "length ''0123456789abcdef'' = 16" by simp_all
  ultimately show ?thesis unfolding hex_digit_def by (simp only: nth_eq_iff_index_eq)
qed

lemma hex_byte_eq: "hex_byte a = hex_byte b \<longleftrightarrow> a = b"
proof
  assume eq: "hex_byte a = hex_byte b"
  have "unat a div 16 < 16" "unat b div 16 < 16" using unat_u8_less [of a] unat_u8_less [of b] by auto
  with eq have "unat a div 16 = unat b div 16" "unat a mod 16 = unat b mod 16"
    by (simp_all add: hex_byte_def hex_digit_eq)
  then have "unat a = unat b" by (metis div_mult_mod_eq)
  then show "a = b" by (simp add: word_unat_eq_iff)
qed simp

lemma concat_hex_inj:
  "concat (map hex_byte xs) = concat (map hex_byte ys) \<longleftrightarrow> xs = ys"
proof (induction xs arbitrary: ys)
  case Nil
  then show ?case by (cases ys) (auto simp: hex_byte_def)
next
  case (Cons x xs)
  have len: "length (hex_byte a) = 2" for a by (simp add: hex_byte_def)
  show ?case
  proof (cases ys)
    case Nil
    then show ?thesis by (simp add: hex_byte_def)
  next
    case (Cons y ys')
    with Cons.IH [of ys'] show ?thesis by (simp add: append_eq_append_conv len hex_byte_eq)
  qed
qed

lemma dag_path_inj: "dag_path dirname seed = dag_path dirname seed' \<longleftrightarrow> take 8 seed = take 8 seed'"
  by (simp add: dag_path_closed ethash_io_mutable_name_def concat_hex_inj)

lemma length_mutable_name: "8 \<le> length seed \<Longrightarrow> length (ethash_io_mutable_name seed) = 25"
  by (simp add: ethash_io_mutable_name_def hex_byte_def length_concat comp_def sum_list_triv)

end
