(* ===== verification/Blake2b.thy ===== *)
theory Blake2b
  imports Prelude
begin

unbundle bit_operations_syntax

text \<open>
  BLAKE2b as \<open>src/src/Native/libubqhash\<close> implements it: \<open>blake2.c\<close>, the state and the parameter
  block of \<open>blake2.h\<close>, and \<open>load64\<close>, \<open>store64\<close>, \<open>rotr64\<close> of \<open>blake2-impl.h\<close>. The last two
  sections state RFC 7693 as a function of the whole message and show that the streaming
  implementation computes it however the message is cut into pieces.
\<close>

section \<open>Constants and state\<close>

definition blake2b_IV :: "u64 list" where
  "blake2b_IV = [0x6a09e667f3bcc908, 0xbb67ae8584caa73b, 0x3c6ef372fe94f82b, 0xa54ff53a5f1d36f1,
     0x510e527fade682d1, 0x9b05688c2b3e6c1f, 0x1f83d9abfb41bd6b, 0x5be0cd19137e2179]"

definition blake2b_sigma :: "nat list list" where
  "blake2b_sigma = [
    [ 0,  1,  2,  3,  4,  5,  6,  7,  8,  9, 10, 11, 12, 13, 14, 15],
    [14, 10,  4,  8,  9, 15, 13,  6,  1, 12,  0,  2, 11,  7,  5,  3],
    [11,  8, 12,  0,  5,  2, 15, 13, 10, 14,  3,  6,  7,  1,  9,  4],
    [ 7,  9,  3,  1, 13, 12, 11, 14,  2,  6,  5, 10,  4,  0, 15,  8],
    [ 9,  0,  5,  7,  2,  4, 10, 15, 14,  1, 11, 12,  6,  8,  3, 13],
    [ 2, 12,  6, 10,  0, 11,  8,  3,  4, 13,  7,  5, 15, 14,  1,  9],
    [12,  5,  1, 15, 14, 13,  4, 10,  0,  7,  6,  3,  9,  2,  8, 11],
    [13, 11,  7, 14, 12,  1,  3,  9,  5,  0, 15,  4,  8,  6,  2, 10],
    [ 6, 15, 14,  9, 11,  3,  0,  8, 12,  2, 13,  7,  1,  4, 10,  5],
    [10,  2,  8,  4,  7,  6,  1,  5, 15, 11,  9, 14,  3, 12, 13,  0],
    [ 0,  1,  2,  3,  4,  5,  6,  7,  8,  9, 10, 11, 12, 13, 14, 15],
    [14, 10,  4,  8,  9, 15, 13,  6,  1, 12,  0,  2, 11,  7,  5,  3]]"

abbreviation (input) BLAKE2B_BLOCKBYTES :: nat where "BLAKE2B_BLOCKBYTES \<equiv> 128"
abbreviation (input) BLAKE2B_OUTBYTES :: nat where "BLAKE2B_OUTBYTES \<equiv> 64"
abbreviation (input) BLAKE2B_KEYBYTES :: nat where "BLAKE2B_KEYBYTES \<equiv> 64"

record blake2b_state =
  b2h :: "u64 list"
  b2t0 :: u64
  b2t1 :: u64
  b2f0 :: u64
  b2f1 :: u64
  b2buf :: bytes
  b2buflen :: nat
  b2outlen :: nat
  b2last_node :: u8

record blake2b_param =
  digest_length :: u8
  key_length :: u8
  fanout :: u8
  depth :: u8
  leaf_length :: u32
  node_offset :: u32
  xof_length :: u32
  node_depth :: u8
  inner_length :: u8
  reserved :: bytes
  salt :: bytes
  personal :: bytes

text \<open>The packed struct seen as bytes.\<close>

definition param_bytes :: "blake2b_param \<Rightarrow> bytes" where
  "param_bytes P = [digest_length P, key_length P, fanout P, depth P]
     @ le_bytes 4 (leaf_length P) @ le_bytes 4 (node_offset P) @ le_bytes 4 (xof_length P)
     @ [node_depth P, inner_length P] @ reserved P @ salt P @ personal P"

section \<open>Helpers of the state\<close>

definition blake2b_set_lastnode :: "blake2b_state \<Rightarrow> blake2b_state" where
  "blake2b_set_lastnode S = S\<lparr>b2f1 := -1\<rparr>"

definition blake2b_is_lastblock :: "blake2b_state \<Rightarrow> bool" where
  "blake2b_is_lastblock S \<longleftrightarrow> b2f0 S \<noteq> 0"

definition blake2b_set_lastblock :: "blake2b_state \<Rightarrow> blake2b_state" where
  "blake2b_set_lastblock S =
     (let S = (if b2last_node S \<noteq> 0 then blake2b_set_lastnode S else S) in S\<lparr>b2f0 := -1\<rparr>)"

definition blake2b_increment_counter :: "blake2b_state \<Rightarrow> u64 \<Rightarrow> blake2b_state" where
  "blake2b_increment_counter S inc =
     (let S = S\<lparr>b2t0 := b2t0 S + inc\<rparr>
      in S\<lparr>b2t1 := b2t1 S + (if b2t0 S < inc then 1 else 0)\<rparr>)"

definition blake2b_init0 :: blake2b_state where
  "blake2b_init0 = \<lparr>b2h = blake2b_IV, b2t0 = 0, b2t1 = 0, b2f0 = 0, b2f1 = 0,
     b2buf = replicate BLAKE2B_BLOCKBYTES 0, b2buflen = 0, b2outlen = 0, b2last_node = 0\<rparr>"

definition blake2b_init_param :: "blake2b_param \<Rightarrow> blake2b_state" where
  "blake2b_init_param P =
     (let S = blake2b_init0;
          S = S\<lparr>b2h := map2 (XOR) (b2h S) (words_of (param_bytes P))\<rparr>
      in S\<lparr>b2outlen := unat (digest_length P)\<rparr>)"

text \<open>The parameter block that \<open>blake2b_init\<close> and \<open>blake2b_init_key\<close> fill in.\<close>

definition sequential_param :: "u8 \<Rightarrow> u8 \<Rightarrow> blake2b_param" where
  "sequential_param outlen keylen = \<lparr>digest_length = outlen, key_length = keylen, fanout = 1, depth = 1,
     leaf_length = 0, node_offset = 0, xof_length = 0, node_depth = 0, inner_length = 0,
     reserved = replicate 14 0, salt = replicate 16 0, personal = replicate 16 0\<rparr>"

definition blake2b_init :: "nat \<Rightarrow> blake2b_state option" where
  "blake2b_init outlen =
     (if outlen = 0 \<or> outlen > BLAKE2B_OUTBYTES then None
      else Some (blake2b_init_param (sequential_param (of_nat outlen) 0)))"

section \<open>Compression\<close>

definition G :: "u64 list \<Rightarrow> nat \<Rightarrow> nat \<Rightarrow> nat \<Rightarrow> nat \<Rightarrow> nat \<Rightarrow> nat \<Rightarrow> u64 list \<Rightarrow> u64 list" where
  "G m r i a b c d v =
     (let v = v[a := v ! a + v ! b + m ! (blake2b_sigma ! r ! (2 * i + 0))];
          v = v[d := ror64 (v ! d XOR v ! a) 32];
          v = v[c := v ! c + v ! d];
          v = v[b := ror64 (v ! b XOR v ! c) 24];
          v = v[a := v ! a + v ! b + m ! (blake2b_sigma ! r ! (2 * i + 1))];
          v = v[d := ror64 (v ! d XOR v ! a) 16];
          v = v[c := v ! c + v ! d]
      in v[b := ror64 (v ! b XOR v ! c) 63])"

definition ROUND :: "u64 list \<Rightarrow> nat \<Rightarrow> u64 list \<Rightarrow> u64 list" where
  "ROUND m r v =
     (let v = G m r 0 0 4  8 12 v;
          v = G m r 1 1 5  9 13 v;
          v = G m r 2 2 6 10 14 v;
          v = G m r 3 3 7 11 15 v;
          v = G m r 4 0 5 10 15 v;
          v = G m r 5 1 6 11 12 v;
          v = G m r 6 2 7  8 13 v
      in G m r 7 3 4 9 14 v)"

definition blake2b_compress :: "blake2b_state \<Rightarrow> bytes \<Rightarrow> blake2b_state" where
  "blake2b_compress S block =
     (let m = words_of (take BLAKE2B_BLOCKBYTES block);
          v = b2h S @
            [blake2b_IV ! 0, blake2b_IV ! 1, blake2b_IV ! 2, blake2b_IV ! 3,
             blake2b_IV ! 4 XOR b2t0 S, blake2b_IV ! 5 XOR b2t1 S,
             blake2b_IV ! 6 XOR b2f0 S, blake2b_IV ! 7 XOR b2f1 S];
          v = fold (ROUND m) [0, 1, 2, 3, 4, 5, 6, 7, 8, 9, 10, 11] v
      in S\<lparr>b2h := map (\<lambda>i. b2h S ! i XOR v ! i XOR v ! (i + 8)) [0, 1, 2, 3, 4, 5, 6, 7]\<rparr>)"

section \<open>Streaming interface\<close>

text \<open>The loop of \<open>blake2b_update\<close> over whole blocks: the state and the input that is left.\<close>

function update_blocks :: "blake2b_state \<Rightarrow> bytes \<Rightarrow> blake2b_state \<times> bytes" where
  "update_blocks S inp =
     (if length inp > BLAKE2B_BLOCKBYTES
      then update_blocks (blake2b_compress (blake2b_increment_counter S 128) inp) (drop 128 inp)
      else (S, inp))"
  by pat_completeness auto
termination
  by (relation "measure (\<lambda>(S, inp). length inp)") auto

declare update_blocks.simps [simp del]

definition blake2b_update :: "blake2b_state \<Rightarrow> bytes \<Rightarrow> blake2b_state" where
  "blake2b_update S inp =
     (if length inp > 0 then
        let left = b2buflen S;
            fill = BLAKE2B_BLOCKBYTES - left;
            (S, inp) =
              (if length inp > fill then
                 let S = S\<lparr>b2buflen := 0\<rparr>;
                     S = S\<lparr>b2buf := copy_at (b2buf S) left (take fill inp)\<rparr>;
                     S = blake2b_increment_counter S 128;
                     S = blake2b_compress S (b2buf S)
                 in update_blocks S (drop fill inp)
               else (S, inp));
            S = S\<lparr>b2buf := copy_at (b2buf S) (b2buflen S) inp\<rparr>
        in S\<lparr>b2buflen := b2buflen S + length inp\<rparr>
      else S)"

definition blake2b_init_key :: "nat \<Rightarrow> bytes option \<Rightarrow> nat \<Rightarrow> blake2b_state option" where
  "blake2b_init_key outlen key keylen =
     (if outlen = 0 \<or> outlen > BLAKE2B_OUTBYTES then None
      else case key of
          None \<Rightarrow> None
        | Some k \<Rightarrow>
            if keylen = 0 \<or> keylen > BLAKE2B_KEYBYTES then None
            else
              let S = blake2b_init_param (sequential_param (of_nat outlen) (of_nat keylen));
                  block = copy_at (replicate BLAKE2B_BLOCKBYTES 0) 0 (take keylen k)
              in Some (blake2b_update S block))"

text \<open>
  \<open>blake2b_final\<close>: \<open>None\<close> is the return value \<open>-1\<close>; otherwise the bytes stored at \<open>out\<close>
  and the state left behind. The argument \<open>outlen\<close> is the size of the buffer at \<open>out\<close>, and
  \<open>out_null\<close> says that it is \<open>NULL\<close>.
\<close>

definition blake2b_final :: "blake2b_state \<Rightarrow> bool \<Rightarrow> nat \<Rightarrow> (bytes \<times> blake2b_state) option" where
  "blake2b_final S out_null outlen =
     (if out_null \<or> outlen < b2outlen S then None
      else if blake2b_is_lastblock S then None
      else
        let S = blake2b_increment_counter S (of_nat (b2buflen S));
            S = blake2b_set_lastblock S;
            S = S\<lparr>b2buf := copy_at (b2buf S) (b2buflen S) (replicate (BLAKE2B_BLOCKBYTES - b2buflen S) 0)\<rparr>;
            S = blake2b_compress S (b2buf S);
            buffer = bytes_of (b2h S)
        in Some (take (b2outlen S) buffer, S))"

text \<open>
  \<open>blake2b\<close>: pointers are options (\<open>None\<close> is \<open>NULL\<close>), \<open>out\<close> is what the output buffer holds.
  The result \<open>None\<close> is \<open>-1\<close>, otherwise the buffer afterwards; the return value of
  \<open>blake2b_final\<close> is ignored, as in the source.
\<close>

definition blake2b :: "bytes option \<Rightarrow> nat \<Rightarrow> bytes option \<Rightarrow> nat \<Rightarrow> bytes option \<Rightarrow> nat \<Rightarrow> bytes option" where
  "blake2b out outlen inp inlen key keylen =
     (if inp = None \<and> inlen > 0 then None
      else case out of
          None \<Rightarrow> None
        | Some buffer \<Rightarrow>
            if key = None \<and> keylen > 0 then None
            else if outlen = 0 \<or> outlen > BLAKE2B_OUTBYTES then None
            else if keylen > BLAKE2B_KEYBYTES then None
            else case (if keylen > 0 then blake2b_init_key outlen key keylen else blake2b_init outlen) of
                None \<Rightarrow> None
              | Some S \<Rightarrow>
                  let S = (case inp of None \<Rightarrow> S | Some m \<Rightarrow> blake2b_update S (take inlen m))
                  in case blake2b_final S False outlen of
                       None \<Rightarrow> Some buffer
                     | Some (digest, S) \<Rightarrow> Some (copy_at buffer 0 digest))"

definition BLAKE2B_512 :: "bytes \<Rightarrow> bytes" where
  "BLAKE2B_512 m = the (blake2b (Some (replicate 64 0)) 64 (Some m) (length m) None 0)"

section \<open>RFC 7693\<close>

text \<open>
  The function of the RFC on a whole message: \<open>rfc_F\<close> is the compression function with an
  unbounded counter \<open>t\<close>, its twelve rounds taking the ten rows of the schedule in turn;
  \<open>rfc_blocks\<close> compresses all blocks but the last; \<open>blake2b_rfc\<close> prepends the key block and
  compresses the padded last block.
\<close>

definition rfc_F :: "u64 list \<Rightarrow> bytes \<Rightarrow> nat \<Rightarrow> bool \<Rightarrow> u64 list" where
  "rfc_F h block t final =
     (let m = words_of block;
          v = h @ take 4 blake2b_IV @
            [blake2b_IV ! 4 XOR of_nat (t mod 2 ^ 64), blake2b_IV ! 5 XOR of_nat (t div 2 ^ 64),
             blake2b_IV ! 6 XOR (if final then -1 else 0), blake2b_IV ! 7];
          v = fold (\<lambda>r. ROUND m (r mod 10)) [0..<12] v
      in map2 (XOR) (map2 (XOR) h (take 8 v)) (drop 8 v))"

function rfc_blocks :: "u64 list \<Rightarrow> nat \<Rightarrow> bytes \<Rightarrow> u64 list \<times> nat \<times> bytes" where
  "rfc_blocks h n d =
     (if length d > 128 then rfc_blocks (rfc_F h (take 128 d) (n + 128) False) (n + 128) (drop 128 d)
      else (h, n, d))"
  by pat_completeness auto
termination
  by (relation "measure (\<lambda>(h, n, d). length d)") auto

declare rfc_blocks.simps [simp del]

definition rfc_pad :: "bytes \<Rightarrow> bytes" where
  "rfc_pad d = d @ replicate (128 - length d) 0"

definition blake2b_rfc :: "nat \<Rightarrow> bytes \<Rightarrow> bytes \<Rightarrow> bytes" where
  "blake2b_rfc nn key msg =
     (let h0 = blake2b_IV[0 := blake2b_IV ! 0 XOR 0x01010000 XOR push_bit 8 (of_nat (length key)) XOR of_nat nn];
          (h, n, d) = rfc_blocks h0 0 ((if key = [] then [] else rfc_pad key) @ msg)
      in take nn (bytes_of (rfc_F h (rfc_pad d) (n + length d) True)))"

section \<open>The streaming implementation computes it\<close>

text \<open>The two counter words hold the number of bytes absorbed, modulo $2^{128}$.\<close>

definition counts :: "nat \<Rightarrow> blake2b_state \<Rightarrow> bool" where
  "counts n S \<longleftrightarrow> b2t0 S = of_nat (n mod 2 ^ 64) \<and> b2t1 S = of_nat (n div 2 ^ 64)"

lemma carry_div:
  assumes "k < (2 :: nat) ^ 64"
  shows "(n + k) div 2 ^ 64 = n div 2 ^ 64 + (if (n + k) mod 2 ^ 64 < k then 1 else 0)"
proof -
  define M q r where "M = (2 :: nat) ^ 64" and "q = n div M" and "r = n mod M"
  have n: "n = M * q + r" and r: "r < M" by (simp_all add: M_def q_def r_def)
  have k: "k < M" using assms by (simp add: M_def)
  have "(n + k) div M = q + (if (n + k) mod M < k then 1 else 0)"
  proof (cases "r + k < M")
    case True
    then have "(M * q + (r + k)) div M = q" "(M * q + (r + k)) mod M = r + k" by simp_all
    then show ?thesis by (simp add: n add.assoc)
  next
    case False
    then have e: "n + k = M * (q + 1) + (r + k - M)" and l: "r + k - M < M"
      using r k by (simp_all add: n algebra_simps)
    have "(n + k) div M = q + 1" "(n + k) mod M = r + k - M"
      unfolding e using l by (simp_all only: div_mult_self4 mod_mult_self4 div_less mod_less r)
    then show ?thesis using r k False by simp
  qed
  then show ?thesis by (simp add: M_def q_def)
qed

lemma of_nat_mod_64: "(of_nat (n mod 18446744073709551616) :: u64) = of_nat n"
  by (simp add: word_unat_eq_iff unat_of_nat)

lemma counts_increment:
  assumes "counts n S" and "k < 2 ^ 64"
  shows "counts (n + k) (blake2b_increment_counter S (of_nat k))"
proof -
  have t0: "b2t0 S + of_nat k = of_nat ((n + k) mod 2 ^ 64)"
    using assms(1) by (simp add: counts_def of_nat_mod_64)
  have "b2t0 S + of_nat k < (of_nat k :: u64) \<longleftrightarrow> (n + k) mod 2 ^ 64 < k"
    using assms(2) unfolding t0 by (simp add: word_less_nat_alt unat_of_nat)
  moreover have "b2t0 (blake2b_increment_counter S (of_nat k)) = b2t0 S + of_nat k"
    "b2t1 (blake2b_increment_counter S (of_nat k)) =
       b2t1 S + (if b2t0 S + of_nat k < of_nat k then 1 else 0)"
    by (simp_all add: blake2b_increment_counter_def Let_def)
  moreover have "b2t1 S = of_nat (n div 2 ^ 64)" using assms(1) by (simp add: counts_def)
  ultimately show ?thesis
    unfolding counts_def carry_div [OF assms(2)] by (simp only: t0 of_nat_add) simp
qed

lemma counts_incremented:
  assumes "counts n S" and "k < 2 ^ 64"
    and "b2t0 S' = b2t0 (blake2b_increment_counter S (of_nat k))"
    and "b2t1 S' = b2t1 (blake2b_increment_counter S (of_nat k))"
  shows "counts (n + k) S'"
  using counts_increment [OF assms(1,2)] assms(3,4) by (simp only: counts_def)

lemma sigma_rows: "blake2b_sigma ! 10 = blake2b_sigma ! 0" "blake2b_sigma ! 11 = blake2b_sigma ! 1"
  by (simp_all add: blake2b_sigma_def)

lemma ROUND_rows: "ROUND m 10 = ROUND m 0" "ROUND m 11 = ROUND m 1"
  by (intro ext, simp only: ROUND_def G_def sigma_rows)+

lemma length_G [simp, bufs]: "length (G m r i a b c d v) = length v"
  by (simp add: G_def Let_def)

lemma length_ROUND [simp, bufs]: "length (ROUND m r v) = length v"
  by (simp add: ROUND_def Let_def)

lemma length_rounds [simp, bufs]: "length (fold (ROUND m) rs v) = length v"
  by (rule length_fold_update) simp

lemma rounds_mod: "fold (\<lambda>r. ROUND m (r mod 10)) [0..<12] v = fold (ROUND m) [0, 1, 2, 3, 4, 5, 6, 7, 8, 9, 10, 11] v"
  proof -
  have "[0..<12] = [0, 1, 2, 3, 4, 5, 6, 7, 8, 9, 10, 11 :: nat]" by (simp add: upt_rec)
  then show ?thesis by (simp only:) (simp add: ROUND_rows)
qed

lemma feed_forward:
  assumes "length h = 8" and "length v = 16"
  shows "map (\<lambda>i. h ! i XOR v ! i XOR v ! (i + 8)) [0, 1, 2, 3, 4, 5, 6, 7] =
    map2 (XOR) (map2 (XOR) h (take 8 v)) (drop 8 (v :: u64 list))"
proof -
  have upt: "[0, 1, 2, 3, 4, 5, 6, 7] = [0..<8]" by (simp add: upt_rec)
  show ?thesis
    unfolding upt by (rule nth_equalityI) (use assms in \<open>simp_all add: add.commute xor.assoc\<close>)
qed

lemma compress_rfc:
  assumes "length (b2h S) = 8" and "counts n S"
    and "b2f0 S = (if final then -1 else 0)" and "b2f1 S = 0"
  shows "blake2b_compress S block = S\<lparr>b2h := rfc_F (b2h S) (take 128 block) n final\<rparr>"
proof -
  let ?v = "b2h S @ [blake2b_IV ! 0, blake2b_IV ! 1, blake2b_IV ! 2, blake2b_IV ! 3,
    blake2b_IV ! 4 XOR b2t0 S, blake2b_IV ! 5 XOR b2t1 S, blake2b_IV ! 6 XOR b2f0 S,
    blake2b_IV ! 7 XOR b2f1 S]"
  have v: "b2h S @ take 4 blake2b_IV @ [blake2b_IV ! 4 XOR of_nat (n mod 2 ^ 64),
      blake2b_IV ! 5 XOR of_nat (n div 2 ^ 64), blake2b_IV ! 6 XOR (if final then -1 else 0),
      blake2b_IV ! 7] = ?v"
    using assms by (simp add: counts_def blake2b_IV_def)
  have "length ?v = 16" using assms(1) by simp
  then have len: "length (fold (ROUND m) rs ?v) = 16" for m rs by (simp only: length_rounds)
  show ?thesis
    unfolding blake2b_compress_def rfc_F_def Let_def v rounds_mod feed_forward [OF assms(1) len] ..
qed

lemma length_rfc_F [simp, bufs]: "length h = 8 \<Longrightarrow> length (rfc_F h block n final) = 8"
  by (simp add: rfc_F_def Let_def rounds_mod blake2b_IV_def)

lemma rfc_blocks_step:
  "length d > 128 \<Longrightarrow>
     rfc_blocks h n d = rfc_blocks (rfc_F h (take 128 d) (n + 128) False) (n + 128) (drop 128 d)"
  by (simp add: rfc_blocks.simps [of h n d])

lemma rfc_blocks_stop: "length d \<le> 128 \<Longrightarrow> rfc_blocks h n d = (h, n, d)"
  by (simp add: rfc_blocks.simps [of h n d])

lemma rfc_blocks_append:
  "rfc_blocks h n (d @ e) = (case rfc_blocks h n d of (h', n', r) \<Rightarrow> rfc_blocks h' n' (r @ e))"
proof (induction h n d rule: rfc_blocks.induct)
  case (1 h n d)
  show ?case
  proof (cases "length d > 128")
    case True
    with 1 show ?thesis by (simp add: rfc_blocks_step)
  qed (simp add: rfc_blocks_stop)
qed

lemma rfc_blocks_short: "rfc_blocks h n d = (h', n', r) \<Longrightarrow> length h = 8 \<Longrightarrow> length h' = 8 \<and> length r \<le> 128"
proof (induction h n d rule: rfc_blocks.induct)
  case (1 h n d)
  then show ?case by (subst (asm) rfc_blocks.simps) (auto split: if_splits)
qed

text \<open>
  The invariant of the stream: the message absorbed so far is \<open>d\<close>, of which the blocks
  that cannot be the last were compressed and the rest is at the start of the buffer.
\<close>

definition absorbed :: "u64 list \<Rightarrow> bytes \<Rightarrow> blake2b_state \<Rightarrow> bool" where
  "absorbed h0 d S \<longleftrightarrow>
     (case rfc_blocks h0 0 d of (h, n, r) \<Rightarrow>
        b2h S = h \<and> counts n S \<and> b2buflen S = length r \<and> take (length r) (b2buf S) = r)
     \<and> length (b2buf S) = 128 \<and> b2f0 S = 0 \<and> b2f1 S = 0 \<and> b2last_node S = 0"

text \<open>What the loop and the update leave alone.\<close>

definition same_frame :: "blake2b_state \<Rightarrow> blake2b_state \<Rightarrow> bool" where
  "same_frame S S' \<longleftrightarrow> b2f0 S' = b2f0 S \<and> b2f1 S' = b2f1 S \<and> b2outlen S' = b2outlen S
     \<and> b2last_node S' = b2last_node S"

lemma compress_counted:
  assumes "length (b2h S) = 8" and "counts n S" and "b2f0 S = 0" and "b2f1 S = 0" and "k < 2 ^ 64"
  shows "blake2b_compress (blake2b_increment_counter S (of_nat k)) block =
    (blake2b_increment_counter S (of_nat k))\<lparr>b2h := rfc_F (b2h S) (take 128 block) (n + k) False\<rparr>"
proof -
  let ?S = "blake2b_increment_counter S (of_nat k)"
  have "b2h ?S = b2h S" "b2f0 ?S = 0" "b2f1 ?S = 0"
    using assms by (simp_all add: blake2b_increment_counter_def Let_def)
  then show ?thesis
    using compress_rfc [of ?S "n + k" False block] counts_increment [OF assms(2,5)] assms(1) by simp
qed

lemma update_blocks_rfc:
  "update_blocks S inp = (S', rest) \<Longrightarrow> length (b2h S) = 8 \<Longrightarrow> counts n S \<Longrightarrow>
   b2f0 S = 0 \<Longrightarrow> b2f1 S = 0 \<Longrightarrow>
   same_frame S S' \<and> b2buf S' = b2buf S \<and> b2buflen S' = b2buflen S \<and>
   (case rfc_blocks (b2h S) n inp of (h, n', r) \<Rightarrow> b2h S' = h \<and> counts n' S' \<and> r = rest)"
proof (induction S inp arbitrary: n rule: update_blocks.induct)
  case (1 S inp)
  show ?case
  proof (cases "length inp > 128")
    case True
    let ?S = "blake2b_compress (blake2b_increment_counter S 128) inp"
    have S: "?S = (blake2b_increment_counter S 128)\<lparr>b2h := rfc_F (b2h S) (take 128 inp) (n + 128) False\<rparr>"
      using compress_counted [OF "1.prems"(2-5), of 128 inp] by simp
    have counts: "counts (n + 128) ?S"
      using counts_increment [OF "1.prems"(3), of 128] by (simp add: S counts_def)
    have frame: "b2f0 ?S = b2f0 S" "b2f1 ?S = b2f1 S" "b2outlen ?S = b2outlen S" "b2buf ?S = b2buf S"
      "b2buflen ?S = b2buflen S" "b2last_node ?S = b2last_node S"
      "b2h ?S = rfc_F (b2h S) (take 128 inp) (n + 128) False"
      unfolding S by (simp_all add: blake2b_increment_counter_def Let_def)
    have "update_blocks ?S (drop 128 inp) = (S', rest)"
      using True "1.prems"(1) by (simp add: update_blocks.simps [of S inp])
    from "1.IH" [OF True this _ counts] show ?thesis
      using True "1.prems" by (simp add: frame same_frame_def rfc_blocks_step)
  next
    case False
    with "1.prems" show ?thesis
      by (auto simp: update_blocks.simps [of S inp] rfc_blocks_stop same_frame_def)
  qed
qed

lemma absorbed_update:
  assumes "absorbed h0 d S" and "length h0 = 8"
  shows "absorbed h0 (d @ e) (blake2b_update S e) \<and> b2outlen (blake2b_update S e) = b2outlen S"
proof -
  obtain h n r where d: "rfc_blocks h0 0 d = (h, n, r)" using prod_cases3 by blast
  with assms have S: "b2h S = h" "counts n S" "b2buflen S = length r" "take (length r) (b2buf S) = r"
      "length (b2buf S) = 128" "b2f0 S = 0" "b2f1 S = 0" "b2last_node S = 0"
    and h: "length h = 8" and r: "length r \<le> 128"
    using rfc_blocks_short [OF d] by (auto simp: absorbed_def)
  have de: "rfc_blocks h0 0 (d @ e) = rfc_blocks h n (r @ e)" by (simp add: rfc_blocks_append [of h0 0 d e] d)
  consider "e = []" | "e \<noteq> []" "length e \<le> 128 - length r" | "length e > 128 - length r" by fastforce
  then show ?thesis
  proof cases
    case 1
    with assms show ?thesis by (simp add: blake2b_update_def)
  next
    case 2
    then have "length (r @ e) \<le> 128" using r by simp
    with 2 S show ?thesis
      by (simp add: blake2b_update_def Let_def absorbed_def de rfc_blocks_stop counts_def
          take_copy_at [of "length r" e "b2buf S", simplified])
  next
    case 3
    let ?fill = "128 - length r"
    let ?b = "r @ take ?fill e"
    define S1 where "S1 = S\<lparr>b2buflen := 0, b2buf := ?b\<rparr>"
    have b: "length ?b = 128" "take 128 (r @ e) = ?b" "drop 128 (r @ e) = drop ?fill e"
      using r 3 by simp_all
    have buf: "copy_at (b2buf S) (length r) (take ?fill e) = ?b"
      using S r 3 by (simp add: copy_at_full)
    have buf1: "b2buf (blake2b_increment_counter S1 128) = ?b"
      by (simp add: S1_def blake2b_increment_counter_def Let_def)
    define S2 where "S2 = blake2b_compress (blake2b_increment_counter S1 128) ?b"
    have S2: "S2 = (blake2b_increment_counter S1 128)\<lparr>b2h := rfc_F h ?b (n + 128) False\<rparr>"
      using compress_counted [of S1 n 128 ?b] S h b(1) by (simp add: S1_def S2_def counts_def)
    have c2: "counts (n + 128) S2"
      by (rule counts_incremented [OF S(2)])
        (simp_all add: S2 S1_def blake2b_increment_counter_def Let_def)
    have f2: "b2h S2 = rfc_F h ?b (n + 128) False" "b2f0 S2 = 0" "b2f1 S2 = 0" "b2buf S2 = ?b"
        "b2buflen S2 = 0" "b2outlen S2 = b2outlen S" "b2last_node S2 = 0"
      using S by (simp_all add: S2 S1_def blake2b_increment_counter_def Let_def)
    obtain S3 rest where S3: "update_blocks S2 (drop ?fill e) = (S3, rest)" by fastforce
    obtain h' n' r' where de': "rfc_blocks h0 0 (d @ e) = (h', n', r')" using prod_cases3 by blast
    have step: "rfc_blocks (b2h S2) (n + 128) (drop ?fill e) = (h', n', r')"
      using de' 3 r rfc_blocks_step [of "r @ e" h n] by (simp add: de b(2,3) f2)
    have inv: "same_frame S2 S3" "b2buf S3 = ?b" "b2buflen S3 = 0" "b2h S3 = h'" "counts n' S3" "r' = rest"
      using update_blocks_rfc [OF S3 _ c2] f2 h step by auto
    have "length rest \<le> 128"
      using rfc_blocks_short [OF step] f2 h inv by simp
    moreover have "blake2b_update S e =
        S3\<lparr>b2buf := copy_at ?b 0 rest, b2buflen := length rest\<rparr>"
      using 3 S S3 inv buf buf1
      by (auto simp: blake2b_update_def Let_def S1_def [symmetric] S2_def [symmetric])
    ultimately show ?thesis
      using inv f2 b(1) take_copy_at [of 0 rest ?b]
      by (simp add: absorbed_def de' counts_def same_frame_def)
  qed
qed

lemma absorbed_updates:
  "absorbed h0 d S \<Longrightarrow> length h0 = 8 \<Longrightarrow>
     absorbed h0 (d @ concat es) (foldl blake2b_update S es) \<and>
     b2outlen (foldl blake2b_update S es) = b2outlen S"
proof (induction es arbitrary: d S)
  case (Cons e es)
  from absorbed_update [OF Cons.prems, of e] Cons.IH [of "d @ e" "blake2b_update S e"] Cons.prems(2)
  show ?case by simp
qed simp

lemma absorbed_final:
  assumes "absorbed h0 d S" and "length h0 = 8" and "b2outlen S \<le> outlen"
  shows "\<exists>S'. blake2b_final S False outlen = Some (take (b2outlen S) (bytes_of
      (case rfc_blocks h0 0 d of (h, n, r) \<Rightarrow> rfc_F h (rfc_pad r) (n + length r) True)), S')
    \<and> blake2b_is_lastblock S'"
proof -
  obtain h n r where d: "rfc_blocks h0 0 d = (h, n, r)" using prod_cases3 by blast
  with assms have S: "b2h S = h" "counts n S" "b2buflen S = length r" "take (length r) (b2buf S) = r"
      "length (b2buf S) = 128" "b2f0 S = 0" "b2f1 S = 0" "b2last_node S = 0"
    and h: "length h = 8" and r: "length r \<le> 128"
    using rfc_blocks_short [OF d] by (auto simp: absorbed_def)
  define S1 where "S1 = blake2b_set_lastblock (blake2b_increment_counter S (of_nat (length r)))"
  have S1: "b2h S1 = h" "b2f0 S1 = -1" "b2f1 S1 = 0" "b2buf S1 = b2buf S" "b2outlen S1 = b2outlen S"
      "b2buflen S1 = length r"
    using S by (simp_all add: S1_def blake2b_set_lastblock_def blake2b_increment_counter_def Let_def)
  have c1: "counts (n + length r) S1"
    by (rule counts_incremented [OF S(2)])
      (use r S(8) in \<open>simp_all add: S1_def blake2b_set_lastblock_def Let_def blake2b_increment_counter_def\<close>)
  have pad: "copy_at (b2buf S) (length r) (replicate (128 - length r) 0) = rfc_pad r"
    using S(4,5) r by (simp add: copy_at_full rfc_pad_def)
  have len: "take 128 (rfc_pad r) = rfc_pad r" using r by (simp add: rfc_pad_def)
  have "blake2b_compress (S1\<lparr>b2buf := rfc_pad r\<rparr>) (rfc_pad r) =
      S1\<lparr>b2buf := rfc_pad r, b2h := rfc_F h (rfc_pad r) (n + length r) True\<rparr>"
    using compress_rfc [of "S1\<lparr>b2buf := rfc_pad r\<rparr>" "n + length r" True "rfc_pad r"] S1 h c1 len
    by (simp add: counts_def)
  then have "blake2b_final S False outlen = Some (take (b2outlen S) (bytes_of
      (rfc_F h (rfc_pad r) (n + length r) True)),
      S1\<lparr>b2buf := rfc_pad r, b2h := rfc_F h (rfc_pad r) (n + length r) True\<rparr>)"
    using assms(3) S S1 pad
    by (simp add: blake2b_final_def blake2b_is_lastblock_def Let_def S1_def [symmetric])
  then show ?thesis using S1 by (simp add: d blake2b_is_lastblock_def)
qed

section \<open>Initial states\<close>

lemma param_word:
  assumes "nn \<le> 64" and "kk \<le> 64"
  shows "(le_word [of_nat nn, of_nat kk, 1, 1, 0, 0, 0, 0] :: u64) =
    0x01010000 XOR push_bit 8 (of_nat kk) XOR of_nat nn"
proof -
  have c: "(0x01010000 :: u64) = push_bit 16 1 OR push_bit 24 1" by simp
  have b: "bit (0x01010000 :: u64) i \<longleftrightarrow> i = 16 \<or> i = 24" for i
    by (simp only: c bit_or_iff bit_push_bit_iff bit_1_iff possible_bit_word) auto
  have u: "(of_nat k :: u64) = ucast (of_nat k :: u8)" if "k \<le> 64" for k
    using that by (simp add: word_unat_eq_iff unat_ucast_small unat_of_nat)
  have l: "(le_word [x, y, 1, 1, 0, 0, 0, 0] :: u64) = ucast x OR push_bit 8 (ucast y) OR 0x01010000" for x y
    by (simp add: push_bit_or)
  show ?thesis
    unfolding u [OF assms(1)] u [OF assms(2)] l
    by (rule bit_eqI, simp only: bit_xor_iff bit_or_iff b) (auto simp: bit_simps dest: bit_imp_le_length)
qed

definition h_init :: "nat \<Rightarrow> nat \<Rightarrow> u64 list" where
  "h_init nn kk = blake2b_IV[0 := blake2b_IV ! 0 XOR 0x01010000 XOR push_bit 8 (of_nat kk) XOR of_nat nn]"

lemma length_h_init [simp]: "length (h_init nn kk) = 8"
  by (simp add: h_init_def blake2b_IV_def)

lemma init_param_absorbed:
  assumes "nn \<le> 64" and "kk \<le> 64"
  defines "S \<equiv> blake2b_init_param (sequential_param (of_nat nn) (of_nat kk))"
  shows "absorbed (h_init nn kk) [] S" and "b2outlen S = nn"
proof -
  have "words_of (param_bytes (sequential_param (of_nat nn) (of_nat kk))) =
      [le_word [of_nat nn, of_nat kk, 1, 1, 0, 0, 0, 0], 0, 0, 0, 0, 0, 0, 0]"
    by (simp add: words_of_def param_bytes_def sequential_param_def chunks.simps eval_nat_numeral)
  then have "b2h S = h_init nn kk"
    unfolding S_def blake2b_init_param_def Let_def param_word [OF assms(1,2)]
    by (simp add: blake2b_init0_def h_init_def blake2b_IV_def)
  then show "absorbed (h_init nn kk) [] S"
    by (simp add: absorbed_def rfc_blocks_stop counts_def)
      (simp add: S_def blake2b_init_param_def blake2b_init0_def Let_def)
  show "b2outlen S = nn"
    using assms(1) by (simp add: S_def blake2b_init_param_def Let_def sequential_param_def unat_of_nat)
qed

text \<open>The state after initialisation, with or without a key.\<close>

definition blake2b_start :: "nat \<Rightarrow> bytes \<Rightarrow> blake2b_state option" where
  "blake2b_start nn key =
     (if key = [] then blake2b_init nn else blake2b_init_key nn (Some key) (length key))"

lemma start_absorbed:
  assumes "0 < nn" and "nn \<le> 64" and "length key \<le> 64"
  shows "\<exists>S. blake2b_start nn key = Some S \<and> b2outlen S = nn \<and>
    absorbed (h_init nn (length key)) (if key = [] then [] else rfc_pad key) S"
proof (cases "key = []")
  case True
  then show ?thesis
    using init_param_absorbed [OF assms(2), of 0] assms by (simp add: blake2b_start_def blake2b_init_def)
next
  case False
  have "copy_at (replicate 128 0) 0 key = rfc_pad key" by (simp add: copy_at_def rfc_pad_def)
  then show ?thesis
    using absorbed_update [OF init_param_absorbed(1) [OF assms(2,3)], of "rfc_pad key"]
      init_param_absorbed(2) [OF assms(2,3)] assms False
    by (simp add: blake2b_start_def blake2b_init_key_def Let_def)
qed

lemma blake2b_rfc_absorbed:
  "blake2b_rfc nn key msg = take nn (bytes_of
     (case rfc_blocks (h_init nn (length key)) 0 ((if key = [] then [] else rfc_pad key) @ msg) of
        (h, n, r) \<Rightarrow> rfc_F h (rfc_pad r) (n + length r) True))"
  by (simp add: blake2b_rfc_def h_init_def Let_def split: prod.split)

lemma start_updates_final:
  assumes "0 < nn" and "nn \<le> 64" and "length key \<le> 64" and "nn \<le> outlen"
  shows "\<exists>S S'. blake2b_start nn key = Some S \<and>
    blake2b_final (foldl blake2b_update S pieces) False outlen =
      Some (blake2b_rfc nn key (concat pieces), S') \<and> blake2b_is_lastblock S'"
proof -
  obtain S where S: "blake2b_start nn key = Some S" "b2outlen S = nn"
      "absorbed (h_init nn (length key)) (if key = [] then [] else rfc_pad key) S"
    using start_absorbed [OF assms(1-3)] by blast
  let ?S = "foldl blake2b_update S pieces"
  have "absorbed (h_init nn (length key)) ((if key = [] then [] else rfc_pad key) @ concat pieces) ?S"
    and out: "b2outlen ?S = nn"
    using absorbed_updates [OF S(3) length_h_init, of pieces] S(2) by simp_all
  from absorbed_final [OF this(1) length_h_init, of outlen] show ?thesis
    unfolding blake2b_rfc_absorbed using S(1) assms(4) by (simp only: out) blast
qed

lemma length_blake2b_rfc:
  assumes "nn \<le> 64"
  shows "length (blake2b_rfc nn key msg) = nn"
proof -
  obtain h n r where r: "rfc_blocks (h_init nn (length key)) 0
      ((if key = [] then [] else rfc_pad key) @ msg) = (h, n, r)"
    using prod_cases3 by blast
  then show ?thesis
    using rfc_blocks_short [OF r] assms by (simp add: blake2b_rfc_absorbed)
qed

lemma blake2b_one_shot:
  assumes "0 < nn" and "nn \<le> 64" and "length key \<le> 64"
  shows "blake2b (Some buffer) nn (Some msg) (length msg) (Some key) (length key) =
    Some (copy_at buffer 0 (blake2b_rfc nn key msg))"
proof -
  obtain S S' where "blake2b_start nn key = Some S"
      "blake2b_final (blake2b_update S msg) False nn = Some (blake2b_rfc nn key msg, S')"
    using start_updates_final [OF assms order_refl, where pieces = "[msg]"] by auto
  with assms show ?thesis
    by (cases "key = []") (auto simp: blake2b_def blake2b_start_def Let_def)
qed

lemma BLAKE2B_512_rfc: "BLAKE2B_512 m = blake2b_rfc 64 [] m"
proof -
  have "blake2b (Some (replicate 64 0)) 64 (Some m) (length m) None 0 =
      blake2b (Some (replicate 64 0)) 64 (Some m) (length m) (Some []) (length [])"
    by (simp add: blake2b_def)
  then show ?thesis
    using blake2b_one_shot [of 64 "[]" "replicate 64 0" m]
    by (simp add: BLAKE2B_512_def copy_at_def length_blake2b_rfc)
qed

lemma length_BLAKE2B_512 [simp, bufs]: "length (BLAKE2B_512 m) = 64"
  by (simp add: BLAKE2B_512_rfc length_blake2b_rfc)

section \<open>Errors and the counter\<close>

lemma final_refused: "blake2b_final S out_null outlen = None \<longleftrightarrow> out_null \<or> outlen < b2outlen S \<or> blake2b_is_lastblock S"
  by (simp add: blake2b_final_def Let_def)

lemma blake2b_refused:
  "blake2b out outlen inp inlen key keylen = None \<longleftrightarrow>
     inp = None \<and> 0 < inlen \<or> out = None \<or> key = None \<and> 0 < keylen \<or> outlen = 0 \<or> 64 < outlen \<or> 64 < keylen"
  by (auto simp: blake2b_def blake2b_init_def blake2b_init_key_def Let_def split: option.splits prod.splits if_splits)

definition counter_value :: "blake2b_state \<Rightarrow> nat" where
  "counter_value S = unat (b2t0 S) + 2 ^ 64 * unat (b2t1 S)"

lemma counts_value: "counts (counter_value S) S"
proof -
  have "unat (b2t0 S) < 2 ^ 64" using unat_less [of "b2t0 S"] by simp
  then have "counter_value S mod 2 ^ 64 = unat (b2t0 S)" "counter_value S div 2 ^ 64 = unat (b2t1 S)"
    by (simp_all add: counter_value_def)
  then show ?thesis by (simp add: counts_def)
qed

lemma counter_value_counts:
  assumes "counts n S"
  shows "counter_value S = n mod 2 ^ 128"
proof -
  have "counter_value S = n mod 2 ^ 64 + 2 ^ 64 * ((n div 2 ^ 64) mod 2 ^ 64)"
    using assms by (simp add: counts_def counter_value_def unat_of_nat)
  also have "\<dots> = n mod (2 ^ 64 * 2 ^ 64)" by (simp only: mod_mult2_eq add.commute)
  finally show ?thesis by (simp add: power_add [symmetric])
qed

end
