(* ===== verification/Blake3.thy ===== *)
theory Blake3
  imports Prelude
begin

unbundle bit_operations_syntax

text \<open>
  The BLAKE3 reference implementation at the end of \<open>src/src/Native/libethhashb3/internal.c\<close>
  (lines 519--885), with its structs in \<open>internal.h\<close>: chunk states, the stack of subtree chaining
  values, and the incremental hasher. The later sections define the hash as a tree over the whole
  message and show that the incremental hasher computes it, for every way of cutting the message.
\<close>

section \<open>Compression\<close>

definition b3_IV :: "u32 list" where
  "b3_IV = [0x6A09E667, 0xBB67AE85, 0x3C6EF372, 0xA54FF53A, 0x510E527F, 0x9B05688C, 0x1F83D9AB, 0x5BE0CD19]"

definition MSG_PERMUTATION :: "nat list" where
  "MSG_PERMUTATION = [2, 6, 3, 10, 7, 0, 4, 13, 1, 11, 12, 5, 9, 14, 15, 8]"

abbreviation (input) CHUNK_START :: u32 where "CHUNK_START \<equiv> 1"
abbreviation (input) CHUNK_END :: u32 where "CHUNK_END \<equiv> 2"
abbreviation (input) PARENT :: u32 where "PARENT \<equiv> 4"
abbreviation (input) ROOT :: u32 where "ROOT \<equiv> 8"
abbreviation (input) KEYED_HASH :: u32 where "KEYED_HASH \<equiv> 16"
abbreviation (input) DERIVE_KEY_CONTEXT :: u32 where "DERIVE_KEY_CONTEXT \<equiv> 32"
abbreviation (input) DERIVE_KEY_MATERIAL :: u32 where "DERIVE_KEY_MATERIAL \<equiv> 64"
abbreviation (input) BLAKE3_BLOCK_LEN :: nat where "BLAKE3_BLOCK_LEN \<equiv> 64"
abbreviation (input) BLAKE3_CHUNK_LEN :: nat where "BLAKE3_CHUNK_LEN \<equiv> 1024"
abbreviation (input) BLAKE3_KEY_LEN :: nat where "BLAKE3_KEY_LEN \<equiv> 32"

definition b3_g :: "nat \<Rightarrow> nat \<Rightarrow> nat \<Rightarrow> nat \<Rightarrow> u32 \<Rightarrow> u32 \<Rightarrow> u32 list \<Rightarrow> u32 list" where
  "b3_g a b c d mx my st =
     (let st = st[a := st ! a + st ! b + mx];
          st = st[d := ror32 (st ! d XOR st ! a) 16];
          st = st[c := st ! c + st ! d];
          st = st[b := ror32 (st ! b XOR st ! c) 12];
          st = st[a := st ! a + st ! b + my];
          st = st[d := ror32 (st ! d XOR st ! a) 8];
          st = st[c := st ! c + st ! d]
      in st[b := ror32 (st ! b XOR st ! c) 7])"

definition round_function :: "u32 list \<Rightarrow> u32 list \<Rightarrow> u32 list" where
  "round_function m st =
     (let st = b3_g 0 4  8 12 (m ! 0) (m ! 1) st;
          st = b3_g 1 5  9 13 (m ! 2) (m ! 3) st;
          st = b3_g 2 6 10 14 (m ! 4) (m ! 5) st;
          st = b3_g 3 7 11 15 (m ! 6) (m ! 7) st;
          st = b3_g 0 5 10 15 (m ! 8) (m ! 9) st;
          st = b3_g 1 6 11 12 (m ! 10) (m ! 11) st;
          st = b3_g 2 7  8 13 (m ! 12) (m ! 13) st
      in b3_g 3 4 9 14 (m ! 14) (m ! 15) st)"

definition permute :: "u32 list \<Rightarrow> u32 list" where
  "permute m = map (\<lambda>i. m ! (MSG_PERMUTATION ! i)) [0, 1, 2, 3, 4, 5, 6, 7, 8, 9, 10, 11, 12, 13, 14, 15]"

definition b3_compress :: "u32 list \<Rightarrow> u32 list \<Rightarrow> u64 \<Rightarrow> u32 \<Rightarrow> u32 \<Rightarrow> u32 list" where
  "b3_compress chaining_value block_words counter block_len flags =
     (let st = take 8 chaining_value @ take 4 b3_IV
            @ [ucast counter, ucast (drop_bit 32 counter), block_len, flags];
          block = block_words;
          st = round_function block st; block = permute block;
          st = round_function block st; block = permute block;
          st = round_function block st; block = permute block;
          st = round_function block st; block = permute block;
          st = round_function block st; block = permute block;
          st = round_function block st; block = permute block;
          st = round_function block st
      in fold (\<lambda>i st.
           let st = st[i := st ! i XOR st ! (i + 8)]
           in st[i + 8 := st ! (i + 8) XOR chaining_value ! i]) [0, 1, 2, 3, 4, 5, 6, 7] st)"

fun words_from_little_endian_bytes :: "bytes \<Rightarrow> u32 list" where
  "words_from_little_endian_bytes (b0 # b1 # b2 # b3 # bs) =
     (ucast b0 + push_bit 8 (ucast b1) + push_bit 16 (ucast b2) + push_bit 24 (ucast b3))
     # words_from_little_endian_bytes bs"
| "words_from_little_endian_bytes _ = []"

section \<open>Outputs\<close>

record b3_output =
  o_input_chaining_value :: "u32 list"
  o_block_words :: "u32 list"
  o_counter :: u64
  o_block_len :: u32
  o_flags :: u32

definition output_chaining_value :: "b3_output \<Rightarrow> u32 list" where
  "output_chaining_value self =
     take 8 (b3_compress (o_input_chaining_value self) (o_block_words self) (o_counter self)
       (o_block_len self) (o_flags self))"

function output_root_bytes :: "b3_output \<Rightarrow> u64 \<Rightarrow> nat \<Rightarrow> bytes" where
  "output_root_bytes self output_block_counter out_len =
     (if out_len > 0 then
        let words = b3_compress (o_input_chaining_value self) (o_block_words self) output_block_counter
              (o_block_len self) (o_flags self OR ROOT)
        in take out_len (bytes32_of words)
           @ output_root_bytes self (output_block_counter + 1) (out_len - 64)
      else [])"
  by pat_completeness auto
termination
  by (relation "measure (\<lambda>(self, c, n). n)") auto

declare output_root_bytes.simps [simp del]

section \<open>Chunk states\<close>

record chunk_state =
  cs_chaining_value :: "u32 list"
  cs_counter :: u64
  cs_block :: bytes
  cs_block_len :: u8
  cs_blocks_compressed :: u8
  cs_flags :: u32

definition chunk_state_init :: "u32 list \<Rightarrow> u64 \<Rightarrow> u32 \<Rightarrow> chunk_state" where
  "chunk_state_init key_words counter flags = \<lparr>cs_chaining_value = take 8 key_words,
     cs_counter = counter, cs_block = replicate BLAKE3_BLOCK_LEN 0, cs_block_len = 0,
     cs_blocks_compressed = 0, cs_flags = flags\<rparr>"

definition chunk_state_len :: "chunk_state \<Rightarrow> nat" where
  "chunk_state_len self = BLAKE3_BLOCK_LEN * unat (cs_blocks_compressed self) + unat (cs_block_len self)"

definition chunk_state_start_flag :: "chunk_state \<Rightarrow> u32" where
  "chunk_state_start_flag self = (if cs_blocks_compressed self = 0 then CHUNK_START else 0)"

text \<open>The two parts of the loop body of \<open>chunk_state_update\<close>.\<close>

definition chunk_flush :: "chunk_state \<Rightarrow> chunk_state" where
  "chunk_flush self =
     (if cs_block_len self = of_nat BLAKE3_BLOCK_LEN then
        let block_words = words_from_little_endian_bytes (cs_block self);
            out16 = b3_compress (cs_chaining_value self) block_words (cs_counter self)
              (of_nat BLAKE3_BLOCK_LEN) (cs_flags self OR chunk_state_start_flag self)
        in self\<lparr>cs_chaining_value := take 8 out16, cs_blocks_compressed := cs_blocks_compressed self + 1,
             cs_block := replicate BLAKE3_BLOCK_LEN 0, cs_block_len := 0\<rparr>
      else self)"

definition chunk_take :: "chunk_state \<Rightarrow> nat \<Rightarrow> nat" where
  "chunk_take self input_len =
     (let want = size_sub BLAKE3_BLOCK_LEN (unat (cs_block_len self))
      in if input_len < want then input_len else want)"

definition chunk_fill :: "chunk_state \<Rightarrow> bytes \<Rightarrow> chunk_state" where
  "chunk_fill self inp =
     self\<lparr>cs_block := copy_at (cs_block self) (unat (cs_block_len self)) inp,
       cs_block_len := cs_block_len self + of_nat (length inp)\<rparr>"

lemma chunk_take_pos: "0 < n \<Longrightarrow> 0 < chunk_take (chunk_flush self) n"
proof -
  have "unat (cs_block_len (chunk_flush self)) \<noteq> 64"
    by (auto simp: chunk_flush_def Let_def word_unat_eq_iff)
  moreover have "unat (cs_block_len (chunk_flush self)) < 2 ^ 64"
    using unat_u8_less [of "cs_block_len (chunk_flush self)"] by simp
  ultimately show "0 < n \<Longrightarrow> ?thesis"
    by (simp add: chunk_take_def Let_def size_sub_pos)
qed

function chunk_state_update :: "chunk_state \<Rightarrow> bytes \<Rightarrow> chunk_state" where
  "chunk_state_update self inp =
     (if length inp > 0 then
        let self = chunk_flush self;
            n = chunk_take self (length inp)
        in chunk_state_update (chunk_fill self (take n inp)) (drop n inp)
      else self)"
  by pat_completeness auto
termination
  by (relation "measure (\<lambda>(self, inp). length inp)") (auto simp: chunk_take_pos)

declare chunk_state_update.simps [simp del]

definition chunk_state_output :: "chunk_state \<Rightarrow> b3_output" where
  "chunk_state_output self =
     \<lparr>o_input_chaining_value = cs_chaining_value self,
      o_block_words = words_from_little_endian_bytes (cs_block self),
      o_counter = cs_counter self,
      o_block_len = ucast (cs_block_len self),
      o_flags = cs_flags self OR chunk_state_start_flag self OR CHUNK_END\<rparr>"

definition parent_output :: "u32 list \<Rightarrow> u32 list \<Rightarrow> u32 list \<Rightarrow> u32 \<Rightarrow> b3_output" where
  "parent_output left_child_cv right_child_cv key_words flags =
     \<lparr>o_input_chaining_value = take 8 key_words,
      o_block_words = take 8 left_child_cv @ take 8 right_child_cv,
      o_counter = 0, o_block_len = of_nat BLAKE3_BLOCK_LEN, o_flags = PARENT OR flags\<rparr>"

definition parent_cv :: "u32 list \<Rightarrow> u32 list \<Rightarrow> u32 list \<Rightarrow> u32 \<Rightarrow> u32 list" where
  "parent_cv left_child_cv right_child_cv key_words flags =
     output_chaining_value (parent_output left_child_cv right_child_cv key_words flags)"

section \<open>The hasher\<close>

record blake3_hasher =
  hs_chunk_state :: chunk_state
  hs_key_words :: "u32 list"
  hs_cv_stack :: "u32 list"
  hs_cv_stack_len :: u8
  hs_flags :: u32

definition hasher_init_internal :: "blake3_hasher \<Rightarrow> u32 list \<Rightarrow> u32 \<Rightarrow> blake3_hasher" where
  "hasher_init_internal self kw flags =
     self\<lparr>hs_chunk_state := chunk_state_init kw 0 flags, hs_key_words := take 8 kw, hs_cv_stack_len := 0,
       hs_flags := flags\<rparr>"

definition blake3_hasher_init :: "blake3_hasher \<Rightarrow> blake3_hasher" where
  "blake3_hasher_init self = hasher_init_internal self b3_IV 0"

definition blake3_hasher_init_keyed :: "blake3_hasher \<Rightarrow> bytes \<Rightarrow> blake3_hasher" where
  "blake3_hasher_init_keyed self key =
     hasher_init_internal self (words_from_little_endian_bytes (take BLAKE3_KEY_LEN key)) KEYED_HASH"

definition hasher_push_stack :: "blake3_hasher \<Rightarrow> u32 list \<Rightarrow> blake3_hasher" where
  "hasher_push_stack self cv =
     self\<lparr>hs_cv_stack := copy_at (hs_cv_stack self) (unat (hs_cv_stack_len self) * 8) (take 8 cv),
       hs_cv_stack_len := hs_cv_stack_len self + 1\<rparr>"

definition hasher_pop_stack :: "blake3_hasher \<Rightarrow> u32 list \<times> blake3_hasher" where
  "hasher_pop_stack self =
     (let self = self\<lparr>hs_cv_stack_len := hs_cv_stack_len self - 1\<rparr>
      in (take 8 (drop (unat (hs_cv_stack_len self) * 8) (hs_cv_stack self)), self))"

text \<open>
  The merge loop of \<open>hasher_add_chunk_cv\<close> ends because the caller passes \<open>chunk_counter + 1\<close>;
  for a total of zero (a counter that wrapped around) it would not, hence the option.
\<close>

partial_function (option) merge_cvs ::
    "blake3_hasher \<Rightarrow> u32 list \<Rightarrow> u64 \<Rightarrow> (blake3_hasher \<times> u32 list) option" where
  "merge_cvs self new_cv total_chunks =
     (if total_chunks AND 1 = 0 then
        let (left, self) = hasher_pop_stack self
        in merge_cvs self (parent_cv left new_cv (hs_key_words self) (hs_flags self)) (drop_bit 1 total_chunks)
      else Some (self, new_cv))"

definition hasher_add_chunk_cv :: "blake3_hasher \<Rightarrow> u32 list \<Rightarrow> u64 \<Rightarrow> blake3_hasher option" where
  "hasher_add_chunk_cv self new_cv total_chunks =
     (case merge_cvs self new_cv total_chunks of
        None \<Rightarrow> None
      | Some (self, new_cv) \<Rightarrow> Some (hasher_push_stack self new_cv))"

text \<open>The two parts of the loop body of \<open>blake3_hasher_update\<close>.\<close>

definition hasher_flush :: "blake3_hasher \<Rightarrow> blake3_hasher option" where
  "hasher_flush self =
     (if chunk_state_len (hs_chunk_state self) = BLAKE3_CHUNK_LEN then
        let chunk_cv = output_chaining_value (chunk_state_output (hs_chunk_state self));
            total_chunks = cs_counter (hs_chunk_state self) + 1
        in case hasher_add_chunk_cv self chunk_cv total_chunks of
             None \<Rightarrow> None
           | Some self \<Rightarrow>
               Some (self\<lparr>hs_chunk_state := chunk_state_init (hs_key_words self) total_chunks (hs_flags self)\<rparr>)
      else Some self)"

definition hasher_take :: "blake3_hasher \<Rightarrow> nat \<Rightarrow> nat" where
  "hasher_take self input_len =
     (let want = size_sub BLAKE3_CHUNK_LEN (chunk_state_len (hs_chunk_state self))
      in if input_len < want then input_len else want)"

lemma hasher_take_pos: "hasher_flush self = Some self' \<Longrightarrow> 0 < n \<Longrightarrow> 0 < hasher_take self' n"
proof -
  assume "hasher_flush self = Some self'" and "0 < n"
  then have "chunk_state_len (hs_chunk_state self') \<noteq> 1024"
    by (auto simp: hasher_flush_def Let_def chunk_state_init_def chunk_state_len_def
        split: if_splits option.splits)
  moreover have "chunk_state_len (hs_chunk_state self') < 2 ^ 64"
    using unat_u8_less [of "cs_block_len (hs_chunk_state self')"]
      unat_u8_less [of "cs_blocks_compressed (hs_chunk_state self')"]
    by (simp add: chunk_state_len_def)
  ultimately show ?thesis
    using \<open>0 < n\<close> by (simp add: hasher_take_def Let_def size_sub_pos)
qed

function blake3_hasher_update :: "blake3_hasher \<Rightarrow> bytes \<Rightarrow> blake3_hasher option" where
  "blake3_hasher_update self inp =
     (if length inp > 0 then
        case hasher_flush self of
          None \<Rightarrow> None
        | Some self' \<Rightarrow>
            let n = hasher_take self' (length inp)
            in blake3_hasher_update
                 (self'\<lparr>hs_chunk_state := chunk_state_update (hs_chunk_state self') (take n inp)\<rparr>) (drop n inp)
      else Some self)"
  by pat_completeness auto
termination
  by (relation "measure (\<lambda>(self, inp). length inp)") (auto simp: hasher_take_pos)

declare blake3_hasher_update.simps [simp del]

text \<open>The loop of \<open>blake3_hasher_finalize\<close> over the stack, from the top down.\<close>

primrec finalize_loop :: "blake3_hasher \<Rightarrow> nat \<Rightarrow> b3_output \<Rightarrow> b3_output" where
  "finalize_loop self 0 current_output = current_output"
| "finalize_loop self (Suc remaining) current_output =
     finalize_loop self remaining
       (parent_output (take 8 (drop (remaining * 8) (hs_cv_stack self)))
         (output_chaining_value current_output) (hs_key_words self) (hs_flags self))"

definition blake3_hasher_finalize :: "blake3_hasher \<Rightarrow> nat \<Rightarrow> bytes" where
  "blake3_hasher_finalize self out_len =
     output_root_bytes (finalize_loop self (unat (hs_cv_stack_len self)) (chunk_state_output (hs_chunk_state self)))
       0 out_len"

definition blake3_hasher_init_derive_key ::
    "blake3_hasher \<Rightarrow> blake3_hasher \<Rightarrow> bytes \<Rightarrow> blake3_hasher option" where
  "blake3_hasher_init_derive_key context_hasher self context_bytes =
     (case blake3_hasher_update (hasher_init_internal context_hasher b3_IV DERIVE_KEY_CONTEXT) context_bytes of
        None \<Rightarrow> None
      | Some h \<Rightarrow>
          let context_key = blake3_hasher_finalize h BLAKE3_KEY_LEN
          in Some (hasher_init_internal self (words_from_little_endian_bytes context_key) DERIVE_KEY_MATERIAL))"

text \<open>The local variable \<open>hasher\<close> of the two one-shot functions; what it holds is never read.\<close>

definition uninitialized_hasher :: blake3_hasher where
  "uninitialized_hasher = \<lparr>hs_chunk_state = chunk_state_init [] 0 0, hs_key_words = [],
     hs_cv_stack = replicate (8 * 54) 0, hs_cv_stack_len = 0, hs_flags = 0\<rparr>"

definition blake3_hash_256 :: "bytes \<Rightarrow> bytes option" where
  "blake3_hash_256 inp =
     map_option (\<lambda>h. blake3_hasher_finalize h 32)
       (blake3_hasher_update (blake3_hasher_init uninitialized_hasher) inp)"

definition blake3_hash_512 :: "bytes \<Rightarrow> bytes option" where
  "blake3_hash_512 inp =
     map_option (\<lambda>h. blake3_hasher_finalize h 64)
       (blake3_hasher_update (blake3_hasher_init uninitialized_hasher) inp)"

end
