(* ===== verification/Blake3_Tree.thy ===== *)
theory Blake3_Tree
  imports Blake3
begin

unbundle bit_operations_syntax

text \<open>
  BLAKE3 as a function of the whole message, and the proof that the incremental hasher of
  theory \<open>Blake3\<close> computes it. \<open>tree_output\<close> is the specification: a message of at most one
  chunk is a leaf; a longer one is split after the largest power of two of chunks that leaves the
  right side non-empty, and its children are joined by a parent node.
\<close>

section \<open>Specification\<close>

function chunk_blocks ::
    "u32 \<Rightarrow> u64 \<Rightarrow> u32 list \<Rightarrow> nat \<Rightarrow> bytes \<Rightarrow> u32 list \<times> nat \<times> bytes" where
  "chunk_blocks flags n cv nb c =
     (if length c > 64 then
        chunk_blocks flags n
          (take 8 (b3_compress cv (words_from_little_endian_bytes (take 64 c)) n 64
             (flags OR (if nb = 0 then CHUNK_START else 0))))
          (nb + 1) (drop 64 c)
      else (cv, nb, c))"
  by pat_completeness auto
termination
  by (relation "measure (\<lambda>(flags, n, cv, nb, c). length c)") auto

declare chunk_blocks.simps [simp del]

definition pad_block :: "bytes \<Rightarrow> bytes" where
  "pad_block r = r @ replicate (64 - length r) 0"

definition chunk_output :: "u32 list \<Rightarrow> u32 \<Rightarrow> nat \<Rightarrow> bytes \<Rightarrow> b3_output" where
  "chunk_output kw flags n c =
     (case chunk_blocks flags (of_nat n) kw 0 c of (cv, nb, r) \<Rightarrow>
        \<lparr>o_input_chaining_value = cv, o_block_words = words_from_little_endian_bytes (pad_block r),
         o_counter = of_nat n, o_block_len = of_nat (length r),
         o_flags = flags OR (if nb = 0 then CHUNK_START else 0) OR CHUNK_END\<rparr>)"

text \<open>The largest power of two that is at most \<open>n\<close>, for positive \<open>n\<close>.\<close>

fun largest_pow2 :: "nat \<Rightarrow> nat" where
  "largest_pow2 n = (if n \<le> 1 then 1 else 2 * largest_pow2 (n div 2))"

declare largest_pow2.simps [simp del]

lemma largest_pow2_bounds: "0 < n \<Longrightarrow> 0 < largest_pow2 n \<and> largest_pow2 n \<le> n"
proof (induction n rule: largest_pow2.induct)
  case (1 n)
  then show ?case by (subst (1 2) largest_pow2.simps) auto
qed

lemma left_chunks:
  assumes "1024 < length m"
  shows "0 < largest_pow2 ((length m - Suc 0) div 1024)"
    and "1024 * largest_pow2 ((length m - Suc 0) div 1024) < length m"
proof -
  let ?n = "(length m - Suc 0) div 1024"
  have "0 < ?n" using assms by auto
  from largest_pow2_bounds [OF this]
  have p: "0 < largest_pow2 ?n" "1024 * largest_pow2 ?n \<le> 1024 * ?n" by simp_all
  moreover have "1024 * ?n \<le> length m - Suc 0" by simp
  ultimately show "0 < largest_pow2 ?n" "1024 * largest_pow2 ?n < length m"
    using assms by linarith+
qed

function tree_output :: "u32 list \<Rightarrow> u32 \<Rightarrow> nat \<Rightarrow> bytes \<Rightarrow> b3_output" where
  "tree_output kw flags n m =
     (if length m \<le> 1024 then chunk_output kw flags n m
      else
        let left = largest_pow2 ((length m - 1) div 1024)
        in parent_output
             (output_chaining_value (tree_output kw flags n (take (1024 * left) m)))
             (output_chaining_value (tree_output kw flags (n + left) (drop (1024 * left) m)))
             kw flags)"
  by pat_completeness auto
termination
  by (relation "measure (\<lambda>(kw, flags, n, m). length m)") (auto simp: left_chunks min_def not_le intro!: diff_less)

declare tree_output.simps [simp del]

definition blake3_spec :: "u32 list \<Rightarrow> u32 \<Rightarrow> bytes \<Rightarrow> nat \<Rightarrow> bytes" where
  "blake3_spec kw flags m out_len = output_root_bytes (tree_output kw flags 0 m) 0 out_len"

section \<open>Lengths\<close>

lemma length_b3_compress [simp, bufs]: "8 \<le> length cv \<Longrightarrow> length (b3_compress cv bw n bl f) = 16"
proof -
  have g: "length (b3_g a b c d x y st) = length st" for a b c d x y st
    by (simp add: b3_g_def Let_def)
  have rnd: "length (round_function m st) = length st" for m st
    by (simp add: round_function_def Let_def g)
  assume "8 \<le> length cv"
  moreover have "length b3_IV = 8" by (simp add: b3_IV_def)
  ultimately show ?thesis
    unfolding b3_compress_def Let_def
    by (subst length_fold_update) (simp_all add: rnd)
qed

lemma length_root_bytes:
  "8 \<le> length (o_input_chaining_value out) \<Longrightarrow> length (output_root_bytes out n k) = k"
proof (induction out n k rule: output_root_bytes.induct)
  case (1 out n k)
  then show ?case by (subst output_root_bytes.simps) (auto simp: Let_def)
qed

section \<open>Chunks\<close>

lemma chunk_blocks_step:
  "length c > 64 \<Longrightarrow> chunk_blocks flags n cv nb c = chunk_blocks flags n
     (take 8 (b3_compress cv (words_from_little_endian_bytes (take 64 c)) n 64
        (flags OR (if nb = 0 then CHUNK_START else 0)))) (nb + 1) (drop 64 c)"
  by (simp add: chunk_blocks.simps [of flags n cv nb c])

lemma chunk_blocks_stop: "length c \<le> 64 \<Longrightarrow> chunk_blocks flags n cv nb c = (cv, nb, c)"
  by (simp add: chunk_blocks.simps [of flags n cv nb c])

lemma chunk_blocks_append:
  "chunk_blocks flags n cv nb (c @ e) =
     (case chunk_blocks flags n cv nb c of (cv', nb', r) \<Rightarrow> chunk_blocks flags n cv' nb' (r @ e))"
proof (induction flags n cv nb c rule: chunk_blocks.induct)
  case (1 flags n cv nb c)
  show ?case
  proof (cases "length c > 64")
    case True
    with 1 show ?thesis by (simp add: chunk_blocks_step)
  qed (simp add: chunk_blocks_stop)
qed

lemma chunk_blocks_rest:
  "chunk_blocks flags n cv nb c = (cv', nb', r) \<Longrightarrow>
     length r \<le> 64 \<and> 64 * nb + length c = 64 * nb' + length r \<and> (length cv = 8 \<longrightarrow> length cv' = 8)"
proof (induction flags n cv nb c rule: chunk_blocks.induct)
  case (1 flags n cv nb c)
  show ?case
  proof (cases "length c > 64")
    case True
    with "1.prems" have "chunk_blocks flags n (take 8 (b3_compress cv
        (words_from_little_endian_bytes (take 64 c)) n 64
        (flags OR (if nb = 0 then CHUNK_START else 0)))) (nb + 1) (drop 64 c) = (cv', nb', r)"
      by (simp add: chunk_blocks_step)
    from "1.IH" [OF True this] True show ?thesis by auto
  next
    case False
    with "1.prems" show ?thesis by (simp add: chunk_blocks_stop)
  qed
qed

text \<open>The state of a chunk is determined by the bytes it has absorbed.\<close>

definition chunk_of :: "u32 list \<Rightarrow> u32 \<Rightarrow> nat \<Rightarrow> bytes \<Rightarrow> chunk_state" where
  "chunk_of kw flags n c =
     (case chunk_blocks flags (of_nat n) kw 0 c of (cv, nb, r) \<Rightarrow>
        \<lparr>cs_chaining_value = cv, cs_counter = of_nat n, cs_block = pad_block r,
         cs_block_len = of_nat (length r), cs_blocks_compressed = of_nat nb, cs_flags = flags\<rparr>)"

lemma chunk_of_Nil: "length kw = 8 \<Longrightarrow> chunk_of kw flags n [] = chunk_state_init kw (of_nat n) flags"
  by (simp add: chunk_of_def chunk_blocks_stop chunk_state_init_def pad_block_def)

lemma of_nat_u8 [simp]: "n < 256 \<Longrightarrow> unat (of_nat n :: u8) = n"
  by (simp add: unat_of_nat_small)

lemma of_nat_u8_0: "n < 256 \<Longrightarrow> (of_nat n :: u8) = 0 \<longleftrightarrow> n = 0"
  by (simp add: word_unat_eq_iff)

lemma of_nat_u8_64: "n < 256 \<Longrightarrow> (of_nat n :: u8) = 64 \<longleftrightarrow> n = 64"
  by (simp add: word_unat_eq_iff)

lemma chunk_of_bounds:
  assumes "chunk_blocks flags n kw 0 c = (cv, nb, r)" and "length c \<le> 1024"
  shows "length r \<le> 64" and "nb \<le> 16" and "length c = 64 * nb + length r"
  using chunk_blocks_rest [OF assms(1)] assms(2) by auto

lemma chunk_of_len: "length c \<le> 1024 \<Longrightarrow> chunk_state_len (chunk_of kw flags n c) = length c"
proof -
  assume "length c \<le> 1024"
  moreover obtain cv nb r where "chunk_blocks flags (of_nat n) kw 0 c = (cv, nb, r)" using prod_cases3 by blast
  ultimately show ?thesis
    using chunk_of_bounds [of flags "of_nat n" kw c cv nb r] by (simp add: chunk_of_def chunk_state_len_def)
qed

lemma chunk_of_output:
  "length c \<le> 1024 \<Longrightarrow> chunk_state_output (chunk_of kw flags n c) = chunk_output kw flags n c"
proof -
  assume "length c \<le> 1024"
  moreover obtain cv nb r where "chunk_blocks flags (of_nat n) kw 0 c = (cv, nb, r)" using prod_cases3 by blast
  moreover have "(ucast (of_nat (length r) :: u8) :: u32) = of_nat (length r)" if "length r \<le> 64"
    using that by (simp add: word_unat_eq_iff unat_ucast_small unat_of_nat)
  ultimately show ?thesis
    using chunk_of_bounds [of flags "of_nat n" kw c cv nb r]
    by (simp add: chunk_state_output_def chunk_of_def chunk_output_def chunk_state_start_flag_def of_nat_u8_0)
qed

text \<open>One turn of the loop: flush a full block, then fill up to the next one.\<close>

lemma chunk_fill_of:
  fixes kw flags n
  assumes "length c + length e \<le> 1024" and "e \<noteq> []"
  defines "cs \<equiv> chunk_flush (chunk_of kw flags n c)"
  shows "chunk_fill cs (take (chunk_take cs (length e)) e) =
    chunk_of kw flags n (c @ take (chunk_take cs (length e)) e)"
proof -
  obtain cv nb r where c: "chunk_blocks flags (of_nat n) kw 0 c = (cv, nb, r)" using prod_cases3 by blast
  have b: "length r \<le> 64" "nb \<le> 16" "length c = 64 * nb + length r"
    using chunk_of_bounds [OF c] assms(1) by simp_all
  have app: "chunk_blocks flags (of_nat n) kw 0 (c @ x) = chunk_blocks flags (of_nat n) cv nb (r @ x)" for x
    by (simp add: chunk_blocks_append [of flags "of_nat n" kw 0 c x] c)
  have pad: "copy_at (pad_block u) (length u) v = pad_block (u @ v)" if "length u + length v \<le> 64" for u v
    using that by (simp add: copy_at_def pad_block_def)
  show ?thesis
  proof (cases "length r = 64")
    case True
    with b assms have nb: "nb < 16" by (cases "nb = 16") auto
    define cv' where "cv' = take 8 (b3_compress cv (words_from_little_endian_bytes r) (of_nat n) 64
      (flags OR (if nb = 0 then CHUNK_START else 0)))"
    have cs: "cs = \<lparr>cs_chaining_value = cv', cs_counter = of_nat n, cs_block = replicate 64 0,
        cs_block_len = 0, cs_blocks_compressed = of_nat (nb + 1), cs_flags = flags\<rparr>"
      using True b nb
      by (simp add: cs_def chunk_of_def c chunk_flush_def Let_def pad_block_def cv'_def
          chunk_state_start_flag_def of_nat_u8_0)
    define x where "x = take (chunk_take cs (length e)) e"
    have len: "length x \<le> 64" by (simp add: x_def chunk_take_def cs)
    have "x \<noteq> []" using assms(2) chunk_take_pos [of "length e" "chunk_of kw flags n c"]
      by (simp add: x_def cs_def)
    then have "chunk_blocks flags (of_nat n) cv nb (r @ x) = (cv', nb + 1, x)"
      using True len by (simp add: chunk_blocks_step chunk_blocks_stop cv'_def)
    then have "chunk_fill cs x = chunk_of kw flags n (c @ x)"
      using len pad [of "[]" x] by (simp add: chunk_fill_def cs chunk_of_def app) (simp add: pad_block_def)
    then show ?thesis by (simp only: x_def)
  next
    case False
    with b have cs: "cs = chunk_of kw flags n c"
      by (simp add: cs_def chunk_flush_def chunk_of_def c of_nat_u8_64)
    define x where "x = take (chunk_take cs (length e)) e"
    have len: "length r + length x \<le> 64"
      using b False by (auto simp: x_def cs chunk_take_def chunk_of_def c Let_def)
    then have "chunk_blocks flags (of_nat n) cv nb (r @ x) = (cv, nb, r @ x)"
      by (simp add: chunk_blocks_stop)
    then have "chunk_fill cs x = chunk_of kw flags n (c @ x)"
      using len b pad [of r x] by (simp add: chunk_fill_def cs) (simp add: chunk_of_def app c)
    then show ?thesis by (simp only: x_def)
  qed
qed

lemma chunk_state_update_of:
  "length c + length e \<le> 1024 \<Longrightarrow>
     chunk_state_update (chunk_of kw flags n c) e = chunk_of kw flags n (c @ e)"
proof (induction "length e" arbitrary: c e rule: less_induct)
  case less
  show ?case
  proof (cases "e = []")
    case False
    let ?cs = "chunk_flush (chunk_of kw flags n c)"
    let ?k = "chunk_take ?cs (length e)"
    have "length (drop ?k e) < length e" using False chunk_take_pos [of "length e"] by simp
    from less.hyps [OF this, of "c @ take ?k e"] less.prems
    have "chunk_state_update (chunk_of kw flags n (c @ take ?k e)) (drop ?k e) = chunk_of kw flags n (c @ e)"
      by simp
    with False less.prems chunk_fill_of [of c e kw flags n] show ?thesis
      by (subst chunk_state_update.simps) (simp add: Let_def)
  qed (simp add: chunk_state_update.simps)
qed

section \<open>The stack of subtrees\<close>

text \<open>
  \<open>perfect nd lf k i\<close> is the perfect tree over the \<open>2 ^ k\<close> leaves from \<open>i\<close>. After \<open>N\<close> leaves
  the stack holds, top first, one perfect tree per one-bit of \<open>N\<close>: \<open>subtrees nd lf b k N\<close> for the
  groups of \<open>2 ^ k\<close> leaves from \<open>b\<close>.
\<close>

primrec perfect :: "('a \<Rightarrow> 'a \<Rightarrow> 'a) \<Rightarrow> (nat \<Rightarrow> 'a) \<Rightarrow> nat \<Rightarrow> nat \<Rightarrow> 'a" where
  "perfect nd lf 0 i = lf i"
| "perfect nd lf (Suc k) i = nd (perfect nd lf k i) (perfect nd lf k (i + 2 ^ k))"

function subtrees :: "('a \<Rightarrow> 'a \<Rightarrow> 'a) \<Rightarrow> (nat \<Rightarrow> 'a) \<Rightarrow> nat \<Rightarrow> nat \<Rightarrow> nat \<Rightarrow> 'a list" where
  "subtrees nd lf b k N =
     (if N = 0 then []
      else (if odd N then [perfect nd lf k (b + 2 ^ k * (N - 1))] else []) @ subtrees nd lf b (Suc k) (N div 2))"
  by pat_completeness auto
termination
  by (relation "measure (\<lambda>(nd, lf, b, k, N). N)") auto

declare subtrees.simps [simp del]

lemma subtrees_0 [simp]: "subtrees nd lf b k 0 = []"
  by (simp add: subtrees.simps)

lemma subtrees_even: "even N \<Longrightarrow> subtrees nd lf b k N = subtrees nd lf b (Suc k) (N div 2)"
  by (cases "N = 0") (simp_all add: subtrees.simps [of nd lf b k N])

lemma subtrees_odd:
  "odd N \<Longrightarrow> subtrees nd lf b k N =
     perfect nd lf k (b + 2 ^ k * (N - 1)) # subtrees nd lf b (Suc k) (N div 2)"
  by (cases "N = 0") (simp_all add: subtrees.simps [of nd lf b k N])

lemma set_subtrees:
  "(\<And>k i. P (perfect nd lf k i)) \<Longrightarrow> x \<in> set (subtrees nd lf b k N) \<Longrightarrow> P x"
proof (induction N arbitrary: k rule: less_induct)
  case (less N)
  show ?case
  proof (cases "N = 0")
    case False
    then have "x \<in> set (subtrees nd lf b (Suc k) (N div 2)) \<Longrightarrow> P x" by (intro less.IH less.prems) auto
    with less.prems show ?thesis by (cases "even N") (auto simp: subtrees_even subtrees_odd)
  qed (use less.prems in simp)
qed

text \<open>One more group of leaves: a carry joins it with the top of the stack.\<close>

lemma subtrees_no_carry:
  "even N \<Longrightarrow> subtrees nd lf b k (N + 1) = perfect nd lf k (b + 2 ^ k * N) # subtrees nd lf b k N"
  by (simp add: subtrees_odd subtrees_even [of N])

lemma subtrees_carry:
  assumes "odd N"
  shows "subtrees nd lf b k N = perfect nd lf k (b + 2 ^ k * (N - 1)) # subtrees nd lf b (Suc k) (N div 2)"
    and "subtrees nd lf b k (N + 1) = subtrees nd lf b (Suc k) (N div 2 + 1)"
    and "nd (perfect nd lf k (b + 2 ^ k * (N - 1))) (perfect nd lf k (b + 2 ^ k * N)) =
      perfect nd lf (Suc k) (b + 2 ^ Suc k * (N div 2))"
proof -
  have base: "2 ^ k * (N - 1) + 2 ^ k = 2 ^ k * N" using assms by (cases N) (auto simp: algebra_simps)
  have two: "2 ^ k * (N - 1) = 2 ^ Suc k * (N div 2)" using assms by (auto elim!: oddE)
  have ev: "even (N + 1)" and half: "(N + 1) div 2 = N div 2 + 1" using assms by auto
  show "subtrees nd lf b k N = perfect nd lf k (b + 2 ^ k * (N - 1)) # subtrees nd lf b (Suc k) (N div 2)"
    using assms by (rule subtrees_odd)
  show "subtrees nd lf b k (N + 1) = subtrees nd lf b (Suc k) (N div 2 + 1)"
    using subtrees_even [OF ev, of nd lf b k] by (simp only: half)
  show "nd (perfect nd lf k (b + 2 ^ k * (N - 1))) (perfect nd lf k (b + 2 ^ k * N)) =
      perfect nd lf (Suc k) (b + 2 ^ Suc k * (N div 2))"
    unfolding two [symmetric] by (simp only: perfect.simps base add.assoc)
qed

lemma length_subtrees: "N < 2 ^ j \<Longrightarrow> length (subtrees nd lf b k N) \<le> j"
proof (induction j arbitrary: N k)
  case (Suc j)
  then have "length (subtrees nd lf b (Suc k) (N div 2)) \<le> j" by simp
  then show ?case by (cases "even N") (simp_all add: subtrees_even subtrees_odd)
qed simp

lemma subtrees_split:
  "M < 2 ^ a \<Longrightarrow> subtrees nd lf b k (2 ^ a + M) =
     subtrees nd lf (b + 2 ^ (a + k)) k M @ [perfect nd lf (a + k) b]"
proof (induction a arbitrary: k M)
  case 0
  then show ?case by (simp add: subtrees_odd)
next
  case (Suc a)
  have half: "(2 ^ Suc a + M) div 2 = 2 ^ a + M div 2" by simp
  have IH: "subtrees nd lf b (Suc k) (2 ^ a + M div 2) =
      subtrees nd lf (b + 2 ^ (a + Suc k)) (Suc k) (M div 2) @ [perfect nd lf (a + Suc k) b]"
    using Suc.prems by (intro Suc.IH) simp
  show ?case
  proof (cases "even M")
    case True
    then have "even (2 ^ Suc a + M)" by simp
    from subtrees_even [OF this, of nd lf b k] half IH True show ?thesis by (simp add: subtrees_even)
  next
    case False
    then have odd: "odd (2 ^ Suc a + M)" by simp
    have "2 ^ k * (2 ^ Suc a + M - 1) = 2 ^ (Suc a + k) + 2 ^ k * (M - 1)"
      using False by (cases M) (auto simp: algebra_simps power_add)
    with subtrees_odd [OF odd, of nd lf b k] half IH False show ?thesis
      by (simp add: subtrees_odd add.assoc)
  qed
qed

lemma subtrees_cong:
  "(\<And>i. i < b + 2 ^ k * N \<Longrightarrow> f i = g i) \<Longrightarrow> subtrees nd f b k N = subtrees nd g b k N"
proof (induction N arbitrary: k rule: less_induct)
  case (less N)
  have perfect: "perfect nd f k i = perfect nd g k i" if "\<And>j. j < i + 2 ^ k \<Longrightarrow> f j = g j" for k i
    using that by (induction k arbitrary: i) (auto simp: algebra_simps)
  show ?case
  proof (cases "N = 0")
    case False
    have le: "2 ^ Suc k * (N div 2) \<le> 2 ^ k * N" by simp
    have sub: "subtrees nd f b (Suc k) (N div 2) = subtrees nd g b (Suc k) (N div 2)"
    proof (rule less.IH)
      show "N div 2 < N" using False by simp
      show "f i = g i" if "i < b + 2 ^ Suc k * (N div 2)" for i
        using that le by (intro less.prems) linarith
    qed
    obtain N' where "N = Suc N'" using False by (cases N) auto
    then have "perfect nd f k (b + 2 ^ k * (N - 1)) = perfect nd g k (b + 2 ^ k * (N - 1))"
      by (intro perfect less.prems) (simp add: algebra_simps)
    with sub show ?thesis by (simp add: subtrees.simps [of nd _ b k N])
  qed simp
qed

section \<open>The root over the stack is the root of the tree\<close>

lemma largest_pow2_split: "M < 2 ^ a \<Longrightarrow> largest_pow2 (2 ^ a + M) = 2 ^ a"
proof (induction a arbitrary: M)
  case 0
  then show ?case by (simp add: largest_pow2.simps)
next
  case (Suc a)
  then have IH: "largest_pow2 (2 ^ a + M div 2) = 2 ^ a" by simp
  have half: "(2 ^ Suc a + M) div 2 = 2 ^ a + M div 2" by simp
  have "(1 :: nat) \<le> 2 ^ a" by simp
  then have big: "\<not> 2 ^ Suc a + M \<le> 1" by (simp only: power_Suc)
  show ?case by (subst largest_pow2.simps, simp only: half big if_False IH) simp
qed

lemma pow2_split: "0 < (N :: nat) \<Longrightarrow> \<exists>a M. N = 2 ^ a + M \<and> M < 2 ^ a"
proof (induction N rule: less_induct)
  case (less N)
  show ?case
  proof (cases "N = 1")
    case True
    then show ?thesis by (intro exI [of _ 0]) simp
  next
    case False
    with less.prems have "0 < N div 2" "N div 2 < N" by auto
    with less.IH obtain a M where "N div 2 = 2 ^ a + M" "M < 2 ^ a" by blast
    then have "N = 2 ^ Suc a + (2 * M + N mod 2) \<and> 2 * M + N mod 2 < 2 ^ Suc a"
      using div_mult_mod_eq [of N 2] mod_less_divisor [of 2 N] by (simp; linarith)
    then show ?thesis by blast
  qed
qed

text \<open>The leaves of a message and the perfect trees over them, as chaining values.\<close>

definition chunk_at :: "bytes \<Rightarrow> nat \<Rightarrow> bytes" where
  "chunk_at m i = take 1024 (drop (1024 * i) m)"

abbreviation leaf_cv :: "u32 list \<Rightarrow> u32 \<Rightarrow> nat \<Rightarrow> bytes \<Rightarrow> nat \<Rightarrow> u32 list" where
  "leaf_cv kw flags n m i \<equiv> output_chaining_value (chunk_output kw flags (n + i) (chunk_at m i))"

abbreviation join :: "u32 list \<Rightarrow> u32 \<Rightarrow> u32 list \<Rightarrow> u32 list \<Rightarrow> u32 list" where
  "join kw flags left right \<equiv> parent_cv left right kw flags"

lemma perfect_shift: "perfect nd (\<lambda>i. f (s + i)) k j = perfect nd f k (s + j)"
  by (induction k arbitrary: j) (simp_all add: add.assoc)

lemma perfect_cong: "(\<And>j. i \<le> j \<Longrightarrow> j < i + 2 ^ k \<Longrightarrow> f j = g j) \<Longrightarrow> perfect nd f k i = perfect nd g k i"
  by (induction k arbitrary: i) (auto simp: algebra_simps)

lemma perfect_take:
  "perfect nd (leaf_cv kw flags n m) a 0 = perfect nd (leaf_cv kw flags n (take (1024 * 2 ^ a) m)) a 0"
proof (rule perfect_cong)
  fix j :: nat
  assume "j < 0 + 2 ^ a"
  then have "1024 * j + 1024 \<le> 1024 * 2 ^ a" by (simp add: Suc_le_eq)
  then have "chunk_at m j = chunk_at (take (1024 * 2 ^ a) m) j"
    by (simp add: chunk_at_def drop_take min_def)
  then show "leaf_cv kw flags n m j = leaf_cv kw flags n (take (1024 * 2 ^ a) m) j" by simp
qed

lemma leaf_drop: "leaf_cv kw flags n m (2 ^ a + i) = leaf_cv kw flags (n + 2 ^ a) (drop (1024 * 2 ^ a) m) i"
  by (simp add: chunk_at_def add.assoc distrib_left add.commute add.left_commute)

lemma perfect_tree:
  "length m = 1024 * 2 ^ a \<Longrightarrow>
     perfect (join kw flags) (leaf_cv kw flags n m) a 0 = output_chaining_value (tree_output kw flags n m)"
proof (induction a arbitrary: n m)
  case 0
  then show ?case by (simp add: tree_output.simps [of kw flags n m] chunk_at_def)
next
  case (Suc a)
  let ?l = "take (1024 * 2 ^ a) m" and ?r = "drop (1024 * 2 ^ a) m"
  have len: "length ?l = 1024 * 2 ^ a" "length ?r = 1024 * 2 ^ a" using Suc.prems by simp_all
  have one: "(1 :: nat) \<le> 2 ^ a" by simp
  then have big: "\<not> length m \<le> 1024" using Suc.prems by (simp only: power_Suc)
  have "(length m - 1) div 1024 = 2 ^ a + (2 ^ a - 1)"
    using Suc.prems one by (intro div_nat_eqI) (simp_all add: algebra_simps)
  then have left: "largest_pow2 ((length m - 1) div 1024) = 2 ^ a"
    using largest_pow2_split [of "2 ^ a - 1" a] by simp
  have "perfect (join kw flags) (leaf_cv kw flags n m) a 0 =
      perfect (join kw flags) (leaf_cv kw flags n ?l) a 0"
    by (rule perfect_take)
  moreover have "perfect (join kw flags) (leaf_cv kw flags n m) a (2 ^ a) =
      perfect (join kw flags) (leaf_cv kw flags (n + 2 ^ a) ?r) a 0"
    using perfect_shift [of "join kw flags" "leaf_cv kw flags n m" "2 ^ a" a 0] by (simp add: leaf_drop)
  ultimately show ?case
    using Suc.IH [OF len(1), of n] Suc.IH [OF len(2), of "n + 2 ^ a"] big left
    by (simp add: tree_output.simps [of kw flags n m] Let_def parent_cv_def)
qed

lemma subtrees_shift: "subtrees nd (\<lambda>i. f (s + i)) b k N = subtrees nd f (s + b) k N"
proof (induction N arbitrary: k rule: less_induct)
  case (less N)
  then show ?case
    by (cases "N = 0") (simp_all add: subtrees.simps [of nd _ _ k N] perfect_shift add.assoc)
qed

abbreviation climb :: "u32 list \<Rightarrow> u32 \<Rightarrow> b3_output \<Rightarrow> u32 list \<Rightarrow> b3_output" where
  "climb kw flags out left \<equiv> parent_output left (output_chaining_value out) kw flags"

lemma climb_tree:
  "length m \<le> 1024 * (N + 1) \<Longrightarrow> N = 0 \<or> 1024 * N < length m \<Longrightarrow>
     foldl (climb kw flags) (chunk_output kw flags (n + N) (chunk_at m N))
       (subtrees (join kw flags) (leaf_cv kw flags n m) 0 0 N) = tree_output kw flags n m"
proof (induction N arbitrary: n m rule: less_induct)
  case (less N)
  show ?case
  proof (cases "N = 0")
    case True
    with less.prems show ?thesis by (simp add: tree_output.simps [of kw flags n m] chunk_at_def)
  next
    case False
    then obtain a M where N: "N = 2 ^ a + M" and M: "M < 2 ^ a" using pow2_split by blast
    let ?l = "take (1024 * 2 ^ a) m" and ?r = "drop (1024 * 2 ^ a) m"
    have one: "(1 :: nat) \<le> 2 ^ a" by simp
    have big: "\<not> length m \<le> 1024" using False less.prems by auto
    have "(length m - 1) div 1024 = N"
      using less.prems False by (intro div_nat_eqI) auto
    then have left: "largest_pow2 ((length m - 1) div 1024) = 2 ^ a"
      using largest_pow2_split [OF M] N by simp
    have len: "length ?l = 1024 * 2 ^ a" using less.prems False N by auto
    have IH: "foldl (climb kw flags) (chunk_output kw flags (n + 2 ^ a + M) (chunk_at ?r M))
        (subtrees (join kw flags) (leaf_cv kw flags (n + 2 ^ a) ?r) 0 0 M) = tree_output kw flags (n + 2 ^ a) ?r"
      using less.prems False N one by (intro less.IH) auto
    have "subtrees (join kw flags) (leaf_cv kw flags n m) 0 0 N =
        subtrees (join kw flags) (leaf_cv kw flags (n + 2 ^ a) ?r) 0 0 M
        @ [perfect (join kw flags) (leaf_cv kw flags n m) a 0]"
      using subtrees_split [OF M, of "join kw flags" "leaf_cv kw flags n m" 0 0]
        subtrees_shift [of "join kw flags" "leaf_cv kw flags n m" "2 ^ a" 0 0 M]
      unfolding N by (simp add: leaf_drop)
    moreover have "perfect (join kw flags) (leaf_cv kw flags n m) a 0 =
        output_chaining_value (tree_output kw flags n ?l)"
      using perfect_tree [OF len, of kw flags n] perfect_take [of "join kw flags" kw flags n m a] by simp
    moreover have "chunk_output kw flags (n + N) (chunk_at m N) =
        chunk_output kw flags (n + 2 ^ a + M) (chunk_at ?r M)"
      by (simp add: N chunk_at_def distrib_left add.commute add.left_commute)
    ultimately show ?thesis
      using IH big left by (simp add: tree_output.simps [of kw flags n m] Let_def)
  qed
qed

section \<open>The hasher\<close>

definition stack_view :: "blake3_hasher \<Rightarrow> u32 list list" where
  "stack_view h = map (\<lambda>i. take 8 (drop (i * 8) (hs_cv_stack h))) (rev [0..<unat (hs_cv_stack_len h)])"

definition same_key :: "blake3_hasher \<Rightarrow> blake3_hasher \<Rightarrow> bool" where
  "same_key h h' \<longleftrightarrow> hs_key_words h' = hs_key_words h \<and> hs_flags h' = hs_flags h
     \<and> hs_chunk_state h' = hs_chunk_state h \<and> length (hs_cv_stack h') = length (hs_cv_stack h)"

lemma pop_stack:
  assumes "stack_view h = cv # st"
  shows "\<exists>h'. hasher_pop_stack h = (cv, h') \<and> stack_view h' = st \<and> same_key h h'"
proof -
  from assms obtain j where j: "unat (hs_cv_stack_len h) = Suc j"
    by (cases "unat (hs_cv_stack_len h)") (auto simp: stack_view_def)
  then have "unat (hs_cv_stack_len h - 1) = j"
    by (subst unat_minus_one) auto
  with j assms show ?thesis
    by (auto simp: hasher_pop_stack_def stack_view_def Let_def same_key_def)
qed

lemma push_stack:
  assumes "length (hs_cv_stack h) = 432" and "length cv = 8" and "length (stack_view h) < 54"
  shows "stack_view (hasher_push_stack h cv) = cv # stack_view h" and "same_key h (hasher_push_stack h cv)"
proof -
  let ?n = "unat (hs_cv_stack_len h)"
  have n: "?n < 54" using assms(3) by (simp add: stack_view_def)
  then have len: "unat (hs_cv_stack_len h + 1) = Suc ?n" by (simp add: unat_word_ariths)
  have keep: "take 8 (drop (i * 8) (copy_at (hs_cv_stack h) (?n * 8) cv)) = take 8 (drop (i * 8) (hs_cv_stack h))"
    if "i < ?n" for i
    by (rule slice_copy_at) (use that n assms in simp_all)
  have top: "take 8 (drop (?n * 8) (copy_at (hs_cv_stack h) (?n * 8) cv)) = cv"
    using n assms by (simp add: copy_at_def)
  show "stack_view (hasher_push_stack h cv) = cv # stack_view h"
    using assms(2) len top keep by (simp add: stack_view_def hasher_push_stack_def)
  show "same_key h (hasher_push_stack h cv)"
    using n assms by (simp add: same_key_def hasher_push_stack_def)
qed

lemma length_chaining_value [simp]:
  "8 \<le> length (o_input_chaining_value out) \<Longrightarrow> length (output_chaining_value out) = 8"
  by (simp add: output_chaining_value_def)

lemma length_join [simp]: "length kw = 8 \<Longrightarrow> length (parent_cv left right kw flags) = 8"
  by (simp add: parent_cv_def parent_output_def)

lemma length_chunk_cv [simp]: "length kw = 8 \<Longrightarrow> length (output_chaining_value (chunk_output kw flags n c)) = 8"
proof -
  assume "length kw = 8"
  moreover obtain cv nb r where "chunk_blocks flags (of_nat n) kw 0 c = (cv, nb, r)" using prod_cases3 by blast
  ultimately show ?thesis
    using chunk_blocks_rest [of flags "of_nat n" kw 0 c cv nb r] by (simp add: chunk_output_def)
qed

lemma merge_cvs_subtrees:
  fixes kw flags lf
  defines "nd \<equiv> join kw flags"
  shows "stack_view h = subtrees nd lf 0 k N \<Longrightarrow> unat t = N + 1 \<Longrightarrow>
     hs_key_words h = kw \<Longrightarrow> hs_flags h = flags \<Longrightarrow>
     \<exists>h' cv. merge_cvs h (perfect nd lf k (2 ^ k * N)) t = Some (h', cv) \<and> same_key h h' \<and>
       cv # stack_view h' = subtrees nd lf 0 k (N + 1)"
proof (induction N arbitrary: h k t rule: less_induct)
  case (less N)
  have bit0: "t AND 1 = 0 \<longleftrightarrow> odd N"
    using less.prems(2) by (simp add: and_one_eq word_unat_eq_iff unat_mod odd_iff_mod_2_eq_one [symmetric] flip: even_iff_mod_2_eq_zero)
  show ?case
  proof (cases "even N")
    case True
    then show ?thesis
      using less.prems subtrees_no_carry [OF True, of nd lf 0 k]
      by (subst merge_cvs.simps) (simp add: bit0 same_key_def)
  next
    case False
    note carry = subtrees_carry [OF False, where nd = nd and lf = lf and b = 0 and k = k]
    from less.prems(1) carry(1) obtain h1 where h1: "same_key h h1"
        "hasher_pop_stack h = (perfect nd lf k (2 ^ k * (N - 1)), h1)"
        "stack_view h1 = subtrees nd lf 0 (Suc k) (N div 2)"
      using pop_stack [of h] by auto
    have "unat (drop_bit 1 t) = N div 2 + 1"
      using less.prems(2) False by (simp add: drop_bit_eq_div unat_div)
    moreover have "N div 2 < N" using False by (cases N) auto
    ultimately obtain h' cv where
        "merge_cvs h1 (perfect nd lf (Suc k) (2 ^ Suc k * (N div 2))) (drop_bit 1 t) = Some (h', cv)"
        "same_key h1 h'" "cv # stack_view h' = subtrees nd lf 0 (Suc k) (N div 2 + 1)"
      using less.IH [of "N div 2" h1 "Suc k" "drop_bit 1 t"] h1 less.prems(3,4)
      by (auto simp: same_key_def)
    moreover have "parent_cv (perfect nd lf k (2 ^ k * (N - 1))) (perfect nd lf k (2 ^ k * N))
        (hs_key_words h1) (hs_flags h1) = perfect nd lf (Suc k) (2 ^ Suc k * (N div 2))"
      using carry(3) h1(1) less.prems(3,4) by (simp add: nd_def same_key_def)
    ultimately show ?thesis
      using h1 carry(2) False
      by (subst merge_cvs.simps) (auto simp: bit0 same_key_def)
  qed
qed

text \<open>
  The state of a hasher that has absorbed \<open>m\<close>, \<open>N\<close> chunks of which are on the stack.
\<close>

definition hashed :: "u32 list \<Rightarrow> u32 \<Rightarrow> nat \<Rightarrow> bytes \<Rightarrow> blake3_hasher \<Rightarrow> bool" where
  "hashed kw flags N m h \<longleftrightarrow>
     hs_key_words h = kw \<and> hs_flags h = flags \<and> length (hs_cv_stack h) = 432 \<and>
     1024 * N \<le> length m \<and> length m \<le> 1024 * (N + 1) \<and>
     hs_chunk_state h = chunk_of kw flags N (drop (1024 * N) m) \<and>
     stack_view h = subtrees (join kw flags) (leaf_cv kw flags 0 m) 0 0 N"

lemma hashed_flush:
  assumes "hashed kw flags N m h" and "length kw = 8" and "N + 1 < 2 ^ 54"
  shows "\<exists>N' h'. hasher_flush h = Some h' \<and> hashed kw flags N' m h' \<and> length m < 1024 * (N' + 1)"
proof (cases "length m = 1024 * (N + 1)")
  case False
  with assms(1) have "hasher_flush h = Some h"
    by (auto simp: hashed_def hasher_flush_def chunk_of_len)
  with assms(1) False show ?thesis by (fastforce simp: hashed_def)
next
  case True
  let ?lf = "leaf_cv kw flags 0 m" and ?nd = "join kw flags"
  let ?t = "cs_counter (hs_chunk_state h) + 1"
  have h: "hs_key_words h = kw" "hs_flags h = flags" "length (hs_cv_stack h) = 432"
      "hs_chunk_state h = chunk_of kw flags N (drop (1024 * N) m)" "stack_view h = subtrees ?nd ?lf 0 0 N"
    using assms(1) by (simp_all add: hashed_def)
  have c: "length (drop (1024 * N) m) = 1024" using True by simp
  have cnt: "cs_counter (hs_chunk_state h) = of_nat N"
    by (simp add: h chunk_of_def split: prod.split)
  have t: "?t = of_nat (N + 1)" by (simp add: cnt)
  have ut: "unat ?t = N + 1" unfolding t using assms(3) by (intro unat_of_nat_small) simp
  have cv: "output_chaining_value (chunk_state_output (hs_chunk_state h)) = perfect ?nd ?lf 0 (2 ^ 0 * N)"
    using c by (simp add: h chunk_of_output chunk_at_def)
  obtain h1 new where m: "merge_cvs h (perfect ?nd ?lf 0 (2 ^ 0 * N)) ?t = Some (h1, new)" "same_key h h1"
      "new # stack_view h1 = subtrees ?nd ?lf 0 0 (N + 1)"
    using merge_cvs_subtrees [of h kw flags ?lf 0 N ?t] h ut by blast
  have all8: "length (perfect ?nd ?lf k i) = 8" for k i by (cases k) (simp_all add: assms(2))
  have new8: "length new = 8" using set_subtrees [of "\<lambda>x. length x = 8" ?nd ?lf new 0 0 "N + 1"] all8 by (simp only: m(3) [symmetric]) simp
  have "length (stack_view h1) < 54"
    using length_subtrees [OF assms(3), of ?nd ?lf 0 0] arg_cong [OF m(3), of length] by simp
  then have p: "stack_view (hasher_push_stack h1 new) = subtrees ?nd ?lf 0 0 (N + 1)"
      "same_key h (hasher_push_stack h1 new)"
    using push_stack [of h1 new] m new8 h by (auto simp: same_key_def)
  have keys: "hs_key_words (hasher_push_stack h1 new) = kw" "hs_flags (hasher_push_stack h1 new) = flags"
    using p(2) h by (simp_all add: same_key_def)
  have len: "chunk_state_len (hs_chunk_state h) = 1024" using c by (simp add: h chunk_of_len)
  let ?h = "(hasher_push_stack h1 new)\<lparr>hs_chunk_state := chunk_state_init kw ?t flags\<rparr>"
  have "hasher_flush h = Some ?h"
    by (simp only: hasher_flush_def hasher_add_chunk_cv_def Let_def len cv m(1) if_True refl option.case prod.case keys)
  moreover have "hashed kw flags (N + 1) m ?h"
    using p True h assms(2) chunk_of_Nil [of kw flags "N + 1"] t
    by (simp add: hashed_def same_key_def stack_view_def add.commute)
  ultimately show ?thesis using True by fastforce
qed

lemma hashed_fill:
  assumes "hashed kw flags N m h" and "length m < 1024 * (N + 1)" and "e \<noteq> []"
  defines "k \<equiv> hasher_take h (length e)"
  shows "0 < k" and "k \<le> length e"
    and "hashed kw flags N (m @ take k e)
      (h\<lparr>hs_chunk_state := chunk_state_update (hs_chunk_state h) (take k e)\<rparr>)"
proof -
  let ?c = "drop (1024 * N) m"
  have h: "hs_chunk_state h = chunk_of kw flags N ?c" "1024 * N \<le> length m" "length ?c \<le> 1024"
    using assms(1,2) by (auto simp: hashed_def)
  have k: "k = (if length e < 1024 - length ?c then length e else 1024 - length ?c)"
    using h by (simp add: k_def hasher_take_def chunk_of_len Let_def)
  then show "0 < k" "k \<le> length e" using assms(2,3) h(2) by (auto split: if_splits)
  have "length ?c + length (take k e) \<le> 1024" using k h(3) by auto
  then have c: "chunk_state_update (hs_chunk_state h) (take k e) = chunk_of kw flags N (drop (1024 * N) (m @ take k e))"
    and len: "length (m @ take k e) \<le> 1024 * (N + 1)"
    using h by (simp_all add: chunk_state_update_of)
  have "leaf_cv kw flags 0 m i = leaf_cv kw flags 0 (m @ take k e) i" if "i < N" for i
    using that h(2) by (simp add: chunk_at_def)
  then have "subtrees (join kw flags) (leaf_cv kw flags 0 m) 0 0 N =
      subtrees (join kw flags) (leaf_cv kw flags 0 (m @ take k e)) 0 0 N"
    by (intro subtrees_cong) simp
  then show "hashed kw flags N (m @ take k e)
      (h\<lparr>hs_chunk_state := chunk_state_update (hs_chunk_state h) (take k e)\<rparr>)"
    using assms(1) c len by (simp add: hashed_def stack_view_def)
qed

definition hashed_all :: "u32 list \<Rightarrow> u32 \<Rightarrow> bytes \<Rightarrow> blake3_hasher \<Rightarrow> bool" where
  "hashed_all kw flags m h \<longleftrightarrow> (\<exists>N. hashed kw flags N m h \<and> (N = 0 \<or> 1024 * N < length m))"

lemma hashed_update:
  "hashed_all kw flags m h \<Longrightarrow> length kw = 8 \<Longrightarrow> length m + length e < 2 ^ 64 \<Longrightarrow>
     \<exists>h'. blake3_hasher_update h e = Some h' \<and> hashed_all kw flags (m @ e) h'"
proof (induction "length e" arbitrary: m h e rule: less_induct)
  case less
  show ?case
  proof (cases "e = []")
    case True
    with less.prems show ?thesis by (simp add: blake3_hasher_update.simps)
  next
    case False
    from less.prems obtain N where N: "hashed kw flags N m h" by (auto simp: hashed_all_def)
    show ?thesis
    proof (cases "N + 1 < 2 ^ 54 \<or> length m < 1024 * (N + 1)")
      case True
      then obtain N' h1 where h1: "hasher_flush h = Some h1" "hashed kw flags N' m h1" "length m < 1024 * (N' + 1)"
      proof
        assume "N + 1 < 2 ^ 54"
        from hashed_flush [OF N less.prems(2) this] that show thesis by blast
      next
        assume *: "length m < 1024 * (N + 1)"
        with N have "hasher_flush h = Some h" by (auto simp: hashed_def hasher_flush_def chunk_of_len)
        with N * that show thesis by blast
      qed
      let ?k = "hasher_take h1 (length e)"
      let ?h = "h1\<lparr>hs_chunk_state := chunk_state_update (hs_chunk_state h1) (take ?k e)\<rparr>"
      note fill = hashed_fill [OF h1(2,3) False]
      have "hashed_all kw flags (m @ take ?k e) ?h"
        using fill h1(2) False unfolding hashed_all_def by (intro exI [of _ N']) (auto simp: hashed_def)
      then obtain h' where "blake3_hasher_update ?h (drop ?k e) = Some h'" "hashed_all kw flags (m @ e) h'"
        using less.hyps [of "drop ?k e" "m @ take ?k e" ?h] less.prems fill(1,2) False by auto
      then show ?thesis
        using False h1(1) by (subst blake3_hasher_update.simps) (simp add: Let_def)
    next
      case no: False
      then have "length m + length e \<ge> 2 ^ 64" using False N by (auto simp: hashed_def)
      with less.prems(3) show ?thesis by simp
    qed
  qed
qed

lemma hashed_init:
  "length kw = 8 \<Longrightarrow> length (hs_cv_stack h) = 432 \<Longrightarrow> hashed_all kw flags [] (hasher_init_internal h kw flags)"
  by (simp add: hashed_all_def hashed_def hasher_init_internal_def stack_view_def chunk_of_Nil)

lemma finalize_loop_climb:
  "hs_key_words h = kw \<Longrightarrow> hs_flags h = flags \<Longrightarrow>
     finalize_loop h n out =
       foldl (climb kw flags) out (map (\<lambda>i. take 8 (drop (i * 8) (hs_cv_stack h))) (rev [0..<n]))"
  by (induction n arbitrary: out) simp_all

lemma hashed_finalize:
  assumes "hashed_all kw flags m h"
  shows "blake3_hasher_finalize h out_len = blake3_spec kw flags m out_len"
proof -
  from assms obtain N where N: "hashed kw flags N m h" "N = 0 \<or> 1024 * N < length m"
    by (auto simp: hashed_all_def)
  then have len: "length m \<le> 1024 * (N + 1)" "length (drop (1024 * N) m) \<le> 1024"
    by (auto simp: hashed_def)
  have "chunk_state_output (hs_chunk_state h) = chunk_output kw flags (0 + N) (chunk_at m N)"
    using N(1) len by (simp add: hashed_def chunk_of_output chunk_at_def)
  moreover have "finalize_loop h (unat (hs_cv_stack_len h)) out =
      foldl (climb kw flags) out (subtrees (join kw flags) (leaf_cv kw flags 0 m) 0 0 N)" for out
    using N(1) by (simp add: hashed_def finalize_loop_climb stack_view_def)
  ultimately show ?thesis
    using climb_tree [OF len(1) N(2), of kw flags 0]
    by (simp only: blake3_hasher_finalize_def blake3_spec_def)
qed

lemma hashed_updates:
  "hashed_all kw flags m h \<Longrightarrow> length kw = 8 \<Longrightarrow> length m + length (concat pieces) < 2 ^ 64 \<Longrightarrow>
     \<exists>h'. foldl (\<lambda>h e. Option.bind h (\<lambda>h. blake3_hasher_update h e)) (Some h) pieces = Some h' \<and>
       hashed_all kw flags (m @ concat pieces) h'"
proof (induction pieces arbitrary: m h)
  case (Cons e pieces)
  then obtain h1 where "blake3_hasher_update h e = Some h1" "hashed_all kw flags (m @ e) h1"
    using hashed_update [of kw flags m h e] by auto
  with Cons.IH [of "m @ e" h1] Cons.prems show ?case by simp
qed simp

lemma length_b3_IV [simp]: "length b3_IV = 8"
  by (simp add: b3_IV_def)

lemma length_tree_cv: "length kw = 8 \<Longrightarrow> 8 \<le> length (o_input_chaining_value (tree_output kw flags n m))"
proof -
  assume kw: "length kw = 8"
  moreover obtain cv nb r where "chunk_blocks flags (of_nat n) kw 0 m = (cv, nb, r)" using prod_cases3 by blast
  ultimately show ?thesis
    using chunk_blocks_rest [of flags "of_nat n" kw 0 m cv nb r]
    by (subst tree_output.simps) (auto simp: chunk_output_def parent_output_def Let_def)
qed

lemma length_blake3_spec [simp]: "length kw = 8 \<Longrightarrow> length (blake3_spec kw flags m k) = k"
  by (simp add: blake3_spec_def length_root_bytes length_tree_cv)

lemma one_shot:
  assumes "length m < 2 ^ 64"
  shows "blake3_hash_256 m = Some (blake3_spec b3_IV 0 m 32)"
    and "blake3_hash_512 m = Some (blake3_spec b3_IV 0 m 64)"
proof -
  have "hashed_all b3_IV 0 [] (blake3_hasher_init uninitialized_hasher)"
    by (simp add: blake3_hasher_init_def hashed_init uninitialized_hasher_def)
  from hashed_update [OF this length_b3_IV, of m] assms obtain h where
      "blake3_hasher_update (blake3_hasher_init uninitialized_hasher) m = Some h" "hashed_all b3_IV 0 m h"
    by auto
  then show "blake3_hash_256 m = Some (blake3_spec b3_IV 0 m 32)"
    "blake3_hash_512 m = Some (blake3_spec b3_IV 0 m 64)"
    by (simp_all add: blake3_hash_256_def blake3_hash_512_def hashed_finalize)
qed

section \<open>The three modes\<close>

text \<open>A whole use of a hasher: any number of updates, then any number of output bytes.\<close>

definition hash_pieces :: "blake3_hasher option \<Rightarrow> bytes list \<Rightarrow> nat \<Rightarrow> bytes option" where
  "hash_pieces start pieces out_len =
     map_option (\<lambda>h. blake3_hasher_finalize h out_len)
       (foldl (\<lambda>h e. Option.bind h (\<lambda>h. blake3_hasher_update h e)) start pieces)"

lemma hash_pieces_spec:
  "hashed_all kw flags [] h \<Longrightarrow> length kw = 8 \<Longrightarrow> length (concat pieces) < 2 ^ 64 \<Longrightarrow>
     hash_pieces (Some h) pieces out_len = Some (blake3_spec kw flags (concat pieces) out_len)"
  using hashed_updates [of kw flags "[]" h pieces] by (auto simp: hash_pieces_def hashed_finalize)

lemma length_words_from: "length (words_from_little_endian_bytes bs) = length bs div 4"
  by (induction bs rule: words_from_little_endian_bytes.induct) auto

lemma length_key_words: "length key = 32 \<Longrightarrow> length (words_from_little_endian_bytes key) = 8"
  by (simp add: length_words_from)

lemma init_plain: "length (hs_cv_stack h) = 432 \<Longrightarrow> hashed_all b3_IV 0 [] (blake3_hasher_init h)"
  by (simp add: blake3_hasher_init_def hashed_init)

lemma init_keyed:
  "length (hs_cv_stack h) = 432 \<Longrightarrow> length key = 32 \<Longrightarrow>
     hashed_all (words_from_little_endian_bytes key) KEYED_HASH [] (blake3_hasher_init_keyed h key)"
  by (simp add: blake3_hasher_init_keyed_def hashed_init length_key_words)

lemma init_derive_key:
  assumes "length (hs_cv_stack h) = 432" and "length (hs_cv_stack h') = 432" and "length context_bytes < 2 ^ 64"
  shows "\<exists>h''. blake3_hasher_init_derive_key h h' context_bytes = Some h'' \<and>
    hashed_all (words_from_little_endian_bytes (blake3_spec b3_IV DERIVE_KEY_CONTEXT context_bytes 32))
      DERIVE_KEY_MATERIAL [] h''"
proof -
  have "hashed_all b3_IV DERIVE_KEY_CONTEXT [] (hasher_init_internal h b3_IV DERIVE_KEY_CONTEXT)"
    using assms(1) by (simp add: hashed_init)
  from hashed_update [OF this length_b3_IV, of context_bytes] assms(3) obtain h1 where
      "blake3_hasher_update (hasher_init_internal h b3_IV DERIVE_KEY_CONTEXT) context_bytes = Some h1"
      "hashed_all b3_IV DERIVE_KEY_CONTEXT context_bytes h1" by auto
  with assms(2) show ?thesis
    by (simp add: blake3_hasher_init_derive_key_def hashed_finalize hashed_init length_key_words)
qed

end
