(* ===== verification/Ethash_Variants.thy ===== *)
theory Ethash_Variants
  imports Ethash_Client Ethash_IO Blake2b Blake3_Tree
begin

unbundle bit_operations_syntax

text \<open>
  The libraries \<open>libetchash\<close> (Ethereum Classic), \<open>libubqhash\<close> (Ubiq) and \<open>libethhashb3\<close>
  (Ethash-B3, Rethereum) are copies of \<open>libethhash\<close> that differ in a few functions of
  \<open>internal.c\<close>. This theory models those functions over the shared definitions of theory
  \<open>Ethash\<close>, and the top-level full client \<open>ethash_full_new\<close>, which all four have.
  Functions whose text is that of \<open>libethhash\<close> are not repeated.
\<close>

section \<open>The full client of \<open>libethhash\<close>\<close>

text \<open>The directory suffix is that of \<open>io_posix.c\<close>, which differs between the libraries.\<close>

definition ethash_full_new ::
    "string option \<Rightarrow> string option \<Rightarrow> full_env \<Rightarrow> fs \<Rightarrow> ethash_light \<Rightarrow> (u32 \<Rightarrow> int) option
     \<Rightarrow> (fault + ethash_full option) \<times> fs" where
  "ethash_full_new home_env home_pw env files light callback =
     (case ethash_get_default_dirname ''.ethash/'' home_env home_pw 256 of
        None \<Rightarrow> (Inr None, files)
      | Some strbuf \<Rightarrow>
          (case ethash_get_datasize (block_number light) of
             Inl e \<Rightarrow> (Inl e, files)
           | Inr full_size \<Rightarrow>
               (case ethash_get_seedhash (block_number light) of
                  Inl e \<Rightarrow> (Inl e, files)
                | Inr seedhash \<Rightarrow>
                    ethash_full_new_internal env files strbuf seedhash full_size light callback)))"

section \<open>Ethereum Classic\<close>

text \<open>
  \<open>libetchash\<close>: the epoch length doubles at \<open>fork_block\<close>. The tables are read without the
  assertion that \<open>libethhash\<close> has, so an epoch of 2048 or more is an out-of-bounds read; the
  seed still counts epochs of 30000 blocks.
\<close>

definition etchash_calc_epoch :: "u64 \<Rightarrow> u64 \<Rightarrow> u64" where
  "etchash_calc_epoch blocknr fork_block =
     (let epochLen = (if fork_block \<le> blocknr then 60000 else 30000) in blocknr div epochLen)"

definition etchash_get_datasize :: "u64 \<Rightarrow> u64 \<Rightarrow> fault + u64" where
  "etchash_get_datasize blocknr fork_block =
     (let epoch = unat (etchash_calc_epoch blocknr fork_block)
      in if epoch < length dag_sizes then Inr (of_nat (dag_sizes ! epoch)) else Inl OutOfBounds)"

definition etchash_get_cachesize :: "u64 \<Rightarrow> u64 \<Rightarrow> fault + u64" where
  "etchash_get_cachesize blocknr fork_block =
     (let epoch = unat (etchash_calc_epoch blocknr fork_block)
      in if epoch < length cache_sizes then Inr (of_nat (cache_sizes ! epoch)) else Inl OutOfBounds)"

definition etchash_light_new :: "bool \<Rightarrow> bool \<Rightarrow> u64 \<Rightarrow> u64 \<Rightarrow> fault + ethash_light" where
  "etchash_light_new callocd mallocd blocknr fork_block =
     (case ethash_get_seedhash blocknr of
        Inl e \<Rightarrow> Inl e
      | Inr seedhash \<Rightarrow>
          (case etchash_get_cachesize blocknr fork_block of
             Inl e \<Rightarrow> Inl e
           | Inr sz \<Rightarrow>
               (case ethash_light_new_internal callocd mallocd sz seedhash of
                  Inl e \<Rightarrow> Inl e
                | Inr None \<Rightarrow> Inl NullDeref
                | Inr (Some ret) \<Rightarrow> Inr (ret\<lparr>block_number := blocknr\<rparr>))))"

definition etchash_light_compute ::
    "ethash_light \<Rightarrow> bytes \<Rightarrow> u64 \<Rightarrow> u64 \<Rightarrow> fault + ethash_return_value" where
  "etchash_light_compute light header_hash nonce fork_block =
     (case etchash_get_datasize (block_number light) fork_block of
        Inl e \<Rightarrow> Inl e
      | Inr full_size \<Rightarrow> ethash_light_compute_internal light full_size header_hash nonce)"

definition etchash_full_new ::
    "string option \<Rightarrow> string option \<Rightarrow> full_env \<Rightarrow> fs \<Rightarrow> ethash_light \<Rightarrow> u64 \<Rightarrow> (u32 \<Rightarrow> int) option
     \<Rightarrow> (fault + ethash_full option) \<times> fs" where
  "etchash_full_new home_env home_pw env files light fork_block callback =
     (case ethash_get_default_dirname ''.etchash/'' home_env home_pw 256 of
        None \<Rightarrow> (Inr None, files)
      | Some strbuf \<Rightarrow>
          (case etchash_get_datasize (block_number light) fork_block of
             Inl e \<Rightarrow> (Inl e, files)
           | Inr full_size \<Rightarrow>
               (case ethash_get_seedhash (block_number light) of
                  Inl e \<Rightarrow> (Inl e, files)
                | Inr seedhash \<Rightarrow>
                    ethash_full_new_internal env files strbuf seedhash full_size light callback)))"

section \<open>Ubiq\<close>

text \<open>
  \<open>libubqhash\<close>: from epoch 22 on (UIP-1) the cache is generated with BLAKE2b-512 in place of
  Keccak-512; everything after the cache is unchanged.
\<close>

definition ethash_compute_cache_nodes_uip1 :: "u64 \<Rightarrow> bytes \<Rightarrow> fault + node list option" where
  "ethash_compute_cache_nodes_uip1 = compute_cache_nodes BLAKE2B_512"

definition ubqhash_light_new_internal ::
    "bool \<Rightarrow> bool \<Rightarrow> u64 \<Rightarrow> bytes \<Rightarrow> bool \<Rightarrow> fault + ethash_light option" where
  "ubqhash_light_new_internal callocd mallocd sz seed uip1 =
     (if \<not> callocd then Inr None
      else if \<not> mallocd then Inr None
      else case (if uip1 then ethash_compute_cache_nodes_uip1 sz seed
                 else ethash_compute_cache_nodes sz seed) of
             Inl e \<Rightarrow> Inl e
           | Inr None \<Rightarrow> Inr None
           | Inr (Some nodes) \<Rightarrow> Inr (Some \<lparr>cache = nodes, cache_size = sz, block_number = 0\<rparr>))"

definition UBQHASH_UIP1_EPOCH :: u64 where "UBQHASH_UIP1_EPOCH = 22"

definition ubqhash_light_new :: "bool \<Rightarrow> bool \<Rightarrow> u64 \<Rightarrow> fault + ethash_light" where
  "ubqhash_light_new callocd mallocd blocknr =
     (case ethash_get_seedhash blocknr of
        Inl e \<Rightarrow> Inl e
      | Inr seedhash \<Rightarrow>
          (case ethash_get_cachesize blocknr of
             Inl e \<Rightarrow> Inl e
           | Inr sz \<Rightarrow>
               (case ubqhash_light_new_internal callocd mallocd sz seedhash
                  (ETHASH_EPOCH_LENGTH * UBQHASH_UIP1_EPOCH \<le> blocknr) of
                  Inl e \<Rightarrow> Inl e
                | Inr None \<Rightarrow> Inl NullDeref
                | Inr (Some ret) \<Rightarrow> Inr (ret\<lparr>block_number := blocknr\<rparr>))))"

section \<open>Ethash-B3\<close>

text \<open>
  \<open>libethhashb3\<close>: an epoch has 32000 blocks, and \<open>ethash_hash\<close> calls BLAKE3 where \<open>libethhash\<close>
  calls Keccak. The dataset items are still built with Keccak-512, and \<open>ethash_quick_hash\<close> was
  not changed.
\<close>

abbreviation (input) B3_EPOCH_LENGTH :: u64 where "B3_EPOCH_LENGTH \<equiv> 32000"

definition b3_get_datasize :: "u64 \<Rightarrow> fault + u64" where
  "b3_get_datasize blocknr =
     (if blocknr div B3_EPOCH_LENGTH < 2048
      then Inr (of_nat (dag_sizes ! unat (blocknr div B3_EPOCH_LENGTH))) else Inl AssertFail)"

definition b3_get_cachesize :: "u64 \<Rightarrow> fault + u64" where
  "b3_get_cachesize blocknr =
     (if blocknr div B3_EPOCH_LENGTH < 2048
      then Inr (of_nat (cache_sizes ! unat (blocknr div B3_EPOCH_LENGTH))) else Inl AssertFail)"

definition b3_get_seedhash :: "u64 \<Rightarrow> fault + bytes" where
  "b3_get_seedhash blocknr =
     (case seedhash_loop (blocknr div B3_EPOCH_LENGTH) 0 (replicate 32 0) of
        None \<Rightarrow> Inl Diverge
      | Some ret \<Rightarrow> Inr ret)"

definition b3_hash ::
    "node list option \<Rightarrow> ethash_light option \<Rightarrow> u64 \<Rightarrow> bytes \<Rightarrow> u64 \<Rightarrow> fault + ethash_return_value option" where
  "b3_hash = hash_with SHA3_512 (\<lambda>m. the (blake3_hash_512 m)) (\<lambda>m. the (blake3_hash_256 m))"

definition b3_quick_hash :: "bytes \<Rightarrow> u64 \<Rightarrow> bytes \<Rightarrow> bytes" where
  "b3_quick_hash = quick_hash SHA3_512 SHA3_256"

definition b3_light_new :: "bool \<Rightarrow> bool \<Rightarrow> u64 \<Rightarrow> fault + ethash_light" where
  "b3_light_new callocd mallocd blocknr =
     (case b3_get_seedhash blocknr of
        Inl e \<Rightarrow> Inl e
      | Inr seedhash \<Rightarrow>
          (case b3_get_cachesize blocknr of
             Inl e \<Rightarrow> Inl e
           | Inr sz \<Rightarrow>
               (case ethash_light_new_internal callocd mallocd sz seedhash of
                  Inl e \<Rightarrow> Inl e
                | Inr None \<Rightarrow> Inl NullDeref
                | Inr (Some ret) \<Rightarrow> Inr (ret\<lparr>block_number := blocknr\<rparr>))))"

definition b3_light_compute :: "ethash_light \<Rightarrow> bytes \<Rightarrow> u64 \<Rightarrow> fault + ethash_return_value" where
  "b3_light_compute light header_hash nonce =
     (case b3_get_datasize (block_number light) of
        Inl e \<Rightarrow> Inl e
      | Inr full_size \<Rightarrow> compute_result (b3_hash None (Some light) full_size header_hash nonce))"

definition b3_full_compute :: "ethash_full \<Rightarrow> bytes \<Rightarrow> u64 \<Rightarrow> fault + ethash_return_value" where
  "b3_full_compute full header_hash nonce =
     compute_result (b3_hash (Some (data full)) None (file_size full) header_hash nonce)"

section \<open>Interpretations of the digest contract\<close>

interpretation blake2b_pair: digest_pair BLAKE2B_512 SHA3_256
  by unfold_locales simp_all

interpretation blake3_pair: digest_pair "\<lambda>m. blake3_spec b3_IV 0 m 64" "\<lambda>m. blake3_spec b3_IV 0 m 32"
  by unfold_locales simp_all

section \<open>Full and light clients agree\<close>

lemma datasize_good: "ethash_get_datasize b = Inr sz \<Longrightarrow> good_datasize sz"
  by (auto simp: ethash_get_datasize_def good_dag_sizes word_less_nat_alt split: if_splits)

lemma full_client_agrees:
  assumes "ethash_full_new_internal env files dirname seed sz light callback = (Inr (Some full), files')"
    and "memo_sound sz light (files (dag_path dirname seed))" and "good_datasize sz" and "wf_light light"
  shows "ethash_full_compute full h n = ethash_light_compute_internal light sz h n"
proof -
  have size: "unat (sz div 64) < 2 ^ 32" using assms(3) by (simp add: good_datasize_def)
  have "full = \<lparr>file_size = sz, data = keccak_dag sz light\<rparr>"
    using assms(1,2) size by (rule full_new_data)
  with light_full_agree [OF size, of light SHA3_512 SHA3_512 SHA3_256 h n] assms(4) show ?thesis
    by (simp add: ethash_full_compute_def ethash_light_compute_internal_def ethash_hash_def)
qed

text \<open>
  What is on disk after a successful call, with the directory and the sizes of the tables: a file of the
  expected length that starts with the magic number is kept, whatever it holds; any other file is
  replaced by the dataset.
\<close>

definition dag_left :: "u64 \<Rightarrow> ethash_light \<Rightarrow> bytes option \<Rightarrow> bytes" where
  "dag_left sz light file =
     (case file of
        Some c \<Rightarrow> if length c = 8 + unat sz \<and> take 8 c = magic_bytes then c else complete_dag sz light
      | None \<Rightarrow> complete_dag sz light)"

lemma datasize_nodes:
  assumes "ethash_get_datasize b = Inr sz"
  shows "100 \<le> unat (sz div 64)"
proof -
  obtain e where e: "e < 2048" "sz = of_nat (dag_sizes ! e)"
    using assms by (auto simp: ethash_get_datasize_def word_less_nat_alt split: if_splits)
  have "unat (sz div 64) = dag_sizes ! e div 64"
    using word_size(2) [of "dag_sizes ! e" 64] dag_sizes_nth(3) [OF e(1)] by (simp add: e(2))
  moreover have "100 \<le> dag_sizes ! e div 64" using div_le_mono [OF dag_sizes_nth(2) [OF e(1)], of 64] by simp
  ultimately show ?thesis by simp
qed

lemma full_new_left:
  assumes "ethash_get_datasize b = Inr sz" and "os_ok env" and "wf_light light"
    and "callback = None \<or> (\<exists>cb. callback = Some cb \<and> (\<forall>n. cb n = 0))"
  shows "\<exists>files'. ethash_full_new_internal env files dir seed sz light callback =
      (Inr (Some \<lparr>file_size = sz, data = payload_nodes (drop 8 (dag_left sz light (files (dag_path dir seed))))\<rparr>), files') \<and>
    files' (dag_path dir seed) = Some (dag_left sz light (files (dag_path dir seed)))"
proof (cases "\<exists>c. files (dag_path dir seed) = Some c \<and> length c = 8 + unat sz \<and> take 8 c = magic_bytes")
  case True
  then obtain c where c: "files (dag_path dir seed) = Some c" "length c = 8 + unat sz" "take 8 c = magic_bytes" by blast
  have env: "io_all_ok (prepare1 env)" "calloc_ok env" "mmap_ok env" using assms(2) by (simp_all add: os_ok_def io_ok_def)
  from marked_match [of _ files dir seed, OF env(1) c] env c show ?thesis
    by (intro exI [of _ files]) (simp add: ethash_full_new_internal_def dag_left_def)
next
  case False
  then have left: "dag_left sz light (files (dag_path dir seed)) = complete_dag sz light"
    and sound: "memo_sound sz light (files (dag_path dir seed))"
    by (auto simp: dag_left_def memo_sound_def split: option.splits)
  have size: "sz mod 128 = 0" "unat (sz div 64) < 2 ^ 32"
    using datasize_good [OF assms(1)] by (simp_all add: good_datasize_def)
  have "quiet_callback sz callback" using assms(4) datasize_nodes [OF assms(1)] by (auto simp: quiet_callback_def)
  then obtain full files' where new: "ethash_full_new_internal env files dir seed sz light callback = (Inr (Some full), files')"
    using full_new_succeeds [OF assms(2) size assms(3)] by blast
  then show ?thesis
    using full_new_data [OF new sound size(2)] full_new_complete [OF new sound size(2)]
    unfolding left by (simp add: complete_dag_def payload_nodes_bytes wf_keccak_dag)
qed

section \<open>Ethereum Classic\<close>

lemma length_sizes: "length dag_sizes = 2048" "length cache_sizes = 2048"
  by (simp_all add: length_dag_sizes length_cache_sizes)

lemma etchash_epoch_before: "b < fork \<Longrightarrow> etchash_calc_epoch b fork = b div 30000"
  by (simp add: etchash_calc_epoch_def not_le [symmetric])

lemma etchash_sizes_before:
  assumes "b < fork" and "unat b < 2048 * 30000"
  shows "etchash_get_datasize b fork = ethash_get_datasize b"
    and "etchash_get_cachesize b fork = ethash_get_cachesize b"
  using epoch_less [OF assms(2)] assms(1)
  by (simp_all add: etchash_get_datasize_def etchash_get_cachesize_def ethash_get_datasize_def
      ethash_get_cachesize_def etchash_epoch_before length_sizes)

lemma etchash_epoch_seed:
  assumes "unat (etchash_calc_epoch b fork) < 2048"
  shows "unat (b div 30000) < 2 ^ 32"
proof -
  have "unat b div 60000 < 2048 \<or> unat b div 30000 < 2048"
    using assms by (auto simp: etchash_calc_epoch_def Let_def unat_div split: if_splits)
  then have "unat b < 2048 * 60000" by (auto simp: div_less_iff_less_mult)
  then show ?thesis by (simp add: unat_div)
qed

lemma seedhash_closed:
  "unat (b div 30000) < 2 ^ 32 \<Longrightarrow>
     ethash_get_seedhash b = Inr ((SHA3_256 ^^ unat (b div 30000)) (replicate 32 0))"
  using seedhash_loop_counts [of "b div 30000" 0] by (simp add: ethash_get_seedhash_def)

lemma etchash_light_new_ok:
  assumes "unat (etchash_calc_epoch b fork) < 2048"
  shows "\<exists>light. etchash_light_new True True b fork = Inr light \<and> wf_light light \<and> block_number light = b"
proof -
  obtain sz where sz: "etchash_get_cachesize b fork = Inr sz" "good_cachesize sz"
    using assms good_cache_sizes by (simp add: etchash_get_cachesize_def length_sizes)
  obtain h where h: "ethash_get_seedhash b = Inr h"
    using seedhash_closed [OF etchash_epoch_seed [OF assms]] by blast
  obtain nodes where "compute_cache_nodes SHA3_512 sz h = Inr (Some nodes)"
      "wf_light \<lparr>cache = nodes, cache_size = sz, block_number = b\<rparr>"
    using keccak_pair.good_cache_light [OF sz(2)] by blast
  with h sz show ?thesis
    by (simp add: etchash_light_new_def ethash_light_new_internal_def ethash_compute_cache_nodes_def)
qed

lemma etchash_light_compute_ok:
  assumes "wf_light light" and "unat (etchash_calc_epoch (block_number light) fork) < 2048"
  shows "\<exists>r. etchash_light_compute light header nonce fork = Inr r \<and> success r \<and>
    length (result r) = 32 \<and> length (mix_hash r) = 32"
proof -
  obtain sz where sz: "etchash_get_datasize (block_number light) fork = Inr sz" "good_datasize sz"
    using assms(2) good_dag_sizes by (simp add: etchash_get_datasize_def length_sizes)
  obtain r where "hash_with SHA3_512 SHA3_512 SHA3_256 None (Some light) sz header nonce = Inr (Some r)"
      "success r" "length (result r) = 32" "length (mix_hash r) = 32"
    using keccak_pair.good_hash [OF assms(1) sz(2)] by blast
  with sz show ?thesis
    by (simp add: etchash_light_compute_def ethash_light_compute_internal_def compute_result_def ethash_hash_def)
qed

section \<open>Ubiq\<close>

lemma ubqhash_internal_before: "ubqhash_light_new_internal c m sz seed False = ethash_light_new_internal c m sz seed"
  by (simp add: ubqhash_light_new_internal_def ethash_light_new_internal_def)

lemma ubqhash_before_uip1:
  "\<not> 30000 * UBQHASH_UIP1_EPOCH \<le> b \<Longrightarrow> ubqhash_light_new callocd mallocd b = ethash_light_new callocd mallocd b"
  by (simp only: ubqhash_light_new_def ethash_light_new_def ubqhash_internal_before)

lemma ubqhash_uip1_ok:
  assumes "unat b < 2048 * 30000" and "30000 * UBQHASH_UIP1_EPOCH \<le> b"
  shows "\<exists>light. ubqhash_light_new True True b = Inr light \<and> wf_light light \<and> block_number light = b"
proof -
  obtain h where h: "ethash_get_seedhash b = Inr h" using seedhash_ok [OF assms(1)] by blast
  obtain sz where sz: "ethash_get_cachesize b = Inr sz" "good_cachesize sz"
    using cachesize_ok [OF assms(1)] by blast
  obtain nodes where "compute_cache_nodes BLAKE2B_512 sz h = Inr (Some nodes)"
      "wf_light \<lparr>cache = nodes, cache_size = sz, block_number = b\<rparr>"
    using blake2b_pair.good_cache_light [OF sz(2)] by blast
  with h sz assms(2) show ?thesis
    by (simp add: ubqhash_light_new_def ubqhash_light_new_internal_def ethash_compute_cache_nodes_uip1_def)
qed

section \<open>Ethash-B3\<close>

lemma hash_body_digests:
  assumes "\<And>m. length m < 2 ^ 64 \<Longrightarrow> H m = H' m" and "\<And>m. length m < 2 ^ 64 \<Longrightarrow> K m = K' m"
    and "\<And>m. length (H' m) = 64"
  shows "hash_body H K lookup sz header nonce = hash_body H' K' lookup sz header nonce"
proof -
  have s: "H (take 32 header @ le_bytes 8 nonce) = H' (take 32 header @ le_bytes 8 nonce)"
    by (rule assms(1)) simp
  have "length (words32_of (H' m)) = 16" for m using assms(3) by (intro length_words32_of) simp
  then show ?thesis by (simp add: hash_body_def Let_def s assms(2))
qed

lemma b3_hash_spec:
  "b3_hash = hash_with SHA3_512 (\<lambda>m. blake3_spec b3_IV 0 m 64) (\<lambda>m. blake3_spec b3_IV 0 m 32)"
proof -
  have "hash_body (\<lambda>m. the (blake3_hash_512 m)) (\<lambda>m. the (blake3_hash_256 m)) =
      hash_body (\<lambda>m. blake3_spec b3_IV 0 m 64) (\<lambda>m. blake3_spec b3_IV 0 m 32)"
    by (intro ext hash_body_digests) (simp_all add: one_shot)
  then show ?thesis by (intro ext) (simp only: b3_hash_def hash_with_def)
qed

lemma b3_epoch_less:
  "unat b < 2048 * 32000 \<Longrightarrow> b div 32000 < (2048 :: u64) \<and> unat (b div 32000) < 2048"
  by (auto simp: word_less_nat_alt unat_div less_mult_imp_div_less)

lemma b3_light_new_ok:
  assumes "unat b < 2048 * 32000"
  shows "\<exists>light. b3_light_new True True b = Inr light \<and> wf_light light \<and> block_number light = b"
proof -
  note e = b3_epoch_less [OF assms]
  obtain h where h: "b3_get_seedhash b = Inr h"
    using seedhash_loop_counts [of "b div 32000" 0 "replicate 32 0"] e by (auto simp: b3_get_seedhash_def)
  obtain sz where sz: "b3_get_cachesize b = Inr sz" "good_cachesize sz"
    using e by (simp add: b3_get_cachesize_def good_cache_sizes)
  obtain nodes where "compute_cache_nodes SHA3_512 sz h = Inr (Some nodes)"
      "wf_light \<lparr>cache = nodes, cache_size = sz, block_number = b\<rparr>"
    using keccak_pair.good_cache_light [OF sz(2)] by blast
  with h sz show ?thesis
    by (simp add: b3_light_new_def ethash_light_new_internal_def ethash_compute_cache_nodes_def)
qed

lemma b3_light_compute_ok:
  assumes "wf_light light" and "unat (block_number light) < 2048 * 32000"
  shows "\<exists>r. b3_light_compute light header nonce = Inr r \<and> success r \<and>
    length (result r) = 32 \<and> length (mix_hash r) = 32"
proof -
  obtain sz where sz: "b3_get_datasize (block_number light) = Inr sz" "good_datasize sz"
    using b3_epoch_less [OF assms(2)] by (simp add: b3_get_datasize_def good_dag_sizes)
  obtain r where "b3_hash None (Some light) sz header nonce = Inr (Some r)"
      "success r" "length (result r) = 32" "length (mix_hash r) = 32"
    unfolding b3_hash_spec using blake3_pair.good_hash [OF assms(1) sz(2)] by blast
  with sz show ?thesis by (simp add: b3_light_compute_def compute_result_def)
qed

end
