(* ===== verification/Sph_Chains.thy ===== *)
theory Sph_Chains
  imports Prelude
begin

unbundle bit_operations_syntax

text \<open>
  The proof-of-work hashes of \<open>src/src/Native/libmultihash\<close> that chain the digests of the
  vendored library sphlib in a fixed order: \<open>x11.c\<close>, \<open>x13.c\<close>, \<open>x14.c\<close>, \<open>x15.c\<close>, \<open>x17.c\<close>,
  \<open>c11.c\<close>, \<open>qubit.c\<close>, \<open>nist5.c\<close>, \<open>phi.c\<close>, \<open>geek.c\<close>, \<open>fresh.c\<close>, \<open>s3.c\<close>, \<open>skydoge.c\<close>,
  \<open>Lyra2RE.c\<close> and \<open>allium.c\<close>.

  The digests are a parameter \<open>H\<close>: \<open>H a m\<close> is what \<open>sph_a_init\<close>, \<open>sph_a\<close> on the bytes \<open>m\<close> and
  \<open>sph_a_close\<close> store. What the code relies on is the number of bytes that \<open>close\<close> stores,
  \<open>sph_ok H\<close>. \<open>LYRA2\<close> and its two variants (\<open>Lyra2.c\<close>) are the parameter \<open>L\<close>. The local arrays
  are arguments too, holding whatever the stack holds when the function is entered.
\<close>

section \<open>Digests and buffers\<close>

datatype sph = BLAKE512 | BMW512 | GROESTL512 | JH512 | KECCAK512 | SKEIN512 | LUFFA512 | CUBEHASH512 | SHAVITE512
  | SIMD512 | ECHO512 | HAMSI512 | FUGUE512 | SHABAL512 | WHIRLPOOL | SHA512 | GOST512
  | BLAKE256 | BMW256 | CUBEHASH256 | GROESTL256 | HAVAL256_5 | KECCAK256 | SHA256 | SKEIN256 | SM3 | TIGER

fun digest_len :: "sph \<Rightarrow> nat" where
  "digest_len BLAKE512 = 64"
| "digest_len BMW512 = 64"
| "digest_len GROESTL512 = 64"
| "digest_len JH512 = 64"
| "digest_len KECCAK512 = 64"
| "digest_len SKEIN512 = 64"
| "digest_len LUFFA512 = 64"
| "digest_len CUBEHASH512 = 64"
| "digest_len SHAVITE512 = 64"
| "digest_len SIMD512 = 64"
| "digest_len ECHO512 = 64"
| "digest_len HAMSI512 = 64"
| "digest_len FUGUE512 = 64"
| "digest_len SHABAL512 = 64"
| "digest_len WHIRLPOOL = 64"
| "digest_len SHA512 = 64"
| "digest_len GOST512 = 64"
| "digest_len BLAKE256 = 32"
| "digest_len BMW256 = 32"
| "digest_len CUBEHASH256 = 32"
| "digest_len GROESTL256 = 32"
| "digest_len HAVAL256_5 = 32"
| "digest_len KECCAK256 = 32"
| "digest_len SHA256 = 32"
| "digest_len SKEIN256 = 32"
| "digest_len SM3 = 32"
| "digest_len TIGER = 24"

lemma digest_len_le: "digest_len a \<le> 64"
  by (cases a) simp_all

definition sph_ok :: "(sph \<Rightarrow> bytes \<Rightarrow> bytes) \<Rightarrow> bool" where
  "sph_ok H \<longleftrightarrow> (\<forall>a m. length (H a m) = digest_len a)"

text \<open>A function with these lengths: the message cut or padded with zeros.\<close>

definition sample_sph :: "sph \<Rightarrow> bytes \<Rightarrow> bytes" where
  "sample_sph a m = take (digest_len a) (m @ replicate (digest_len a) 0)"

lemma sample_sph_ok: "sph_ok sample_sph"
  by (auto simp: sph_ok_def sample_sph_def min_def)

datatype lyra = LYRA2 | LYRA2_OLD | LYRA2_3

text \<open>\<open>LYRA2(K, kLen, pwd, pwdlen, salt, saltlen, timeCost, nRows, nCols)\<close> stores \<open>kLen\<close> bytes at \<open>K\<close>.\<close>

type_synonym lyra_fun = "lyra \<Rightarrow> nat \<Rightarrow> bytes \<Rightarrow> bytes \<Rightarrow> nat \<Rightarrow> nat \<Rightarrow> nat \<Rightarrow> bytes"

definition lyra_ok :: "lyra_fun \<Rightarrow> bool" where
  "lyra_ok L \<longleftrightarrow> (\<forall>v k pwd salt t r c. length (L v k pwd salt t r c) = k)"

definition sample_lyra :: lyra_fun where
  "sample_lyra v k pwd salt t r c = take k (salt @ replicate k 0)"

lemma sample_lyra_ok: "lyra_ok sample_lyra"
  by (auto simp: lyra_ok_def sample_lyra_def min_def)

text \<open>A digest stored at the start of a buffer.\<close>

definition digest_to :: "bytes \<Rightarrow> bytes \<Rightarrow> bytes" where
  "digest_to buf d = copy_at buf 0 d"

lemma digest_to_full [simp]: "length d = length buf \<Longrightarrow> digest_to buf d = d"
  by (simp add: digest_to_def copy_at_def)

lemma digest_to_part: "length d \<le> length buf \<Longrightarrow> digest_to buf d = d @ drop (length d) buf"
  by (simp add: digest_to_def copy_at_def)

lemma length_digest_to [simp]: "length d \<le> length buf \<Longrightarrow> length (digest_to buf d) = length buf"
  by (simp add: digest_to_def)

lemma sph_ok_length: "sph_ok H \<Longrightarrow> length (H a m) = digest_len a"
  by (simp add: sph_ok_def)

lemma lyra_ok_length: "lyra_ok L \<Longrightarrow> length (L v k pwd salt t r c) = k"
  by (simp add: lyra_ok_def)

lemmas sph_simps = sph_ok_length lyra_ok_length Let_def

section \<open>The functions\<close>

definition x11_hash ::
    "(sph \<Rightarrow> bytes \<Rightarrow> bytes) \<Rightarrow> bytes \<Rightarrow> bytes \<Rightarrow> bytes \<Rightarrow> nat \<Rightarrow> bytes" where
  "x11_hash H hashA hashB input len =
     (let hashA = digest_to hashA (H BLAKE512 (take len input));
          hashB = digest_to hashB (H BMW512 (take 64 hashA));
          hashA = digest_to hashA (H GROESTL512 (take 64 hashB));
          hashB = digest_to hashB (H SKEIN512 (take 64 hashA));
          hashA = digest_to hashA (H JH512 (take 64 hashB));
          hashB = digest_to hashB (H KECCAK512 (take 64 hashA));
          hashA = digest_to hashA (H LUFFA512 (take 64 hashB));
          hashB = digest_to hashB (H CUBEHASH512 (take 64 hashA));
          hashA = digest_to hashA (H SHAVITE512 (take 64 hashB));
          hashB = digest_to hashB (H SIMD512 (take 64 hashA));
          hashA = digest_to hashA (H ECHO512 (take 64 hashB))
      in take 32 hashA)"

definition x13_hash ::
    "(sph \<Rightarrow> bytes \<Rightarrow> bytes) \<Rightarrow> bytes \<Rightarrow> bytes \<Rightarrow> bytes \<Rightarrow> nat \<Rightarrow> bytes" where
  "x13_hash H hashA hashB input len =
     (let hashA = digest_to hashA (H BLAKE512 (take len input));
          hashB = digest_to hashB (H BMW512 (take 64 hashA));
          hashA = digest_to hashA (H GROESTL512 (take 64 hashB));
          hashB = digest_to hashB (H SKEIN512 (take 64 hashA));
          hashA = digest_to hashA (H JH512 (take 64 hashB));
          hashB = digest_to hashB (H KECCAK512 (take 64 hashA));
          hashA = digest_to hashA (H LUFFA512 (take 64 hashB));
          hashB = digest_to hashB (H CUBEHASH512 (take 64 hashA));
          hashA = digest_to hashA (H SHAVITE512 (take 64 hashB));
          hashB = digest_to hashB (H SIMD512 (take 64 hashA));
          hashA = digest_to hashA (H ECHO512 (take 64 hashB));
          hashB = digest_to hashB (H HAMSI512 (take 64 hashA));
          hashA = digest_to hashA (H FUGUE512 (take 64 hashB))
      in take 32 hashA)"

definition x13_bcd_hash ::
    "(sph \<Rightarrow> bytes \<Rightarrow> bytes) \<Rightarrow> bytes \<Rightarrow> bytes \<Rightarrow> bytes \<Rightarrow> bytes" where
  "x13_bcd_hash H hashA hashB input =
     (let hashA = digest_to hashA (H BLAKE512 (take 80 input));
          hashB = digest_to hashB (H BMW512 (take 64 hashA));
          hashA = digest_to hashA (H GROESTL512 (take 64 hashB));
          hashB = digest_to hashB (H SKEIN512 (take 64 hashA));
          hashA = digest_to hashA (H JH512 (take 64 hashB));
          hashB = digest_to hashB (H KECCAK512 (take 64 hashA));
          hashA = replicate 64 0;
          hashA = digest_to hashA (H SM3 (take 64 hashB));
          hashB = digest_to hashB (H CUBEHASH512 (take 64 hashA));
          hashA = digest_to hashA (H SHAVITE512 (take 64 hashB));
          hashB = digest_to hashB (H SIMD512 (take 64 hashA));
          hashA = digest_to hashA (H ECHO512 (take 64 hashB));
          hashB = digest_to hashB (H HAMSI512 (take 64 hashA));
          hashA = digest_to hashA (H FUGUE512 (take 64 hashB))
      in take 32 hashA)"

definition x14_hash ::
    "(sph \<Rightarrow> bytes \<Rightarrow> bytes) \<Rightarrow> bytes \<Rightarrow> bytes \<Rightarrow> bytes \<Rightarrow> nat \<Rightarrow> bytes" where
  "x14_hash H hashA hashB input len =
     (let hashA = digest_to hashA (H BLAKE512 (take 80 input));
          hashB = digest_to hashB (H BMW512 (take 64 hashA));
          hashA = digest_to hashA (H GROESTL512 (take 64 hashB));
          hashB = digest_to hashB (H SKEIN512 (take 64 hashA));
          hashA = digest_to hashA (H JH512 (take 64 hashB));
          hashB = digest_to hashB (H KECCAK512 (take 64 hashA));
          hashA = digest_to hashA (H LUFFA512 (take 64 hashB));
          hashB = digest_to hashB (H CUBEHASH512 (take 64 hashA));
          hashA = digest_to hashA (H SHAVITE512 (take 64 hashB));
          hashB = digest_to hashB (H SIMD512 (take 64 hashA));
          hashA = digest_to hashA (H ECHO512 (take 64 hashB));
          hashB = digest_to hashB (H HAMSI512 (take 64 hashA));
          hashA = digest_to hashA (H FUGUE512 (take 64 hashB));
          hashB = digest_to hashB (H SHABAL512 (take 64 hashA))
      in take 32 hashB)"

definition x15_hash ::
    "(sph \<Rightarrow> bytes \<Rightarrow> bytes) \<Rightarrow> bytes \<Rightarrow> bytes \<Rightarrow> bytes \<Rightarrow> nat \<Rightarrow> bytes" where
  "x15_hash H hashA hashB input len =
     (let hashA = digest_to hashA (H BLAKE512 (take len input));
          hashB = digest_to hashB (H BMW512 (take 64 hashA));
          hashA = digest_to hashA (H GROESTL512 (take 64 hashB));
          hashB = digest_to hashB (H SKEIN512 (take 64 hashA));
          hashA = digest_to hashA (H JH512 (take 64 hashB));
          hashB = digest_to hashB (H KECCAK512 (take 64 hashA));
          hashA = digest_to hashA (H LUFFA512 (take 64 hashB));
          hashB = digest_to hashB (H CUBEHASH512 (take 64 hashA));
          hashA = digest_to hashA (H SHAVITE512 (take 64 hashB));
          hashB = digest_to hashB (H SIMD512 (take 64 hashA));
          hashA = digest_to hashA (H ECHO512 (take 64 hashB));
          hashB = digest_to hashB (H HAMSI512 (take 64 hashA));
          hashA = digest_to hashA (H FUGUE512 (take 64 hashB));
          hashB = digest_to hashB (H SHABAL512 (take 64 hashA));
          hashA = digest_to hashA (H WHIRLPOOL (take 64 hashB))
      in take 32 hashA)"

definition x17_hash ::
    "(sph \<Rightarrow> bytes \<Rightarrow> bytes) \<Rightarrow> bytes \<Rightarrow> bytes \<Rightarrow> nat \<Rightarrow> bytes" where
  "x17_hash H hash input len =
     (let hash = digest_to hash (H BLAKE512 (take len input));
          hash = digest_to hash (H BMW512 (take 64 hash));
          hash = digest_to hash (H GROESTL512 (take 64 hash));
          hash = digest_to hash (H SKEIN512 (take 64 hash));
          hash = digest_to hash (H JH512 (take 64 hash));
          hash = digest_to hash (H KECCAK512 (take 64 hash));
          hash = digest_to hash (H LUFFA512 (take 64 hash));
          hash = digest_to hash (H CUBEHASH512 (take 64 hash));
          hash = digest_to hash (H SHAVITE512 (take 64 hash));
          hash = digest_to hash (H SIMD512 (take 64 hash));
          hash = digest_to hash (H ECHO512 (take 64 hash));
          hash = digest_to hash (H HAMSI512 (take 64 hash));
          hash = digest_to hash (H FUGUE512 (take 64 hash));
          hash = digest_to hash (H SHABAL512 (take 64 hash));
          hash = digest_to hash (H WHIRLPOOL (take 64 hash));
          hash = digest_to hash (H SHA512 (take 64 hash));
          hash = digest_to hash (H HAVAL256_5 (take 64 hash))
      in take 32 hash)"

definition c11_hash ::
    "(sph \<Rightarrow> bytes \<Rightarrow> bytes) \<Rightarrow> bytes \<Rightarrow> bytes \<Rightarrow> bytes \<Rightarrow> bytes" where
  "c11_hash H hashA hashB input =
     (let hashA = digest_to hashA (H BLAKE512 (take 80 input));
          hashB = digest_to hashB (H BMW512 (take 64 hashA));
          hashA = digest_to hashA (H GROESTL512 (take 64 hashB));
          hashB = digest_to hashB (H JH512 (take 64 hashA));
          hashA = digest_to hashA (H KECCAK512 (take 64 hashB));
          hashB = digest_to hashB (H SKEIN512 (take 64 hashA));
          hashA = digest_to hashA (H LUFFA512 (take 64 hashB));
          hashB = digest_to hashB (H CUBEHASH512 (take 64 hashA));
          hashA = digest_to hashA (H SHAVITE512 (take 64 hashB));
          hashB = digest_to hashB (H SIMD512 (take 64 hashA));
          hashA = digest_to hashA (H ECHO512 (take 64 hashB))
      in take 32 hashA)"

definition qubit_hash ::
    "(sph \<Rightarrow> bytes \<Rightarrow> bytes) \<Rightarrow> bytes \<Rightarrow> bytes \<Rightarrow> bytes \<Rightarrow> nat \<Rightarrow> bytes" where
  "qubit_hash H hash1 hash2 input len =
     (let hash1 = digest_to hash1 (H LUFFA512 (take len input));
          hash2 = digest_to hash2 (H CUBEHASH512 (take 64 hash1));
          hash1 = digest_to hash1 (H SHAVITE512 (take 64 hash2));
          hash2 = digest_to hash2 (H SIMD512 (take 64 hash1));
          hash1 = digest_to hash1 (H ECHO512 (take 64 hash2))
      in take 32 hash1)"

definition nist5_hash ::
    "(sph \<Rightarrow> bytes \<Rightarrow> bytes) \<Rightarrow> bytes \<Rightarrow> bytes \<Rightarrow> nat \<Rightarrow> bytes" where
  "nist5_hash H hash input len =
     (let hash = digest_to hash (H BLAKE512 (take len input));
          hash = digest_to hash (H GROESTL512 (take 64 hash));
          hash = digest_to hash (H JH512 (take 64 hash));
          hash = digest_to hash (H KECCAK512 (take 64 hash));
          hash = digest_to hash (H SKEIN512 (take 64 hash))
      in take 32 hash)"

definition phi_hash ::
    "(sph \<Rightarrow> bytes \<Rightarrow> bytes) \<Rightarrow> bytes \<Rightarrow> bytes \<Rightarrow> nat \<Rightarrow> bytes" where
  "phi_hash H hash input len =
     (let hash = digest_to hash (H SKEIN512 (take len input));
          hash = digest_to hash (H JH512 (take 64 hash));
          hash = digest_to hash (H CUBEHASH512 (take 64 hash));
          hash = digest_to hash (H FUGUE512 (take 64 hash));
          hash = digest_to hash (H GOST512 (take 64 hash));
          hash = digest_to hash (H ECHO512 (take 64 hash))
      in take 32 hash)"

definition geek_hash ::
    "(sph \<Rightarrow> bytes \<Rightarrow> bytes) \<Rightarrow> bytes \<Rightarrow> bytes \<Rightarrow> bytes \<Rightarrow> nat \<Rightarrow> bytes" where
  "geek_hash H hashA hashB input len =
     (let hashA = digest_to hashA (H BLAKE512 (take 80 input));
          hashB = digest_to hashB (H BMW512 (take 64 hashA));
          hashA = digest_to hashA (H ECHO512 (take 64 hashB));
          hashB = digest_to hashB (H SHABAL512 (take 64 hashA));
          hashA = digest_to hashA (H GROESTL512 (take 64 hashB));
          hashB = digest_to hashB (H CUBEHASH512 (take 64 hashA));
          hashA = digest_to hashA (H KECCAK512 (take 64 hashB));
          hashB = digest_to hashB (H HAMSI512 (take 64 hashA));
          hashA = digest_to hashA (H SIMD512 (take 64 hashB))
      in take 32 hashA)"

definition fresh_hash ::
    "(sph \<Rightarrow> bytes \<Rightarrow> bytes) \<Rightarrow> bytes \<Rightarrow> bytes \<Rightarrow> bytes \<Rightarrow> nat \<Rightarrow> bytes" where
  "fresh_hash H hashA hashB input len =
     (let hashA = digest_to hashA (H SHAVITE512 (take len input));
          hashB = digest_to hashB (H SIMD512 (take 64 hashA));
          hashA = digest_to hashA (H SHAVITE512 (take 64 hashB));
          hashB = digest_to hashB (H SIMD512 (take 64 hashA));
          hashA = digest_to hashA (H ECHO512 (take 64 hashB))
      in take 32 hashA)"

definition s3_hash ::
    "(sph \<Rightarrow> bytes \<Rightarrow> bytes) \<Rightarrow> bytes \<Rightarrow> bytes \<Rightarrow> bytes \<Rightarrow> nat \<Rightarrow> bytes" where
  "s3_hash H hashA hashB input len =
     (let hashA = digest_to hashA (H SHAVITE512 (take 80 input));
          hashB = digest_to hashB (H SIMD512 (take 64 hashA));
          hashA = digest_to hashA (H SKEIN512 (take 64 hashB))
      in take 32 hashA)"

definition skydoge_hash ::
    "(sph \<Rightarrow> bytes \<Rightarrow> bytes) \<Rightarrow> bytes \<Rightarrow> bytes \<Rightarrow> bytes \<Rightarrow> nat \<Rightarrow> bytes" where
  "skydoge_hash H hash hashA input len =
     (let hash = digest_to hash (H BLAKE512 (take len input));
          hash = digest_to hash (H SKEIN512 (take 64 hash));
          hash = digest_to hash (H BMW512 (take 64 hash));
          hash = digest_to hash (H GROESTL512 (take 64 hash));
          hash = digest_to hash (H JH512 (take 64 hash));
          hash = digest_to hash (H LUFFA512 (take 64 hash));
          hash = digest_to hash (H KECCAK512 (take 64 hash));
          hash = digest_to hash (H SIMD512 (take 64 hash));
          hash = digest_to hash (H ECHO512 (take 64 hash));
          hash = digest_to hash (H CUBEHASH512 (take 64 hash));
          hash = digest_to hash (H SHAVITE512 (take 64 hash));
          hash = digest_to hash (H HAMSI512 (take 64 hash));
          hash = digest_to hash (H FUGUE512 (take 64 hash));
          hash = digest_to hash (H SHABAL512 (take 64 hash));
          hash = digest_to hash (H WHIRLPOOL (take 64 hash));
          hash = digest_to hash (H SHA512 (take 64 hash));
          hash = digest_to hash (H SIMD512 (take 64 hash));
          hash = digest_to hash (H WHIRLPOOL (take 64 hash));
          hashA = digest_to hashA (H SHA256 (take 64 hash));
          hashA = take 32 hashA @ replicate 32 0;
          hash = digest_to hash (H HAVAL256_5 (take 64 hashA))
      in take 32 hash)"

definition lyra2re_hash ::
    "(sph \<Rightarrow> bytes \<Rightarrow> bytes) \<Rightarrow> lyra_fun \<Rightarrow> bytes \<Rightarrow> bytes \<Rightarrow> bytes \<Rightarrow> bytes" where
  "lyra2re_hash H L hashA hashB input =
     (let hashA = digest_to hashA (H BLAKE256 (take 80 input));
          hashB = digest_to hashB (H KECCAK256 (take 32 hashA));
          hashA = digest_to hashA (L LYRA2_OLD 32 (take 32 hashB) (take 32 hashB) 1 8 8);
          hashB = digest_to hashB (H SKEIN256 (take 32 hashA));
          hashA = digest_to hashA (H GROESTL256 (take 32 hashB))
      in take 32 hashA)"

definition lyra2re2_hash ::
    "(sph \<Rightarrow> bytes \<Rightarrow> bytes) \<Rightarrow> lyra_fun \<Rightarrow> bytes \<Rightarrow> bytes \<Rightarrow> bytes \<Rightarrow> bytes" where
  "lyra2re2_hash H L hashA hashB input =
     (let hashA = digest_to hashA (H BLAKE256 (take 80 input));
          hashB = digest_to hashB (H KECCAK256 (take 32 hashA));
          hashA = digest_to hashA (H CUBEHASH256 (take 32 hashB));
          hashB = digest_to hashB (L LYRA2 32 (take 32 hashA) (take 32 hashA) 1 4 4);
          hashA = digest_to hashA (H SKEIN256 (take 32 hashB));
          hashB = digest_to hashB (H CUBEHASH256 (take 32 hashA));
          hashA = digest_to hashA (H BMW256 (take 32 hashB))
      in take 32 hashA)"

definition lyra2re3_hash ::
    "(sph \<Rightarrow> bytes \<Rightarrow> bytes) \<Rightarrow> lyra_fun \<Rightarrow> bytes \<Rightarrow> bytes \<Rightarrow> bytes \<Rightarrow> bytes" where
  "lyra2re3_hash H L hashA hashB input =
     (let hashA = digest_to hashA (H BLAKE256 (take 80 input));
          hashB = digest_to hashB (L LYRA2_3 32 (take 32 hashA) (take 32 hashA) 1 4 4);
          hashA = digest_to hashA (H CUBEHASH256 (take 32 hashB));
          hashB = digest_to hashB (L LYRA2_3 32 (take 32 hashA) (take 32 hashA) 1 4 4);
          hashA = digest_to hashA (H BMW256 (take 32 hashB))
      in take 32 hashA)"

definition allium_hash ::
    "(sph \<Rightarrow> bytes \<Rightarrow> bytes) \<Rightarrow> lyra_fun \<Rightarrow> bytes \<Rightarrow> bytes \<Rightarrow> bytes \<Rightarrow> nat \<Rightarrow> bytes" where
  "allium_hash H L hashA hashB input len =
     (let hashA = digest_to hashA (H BLAKE256 (take len input));
          hashB = digest_to hashB (H KECCAK256 (take 32 hashA));
          hashA = digest_to hashA (L LYRA2 32 (take 32 hashB) (take 32 hashB) 1 8 8);
          hashB = digest_to hashB (H CUBEHASH256 (take 32 hashA));
          hashA = digest_to hashA (L LYRA2 32 (take 32 hashB) (take 32 hashB) 1 8 8);
          hashB = digest_to hashB (H SKEIN256 (take 32 hashA));
          hashA = digest_to hashA (H GROESTL256 (take 32 hashB))
      in take 32 hashA)"

section \<open>The chains they compute\<close>

text \<open>
  \<open>fold H algorithms\<close> applies the digests one after the other. Each function returns the first
  32 bytes of its chain, whatever the local arrays held.
\<close>

lemma x11_chain:
  "sph_ok H \<Longrightarrow> length hashA = 64 \<Longrightarrow> length hashB = 64 \<Longrightarrow>
     x11_hash H hashA hashB input len = take 32 (fold H
       [BLAKE512, BMW512, GROESTL512, SKEIN512, JH512, KECCAK512, LUFFA512, CUBEHASH512,
        SHAVITE512, SIMD512, ECHO512]
       (take len input))"
  by (simp add: x11_hash_def sph_simps cong: let_weak_cong)

lemma x13_chain:
  "sph_ok H \<Longrightarrow> length hashA = 64 \<Longrightarrow> length hashB = 64 \<Longrightarrow>
     x13_hash H hashA hashB input len = take 32 (fold H
       [BLAKE512, BMW512, GROESTL512, SKEIN512, JH512, KECCAK512, LUFFA512, CUBEHASH512,
        SHAVITE512, SIMD512, ECHO512, HAMSI512, FUGUE512]
       (take len input))"
  by (simp add: x13_hash_def sph_simps cong: let_weak_cong)

lemma x14_chain:
  "sph_ok H \<Longrightarrow> length hashA = 64 \<Longrightarrow> length hashB = 64 \<Longrightarrow>
     x14_hash H hashA hashB input len = take 32 (fold H
       [BLAKE512, BMW512, GROESTL512, SKEIN512, JH512, KECCAK512, LUFFA512, CUBEHASH512,
        SHAVITE512, SIMD512, ECHO512, HAMSI512, FUGUE512, SHABAL512]
       (take 80 input))"
  by (simp add: x14_hash_def sph_simps cong: let_weak_cong)

lemma x15_chain:
  "sph_ok H \<Longrightarrow> length hashA = 64 \<Longrightarrow> length hashB = 64 \<Longrightarrow>
     x15_hash H hashA hashB input len = take 32 (fold H
       [BLAKE512, BMW512, GROESTL512, SKEIN512, JH512, KECCAK512, LUFFA512, CUBEHASH512,
        SHAVITE512, SIMD512, ECHO512, HAMSI512, FUGUE512, SHABAL512, WHIRLPOOL]
       (take len input))"
  by (simp add: x15_hash_def sph_simps cong: let_weak_cong)

lemma x17_chain:
  "sph_ok H \<Longrightarrow> length hash = 64 \<Longrightarrow>
     x17_hash H hash input len = take 32 (fold H
       [BLAKE512, BMW512, GROESTL512, SKEIN512, JH512, KECCAK512, LUFFA512, CUBEHASH512,
        SHAVITE512, SIMD512, ECHO512, HAMSI512, FUGUE512, SHABAL512, WHIRLPOOL, SHA512,
        HAVAL256_5]
       (take len input))"
  by (simp add: x17_hash_def sph_simps digest_to_part cong: let_weak_cong)

lemma c11_chain:
  "sph_ok H \<Longrightarrow> length hashA = 64 \<Longrightarrow> length hashB = 64 \<Longrightarrow>
     c11_hash H hashA hashB input = take 32 (fold H
       [BLAKE512, BMW512, GROESTL512, JH512, KECCAK512, SKEIN512, LUFFA512, CUBEHASH512,
        SHAVITE512, SIMD512, ECHO512]
       (take 80 input))"
  by (simp add: c11_hash_def sph_simps cong: let_weak_cong)

lemma qubit_chain:
  "sph_ok H \<Longrightarrow> length hash1 = 64 \<Longrightarrow> length hash2 = 64 \<Longrightarrow>
     qubit_hash H hash1 hash2 input len = take 32 (fold H
       [LUFFA512, CUBEHASH512, SHAVITE512, SIMD512, ECHO512]
       (take len input))"
  by (simp add: qubit_hash_def sph_simps cong: let_weak_cong)

lemma nist5_chain:
  "sph_ok H \<Longrightarrow> length hash = 64 \<Longrightarrow>
     nist5_hash H hash input len = take 32 (fold H
       [BLAKE512, GROESTL512, JH512, KECCAK512, SKEIN512]
       (take len input))"
  by (simp add: nist5_hash_def sph_simps cong: let_weak_cong)

lemma phi_chain:
  "sph_ok H \<Longrightarrow> length hash = 64 \<Longrightarrow>
     phi_hash H hash input len = take 32 (fold H
       [SKEIN512, JH512, CUBEHASH512, FUGUE512, GOST512, ECHO512]
       (take len input))"
  by (simp add: phi_hash_def sph_simps cong: let_weak_cong)

lemma geek_chain:
  "sph_ok H \<Longrightarrow> length hashA = 64 \<Longrightarrow> length hashB = 64 \<Longrightarrow>
     geek_hash H hashA hashB input len = take 32 (fold H
       [BLAKE512, BMW512, ECHO512, SHABAL512, GROESTL512, CUBEHASH512, KECCAK512,
        HAMSI512, SIMD512]
       (take 80 input))"
  by (simp add: geek_hash_def sph_simps cong: let_weak_cong)

lemma fresh_chain:
  "sph_ok H \<Longrightarrow> length hashA = 64 \<Longrightarrow> length hashB = 64 \<Longrightarrow>
     fresh_hash H hashA hashB input len = take 32 (fold H
       [SHAVITE512, SIMD512, SHAVITE512, SIMD512, ECHO512]
       (take len input))"
  by (simp add: fresh_hash_def sph_simps cong: let_weak_cong)

lemma s3_chain:
  "sph_ok H \<Longrightarrow> length hashA = 64 \<Longrightarrow> length hashB = 64 \<Longrightarrow>
     s3_hash H hashA hashB input len = take 32 (fold H
       [SHAVITE512, SIMD512, SKEIN512]
       (take 80 input))"
  by (simp add: s3_hash_def sph_simps cong: let_weak_cong)

text \<open>The two chains with a 32-byte digest in the middle continue with that digest padded by zeros.\<close>

lemma x13_bcd_chain:
  "sph_ok H \<Longrightarrow> length hashA = 64 \<Longrightarrow> length hashB = 64 \<Longrightarrow>
     x13_bcd_hash H hashA hashB input = take 32 (fold H
       [CUBEHASH512, SHAVITE512, SIMD512, ECHO512, HAMSI512, FUGUE512]
       (fold H [BLAKE512, BMW512, GROESTL512, SKEIN512, JH512, KECCAK512, SM3] (take 80 input) @ replicate 32 0))"
  by (simp add: x13_bcd_hash_def sph_simps digest_to_part cong: let_weak_cong)

lemma skydoge_chain:
  "sph_ok H \<Longrightarrow> length hash = 64 \<Longrightarrow> length hashA = 64 \<Longrightarrow>
     skydoge_hash H hash hashA input len = H HAVAL256_5 (fold H
       [BLAKE512, SKEIN512, BMW512, GROESTL512, JH512, LUFFA512, KECCAK512, SIMD512, ECHO512, CUBEHASH512,
        SHAVITE512, HAMSI512, FUGUE512, SHABAL512, WHIRLPOOL, SHA512, SIMD512, WHIRLPOOL, SHA256]
       (take len input) @ replicate 32 0)"
  by (simp add: skydoge_hash_def sph_simps digest_to_part cong: let_weak_cong)

text \<open>Lyra2 takes the running value as password and as salt.\<close>

definition lyra_step :: "lyra_fun \<Rightarrow> lyra \<Rightarrow> nat \<Rightarrow> bytes \<Rightarrow> bytes" where
  "lyra_step L v n h = L v 32 h h 1 n n"

lemma lyra2re_chain:
  "sph_ok H \<Longrightarrow> lyra_ok L \<Longrightarrow> length hashA = 32 \<Longrightarrow> length hashB = 32 \<Longrightarrow>
     lyra2re_hash H L hashA hashB input =
       (H GROESTL256 \<circ> H SKEIN256 \<circ> lyra_step L LYRA2_OLD 8 \<circ> H KECCAK256 \<circ> H BLAKE256) (take 80 input)"
  by (simp add: lyra2re_hash_def lyra_step_def sph_simps cong: let_weak_cong)

lemma lyra2re2_chain:
  "sph_ok H \<Longrightarrow> lyra_ok L \<Longrightarrow> length hashA = 32 \<Longrightarrow> length hashB = 32 \<Longrightarrow>
     lyra2re2_hash H L hashA hashB input =
       (H BMW256 \<circ> H CUBEHASH256 \<circ> H SKEIN256 \<circ> lyra_step L LYRA2 4 \<circ> H CUBEHASH256 \<circ> H KECCAK256
        \<circ> H BLAKE256) (take 80 input)"
  by (simp add: lyra2re2_hash_def lyra_step_def sph_simps cong: let_weak_cong)

lemma lyra2re3_chain:
  "sph_ok H \<Longrightarrow> lyra_ok L \<Longrightarrow> length hashA = 32 \<Longrightarrow> length hashB = 32 \<Longrightarrow>
     lyra2re3_hash H L hashA hashB input =
       (H BMW256 \<circ> lyra_step L LYRA2_3 4 \<circ> H CUBEHASH256 \<circ> lyra_step L LYRA2_3 4 \<circ> H BLAKE256) (take 80 input)"
  by (simp add: lyra2re3_hash_def lyra_step_def sph_simps cong: let_weak_cong)

lemma allium_chain:
  "sph_ok H \<Longrightarrow> lyra_ok L \<Longrightarrow> length hashA = 32 \<Longrightarrow> length hashB = 32 \<Longrightarrow>
     allium_hash H L hashA hashB input len =
       (H GROESTL256 \<circ> H SKEIN256 \<circ> lyra_step L LYRA2 8 \<circ> H CUBEHASH256 \<circ> lyra_step L LYRA2 8
        \<circ> H KECCAK256 \<circ> H BLAKE256) (take len input)"
  by (simp add: allium_hash_def lyra_step_def sph_simps cong: let_weak_cong)

end
