(* ===== verification/Sph_Orders.thy ===== *)
theory Sph_Orders
  imports Sph_Chains "HOL-Library.Multiset"
begin

unbundle bit_operations_syntax

text \<open>
  The hashes of \<open>libmultihash\<close> whose order of digests is taken from the previous block hash:
  \<open>x16r.c\<close> and \<open>x16rv2.c\<close> (one digest per hexadecimal digit), \<open>x16s.c\<close> and \<open>x21s.c\<close> (a shuffle of
  the sixteen digests), and \<open>x22i.c\<close>, which ends like \<open>x21s.c\<close> after a fixed chain.
  \<open>prevblock\<close> is the part of the header from byte 4 on.
\<close>

section \<open>The enumeration of digests\<close>

definition algos :: "sph list" where
  "algos = [BLAKE512, BMW512, GROESTL512, JH512, KECCAK512, SKEIN512, LUFFA512, CUBEHASH512, SHAVITE512,
     SIMD512, ECHO512, HAMSI512, FUGUE512, SHABAL512, WHIRLPOOL, SHA512]"

text \<open>\<open>elem >= 'A' ? elem - 'A' + 10 : elem - '0'\<close>.\<close>

definition algo_of_char :: "char \<Rightarrow> nat" where
  "algo_of_char c =
     (if of_char c \<ge> (65 :: nat) then of_char c - 65 + 10 else of_char c - 48)"

text \<open>The two halves of a byte of the previous block hash, the high one for even positions.\<close>

definition algo_digit :: "bytes \<Rightarrow> nat \<Rightarrow> u8" where
  "algo_digit prevblock j =
     (let b = (15 - j) div 2 in if odd j then prevblock ! b AND 0xF else drop_bit 4 (prevblock ! b))"

section \<open>x16r\<close>

definition getAlgoString :: "bytes \<Rightarrow> string" where
  "getAlgoString prevblock =
     map (\<lambda>j. let algoDigit = unat (algo_digit prevblock j)
              in if algoDigit \<ge> 10 then char_of (65 + (algoDigit - 10) :: nat)
                 else char_of (48 + algoDigit :: nat)) [0..<16]"

text \<open>One turn of the loop: the \<open>switch\<close> over the sixteen digests.\<close>

definition x16_step :: "(sph \<Rightarrow> bytes \<Rightarrow> bytes) \<Rightarrow> nat \<Rightarrow> bytes \<Rightarrow> bytes \<Rightarrow> bytes" where
  "x16_step H algo inp hash = (if algo < 16 then digest_to hash (H (algos ! algo) inp) else hash)"

primrec x16_loop ::
    "(nat \<Rightarrow> bytes \<Rightarrow> bytes \<Rightarrow> bytes) \<Rightarrow> string \<Rightarrow> bytes \<Rightarrow> bytes \<Rightarrow> bytes" where
  "x16_loop step [] inp hash = hash"
| "x16_loop step (elem # order) inp hash =
     (let hash = step (algo_of_char elem) inp hash in x16_loop step order (take 64 hash) hash)"

definition x16r_hash :: "(sph \<Rightarrow> bytes \<Rightarrow> bytes) \<Rightarrow> bytes \<Rightarrow> bytes \<Rightarrow> nat \<Rightarrow> bytes" where
  "x16r_hash H hash input len =
     take 32 (x16_loop (x16_step H) (getAlgoString (drop 4 input)) (take len input) hash)"

section \<open>x16rv2\<close>

text \<open>Three of the cases hash with Tiger first and pad its 24 bytes with zeros.\<close>

definition x16rv2_step :: "(sph \<Rightarrow> bytes \<Rightarrow> bytes) \<Rightarrow> nat \<Rightarrow> bytes \<Rightarrow> bytes \<Rightarrow> bytes" where
  "x16rv2_step H algo inp hash =
     (if algo \<in> {4, 6, 15} then
        let hash = digest_to hash (H TIGER inp);
            hash = take 24 hash @ replicate 40 0
        in digest_to hash (H (algos ! algo) (take 64 hash))
      else x16_step H algo inp hash)"

definition x16rv2_hash :: "(sph \<Rightarrow> bytes \<Rightarrow> bytes) \<Rightarrow> bytes \<Rightarrow> bytes \<Rightarrow> nat \<Rightarrow> bytes" where
  "x16rv2_hash H hash input len =
     take 32 (x16_loop (x16rv2_step H) (getAlgoString (drop 4 input)) (take len input) hash)"

section \<open>x16s\<close>

text \<open>
  The order is a string that starts as \<open>0123456789ABCDEF\<close>; each digit moves the character at
  that offset to the front. The inner loop shifts the characters before it by one. \<open>len\<close> goes through an
  \<open>int\<close> before it becomes a \<open>size_t\<close>: the functions model inputs of fewer than \<open>2 ^ 31\<close> bytes, where it stays the same.
\<close>

definition shift_to_front :: "nat \<Rightarrow> 'a list \<Rightarrow> 'a list" where
  "shift_to_front offset out =
     (let oldVal = out ! offset;
          out = fold (\<lambda>j out. out[j + 1 := out ! j]) (rev [0..<offset]) out
      in out[0 := oldVal])"

definition shuffle_order :: "bytes \<Rightarrow> string" where
  "shuffle_order prevblock =
     fold (\<lambda>i. shift_to_front (unat (algo_digit prevblock i))) [0..<16] ''0123456789ABCDEF''"

definition x16s_hash :: "(sph \<Rightarrow> bytes \<Rightarrow> bytes) \<Rightarrow> bytes \<Rightarrow> bytes \<Rightarrow> nat \<Rightarrow> bytes" where
  "x16s_hash H hash input len =
     take 32 (x16_loop (x16_step H) (shuffle_order (drop 4 input)) (take len input) hash)"

section \<open>x21s and x22i\<close>

definition x21s_hash :: "(sph \<Rightarrow> bytes \<Rightarrow> bytes) \<Rightarrow> lyra_fun \<Rightarrow> bytes \<Rightarrow> bytes \<Rightarrow> nat \<Rightarrow> bytes" where
  "x21s_hash H L hash input len =
     (let hash = x16_loop (x16_step H) (shuffle_order (drop 4 input)) (take len input) hash;
          hash = digest_to hash (H HAVAL256_5 (take 64 hash));
          hash = digest_to hash (H TIGER (take 64 hash));
          hash = digest_to hash (L LYRA2 32 (take 32 hash) (take 32 hash) 1 4 4);
          hash = digest_to hash (H GOST512 (take 64 hash));
          hash = digest_to hash (H SHA256 (take 64 hash))
      in take 32 hash)"

text \<open>
  \<open>x22i_hash\<close> keeps all intermediate values in an array of 22 zeroed blocks; \<open>swifftx\<close> stands
  for \<open>ComputeSingleSWIFFTX\<close> of \<open>sha3/SWIFFTX.c\<close>, which reads four blocks and fills \<open>temp\<close>.
\<close>

definition x22i_hash ::
    "(sph \<Rightarrow> bytes \<Rightarrow> bytes) \<Rightarrow> lyra_fun \<Rightarrow> (bytes \<Rightarrow> bytes) \<Rightarrow> bytes \<Rightarrow> nat \<Rightarrow> bytes" where
  "x22i_hash H L swifftx input len =
     (let blank = replicate 64 0;
          hash0 = digest_to blank (H BLAKE512 (take len input));
          hash1 = digest_to blank (H BMW512 (take 64 hash0));
          hash2 = digest_to blank (H GROESTL512 (take 64 hash1));
          hash3 = digest_to blank (H SKEIN512 (take 64 hash2));
          hash4 = digest_to blank (H JH512 (take 64 hash3));
          hash5 = digest_to blank (H KECCAK512 (take 64 hash4));
          hash6 = digest_to blank (H LUFFA512 (take 64 hash5));
          hash7 = digest_to blank (H CUBEHASH512 (take 64 hash6));
          hash8 = digest_to blank (H SHAVITE512 (take 64 hash7));
          hash9 = digest_to blank (H SIMD512 (take 64 hash8));
          hash10 = digest_to blank (H ECHO512 (take 64 hash9));
          hash11 = digest_to blank (H HAMSI512 (take 64 hash10));
          hash12 = digest_to blank (H FUGUE512 (take 64 hash11));
          hash13 = digest_to blank (H SHABAL512 (take 64 hash12));
          hash14 = digest_to blank (H WHIRLPOOL (take 64 hash13));
          hash15 = digest_to blank (H SHA512 (take 64 hash14));
          temp = digest_to (replicate 65 0) (swifftx (hash12 @ hash13 @ hash14 @ hash15));
          hash16 = digest_to blank (take 64 temp);
          hash17 = digest_to blank (H HAVAL256_5 (take 64 hash16));
          hash18 = digest_to blank (H TIGER (take 64 hash17));
          hash19 = digest_to blank (L LYRA2 32 (take 32 hash18) (take 32 hash18) 1 4 4);
          hash20 = digest_to blank (H GOST512 (take 64 hash19));
          hash21 = digest_to blank (H SHA256 (take 64 hash20))
      in take 32 hash21)"

section \<open>The loop\<close>

lemma length_algos [simp]: "length algos = 16"
  by (simp add: algos_def)

lemma digest_len_algos: "n < 16 \<Longrightarrow> digest_len (algos ! n) = 64"
  by (auto simp: algos_def nth_Cons less_Suc_eq numeral_eq_Suc split: nat.splits)

lemma x16_loop_fold:
  assumes step: "\<And>n inp hash. n < 16 \<Longrightarrow> length hash = 64 \<Longrightarrow>
      step n inp hash = f (algos ! n) inp \<and> length (f (algos ! n) inp) = 64"
    and "\<forall>c \<in> set order. algo_of_char c < 16" and "length hash = 64" and "order \<noteq> []"
  shows "x16_loop step order inp hash = fold f (map (\<lambda>c. algos ! algo_of_char c) order) inp"
  using assms(2-4)
proof (induction order arbitrary: inp hash)
  case (Cons c order)
  let ?h = "f (algos ! algo_of_char c) inp"
  have h: "step (algo_of_char c) inp hash = ?h" "length ?h = 64"
    using step Cons.prems by simp_all
  show ?case
  proof (cases "order = []")
    case False
    with Cons.IH [of ?h ?h] Cons.prems h show ?thesis by simp
  qed (simp add: h)
qed simp

lemma x16_step_ok:
  "sph_ok H \<Longrightarrow> n < 16 \<Longrightarrow> length hash = 64 \<Longrightarrow>
     x16_step H n inp hash = H (algos ! n) inp \<and> length (H (algos ! n) inp) = 64"
  by (simp add: x16_step_def sph_ok_length digest_len_algos)

text \<open>The digest that x16rv2 computes for an entry of the enumeration.\<close>

definition tiger_first :: "(sph \<Rightarrow> bytes \<Rightarrow> bytes) \<Rightarrow> sph \<Rightarrow> bytes \<Rightarrow> bytes" where
  "tiger_first H a m =
     (if a \<in> {KECCAK512, LUFFA512, SHA512} then H a (H TIGER m @ replicate 40 0) else H a m)"

lemma tiger_algos: "n < 16 \<Longrightarrow> algos ! n \<in> {KECCAK512, LUFFA512, SHA512} \<longleftrightarrow> n \<in> {4, 6, 15}"
  by (auto simp: algos_def nth_Cons less_Suc_eq numeral_eq_Suc split: nat.splits)

lemma x16rv2_step_ok:
  assumes "sph_ok H" and "n < 16" and "length hash = 64"
  shows "x16rv2_step H n inp hash = tiger_first H (algos ! n) inp \<and> length (tiger_first H (algos ! n) inp) = 64"
proof (cases "n \<in> {4, 6, 15}")
  case True
  then have "tiger_first H (algos ! n) inp = H (algos ! n) (H TIGER inp @ replicate 40 0)"
    using tiger_algos [OF assms(2)] by (simp only: tiger_first_def) simp
  with True assms show ?thesis
    by (simp only: x16rv2_step_def if_True) (simp add: digest_to_part sph_ok_length digest_len_algos)
next
  case False
  then have "tiger_first H (algos ! n) inp = H (algos ! n) inp"
    using tiger_algos [OF assms(2)] by (simp only: tiger_first_def) simp
  with False assms show ?thesis by (simp only: x16rv2_step_def if_False x16_step_ok simp_thms)
qed

lemmas x16_run = x16_loop_fold [where step = "x16_step H" and f = H for H, OF x16_step_ok]
  and x16rv2_run = x16_loop_fold [where step = "x16rv2_step H" and f = "tiger_first H" for H, OF x16rv2_step_ok]

section \<open>The digits of the previous block hash\<close>

text \<open>The hexadecimal digits of the first eight bytes, most significant byte last in memory.\<close>

definition hex_digits :: "bytes \<Rightarrow> nat list" where
  "hex_digits prevblock = concat (map (\<lambda>b. [unat b div 16, unat b mod 16]) (rev (take 8 prevblock)))"

lemma low_nibble: "unat (x AND 15 :: u8) = unat x mod 16"
proof -
  have "x AND 15 = take_bit 4 x" by (simp add: take_bit_eq_mask mask_eq_exp_minus_1)
  then show ?thesis by (simp add: take_bit_eq_mod unat_mod)
qed

lemma high_nibble: "unat (drop_bit 4 (x :: u8)) = unat x div 16"
  by (simp add: drop_bit_eq_div unat_div)

lemma unat_algo_digit:
  "unat (algo_digit prevblock j) =
     (if odd j then unat (prevblock ! ((15 - j) div 2)) mod 16 else unat (prevblock ! ((15 - j) div 2)) div 16)"
  by (simp add: algo_digit_def Let_def low_nibble high_nibble)

lemma algo_digit_less: "unat (algo_digit prevblock j) < 16"
  using unat_u8_less [of "prevblock ! ((15 - j) div 2)"]
  by (simp add: unat_algo_digit less_mult_imp_div_less)

lemma algo_of_char_digit:
  "d < 16 \<Longrightarrow> algo_of_char (if d \<ge> 10 then char_of (65 + (d - 10) :: nat) else char_of (48 + d :: nat)) = d"
  by (auto simp: algo_of_char_def)

lemma getAlgoString_digits:
  "map algo_of_char (getAlgoString prevblock) = map (\<lambda>j. unat (algo_digit prevblock j)) [0..<16]"
  unfolding getAlgoString_def Let_def map_map
  by (rule map_cong [OF refl]) (simp only: comp_def algo_of_char_digit algo_digit_less)

lemma digits_hex:
  assumes "8 \<le> length prevblock"
  shows "map (\<lambda>j. unat (algo_digit prevblock j)) [0..<16] = hex_digits prevblock"
proof -
  from assms obtain b0 b1 b2 b3 b4 b5 b6 b7 rest
    where "prevblock = b0 # b1 # b2 # b3 # b4 # b5 # b6 # b7 # rest"
    by (auto simp: Suc_le_length_iff eval_nat_numeral)
  moreover have "[0..<16] = [0, 1, 2, 3, 4, 5, 6, 7, 8, 9, 10, 11, 12, 13, 14, 15 :: nat]"
    by (simp add: upt_rec)
  ultimately show ?thesis
    by (simp only: hex_digits_def) (simp add: unat_algo_digit)
qed

lemma getAlgoString_hex:
  "8 \<le> length prevblock \<Longrightarrow> map algo_of_char (getAlgoString prevblock) = hex_digits prevblock"
  by (simp only: getAlgoString_digits digits_hex)

lemma getAlgoString_valid: "\<forall>c \<in> set (getAlgoString prevblock). algo_of_char c < 16"
proof -
  have "algo_of_char c \<in> set (map algo_of_char (getAlgoString prevblock))"
    if "c \<in> set (getAlgoString prevblock)" for c using that by simp
  then show ?thesis unfolding getAlgoString_digits using algo_digit_less by fastforce
qed

lemma getAlgoString_ne: "getAlgoString prevblock \<noteq> []"
  by (simp add: getAlgoString_def)

section \<open>Shuffles\<close>

lemma shift_loop:
  "n < length out \<Longrightarrow>
     fold (\<lambda>j out. out[j + 1 := out ! j]) (rev [0..<n]) out = take 1 out @ take n out @ drop (Suc n) out"
proof (induction n arbitrary: out)
  case 0
  then show ?case by (cases out) auto
next
  case (Suc n)
  let ?out = "out[Suc n := out ! n]"
  have "take 1 ?out = take 1 out" "take n ?out = take n out" "drop (Suc n) ?out = out ! n # drop (Suc (Suc n)) out"
    using Suc.prems by (simp_all add: drop_update_swap Cons_nth_drop_Suc [symmetric])
  with Suc.IH [of ?out] Suc.prems show ?case by (simp add: take_Suc_conv_app_nth)
qed

lemma shift_to_front_move:
  "n < length out \<Longrightarrow> shift_to_front n out = out ! n # take n out @ drop (Suc n) out"
  unfolding shift_to_front_def Let_def by (simp only: shift_loop) (cases out, simp_all)

lemma mset_shift_to_front: "n < length out \<Longrightarrow> mset (shift_to_front n out) = mset out"
  by (subst (2) id_take_nth_drop [of n out]) (simp_all add: shift_to_front_move)

lemma mset_shuffle_order: "mset (shuffle_order prevblock) = mset ''0123456789ABCDEF''"
  unfolding shuffle_order_def
proof (rule fold_invariant_set)
  fix i and out :: string
  assume out: "mset out = mset ''0123456789ABCDEF''"
  then have "length out = 16" using mset_eq_length [OF out] by simp
  then have "mset (shift_to_front (unat (algo_digit prevblock i)) out) = mset out"
    by (intro mset_shift_to_front) (simp add: algo_digit_less)
  then show "mset (shift_to_front (unat (algo_digit prevblock i)) out) = mset ''0123456789ABCDEF''"
    by (simp only: out)
qed simp

lemma map_shuffle_order: "mset (map algo_of_char (shuffle_order prevblock)) = mset [0..<16]"
proof -
  have "mset (map algo_of_char (shuffle_order prevblock)) = mset (map algo_of_char ''0123456789ABCDEF'')"
    by (simp only: mset_map mset_shuffle_order)
  also have "map algo_of_char ''0123456789ABCDEF'' = [0..<16]"
    by (simp add: algo_of_char_def upt_rec)
  finally show ?thesis .
qed

text \<open>The shuffle as a function: each digit moves the entry at its place to the front.\<close>

definition move_front :: "nat \<Rightarrow> 'a list \<Rightarrow> 'a list" where
  "move_front n xs = xs ! n # take n xs @ drop (Suc n) xs"

lemma fold_shift_to_front:
  "(\<And>i. d i < length out) \<Longrightarrow>
     map f (fold (\<lambda>i. shift_to_front (d i)) ks out) = fold move_front (map d ks) (map f out)"
proof (induction ks arbitrary: out)
  case (Cons i ks)
  have m: "map f (shift_to_front (d i) out) = move_front (d i) (map f out)"
    using Cons.prems [of i] by (simp add: shift_to_front_move move_front_def take_map drop_map)
  have "length (shift_to_front (d i) out) = length out"
    using Cons.prems [of i] by (simp add: shift_to_front_move)
  with Cons.IH [of "shift_to_front (d i) out"] Cons.prems show ?case by (simp add: m)
qed simp

lemma shuffle_moves:
  assumes "8 \<le> length prevblock"
  shows "map algo_of_char (shuffle_order prevblock) = fold move_front (hex_digits prevblock) [0..<16]"
proof -
  have "map algo_of_char ''0123456789ABCDEF'' = [0..<16]" by (simp add: algo_of_char_def upt_rec)
  moreover have "unat (algo_digit prevblock i) < length ''0123456789ABCDEF''" for i
    using algo_digit_less [of prevblock i] by simp
  note fold_shift_to_front [OF this, where f = algo_of_char and ks = "[0..<16]"]
  ultimately show ?thesis
    unfolding shuffle_order_def digits_hex [OF assms, symmetric] by (simp only:)
qed

lemma shuffle_order_valid: "\<forall>c \<in> set (shuffle_order prevblock). algo_of_char c < 16"
proof -
  have "set (map algo_of_char (shuffle_order prevblock)) = {0..<16}"
    using mset_eq_setD [OF map_shuffle_order] by simp
  then show ?thesis by auto
qed

lemma shuffle_order_ne: "shuffle_order prevblock \<noteq> []"
  using mset_shuffle_order [of prevblock] by auto

lemma mset_shuffled_algos: "mset (map (\<lambda>c. algos ! algo_of_char c) (shuffle_order prevblock)) = mset algos"
proof -
  have "mset (map (\<lambda>c. algos ! algo_of_char c) (shuffle_order prevblock)) =
      image_mset ((!) algos) (mset (map algo_of_char (shuffle_order prevblock)))"
    by (simp add: multiset.map_comp comp_def)
  also have "\<dots> = mset (map ((!) algos) [0..<length algos])"
    unfolding map_shuffle_order by (simp only: mset_map length_algos)
  finally show ?thesis by (simp only: map_nth)
qed

lemma map_getAlgoString:
  "12 \<le> length input \<Longrightarrow> map (\<lambda>c. algos ! algo_of_char c) (getAlgoString (drop 4 input)) =
     map ((!) algos) (hex_digits (drop 4 input))"
  using getAlgoString_hex [of "drop 4 input", symmetric] by (simp add: comp_def)

lemma x16r_fold:
  assumes "sph_ok H" and "length hash = 64" and "12 \<le> length input"
  shows "x16r_hash H hash input len =
    take 32 (fold H (map ((!) algos) (hex_digits (drop 4 input))) (take len input))"
  unfolding x16r_hash_def map_getAlgoString [OF assms(3), symmetric]
  by (simp only: x16_run [OF assms(1) _ _ getAlgoString_valid assms(2) getAlgoString_ne])

lemma x16rv2_fold:
  assumes "sph_ok H" and "length hash = 64" and "12 \<le> length input"
  shows "x16rv2_hash H hash input len =
    take 32 (fold (tiger_first H) (map ((!) algos) (hex_digits (drop 4 input))) (take len input))"
  unfolding x16rv2_hash_def map_getAlgoString [OF assms(3), symmetric]
  by (simp only: x16rv2_run [OF assms(1) _ _ getAlgoString_valid assms(2) getAlgoString_ne])

lemma x16s_fold:
  assumes "sph_ok H" and "length hash = 64"
  shows "x16s_hash H hash input len =
    take 32 (fold H (map (\<lambda>c. algos ! algo_of_char c) (shuffle_order (drop 4 input))) (take len input))"
  unfolding x16s_hash_def
  by (simp only: x16_run [OF assms(1) _ _ shuffle_order_valid assms(2) shuffle_order_ne])

text \<open>The shorter digests at the end of x21s leave the rest of the 64 bytes as it was.\<close>

lemma length_fold_algos:
  assumes "sph_ok H" and "set as \<subseteq> set algos" and "as \<noteq> []"
  shows "length (fold H as m) = 64"
proof -
  obtain bs b where as: "as = bs @ [b]" using assms(3) by (cases as rule: rev_cases) auto
  then obtain n where "b = algos ! n" "n < 16" using assms(2) by (auto simp: in_set_conv_nth)
  then show ?thesis using assms(1) as by (simp add: sph_ok_length digest_len_algos)
qed

lemma x21s_fold:
  fixes input :: bytes and len :: nat
  assumes "sph_ok H" and "lyra_ok L" and "length hash = 64"
  defines "h \<equiv> fold H (map (\<lambda>c. algos ! algo_of_char c) (shuffle_order (drop 4 input))) (take len input)"
  defines "v \<equiv> H HAVAL256_5 h @ drop 32 h"
  defines "t \<equiv> H TIGER v @ drop 24 v"
  defines "l \<equiv> L LYRA2 32 (take 32 t) (take 32 t) 1 4 4 @ drop 32 t"
  shows "x21s_hash H L hash input len = H SHA256 (H GOST512 l)"
proof -
  let ?as = "map (\<lambda>c. algos ! algo_of_char c) (shuffle_order (drop 4 input))"
  have "set ?as = set algos" using mset_eq_setD [OF mset_shuffled_algos] .
  then have h: "length h = 64"
    unfolding h_def using shuffle_order_ne by (intro length_fold_algos [OF assms(1)]) auto
  have len: "length v = 64" "length t = 64" "length l = 64"
    using assms(1,2) h by (simp_all add: v_def t_def l_def sph_ok_length lyra_ok_length)
  have loop: "x16_loop (x16_step H) (shuffle_order (drop 4 input)) (take len input) hash = h"
    unfolding h_def
    by (rule x16_run [OF assms(1) _ _ shuffle_order_valid assms(3) shuffle_order_ne])
  have v: "digest_to h (H HAVAL256_5 h) = v" and t: "digest_to v (H TIGER v) = t"
    and l: "digest_to t (L LYRA2 32 (take 32 t) (take 32 t) 1 4 4) = l"
    using assms(1,2) h len by (simp_all add: v_def t_def l_def digest_to_part sph_ok_length lyra_ok_length)
  show ?thesis
    unfolding x21s_hash_def loop Let_def
    using assms(1) h len by (simp add: v t l [unfolded One_nat_def] sph_ok_length digest_to_part)
qed

lemma x22i_chain:
  fixes input :: bytes and len :: nat
  assumes "sph_ok H" and "lyra_ok L" and "\<And>m. length (swifftx m) = 65"
  defines "h12 \<equiv> fold H [BLAKE512, BMW512, GROESTL512, SKEIN512, JH512, KECCAK512, LUFFA512, CUBEHASH512,
      SHAVITE512, SIMD512, ECHO512, HAMSI512, FUGUE512] (take len input)"
  defines "h13 \<equiv> H SHABAL512 h12"
  defines "h14 \<equiv> H WHIRLPOOL h13"
  defines "h15 \<equiv> H SHA512 h14"
  defines "s \<equiv> take 64 (swifftx (h12 @ h13 @ h14 @ h15))"
  defines "v \<equiv> H HAVAL256_5 s @ replicate 32 0"
  defines "t \<equiv> H TIGER v @ replicate 40 0"
  defines "l \<equiv> L LYRA2 32 (take 32 t) (take 32 t) 1 4 4 @ replicate 32 0"
  shows "x22i_hash H L swifftx input len = H SHA256 (H GOST512 l)"
  unfolding x22i_hash_def l_def t_def v_def s_def h15_def h14_def h13_def h12_def
  using assms(1-3) by (simp add: sph_simps digest_to_part cong: let_weak_cong)

end
