(* ===== verification/Md_Helper.thy ===== *)
theory Md_Helper
  imports Prelude
begin

unbundle bit_operations_syntax

text \<open>
  The front end of the Merkle-Damgard hashes of sphlib: \<open>src/src/Native/libmultihash/sha3/md_helper.c\<close>, a
  template that the files of the single hashes include with macros set. The macros are a record
  (\<open>md_conf\<close>): word size and byte order, the width of the length field, the bit order of the padding
  and the block length; the compression function \<open>RFUN\<close> is an argument. The code is modelled as it is
  compiled on the platforms of the pool: \<open>SPH_64\<close>, \<open>SPH_UPTR\<close> and \<open>SPH_UNALIGNED\<close> are set.

  The locale \<open>md_front\<close> states what a configuration has to satisfy. Its lemmas show that a context always
  stands for the message fed into it, however it was cut, and that closing hashes the padded message.
\<close>

section \<open>Big-endian words\<close>

definition be_word :: "bytes \<Rightarrow> 'a::len word" where
  "be_word bs = le_word (rev bs)"

definition be_bytes :: "nat \<Rightarrow> 'a::len word \<Rightarrow> bytes" where
  "be_bytes n w = rev (le_bytes n w)"

lemma length_be_bytes [simp, bufs]: "length (be_bytes n w) = n"
  by (simp add: be_bytes_def)

lemma be_word_4 [simp]: "be_word (be_bytes 4 (w :: u32)) = w"
  and be_word_8 [simp]: "be_word (be_bytes 8 (v :: u64)) = v"
  by (simp_all add: be_word_def be_bytes_def)

section \<open>Configurations and contexts\<close>

datatype md_kind = BE32 | LE32 | BE64 | LE64
datatype md_plw = PLW1 | PLW2 | PLW4

text \<open>\<open>PLW2\<close> stands for the case that neither \<open>PLW1\<close> nor \<open>PLW4\<close> is defined; \<open>conf_BLEN\<close> is \<open>BLEN\<close>.\<close>

record md_conf =
  conf_kind :: md_kind
  conf_plw :: md_plw
  conf_PW01 :: bool
  conf_BLEN :: "nat option"

definition SPH_BLEN :: "md_conf \<Rightarrow> nat" where
  "SPH_BLEN c =
     (case conf_BLEN c of Some b \<Rightarrow> b
      | None \<Rightarrow> if conf_kind c = BE64 \<or> conf_kind c = LE64 then 128 else 64)"

definition SPH_WLEN :: "md_conf \<Rightarrow> nat" where
  "SPH_WLEN c = (if conf_kind c = BE64 \<or> conf_kind c = LE64 then 8 else 4)"

definition SPH_MAXPAD :: "md_conf \<Rightarrow> nat" where
  "SPH_MAXPAD c =
     (case conf_plw c of
        PLW1 \<Rightarrow> SPH_BLEN c - SPH_WLEN c
      | PLW4 \<Rightarrow> SPH_BLEN c - 4 * SPH_WLEN c
      | PLW2 \<Rightarrow> SPH_BLEN c - 2 * SPH_WLEN c)"

record 'v md_context =
  md_buf :: bytes
  md_val :: 'v
  md_count :: u64

section \<open>Feeding data\<close>

definition md_current :: "md_conf \<Rightarrow> u64 \<Rightarrow> nat" where
  "md_current c count = unat ((ucast count :: u32) AND (of_nat (SPH_BLEN c) - 1))"

text \<open>The body of \<open>while (len > 0)\<close> of \<open>HASH_short\<close>, for the \<open>clen\<close> bytes \<open>d\<close>.\<close>

definition md_put :: "md_conf \<Rightarrow> (bytes \<Rightarrow> 'v \<Rightarrow> 'v) \<Rightarrow> 'v md_context \<Rightarrow> nat \<Rightarrow> bytes \<Rightarrow> 'v md_context \<times> nat" where
  "md_put c rfun sc current d =
     (let buf = copy_at (md_buf sc) current d;
          current = current + length d;
          (val, current) = (if current = SPH_BLEN c then (rfun buf (md_val sc), 0) else (md_val sc, current))
      in (sc\<lparr>md_buf := buf, md_val := val, md_count := md_count sc + of_nat (length d)\<rparr>, current))"

function md_short_loop :: "md_conf \<Rightarrow> (bytes \<Rightarrow> 'v \<Rightarrow> 'v) \<Rightarrow> 'v md_context \<Rightarrow> nat \<Rightarrow> bytes \<Rightarrow> 'v md_context" where
  "md_short_loop c rfun sc current inp =
     (if inp \<noteq> [] \<and> current < SPH_BLEN c then
        let clen = min (SPH_BLEN c - current) (length inp);
            (sc, current) = md_put c rfun sc current (take clen inp)
        in md_short_loop c rfun sc current (drop clen inp)
      else sc)"
  by pat_completeness auto
termination
  by (relation "measure (\<lambda>(c, rfun, sc, current, inp). length inp)") auto

declare md_short_loop.simps [simp del]

definition md_short :: "md_conf \<Rightarrow> (bytes \<Rightarrow> 'v \<Rightarrow> 'v) \<Rightarrow> 'v md_context \<Rightarrow> bytes \<Rightarrow> 'v md_context" where
  "md_short c rfun sc inp = md_short_loop c rfun sc (md_current c (md_count sc)) inp"

text \<open>The loop \<open>while (len >= SPH_BLEN)\<close>: the value after the full blocks, and what is left.\<close>

function md_loop :: "nat \<Rightarrow> (bytes \<Rightarrow> 'v \<Rightarrow> 'v) \<Rightarrow> 'v \<Rightarrow> bytes \<Rightarrow> 'v \<times> bytes" where
  "md_loop blen rfun val inp =
     (if 0 < blen \<and> blen \<le> length inp then md_loop blen rfun (rfun (take blen inp) val) (drop blen inp)
      else (val, inp))"
  by pat_completeness auto
termination
  by (relation "measure (\<lambda>(blen, rfun, val, inp). length inp)") auto

declare md_loop.simps [simp del]

definition md_update :: "md_conf \<Rightarrow> (bytes \<Rightarrow> 'v \<Rightarrow> 'v) \<Rightarrow> 'v md_context \<Rightarrow> bytes \<Rightarrow> 'v md_context" where
  "md_update c rfun sc inp =
     (if length inp < 2 * SPH_BLEN c then md_short c rfun sc inp
      else
        let current = md_current c (md_count sc);
            t = SPH_BLEN c - current;
            (sc, inp) = (if current > 0 then (md_short c rfun sc (take t inp), drop t inp) else (sc, inp));
            orig_len = length inp;
            (val, rest) = md_loop (SPH_BLEN c) rfun (md_val sc) inp
        in sc\<lparr>md_buf := copy_at (md_buf sc) 0 rest, md_val := val, md_count := md_count sc + of_nat orig_len\<rparr>)"

section \<open>Closing\<close>

text \<open>The byte after the message: the \<open>n\<close> extra bits of \<open>ub\<close> and the end mark.\<close>

definition md_end_byte :: "md_conf \<Rightarrow> u32 \<Rightarrow> nat \<Rightarrow> u8" where
  "md_end_byte c ub n =
     (if conf_PW01 c then ucast (drop_bit (8 - n) (0x100 OR (ub AND 0xFF)))
      else let z = drop_bit n 0x80 :: u32 in ucast (((ub AND - z) OR z) AND 0xFF))"

text \<open>What is stored from \<open>SPH_MAXPAD\<close> on.\<close>

definition md_length_field :: "md_conf \<Rightarrow> u64 \<Rightarrow> nat \<Rightarrow> bytes" where
  "md_length_field c count n =
     (let bits = push_bit 3 count + of_nat n; high = drop_bit 61 count
      in case conf_kind c of
           BE64 \<Rightarrow>
             (case conf_plw c of
                PLW1 \<Rightarrow> be_bytes 8 bits
              | PLW4 \<Rightarrow> replicate (2 * SPH_WLEN c) 0 @ be_bytes 8 high @ be_bytes 8 bits
              | PLW2 \<Rightarrow> be_bytes 8 high @ be_bytes 8 bits)
         | LE64 \<Rightarrow>
             (if conf_plw c = PLW1 then le_bytes 8 bits else le_bytes 8 bits @ le_bytes 8 high)
         | BE32 \<Rightarrow> be_bytes 8 bits
         | LE32 \<Rightarrow> le_bytes 8 bits)"

definition md_output :: "md_conf \<Rightarrow> nat \<Rightarrow> 'a::len word list \<Rightarrow> bytes" where
  "md_output c rnum val =
     concat (map (\<lambda>u.
       case conf_kind c of
         BE64 \<Rightarrow> be_bytes 8 (val ! u)
       | LE64 \<Rightarrow> le_bytes 8 (val ! u)
       | BE32 \<Rightarrow> be_bytes 4 (val ! u)
       | LE32 \<Rightarrow> le_bytes 4 (val ! u)) [0..<rnum])"

text \<open>The padding and the last calls of \<open>RFUN\<close> of \<open>HASH_addbits_and_close\<close>.\<close>

definition md_finish :: "md_conf \<Rightarrow> (bytes \<Rightarrow> 'v \<Rightarrow> 'v) \<Rightarrow> 'v md_context \<Rightarrow> u32 \<Rightarrow> nat \<Rightarrow> 'v md_context" where
  "md_finish c rfun sc ub n =
     (let blen = SPH_BLEN c; maxpad = SPH_MAXPAD c;
          current = md_current c (md_count sc);
          buf = (md_buf sc)[current := md_end_byte c ub n];
          current = current + 1;
          (buf, val) =
            (if current > maxpad then
               let buf = copy_at buf current (replicate (blen - current) 0);
                   val = rfun buf (md_val sc)
               in (copy_at buf 0 (replicate maxpad 0), val)
             else (copy_at buf current (replicate (maxpad - current) 0), md_val sc));
          buf = copy_at buf maxpad (md_length_field c (md_count sc) n)
      in sc\<lparr>md_buf := buf, md_val := rfun buf val\<rparr>)"

definition md_addbits_and_close ::
  "md_conf \<Rightarrow> (bytes \<Rightarrow> 'a::len word list \<Rightarrow> 'a word list) \<Rightarrow> 'a word list md_context \<Rightarrow> u32 \<Rightarrow> nat \<Rightarrow> nat \<Rightarrow> bytes" where
  "md_addbits_and_close c rfun sc ub n rnum = md_output c rnum (md_val (md_finish c rfun sc ub n))"

definition md_close ::
  "md_conf \<Rightarrow> (bytes \<Rightarrow> 'a::len word list \<Rightarrow> 'a word list) \<Rightarrow> 'a word list md_context \<Rightarrow> nat \<Rightarrow> bytes" where
  "md_close c rfun sc rnum = md_addbits_and_close c rfun sc 0 0 rnum"

section \<open>What a context stands for\<close>

text \<open>The value after all full blocks of a message, and the message with its padding.\<close>

abbreviation md_value :: "nat \<Rightarrow> (bytes \<Rightarrow> 'v \<Rightarrow> 'v) \<Rightarrow> 'v \<Rightarrow> bytes \<Rightarrow> 'v" where
  "md_value blen rfun iv m \<equiv> fst (md_loop blen rfun iv m)"

definition md_zeros :: "md_conf \<Rightarrow> nat \<Rightarrow> nat" where
  "md_zeros c len =
     (let current = len mod SPH_BLEN c + 1
      in if current > SPH_MAXPAD c then SPH_BLEN c - current + SPH_MAXPAD c else SPH_MAXPAD c - current)"

definition md_padded :: "md_conf \<Rightarrow> bytes \<Rightarrow> u32 \<Rightarrow> nat \<Rightarrow> bytes" where
  "md_padded c m ub n =
     m @ md_end_byte c ub n # replicate (md_zeros c (length m)) 0 @ md_length_field c (of_nat (length m)) n"

section \<open>The loop over blocks\<close>

lemma md_loop_stop: "length inp < blen \<Longrightarrow> md_loop blen rfun v inp = (v, inp)"
  by (simp add: md_loop.simps)

lemma md_loop_block:
  "length b = blen \<Longrightarrow> 0 < blen \<Longrightarrow> md_loop blen rfun v (b @ inp) = md_loop blen rfun (rfun b v) inp"
  by (subst md_loop.simps) simp

lemma length_md_rest: "0 < blen \<Longrightarrow> length (snd (md_loop blen rfun v m)) = length m mod blen"
proof (induction blen rfun v m rule: md_loop.induct)
  case (1 blen rfun v m)
  then show ?case by (subst md_loop.simps) (auto simp: le_mod_geq)
qed

lemma md_loop_append:
  "0 < blen \<Longrightarrow> md_loop blen rfun v (m @ d) =
     md_loop blen rfun (fst (md_loop blen rfun v m)) (snd (md_loop blen rfun v m) @ d)"
proof (induction blen rfun v m rule: md_loop.induct)
  case (1 blen rfun v m)
  show ?case
  proof (cases "blen \<le> length m")
    case True
    then have "md_loop blen rfun v (m @ d) = md_loop blen rfun (rfun (take blen m) v) (drop blen m @ d)"
      using "1.prems" by (simp add: md_loop.simps [of blen rfun v "m @ d"])
    moreover have "md_loop blen rfun v m = md_loop blen rfun (rfun (take blen m) v) (drop blen m)"
      using True "1.prems" by (simp add: md_loop.simps [of blen rfun v m])
    ultimately show ?thesis using "1.IH" True "1.prems" by simp
  next
    case False
    then show ?thesis by (simp add: md_loop_stop)
  qed
qed

section \<open>A buffer of one block\<close>

text \<open>
  What a hash keeps while it is fed: the value after the full blocks of the message \<open>m\<close>, and the rest of
  \<open>m\<close> at the start of the buffer, \<open>cur\<close> bytes.
\<close>

definition buffered :: "nat \<Rightarrow> (bytes \<Rightarrow> 'v \<Rightarrow> 'v) \<Rightarrow> 'v \<Rightarrow> bytes \<Rightarrow> bytes \<Rightarrow> nat \<Rightarrow> 'v \<Rightarrow> bool" where
  "buffered B rfun iv m buf cur val \<longleftrightarrow>
     B \<le> length buf \<and> cur = length m mod B \<and> take cur buf = snd (md_loop B rfun iv m) \<and> val = md_value B rfun iv m"

locale block_buffer =
  fixes B :: nat and rfun :: "bytes \<Rightarrow> 'v \<Rightarrow> 'v"
  assumes B_pos: "0 < B"
begin

lemma start_buffered: "B \<le> length buf \<Longrightarrow> buffered B rfun iv [] buf 0 iv"
  using B_pos by (simp add: buffered_def md_loop_stop)

text \<open>Data that fits is copied behind the rest; a full buffer is one more block.\<close>

lemma put_buffered:
  assumes "buffered B rfun iv m buf cur val" and "cur + length d \<le> B" and "d \<noteq> []"
    and buf': "buf' = copy_at buf cur d" and full: "full \<longleftrightarrow> cur + length d = B"
  shows "buffered B rfun iv (m @ d) buf' (if full then 0 else cur + length d)
     (if full then rfun (take B buf') val else val)"
proof -
  let ?rest = "snd (md_loop B rfun iv m)"
  have m: "B \<le> length buf" "cur = length m mod B" "take cur buf = ?rest" "val = md_value B rfun iv m"
    using assms(1) by (auto simp: buffered_def)
  have rest: "length ?rest = cur" using m(2) B_pos by (simp add: length_md_rest)
  have buf: "B \<le> length buf'" "take (cur + length d) buf' = ?rest @ d"
    using assms(2) m buf' by (simp_all add: take_copy_at)
  have loop: "md_loop B rfun iv (m @ d) = md_loop B rfun val (?rest @ d)"
    unfolding m(4) by (rule md_loop_append [OF B_pos])
  have len: "length (m @ d) mod B = (cur + length d) mod B" by (simp add: m(2) mod_add_left_eq)
  show ?thesis
  proof (cases full)
    case True
    then have "md_loop B rfun val (?rest @ d) = (rfun (?rest @ d) val, [])"
      using md_loop_block [of "?rest @ d" B rfun val "[]"] full rest B_pos by (simp add: md_loop_stop)
    with True full buf loop len show ?thesis by (simp add: buffered_def)
  next
    case False
    then have less: "cur + length d < B" using full assms(2) by simp
    then have "md_loop B rfun val (?rest @ d) = (val, ?rest @ d)" using rest by (simp add: md_loop_stop)
    with False less buf loop len show ?thesis by (simp add: buffered_def)
  qed
qed

text \<open>Full blocks may go past an empty buffer.\<close>

lemma loop_buffered:
  assumes "buffered B rfun iv m buf 0 val" and "md_loop B rfun val inp = (val', rest)"
  shows "buffered B rfun iv (m @ inp) (copy_at buf 0 rest) (length rest) val'"
proof -
  have m: "B \<le> length buf" "length m mod B = 0" "val = md_value B rfun iv m"
    using assms(1) by (simp_all add: buffered_def)
  have "snd (md_loop B rfun iv m) = []" using length_md_rest [OF B_pos, of rfun iv m] m(2) by simp
  then have loop: "md_loop B rfun iv (m @ inp) = (val', rest)"
    using assms(2) md_loop_append [OF B_pos, of rfun iv m inp] m(3) by simp
  have len: "length rest = length (m @ inp) mod B"
    using length_md_rest [OF B_pos, of rfun iv "m @ inp"] loop by simp
  moreover have "length (m @ inp) mod B < B" using B_pos by simp
  ultimately have "length rest \<le> length buf" using m(1) by linarith
  then show ?thesis using loop len m(1) by (simp add: buffered_def copy_at_def)
qed

end

section \<open>The contract of a configuration\<close>

text \<open>A context that has been fed \<open>m\<close>.\<close>

definition md_absorbed :: "md_conf \<Rightarrow> (bytes \<Rightarrow> 'v \<Rightarrow> 'v) \<Rightarrow> 'v \<Rightarrow> bytes \<Rightarrow> 'v md_context \<Rightarrow> bool" where
  "md_absorbed c rfun iv m sc \<longleftrightarrow>
     length (md_buf sc) = SPH_BLEN c \<and>
     buffered (SPH_BLEN c) rfun iv m (md_buf sc) (length m mod SPH_BLEN c) (md_val sc) \<and>
     md_count sc = of_nat (length m)"

locale md_front =
  fixes c :: md_conf and rfun :: "bytes \<Rightarrow> 'v \<Rightarrow> 'v"
  assumes blen_pow: "\<exists>k < 32. SPH_BLEN c = 2 ^ k"
    and field: "\<And>count n. SPH_MAXPAD c + length (md_length_field c count n) = SPH_BLEN c"
begin

lemma blen_pos [simp]: "0 < SPH_BLEN c"
  using blen_pow by auto

end

sublocale md_front \<subseteq> block_buffer "SPH_BLEN c" rfun
  by unfold_locales (rule blen_pos)

context md_front
begin

lemma current_mod: "md_current c (of_nat len) = len mod SPH_BLEN c"
proof -
  obtain k where k: "k < 32" "SPH_BLEN c = 2 ^ k" using blen_pow by blast
  have "(of_nat (SPH_BLEN c) - 1 :: u32) = mask k" by (simp add: k mask_eq_exp_minus_1)
  then have "md_current c (of_nat len) = unat (take_bit k (ucast (of_nat len :: u64) :: u32))"
    by (simp only: md_current_def take_bit_eq_mask)
  also have "\<dots> = take_bit k len"
    using k(1) by (simp add: unsigned_take_bit_eq unsigned_ucast_eq unsigned_of_nat take_bit_take_bit min_def)
  finally show ?thesis by (simp add: take_bit_eq_mod k(2))
qed

lemma put_absorbed:
  assumes "md_absorbed c rfun iv m sc" and "length m mod SPH_BLEN c + length d \<le> SPH_BLEN c"
    and "md_put c rfun sc (length m mod SPH_BLEN c) d = (sc', current)" and "d \<noteq> []"
  shows "md_absorbed c rfun iv (m @ d) sc' \<and> current = length (m @ d) mod SPH_BLEN c"
proof -
  let ?full = "length m mod SPH_BLEN c + length d = SPH_BLEN c"
  have sc: "length (md_buf sc) = SPH_BLEN c" "md_count sc = of_nat (length m)"
    "buffered (SPH_BLEN c) rfun iv m (md_buf sc) (length m mod SPH_BLEN c) (md_val sc)"
    using assms(1) by (simp_all add: md_absorbed_def)
  have sc': "length (md_buf sc') = SPH_BLEN c" "md_count sc' = of_nat (length (m @ d))"
    "md_buf sc' = copy_at (md_buf sc) (length m mod SPH_BLEN c) d"
    "md_val sc' = (if ?full then rfun (md_buf sc') (md_val sc) else md_val sc)"
    "current = (if ?full then 0 else length m mod SPH_BLEN c + length d)"
    using assms(2,3) sc by (auto simp: md_put_def Let_def split: if_splits)
  have "buffered (SPH_BLEN c) rfun iv (m @ d) (md_buf sc') current (md_val sc')"
  proof -
    have "take (SPH_BLEN c) (md_buf sc') = md_buf sc'" using sc'(1) by simp
    then show ?thesis using put_buffered [OF sc(3) assms(2,4) sc'(3) refl] by (simp only: sc'(4,5))
  qed
  then show ?thesis using sc' by (auto simp: md_absorbed_def buffered_def)
qed

lemma short_loop_absorbed:
  assumes "md_absorbed c rfun iv m sc"
  shows "md_absorbed c rfun iv (m @ inp) (md_short_loop c rfun sc (length m mod SPH_BLEN c) inp)"
  using assms
proof (induction "length inp" arbitrary: inp m sc rule: less_induct)
  case less
  let ?r = "length m mod SPH_BLEN c"
  show ?case
  proof (cases "inp = []")
    case True
    with less.prems show ?thesis by (simp add: md_short_loop.simps)
  next
    case False
    let ?clen = "min (SPH_BLEN c - ?r) (length inp)"
    have r: "?r < SPH_BLEN c" by simp
    have clen: "?r + ?clen \<le> SPH_BLEN c" using r by linarith
    obtain sc' current where put: "md_put c rfun sc ?r (take ?clen inp) = (sc', current)" by fastforce
    have "md_absorbed c rfun iv (m @ take ?clen inp) sc' \<and> current = length (m @ take ?clen inp) mod SPH_BLEN c"
      by (rule put_absorbed [OF less.prems _ put]) (use False r clen in auto)
    moreover have "length (drop ?clen inp) < length inp" using False r by simp
    ultimately have "md_absorbed c rfun iv ((m @ take ?clen inp) @ drop ?clen inp)
        (md_short_loop c rfun sc' current (drop ?clen inp))"
      using less.hyps by blast
    moreover have "md_short_loop c rfun sc ?r inp = md_short_loop c rfun sc' current (drop ?clen inp)"
      using False r put by (subst md_short_loop.simps) (simp add: Let_def)
    ultimately show ?thesis by simp
  qed
qed

lemma short_absorbed:
  assumes "md_absorbed c rfun iv m sc"
  shows "md_absorbed c rfun iv (m @ inp) (md_short c rfun sc inp)"
proof -
  have "md_count sc = of_nat (length m)" using assms by (simp add: md_absorbed_def)
  then show ?thesis using short_loop_absorbed [OF assms] by (simp add: md_short_def current_mod)
qed

lemma blocks_absorbed:
  assumes "md_absorbed c rfun iv m sc" and "length m mod SPH_BLEN c = 0"
    and "md_loop (SPH_BLEN c) rfun (md_val sc) inp = (val, rest)"
  shows "md_absorbed c rfun iv (m @ inp)
     (sc\<lparr>md_buf := copy_at (md_buf sc) 0 rest, md_val := val, md_count := md_count sc + of_nat (length inp)\<rparr>)"
proof -
  have "buffered (SPH_BLEN c) rfun iv (m @ inp) (copy_at (md_buf sc) 0 rest) (length rest) val"
    by (rule loop_buffered [OF _ assms(3)]) (use assms(1,2) in \<open>simp add: md_absorbed_def\<close>)
  moreover from this have "length rest = length (m @ inp) mod SPH_BLEN c" by (simp add: buffered_def)
  moreover from this have "length rest \<le> SPH_BLEN c" by (simp add: less_imp_le)
  ultimately show ?thesis using assms(1) by (simp add: md_absorbed_def)
qed

lemma update_absorbed:
  assumes "md_absorbed c rfun iv m sc"
  shows "md_absorbed c rfun iv (m @ inp) (md_update c rfun sc inp)"
proof (cases "length inp < 2 * SPH_BLEN c")
  case True
  with assms show ?thesis by (simp add: md_update_def short_absorbed)
next
  case False
  let ?r = "length m mod SPH_BLEN c" and ?t = "SPH_BLEN c - length m mod SPH_BLEN c"
  have current: "md_current c (md_count sc) = ?r" using assms by (simp add: md_absorbed_def current_mod)
  define sc1 where "sc1 = (if ?r > 0 then md_short c rfun sc (take ?t inp) else sc)"
  define d m1 where "d = (if ?r > 0 then drop ?t inp else inp)" and "m1 = (if ?r > 0 then m @ take ?t inp else m)"
  have m1: "m1 @ d = m @ inp" by (simp add: d_def m1_def)
  have sc1: "md_absorbed c rfun iv m1 sc1"
    using assms by (simp add: sc1_def m1_def short_absorbed)
  have "length m1 mod SPH_BLEN c = 0"
  proof (cases "?r > 0")
    case True
    have "?t \<le> length inp" using False by linarith
    then have "length m1 = length m + ?t" using True by (simp add: m1_def)
    then have "length m1 mod SPH_BLEN c = (?r + ?t) mod SPH_BLEN c" by (simp only: mod_add_left_eq)
    also have "?r + ?t = SPH_BLEN c" by (simp add: less_imp_le)
    finally show ?thesis by simp
  qed (simp add: m1_def)
  then have "md_absorbed c rfun iv (m1 @ d)
      (case md_loop (SPH_BLEN c) rfun (md_val sc1) d of (val, rest) \<Rightarrow>
        sc1\<lparr>md_buf := copy_at (md_buf sc1) 0 rest, md_val := val, md_count := md_count sc1 + of_nat (length d)\<rparr>)"
    using blocks_absorbed [OF sc1] by (simp split: prod.split)
  moreover have "md_update c rfun sc inp =
      (case md_loop (SPH_BLEN c) rfun (md_val sc1) d of (val, rest) \<Rightarrow>
        sc1\<lparr>md_buf := copy_at (md_buf sc1) 0 rest, md_val := val, md_count := md_count sc1 + of_nat (length d)\<rparr>)"
    using False by (simp add: md_update_def current Let_def sc1_def d_def)
  ultimately show ?thesis using m1 by simp
qed

lemma updates_absorbed:
  "md_absorbed c rfun iv m sc \<Longrightarrow>
     md_absorbed c rfun iv (m @ concat pieces) (fold (\<lambda>p sc. md_update c rfun sc p) pieces sc)"
proof (induction pieces arbitrary: m sc)
  case (Cons p pieces)
  then show ?case using Cons.IH [OF update_absorbed [OF Cons.prems, of p]] by simp
qed simp

lemma finish_value:
  assumes "md_absorbed c rfun iv m sc"
  shows "md_val (md_finish c rfun sc ub n) = md_value (SPH_BLEN c) rfun iv (md_padded c m ub n)"
proof -
  let ?B = "SPH_BLEN c" and ?M = "SPH_MAXPAD c" and ?r = "length m mod SPH_BLEN c"
  let ?v = "md_value (SPH_BLEN c) rfun iv m" and ?rest = "snd (md_loop (SPH_BLEN c) rfun iv m)"
  let ?e = "md_end_byte c ub n" and ?f = "md_length_field c (of_nat (length m)) n"
  have sc: "length (md_buf sc) = ?B" "take ?r (md_buf sc) = ?rest" "md_val sc = ?v" "md_count sc = of_nat (length m)"
    using assms by (simp_all add: md_absorbed_def buffered_def)
  have r: "?r < ?B" and rest: "length ?rest = ?r" by (simp_all add: length_md_rest)
  have f: "?M + length ?f = ?B" by (rule field)
  have buf: "(md_buf sc)[?r := ?e] = (?rest @ [?e]) @ drop (?r + 1) (md_buf sc)"
    using sc(1,2) r by (simp add: upd_conv_take_nth_drop)
  have pad: "md_loop ?B rfun iv (md_padded c m ub n) =
      md_loop ?B rfun ?v (?rest @ ?e # replicate (md_zeros c (length m)) 0 @ ?f)"
    unfolding md_padded_def by (rule md_loop_append) simp
  show ?thesis
  proof (cases "?r + 1 > ?M")
    case True
    let ?b1 = "?rest @ ?e # replicate (?B - (?r + 1)) 0" and ?b2 = "replicate ?M 0 @ ?f"
    have "copy_at ((md_buf sc)[?r := ?e]) (?r + 1) (replicate (?B - (?r + 1)) 0) = ?b1"
      unfolding buf using sc(1) rest r by (simp add: copy_at_def del: mod_less_divisor)
    moreover have "copy_at (copy_at ?b1 0 (replicate ?M 0)) ?M ?f = ?b2"
      using rest r f by (simp add: copy_at_def del: mod_less_divisor)
    ultimately have "md_val (md_finish c rfun sc ub n) = rfun ?b2 (rfun ?b1 ?v)"
      using True sc by (simp add: md_finish_def Let_def current_mod)
    moreover have "replicate (md_zeros c (length m)) 0 = replicate (?B - (?r + 1)) (0 :: u8) @ replicate ?M 0"
      using True by (simp add: md_zeros_def Let_def replicate_add)
    moreover have "length ?b1 = ?B" "length ?b2 = ?B" using rest r f by (simp_all del: mod_less_divisor)
    ultimately show ?thesis
      using pad md_loop_block [of ?b1 ?B rfun ?v ?b2] md_loop_block [of ?b2 ?B rfun "rfun ?b1 ?v" "[]"]
      by (simp add: md_loop_stop)
  next
    case False
    let ?b = "?rest @ ?e # replicate (?M - (?r + 1)) 0 @ ?f"
    let ?pad = "?rest @ ?e # replicate (?M - (?r + 1)) 0"
    have "copy_at ((md_buf sc)[?r := ?e]) (?r + 1) (replicate (?M - (?r + 1)) 0) = ?pad @ drop ?M (md_buf sc)"
      unfolding buf using sc(1) rest False by (simp add: copy_at_def drop_Cons')
    moreover have "copy_at (?pad @ drop ?M (md_buf sc)) ?M ?f = ?pad @ ?f"
    proof -
      have "length ?pad = ?M" using rest False by simp
      then show ?thesis using sc(1) f by (simp add: copy_at_def del: append_assoc append.simps)
    qed
    ultimately have "copy_at (copy_at ((md_buf sc)[?r := ?e]) (?r + 1) (replicate (?M - (?r + 1)) 0)) ?M ?f = ?b"
      by simp
    then have "md_val (md_finish c rfun sc ub n) = rfun ?b ?v"
      using False sc by (simp add: md_finish_def Let_def current_mod)
    moreover have "replicate (md_zeros c (length m)) 0 = replicate (?M - (?r + 1)) (0 :: u8)"
      using False by (simp add: md_zeros_def Let_def)
    moreover have "length ?b = ?B" using rest r f False by simp
    ultimately show ?thesis
      using pad md_loop_block [of ?b ?B rfun ?v "[]"] by (simp add: md_loop_stop)
  qed
qed

lemma finish_buf:
  assumes "length (md_buf sc) = SPH_BLEN c"
  shows "length (md_buf (md_finish c rfun sc ub n)) = SPH_BLEN c"
proof -
  have "md_current c (md_count sc) < SPH_BLEN c"
    using current_mod [of "unat (md_count sc)"] by simp
  then show ?thesis
    using assms field [of "md_count sc" n] by (simp add: md_finish_def Let_def split_beta)
qed

lemma length_padded: "length (md_padded c m ub n) mod SPH_BLEN c = 0"
proof -
  let ?r = "length m mod SPH_BLEN c"
  have r: "?r < SPH_BLEN c" by simp
  have total: "(?r + (1 + md_zeros c (length m) + length (md_length_field c (of_nat (length m)) n))) mod SPH_BLEN c = 0"
  proof (cases "?r + 1 > SPH_MAXPAD c")
    case True
    then have "?r + (1 + md_zeros c (length m) + length (md_length_field c (of_nat (length m)) n)) = 2 * SPH_BLEN c"
      using r field [of "of_nat (length m)" n] by (simp add: md_zeros_def Let_def del: mod_less_divisor)
    then show ?thesis by simp
  next
    case False
    then have "?r + (1 + md_zeros c (length m) + length (md_length_field c (of_nat (length m)) n)) = SPH_BLEN c"
      using field [of "of_nat (length m)" n] by (simp add: md_zeros_def Let_def)
    then show ?thesis by simp
  qed
  have "length (md_padded c m ub n) =
      length m + (1 + md_zeros c (length m) + length (md_length_field c (of_nat (length m)) n))"
    by (simp add: md_padded_def)
  then show ?thesis using total by (simp only: mod_add_left_eq)
qed

end

end
