(* ===== verification/Sha2.thy ===== *)
theory Sha2
  imports Md_Helper
begin

unbundle bit_operations_syntax

text \<open>
  SHA-224 and SHA-256 (\<open>src/src/Native/libmultihash/sha3/sph_sha2.c\<close>), SHA-384 and SHA-512
  (\<open>sph_sha2big.c\<close>), both on top of the front end \<open>md_helper.c\<close>. The 32-bit compression function comes
  in two versions selected by \<open>SPH_SMALL_FOOTPRINT_SHA2\<close>, 64 unrolled steps and a loop over 16 steps;
  both are modelled, and \<open>sha2_round\<close> uses the first, which is the one that is compiled.

  The specification is the one of FIPS 180-4: a message schedule by recursion over \<open>t\<close>, and a step that
  shifts eight registers. The unrolled code renames the registers instead of moving them and keeps only
  the last sixteen words of the schedule.
\<close>

section \<open>The functions of a step\<close>

definition CH :: "'a::len word \<Rightarrow> 'a word \<Rightarrow> 'a word \<Rightarrow> 'a word" where
  "CH X Y Z = ((Y XOR Z) AND X) XOR Z"

definition MAJ :: "'a::len word \<Rightarrow> 'a word \<Rightarrow> 'a word \<Rightarrow> 'a word" where
  "MAJ X Y Z = (Y AND Z) OR ((Y OR Z) AND X)"

definition BSG2_0 :: "u32 \<Rightarrow> u32" where
  "BSG2_0 x = ror32 x 2 XOR ror32 x 13 XOR ror32 x 22"

definition BSG2_1 :: "u32 \<Rightarrow> u32" where
  "BSG2_1 x = ror32 x 6 XOR ror32 x 11 XOR ror32 x 25"

definition SSG2_0 :: "u32 \<Rightarrow> u32" where
  "SSG2_0 x = ror32 x 7 XOR ror32 x 18 XOR drop_bit 3 x"

definition SSG2_1 :: "u32 \<Rightarrow> u32" where
  "SSG2_1 x = ror32 x 17 XOR ror32 x 19 XOR drop_bit 10 x"

definition H224 :: "u32 list" where
  "H224 =
     [0xC1059ED8, 0x367CD507, 0x3070DD17, 0xF70E5939, 0xFFC00B31, 0x68581511, 0x64F98FA7, 0xBEFA4FA4]"

definition H256 :: "u32 list" where
  "H256 =
     [0x6A09E667, 0xBB67AE85, 0x3C6EF372, 0xA54FF53A, 0x510E527F, 0x9B05688C, 0x1F83D9AB, 0x5BE0CD19]"

text \<open>
  The lines that set \<open>T1\<close> and \<open>T2\<close> and then the two registers of the place of \<open>D\<close> and of \<open>H\<close>.
\<close>

definition sha2_step :: "u32 \<Rightarrow> u32 \<Rightarrow> u32 \<Rightarrow> u32 \<Rightarrow> u32 \<Rightarrow> u32 \<Rightarrow> u32 \<Rightarrow> u32 \<Rightarrow> u32 \<Rightarrow> u32 \<Rightarrow> u32 \<times> u32" where
  "sha2_step k w a b c d e f g h =
     (let T1 = h + BSG2_1 e + CH e f g + k + w; T2 = BSG2_0 a + MAJ a b c in (d + T1, T1 + T2))"

section \<open>The unrolled compression function\<close>

text \<open>
  \<open>SHA2_ROUND_BODY\<close> in four parts of sixteen steps, cut where the registers are back in their places:
  each takes the registers and the sixteen words of the schedule that the code keeps.
\<close>

definition sha2_body_0 :: "(nat \<Rightarrow> u32) \<Rightarrow> u32 list \<Rightarrow> u32 list \<times> u32 list" where
  "sha2_body_0 inp r =
     (let A = r ! 0; B = r ! 1; C = r ! 2; D = r ! 3; E = r ! 4; F = r ! 5; G = r ! 6; H = r ! 7;
          W00 = inp 0; (D, H) = sha2_step 0x428A2F98 W00 A B C D E F G H;
          W01 = inp 1; (C, G) = sha2_step 0x71374491 W01 H A B C D E F G;
          W02 = inp 2; (B, F) = sha2_step 0xB5C0FBCF W02 G H A B C D E F;
          W03 = inp 3; (A, E) = sha2_step 0xE9B5DBA5 W03 F G H A B C D E;
          W04 = inp 4; (H, D) = sha2_step 0x3956C25B W04 E F G H A B C D;
          W05 = inp 5; (G, C) = sha2_step 0x59F111F1 W05 D E F G H A B C;
          W06 = inp 6; (F, B) = sha2_step 0x923F82A4 W06 C D E F G H A B;
          W07 = inp 7; (E, A) = sha2_step 0xAB1C5ED5 W07 B C D E F G H A;
          W08 = inp 8; (D, H) = sha2_step 0xD807AA98 W08 A B C D E F G H;
          W09 = inp 9; (C, G) = sha2_step 0x12835B01 W09 H A B C D E F G;
          W10 = inp 10; (B, F) = sha2_step 0x243185BE W10 G H A B C D E F;
          W11 = inp 11; (A, E) = sha2_step 0x550C7DC3 W11 F G H A B C D E;
          W12 = inp 12; (H, D) = sha2_step 0x72BE5D74 W12 E F G H A B C D;
          W13 = inp 13; (G, C) = sha2_step 0x80DEB1FE W13 D E F G H A B C;
          W14 = inp 14; (F, B) = sha2_step 0x9BDC06A7 W14 C D E F G H A B;
          W15 = inp 15; (E, A) = sha2_step 0xC19BF174 W15 B C D E F G H A
      in ([A, B, C, D, E, F, G, H], [W00, W01, W02, W03, W04, W05, W06, W07, W08, W09, W10, W11, W12, W13, W14, W15]))"

definition sha2_body_1 :: "u32 list \<Rightarrow> u32 list \<Rightarrow> u32 list \<times> u32 list" where
  "sha2_body_1 W r =
     (let A = r ! 0; B = r ! 1; C = r ! 2; D = r ! 3; E = r ! 4; F = r ! 5; G = r ! 6; H = r ! 7;
          W00 = W ! 0; W01 = W ! 1; W02 = W ! 2; W03 = W ! 3; W04 = W ! 4; W05 = W ! 5; W06 = W ! 6; W07 = W ! 7;
          W08 = W ! 8; W09 = W ! 9; W10 = W ! 10; W11 = W ! 11; W12 = W ! 12; W13 = W ! 13; W14 = W ! 14; W15 = W ! 15;
          W00 = SSG2_1 W14 + W09 + SSG2_0 W01 + W00; (D, H) = sha2_step 0xE49B69C1 W00 A B C D E F G H;
          W01 = SSG2_1 W15 + W10 + SSG2_0 W02 + W01; (C, G) = sha2_step 0xEFBE4786 W01 H A B C D E F G;
          W02 = SSG2_1 W00 + W11 + SSG2_0 W03 + W02; (B, F) = sha2_step 0x0FC19DC6 W02 G H A B C D E F;
          W03 = SSG2_1 W01 + W12 + SSG2_0 W04 + W03; (A, E) = sha2_step 0x240CA1CC W03 F G H A B C D E;
          W04 = SSG2_1 W02 + W13 + SSG2_0 W05 + W04; (H, D) = sha2_step 0x2DE92C6F W04 E F G H A B C D;
          W05 = SSG2_1 W03 + W14 + SSG2_0 W06 + W05; (G, C) = sha2_step 0x4A7484AA W05 D E F G H A B C;
          W06 = SSG2_1 W04 + W15 + SSG2_0 W07 + W06; (F, B) = sha2_step 0x5CB0A9DC W06 C D E F G H A B;
          W07 = SSG2_1 W05 + W00 + SSG2_0 W08 + W07; (E, A) = sha2_step 0x76F988DA W07 B C D E F G H A;
          W08 = SSG2_1 W06 + W01 + SSG2_0 W09 + W08; (D, H) = sha2_step 0x983E5152 W08 A B C D E F G H;
          W09 = SSG2_1 W07 + W02 + SSG2_0 W10 + W09; (C, G) = sha2_step 0xA831C66D W09 H A B C D E F G;
          W10 = SSG2_1 W08 + W03 + SSG2_0 W11 + W10; (B, F) = sha2_step 0xB00327C8 W10 G H A B C D E F;
          W11 = SSG2_1 W09 + W04 + SSG2_0 W12 + W11; (A, E) = sha2_step 0xBF597FC7 W11 F G H A B C D E;
          W12 = SSG2_1 W10 + W05 + SSG2_0 W13 + W12; (H, D) = sha2_step 0xC6E00BF3 W12 E F G H A B C D;
          W13 = SSG2_1 W11 + W06 + SSG2_0 W14 + W13; (G, C) = sha2_step 0xD5A79147 W13 D E F G H A B C;
          W14 = SSG2_1 W12 + W07 + SSG2_0 W15 + W14; (F, B) = sha2_step 0x06CA6351 W14 C D E F G H A B;
          W15 = SSG2_1 W13 + W08 + SSG2_0 W00 + W15; (E, A) = sha2_step 0x14292967 W15 B C D E F G H A
      in ([A, B, C, D, E, F, G, H], [W00, W01, W02, W03, W04, W05, W06, W07, W08, W09, W10, W11, W12, W13, W14, W15]))"

definition sha2_body_2 :: "u32 list \<Rightarrow> u32 list \<Rightarrow> u32 list \<times> u32 list" where
  "sha2_body_2 W r =
     (let A = r ! 0; B = r ! 1; C = r ! 2; D = r ! 3; E = r ! 4; F = r ! 5; G = r ! 6; H = r ! 7;
          W00 = W ! 0; W01 = W ! 1; W02 = W ! 2; W03 = W ! 3; W04 = W ! 4; W05 = W ! 5; W06 = W ! 6; W07 = W ! 7;
          W08 = W ! 8; W09 = W ! 9; W10 = W ! 10; W11 = W ! 11; W12 = W ! 12; W13 = W ! 13; W14 = W ! 14; W15 = W ! 15;
          W00 = SSG2_1 W14 + W09 + SSG2_0 W01 + W00; (D, H) = sha2_step 0x27B70A85 W00 A B C D E F G H;
          W01 = SSG2_1 W15 + W10 + SSG2_0 W02 + W01; (C, G) = sha2_step 0x2E1B2138 W01 H A B C D E F G;
          W02 = SSG2_1 W00 + W11 + SSG2_0 W03 + W02; (B, F) = sha2_step 0x4D2C6DFC W02 G H A B C D E F;
          W03 = SSG2_1 W01 + W12 + SSG2_0 W04 + W03; (A, E) = sha2_step 0x53380D13 W03 F G H A B C D E;
          W04 = SSG2_1 W02 + W13 + SSG2_0 W05 + W04; (H, D) = sha2_step 0x650A7354 W04 E F G H A B C D;
          W05 = SSG2_1 W03 + W14 + SSG2_0 W06 + W05; (G, C) = sha2_step 0x766A0ABB W05 D E F G H A B C;
          W06 = SSG2_1 W04 + W15 + SSG2_0 W07 + W06; (F, B) = sha2_step 0x81C2C92E W06 C D E F G H A B;
          W07 = SSG2_1 W05 + W00 + SSG2_0 W08 + W07; (E, A) = sha2_step 0x92722C85 W07 B C D E F G H A;
          W08 = SSG2_1 W06 + W01 + SSG2_0 W09 + W08; (D, H) = sha2_step 0xA2BFE8A1 W08 A B C D E F G H;
          W09 = SSG2_1 W07 + W02 + SSG2_0 W10 + W09; (C, G) = sha2_step 0xA81A664B W09 H A B C D E F G;
          W10 = SSG2_1 W08 + W03 + SSG2_0 W11 + W10; (B, F) = sha2_step 0xC24B8B70 W10 G H A B C D E F;
          W11 = SSG2_1 W09 + W04 + SSG2_0 W12 + W11; (A, E) = sha2_step 0xC76C51A3 W11 F G H A B C D E;
          W12 = SSG2_1 W10 + W05 + SSG2_0 W13 + W12; (H, D) = sha2_step 0xD192E819 W12 E F G H A B C D;
          W13 = SSG2_1 W11 + W06 + SSG2_0 W14 + W13; (G, C) = sha2_step 0xD6990624 W13 D E F G H A B C;
          W14 = SSG2_1 W12 + W07 + SSG2_0 W15 + W14; (F, B) = sha2_step 0xF40E3585 W14 C D E F G H A B;
          W15 = SSG2_1 W13 + W08 + SSG2_0 W00 + W15; (E, A) = sha2_step 0x106AA070 W15 B C D E F G H A
      in ([A, B, C, D, E, F, G, H], [W00, W01, W02, W03, W04, W05, W06, W07, W08, W09, W10, W11, W12, W13, W14, W15]))"

definition sha2_body_3 :: "u32 list \<Rightarrow> u32 list \<Rightarrow> u32 list \<times> u32 list" where
  "sha2_body_3 W r =
     (let A = r ! 0; B = r ! 1; C = r ! 2; D = r ! 3; E = r ! 4; F = r ! 5; G = r ! 6; H = r ! 7;
          W00 = W ! 0; W01 = W ! 1; W02 = W ! 2; W03 = W ! 3; W04 = W ! 4; W05 = W ! 5; W06 = W ! 6; W07 = W ! 7;
          W08 = W ! 8; W09 = W ! 9; W10 = W ! 10; W11 = W ! 11; W12 = W ! 12; W13 = W ! 13; W14 = W ! 14; W15 = W ! 15;
          W00 = SSG2_1 W14 + W09 + SSG2_0 W01 + W00; (D, H) = sha2_step 0x19A4C116 W00 A B C D E F G H;
          W01 = SSG2_1 W15 + W10 + SSG2_0 W02 + W01; (C, G) = sha2_step 0x1E376C08 W01 H A B C D E F G;
          W02 = SSG2_1 W00 + W11 + SSG2_0 W03 + W02; (B, F) = sha2_step 0x2748774C W02 G H A B C D E F;
          W03 = SSG2_1 W01 + W12 + SSG2_0 W04 + W03; (A, E) = sha2_step 0x34B0BCB5 W03 F G H A B C D E;
          W04 = SSG2_1 W02 + W13 + SSG2_0 W05 + W04; (H, D) = sha2_step 0x391C0CB3 W04 E F G H A B C D;
          W05 = SSG2_1 W03 + W14 + SSG2_0 W06 + W05; (G, C) = sha2_step 0x4ED8AA4A W05 D E F G H A B C;
          W06 = SSG2_1 W04 + W15 + SSG2_0 W07 + W06; (F, B) = sha2_step 0x5B9CCA4F W06 C D E F G H A B;
          W07 = SSG2_1 W05 + W00 + SSG2_0 W08 + W07; (E, A) = sha2_step 0x682E6FF3 W07 B C D E F G H A;
          W08 = SSG2_1 W06 + W01 + SSG2_0 W09 + W08; (D, H) = sha2_step 0x748F82EE W08 A B C D E F G H;
          W09 = SSG2_1 W07 + W02 + SSG2_0 W10 + W09; (C, G) = sha2_step 0x78A5636F W09 H A B C D E F G;
          W10 = SSG2_1 W08 + W03 + SSG2_0 W11 + W10; (B, F) = sha2_step 0x84C87814 W10 G H A B C D E F;
          W11 = SSG2_1 W09 + W04 + SSG2_0 W12 + W11; (A, E) = sha2_step 0x8CC70208 W11 F G H A B C D E;
          W12 = SSG2_1 W10 + W05 + SSG2_0 W13 + W12; (H, D) = sha2_step 0x90BEFFFA W12 E F G H A B C D;
          W13 = SSG2_1 W11 + W06 + SSG2_0 W14 + W13; (G, C) = sha2_step 0xA4506CEB W13 D E F G H A B C;
          W14 = SSG2_1 W12 + W07 + SSG2_0 W15 + W14; (F, B) = sha2_step 0xBEF9A3F7 W14 C D E F G H A B;
          W15 = SSG2_1 W13 + W08 + SSG2_0 W00 + W15; (E, A) = sha2_step 0xC67178F2 W15 B C D E F G H A
      in ([A, B, C, D, E, F, G, H], [W00, W01, W02, W03, W04, W05, W06, W07, W08, W09, W10, W11, W12, W13, W14, W15]))"

definition SHA2_ROUND_BODY :: "(nat \<Rightarrow> u32) \<Rightarrow> u32 list \<Rightarrow> u32 list" where
  "SHA2_ROUND_BODY inp r =
     (let (s, W) = sha2_body_0 inp r;
          (s, W) = sha2_body_1 W s;
          (s, W) = sha2_body_2 W s;
          (s, W) = sha2_body_3 W s
      in map2 (+) r s)"

definition sph_dec32be :: "bytes \<Rightarrow> nat \<Rightarrow> u32" where
  "sph_dec32be data i = be_word (take 4 (drop i data))"

definition sha2_round :: "bytes \<Rightarrow> u32 list \<Rightarrow> u32 list" where
  "sha2_round data r = SHA2_ROUND_BODY (\<lambda>x. sph_dec32be data (4 * x)) r"

section \<open>The compression function with a small footprint\<close>

definition sha2_K :: "u32 list" where
  "sha2_K =
     [0x428A2F98, 0x71374491, 0xB5C0FBCF, 0xE9B5DBA5, 0x3956C25B, 0x59F111F1, 0x923F82A4, 0xAB1C5ED5,
      0xD807AA98, 0x12835B01, 0x243185BE, 0x550C7DC3, 0x72BE5D74, 0x80DEB1FE, 0x9BDC06A7, 0xC19BF174,
      0xE49B69C1, 0xEFBE4786, 0x0FC19DC6, 0x240CA1CC, 0x2DE92C6F, 0x4A7484AA, 0x5CB0A9DC, 0x76F988DA,
      0x983E5152, 0xA831C66D, 0xB00327C8, 0xBF597FC7, 0xC6E00BF3, 0xD5A79147, 0x06CA6351, 0x14292967,
      0x27B70A85, 0x2E1B2138, 0x4D2C6DFC, 0x53380D13, 0x650A7354, 0x766A0ABB, 0x81C2C92E, 0x92722C85,
      0xA2BFE8A1, 0xA81A664B, 0xC24B8B70, 0xC76C51A3, 0xD192E819, 0xD6990624, 0xF40E3585, 0x106AA070,
      0x19A4C116, 0x1E376C08, 0x2748774C, 0x34B0BCB5, 0x391C0CB3, 0x4ED8AA4A, 0x5B9CCA4F, 0x682E6FF3,
      0x748F82EE, 0x78A5636F, 0x84C87814, 0x8CC70208, 0x90BEFFFA, 0xA4506CEB, 0xBEF9A3F7, 0xC67178F2]"

definition SHA2_MEXP1 :: "(nat \<Rightarrow> u32) \<Rightarrow> nat \<Rightarrow> u32 list \<Rightarrow> u32 list" where
  "SHA2_MEXP1 inp pc W = W[pc := inp pc]"

text \<open>\<open>pc\<close> is a literal between 0 and 15, so that \<open>(pc - 2) & 0x0F\<close> is \<open>(pc + 14) mod 16\<close>.\<close>

definition SHA2_MEXP2 :: "nat \<Rightarrow> u32 list \<Rightarrow> u32 list" where
  "SHA2_MEXP2 pc W =
     W[pc mod 16 := SSG2_1 (W ! ((pc + 14) mod 16)) + W ! ((pc + 9) mod 16)
       + SSG2_0 (W ! ((pc + 1) mod 16)) + W ! (pc mod 16)]"

definition SHA2_STEP1 ::
  "nat \<Rightarrow> u32 \<Rightarrow> u32 \<Rightarrow> u32 \<Rightarrow> u32 \<Rightarrow> u32 \<Rightarrow> u32 \<Rightarrow> u32 \<Rightarrow> u32 \<Rightarrow> (nat \<Rightarrow> u32) \<Rightarrow> nat \<Rightarrow> u32 list \<Rightarrow> u32 \<times> u32 \<times> u32 list" where
  "SHA2_STEP1 pcount a b c d e f g h inp pc W =
     (let W = SHA2_MEXP1 inp pc W;
          (d, h) = sha2_step (sha2_K ! (pcount + pc)) (W ! (pc mod 16)) a b c d e f g h
      in (d, h, W))"

definition SHA2_STEP2 ::
  "nat \<Rightarrow> u32 \<Rightarrow> u32 \<Rightarrow> u32 \<Rightarrow> u32 \<Rightarrow> u32 \<Rightarrow> u32 \<Rightarrow> u32 \<Rightarrow> u32 \<Rightarrow> (nat \<Rightarrow> u32) \<Rightarrow> nat \<Rightarrow> u32 list \<Rightarrow> u32 \<times> u32 \<times> u32 list" where
  "SHA2_STEP2 pcount a b c d e f g h inp pc W =
     (let W = SHA2_MEXP2 pc W;
          (d, h) = sha2_step (sha2_K ! (pcount + pc)) (W ! (pc mod 16)) a b c d e f g h
      in (d, h, W))"

text \<open>The first sixteen steps, the body of \<open>for (pcount = 16; pcount < 64; pcount += 16)\<close>, and the whole.\<close>

definition sha2_small_first :: "(nat \<Rightarrow> u32) \<Rightarrow> u32 list \<Rightarrow> u32 list \<Rightarrow> u32 list \<times> u32 list" where
  "sha2_small_first inp W r =
     (let A = r ! 0; B = r ! 1; C = r ! 2; D = r ! 3; E = r ! 4; F = r ! 5; G = r ! 6; H = r ! 7;
          (D, H, W) = SHA2_STEP1 0 A B C D E F G H inp 0 W;
          (C, G, W) = SHA2_STEP1 0 H A B C D E F G inp 1 W;
          (B, F, W) = SHA2_STEP1 0 G H A B C D E F inp 2 W;
          (A, E, W) = SHA2_STEP1 0 F G H A B C D E inp 3 W;
          (H, D, W) = SHA2_STEP1 0 E F G H A B C D inp 4 W;
          (G, C, W) = SHA2_STEP1 0 D E F G H A B C inp 5 W;
          (F, B, W) = SHA2_STEP1 0 C D E F G H A B inp 6 W;
          (E, A, W) = SHA2_STEP1 0 B C D E F G H A inp 7 W;
          (D, H, W) = SHA2_STEP1 0 A B C D E F G H inp 8 W;
          (C, G, W) = SHA2_STEP1 0 H A B C D E F G inp 9 W;
          (B, F, W) = SHA2_STEP1 0 G H A B C D E F inp 10 W;
          (A, E, W) = SHA2_STEP1 0 F G H A B C D E inp 11 W;
          (H, D, W) = SHA2_STEP1 0 E F G H A B C D inp 12 W;
          (G, C, W) = SHA2_STEP1 0 D E F G H A B C inp 13 W;
          (F, B, W) = SHA2_STEP1 0 C D E F G H A B inp 14 W;
          (E, A, W) = SHA2_STEP1 0 B C D E F G H A inp 15 W
      in ([A, B, C, D, E, F, G, H], W))"

definition sha2_small_loop :: "(nat \<Rightarrow> u32) \<Rightarrow> nat \<Rightarrow> u32 list \<times> u32 list \<Rightarrow> u32 list \<times> u32 list" where
  "sha2_small_loop inp pcount s =
     (let r = fst s; W = snd s; A = r ! 0; B = r ! 1; C = r ! 2; D = r ! 3; E = r ! 4; F = r ! 5; G = r ! 6; H = r ! 7;
          (D, H, W) = SHA2_STEP2 pcount A B C D E F G H inp 0 W;
          (C, G, W) = SHA2_STEP2 pcount H A B C D E F G inp 1 W;
          (B, F, W) = SHA2_STEP2 pcount G H A B C D E F inp 2 W;
          (A, E, W) = SHA2_STEP2 pcount F G H A B C D E inp 3 W;
          (H, D, W) = SHA2_STEP2 pcount E F G H A B C D inp 4 W;
          (G, C, W) = SHA2_STEP2 pcount D E F G H A B C inp 5 W;
          (F, B, W) = SHA2_STEP2 pcount C D E F G H A B inp 6 W;
          (E, A, W) = SHA2_STEP2 pcount B C D E F G H A inp 7 W;
          (D, H, W) = SHA2_STEP2 pcount A B C D E F G H inp 8 W;
          (C, G, W) = SHA2_STEP2 pcount H A B C D E F G inp 9 W;
          (B, F, W) = SHA2_STEP2 pcount G H A B C D E F inp 10 W;
          (A, E, W) = SHA2_STEP2 pcount F G H A B C D E inp 11 W;
          (H, D, W) = SHA2_STEP2 pcount E F G H A B C D inp 12 W;
          (G, C, W) = SHA2_STEP2 pcount D E F G H A B C inp 13 W;
          (F, B, W) = SHA2_STEP2 pcount C D E F G H A B inp 14 W;
          (E, A, W) = SHA2_STEP2 pcount B C D E F G H A inp 15 W
      in ([A, B, C, D, E, F, G, H], W))"

definition SHA2_ROUND_BODY_small :: "(nat \<Rightarrow> u32) \<Rightarrow> u32 list \<Rightarrow> u32 list \<Rightarrow> u32 list" where
  "SHA2_ROUND_BODY_small inp W r =
     (let (s, W) = fold (sha2_small_loop inp) [16, 32, 48] (sha2_small_first inp W r)
      in map2 (+) r s)"

section \<open>SHA-224 and SHA-256\<close>

definition sha224_conf :: md_conf where
  "sha224_conf = \<lparr>conf_kind = BE32, conf_plw = PLW2, conf_PW01 = False, conf_BLEN = None\<rparr>"

type_synonym sha224_context = "u32 list md_context"

definition sph_sha224_init :: "sha224_context \<Rightarrow> sha224_context" where
  "sph_sha224_init sc = sc\<lparr>md_val := H224, md_count := 0\<rparr>"

definition sph_sha256_init :: "sha224_context \<Rightarrow> sha224_context" where
  "sph_sha256_init sc = sc\<lparr>md_val := H256, md_count := 0\<rparr>"

text \<open>\<open>sph_sha256\<close> is the same function by \<open>#define\<close>.\<close>

definition sph_sha224 :: "sha224_context \<Rightarrow> bytes \<Rightarrow> sha224_context" where
  "sph_sha224 sc data = md_update sha224_conf sha2_round sc data"

text \<open>The closing functions return the context after the call and what is written to \<open>dst\<close>.\<close>

definition sph_sha224_addbits_and_close :: "sha224_context \<Rightarrow> u32 \<Rightarrow> nat \<Rightarrow> sha224_context \<times> bytes" where
  "sph_sha224_addbits_and_close sc ub n =
     (sph_sha224_init (md_finish sha224_conf sha2_round sc ub n), md_addbits_and_close sha224_conf sha2_round sc ub n 7)"

definition sph_sha224_close :: "sha224_context \<Rightarrow> sha224_context \<times> bytes" where
  "sph_sha224_close sc =
     (sph_sha224_init (md_finish sha224_conf sha2_round sc 0 0), md_close sha224_conf sha2_round sc 7)"

definition sph_sha256_addbits_and_close :: "sha224_context \<Rightarrow> u32 \<Rightarrow> nat \<Rightarrow> sha224_context \<times> bytes" where
  "sph_sha256_addbits_and_close sc ub n =
     (sph_sha256_init (md_finish sha224_conf sha2_round sc ub n), md_addbits_and_close sha224_conf sha2_round sc ub n 8)"

definition sph_sha256_close :: "sha224_context \<Rightarrow> sha224_context \<times> bytes" where
  "sph_sha256_close sc =
     (sph_sha256_init (md_finish sha224_conf sha2_round sc 0 0), md_close sha224_conf sha2_round sc 8)"

definition sph_sha224_comp :: "u32 list \<Rightarrow> u32 list \<Rightarrow> u32 list" where
  "sph_sha224_comp msg val = SHA2_ROUND_BODY (\<lambda>x. msg ! x) val"

section \<open>SHA-384 and SHA-512\<close>

text \<open>\<open>CH\<close> is the macro of \<open>sph_sha2.c\<close> again, \<open>MAJ\<close> is another expression.\<close>

definition MAJ512 :: "u64 \<Rightarrow> u64 \<Rightarrow> u64 \<Rightarrow> u64" where
  "MAJ512 X Y Z = (X AND Y) OR ((X OR Y) AND Z)"

definition BSG5_0 :: "u64 \<Rightarrow> u64" where
  "BSG5_0 x = ror64 x 28 XOR ror64 x 34 XOR ror64 x 39"

definition BSG5_1 :: "u64 \<Rightarrow> u64" where
  "BSG5_1 x = ror64 x 14 XOR ror64 x 18 XOR ror64 x 41"

definition SSG5_0 :: "u64 \<Rightarrow> u64" where
  "SSG5_0 x = ror64 x 1 XOR ror64 x 8 XOR drop_bit 7 x"

definition SSG5_1 :: "u64 \<Rightarrow> u64" where
  "SSG5_1 x = ror64 x 19 XOR ror64 x 61 XOR drop_bit 6 x"

definition K512 :: "u64 list" where
  "K512 =
     [0x428A2F98D728AE22, 0x7137449123EF65CD, 0xB5C0FBCFEC4D3B2F, 0xE9B5DBA58189DBBC,
      0x3956C25BF348B538, 0x59F111F1B605D019, 0x923F82A4AF194F9B, 0xAB1C5ED5DA6D8118,
      0xD807AA98A3030242, 0x12835B0145706FBE, 0x243185BE4EE4B28C, 0x550C7DC3D5FFB4E2,
      0x72BE5D74F27B896F, 0x80DEB1FE3B1696B1, 0x9BDC06A725C71235, 0xC19BF174CF692694,
      0xE49B69C19EF14AD2, 0xEFBE4786384F25E3, 0x0FC19DC68B8CD5B5, 0x240CA1CC77AC9C65,
      0x2DE92C6F592B0275, 0x4A7484AA6EA6E483, 0x5CB0A9DCBD41FBD4, 0x76F988DA831153B5,
      0x983E5152EE66DFAB, 0xA831C66D2DB43210, 0xB00327C898FB213F, 0xBF597FC7BEEF0EE4,
      0xC6E00BF33DA88FC2, 0xD5A79147930AA725, 0x06CA6351E003826F, 0x142929670A0E6E70,
      0x27B70A8546D22FFC, 0x2E1B21385C26C926, 0x4D2C6DFC5AC42AED, 0x53380D139D95B3DF,
      0x650A73548BAF63DE, 0x766A0ABB3C77B2A8, 0x81C2C92E47EDAEE6, 0x92722C851482353B,
      0xA2BFE8A14CF10364, 0xA81A664BBC423001, 0xC24B8B70D0F89791, 0xC76C51A30654BE30,
      0xD192E819D6EF5218, 0xD69906245565A910, 0xF40E35855771202A, 0x106AA07032BBD1B8,
      0x19A4C116B8D2D0C8, 0x1E376C085141AB53, 0x2748774CDF8EEB99, 0x34B0BCB5E19B48A8,
      0x391C0CB3C5C95A63, 0x4ED8AA4AE3418ACB, 0x5B9CCA4F7763E373, 0x682E6FF3D6B2B8A3,
      0x748F82EE5DEFB2FC, 0x78A5636F43172F60, 0x84C87814A1F0AB72, 0x8CC702081A6439EC,
      0x90BEFFFA23631E28, 0xA4506CEBDE82BDE9, 0xBEF9A3F7B2C67915, 0xC67178F2E372532B,
      0xCA273ECEEA26619C, 0xD186B8C721C0C207, 0xEADA7DD6CDE0EB1E, 0xF57D4F7FEE6ED178,
      0x06F067AA72176FBA, 0x0A637DC5A2C898A6, 0x113F9804BEF90DAE, 0x1B710B35131C471B,
      0x28DB77F523047D84, 0x32CAAB7B40C72493, 0x3C9EBE0A15C9BEBC, 0x431D67C49C100D4C,
      0x4CC5D4BECB3E42B6, 0x597F299CFC657E2A, 0x5FCB6FAB3AD6FAEC, 0x6C44198C4A475817]"

definition H384 :: "u64 list" where
  "H384 =
     [0xCBBB9D5DC1059ED8, 0x629A292A367CD507, 0x9159015A3070DD17, 0x152FECD8F70E5939,
      0x67332667FFC00B31, 0x8EB44A8768581511, 0xDB0C2E0D64F98FA7, 0x47B5481DBEFA4FA4]"

definition H512 :: "u64 list" where
  "H512 =
     [0x6A09E667F3BCC908, 0xBB67AE8584CAA73B, 0x3C6EF372FE94F82B, 0xA54FF53A5F1D36F1,
      0x510E527FADE682D1, 0x9B05688C2B3E6C1F, 0x1F83D9ABFB41BD6B, 0x5BE0CD19137E2179]"

definition SHA3_STEP ::
  "u64 list \<Rightarrow> u64 \<Rightarrow> u64 \<Rightarrow> u64 \<Rightarrow> u64 \<Rightarrow> u64 \<Rightarrow> u64 \<Rightarrow> u64 \<Rightarrow> u64 \<Rightarrow> nat \<Rightarrow> u64 \<times> u64" where
  "SHA3_STEP W a b c d e f g h i =
     (let T1 = h + BSG5_1 e + CH e f g + K512 ! i + W ! i; T2 = BSG5_0 a + MAJ512 a b c in (d + T1, T1 + T2))"

definition sha3_eight :: "u64 list \<Rightarrow> nat \<Rightarrow> u64 list \<Rightarrow> u64 list" where
  "sha3_eight W i r =
     (let A = r ! 0; B = r ! 1; C = r ! 2; D = r ! 3; E = r ! 4; F = r ! 5; G = r ! 6; H = r ! 7;
          (D, H) = SHA3_STEP W A B C D E F G H (i + 0);
          (C, G) = SHA3_STEP W H A B C D E F G (i + 1);
          (B, F) = SHA3_STEP W G H A B C D E F (i + 2);
          (A, E) = SHA3_STEP W F G H A B C D E (i + 3);
          (H, D) = SHA3_STEP W E F G H A B C D (i + 4);
          (G, C) = SHA3_STEP W D E F G H A B C (i + 5);
          (F, B) = SHA3_STEP W C D E F G H A B (i + 6);
          (E, A) = SHA3_STEP W B C D E F G H A (i + 7)
      in [A, B, C, D, E, F, G, H])"

text \<open>The array \<open>W[80]\<close> after the two loops; it holds anything before.\<close>

definition sha3_schedule :: "u64 list \<Rightarrow> (nat \<Rightarrow> u64) \<Rightarrow> u64 list" where
  "sha3_schedule W inp =
     (let W = fold (\<lambda>i W. W[i := inp i]) [0..<16] W
      in fold (\<lambda>i W. W[i := SSG5_1 (W ! (i - 2)) + W ! (i - 7) + SSG5_0 (W ! (i - 15)) + W ! (i - 16)]) [16..<80] W)"

definition SHA3_ROUND_BODY :: "u64 list \<Rightarrow> (nat \<Rightarrow> u64) \<Rightarrow> u64 list \<Rightarrow> u64 list" where
  "SHA3_ROUND_BODY W inp r =
     (let W = sha3_schedule W inp; s = fold (\<lambda>k. sha3_eight W (8 * k)) [0..<10] r in map2 (+) r s)"

definition sph_dec64be :: "bytes \<Rightarrow> nat \<Rightarrow> u64" where
  "sph_dec64be data i = be_word (take 8 (drop i data))"

text \<open>\<open>W\<close> is the local array of the call.\<close>

definition sha3_round :: "u64 list \<Rightarrow> bytes \<Rightarrow> u64 list \<Rightarrow> u64 list" where
  "sha3_round W data r = SHA3_ROUND_BODY W (\<lambda>x. sph_dec64be data (8 * x)) r"

definition sha384_conf :: md_conf where
  "sha384_conf = \<lparr>conf_kind = BE64, conf_plw = PLW2, conf_PW01 = False, conf_BLEN = None\<rparr>"

type_synonym sha384_context = "u64 list md_context"

definition sph_sha384_init :: "sha384_context \<Rightarrow> sha384_context" where
  "sph_sha384_init sc = sc\<lparr>md_val := H384, md_count := 0\<rparr>"

definition sph_sha512_init :: "sha384_context \<Rightarrow> sha384_context" where
  "sph_sha512_init sc = sc\<lparr>md_val := H512, md_count := 0\<rparr>"

definition sph_sha384 :: "u64 list \<Rightarrow> sha384_context \<Rightarrow> bytes \<Rightarrow> sha384_context" where
  "sph_sha384 W sc data = md_update sha384_conf (sha3_round W) sc data"

definition sph_sha384_addbits_and_close :: "u64 list \<Rightarrow> sha384_context \<Rightarrow> u32 \<Rightarrow> nat \<Rightarrow> sha384_context \<times> bytes" where
  "sph_sha384_addbits_and_close W sc ub n =
     (sph_sha384_init (md_finish sha384_conf (sha3_round W) sc ub n),
      md_addbits_and_close sha384_conf (sha3_round W) sc ub n 6)"

definition sph_sha384_close :: "u64 list \<Rightarrow> sha384_context \<Rightarrow> sha384_context \<times> bytes" where
  "sph_sha384_close W sc =
     (sph_sha384_init (md_finish sha384_conf (sha3_round W) sc 0 0), md_close sha384_conf (sha3_round W) sc 6)"

definition sph_sha512_addbits_and_close :: "u64 list \<Rightarrow> sha384_context \<Rightarrow> u32 \<Rightarrow> nat \<Rightarrow> sha384_context \<times> bytes" where
  "sph_sha512_addbits_and_close W sc ub n =
     (sph_sha512_init (md_finish sha384_conf (sha3_round W) sc ub n),
      md_addbits_and_close sha384_conf (sha3_round W) sc ub n 8)"

definition sph_sha512_close :: "u64 list \<Rightarrow> sha384_context \<Rightarrow> sha384_context \<times> bytes" where
  "sph_sha512_close W sc =
     (sph_sha512_init (md_finish sha384_conf (sha3_round W) sc 0 0), md_close sha384_conf (sha3_round W) sc 8)"

definition sph_sha384_comp :: "u64 list \<Rightarrow> u64 list \<Rightarrow> u64 list \<Rightarrow> u64 list" where
  "sph_sha384_comp W msg val = SHA3_ROUND_BODY W (\<lambda>x. msg ! x) val"

section \<open>The specification\<close>

definition fips_Ch :: "'a::len word \<Rightarrow> 'a word \<Rightarrow> 'a word \<Rightarrow> 'a word" where
  "fips_Ch x y z = (x AND y) XOR (NOT x AND z)"

definition fips_Maj :: "'a::len word \<Rightarrow> 'a word \<Rightarrow> 'a word \<Rightarrow> 'a word" where
  "fips_Maj x y z = (x AND y) XOR (x AND z) XOR (y AND z)"

function fips_W :: "('a::len word \<Rightarrow> 'a word) \<Rightarrow> ('a word \<Rightarrow> 'a word) \<Rightarrow> (nat \<Rightarrow> 'a word) \<Rightarrow> nat \<Rightarrow> 'a word" where
  "fips_W s0 s1 M t =
     (if t < 16 then M t
      else s1 (fips_W s0 s1 M (t - 2)) + fips_W s0 s1 M (t - 7) + s0 (fips_W s0 s1 M (t - 15)) + fips_W s0 s1 M (t - 16))"
  by pat_completeness auto
termination
  by (relation "measure (\<lambda>(s0, s1, M, t). t)") auto

declare fips_W.simps [simp del]

type_synonym 'a regs = "'a word \<times> 'a word \<times> 'a word \<times> 'a word \<times> 'a word \<times> 'a word \<times> 'a word \<times> 'a word"

definition fips_step ::
  "('a::len word \<Rightarrow> 'a word) \<Rightarrow> ('a word \<Rightarrow> 'a word) \<Rightarrow> 'a word \<times> 'a word \<Rightarrow> 'a regs \<Rightarrow> 'a regs" where
  "fips_step b0 b1 kw s =
     (case (kw, s) of ((k, w), (a, b, c, d, e, f, g, h)) \<Rightarrow>
        let t1 = h + b1 e + fips_Ch e f g + k + w; t2 = b0 a + fips_Maj a b c
        in (t1 + t2, a, b, c, d + t1, e, f, g))"

definition regs_of :: "'a::len word list \<Rightarrow> 'a regs" where
  "regs_of r = (r ! 0, r ! 1, r ! 2, r ! 3, r ! 4, r ! 5, r ! 6, r ! 7)"

definition list_of_regs :: "'a::len regs \<Rightarrow> 'a word list" where
  "list_of_regs s = (case s of (a, b, c, d, e, f, g, h) \<Rightarrow> [a, b, c, d, e, f, g, h])"

definition fips256_compress :: "(nat \<Rightarrow> u32) \<Rightarrow> u32 list \<Rightarrow> u32 list" where
  "fips256_compress M r =
     map2 (+) r (list_of_regs (fold (fips_step BSG2_0 BSG2_1)
       (map (\<lambda>t. (sha2_K ! t, fips_W SSG2_0 SSG2_1 M t)) [0..<64]) (regs_of r)))"

definition fips512_compress :: "(nat \<Rightarrow> u64) \<Rightarrow> u64 list \<Rightarrow> u64 list" where
  "fips512_compress M r =
     map2 (+) r (list_of_regs (fold (fips_step BSG5_0 BSG5_1)
       (map (\<lambda>t. (K512 ! t, fips_W SSG5_0 SSG5_1 M t)) [0..<80]) (regs_of r)))"

section \<open>The macros and the functions of the standard\<close>

lemma CH_fips: "CH x y z = fips_Ch x y z"
  by (rule bit_word_eqI) (auto simp: CH_def fips_Ch_def bit_simps)

lemma MAJ_fips: "MAJ x y z = fips_Maj x y z"
  by (rule bit_word_eqI) (auto simp: MAJ_def fips_Maj_def bit_simps)

lemma MAJ512_fips: "MAJ512 x y z = fips_Maj x y z"
  by (rule bit_word_eqI) (auto simp: MAJ512_def fips_Maj_def bit_simps)

section \<open>Eight unrolled steps\<close>

text \<open>The step as the code writes it: two of the eight registers change, none moves.\<close>

definition sha_step ::
  "('a::len word \<Rightarrow> 'a word) \<Rightarrow> ('a word \<Rightarrow> 'a word) \<Rightarrow> 'a word \<Rightarrow> 'a word \<Rightarrow> 'a word \<Rightarrow> 'a word \<Rightarrow> 'a word \<Rightarrow>
    'a word \<Rightarrow> 'a word \<Rightarrow> 'a word \<Rightarrow> 'a word \<Rightarrow> 'a word \<Rightarrow> 'a word \<times> 'a word" where
  "sha_step b0 b1 k w a b c d e f g h =
     (let t1 = h + b1 e + fips_Ch e f g + k + w; t2 = b0 a + fips_Maj a b c in (d + t1, t1 + t2))"

lemma sha2_step_eq: "sha2_step = sha_step BSG2_0 BSG2_1"
  by (intro ext) (simp add: sha2_step_def sha_step_def CH_fips MAJ_fips)

lemma SHA3_STEP_eq: "SHA3_STEP W a b c d e f g h i = sha_step BSG5_0 BSG5_1 (K512 ! i) (W ! i) a b c d e f g h"
  by (simp add: SHA3_STEP_def sha_step_def CH_fips MAJ512_fips)

lemma fips_step_eq:
  "fips_step b0 b1 (k, w) (a, b, c, d, e, f, g, h) =
     (case sha_step b0 b1 k w a b c d e f g h of (d', h') \<Rightarrow> (h', a, b, c, d', e, f, g))"
  by (simp add: fips_step_def sha_step_def Let_def)

lemma eight_steps:
  "(case sha_step b0 b1 k0 w0 a b c d e f g h of (d, h) \<Rightarrow>
      (case sha_step b0 b1 k1 w1 h a b c d e f g of (c, g) \<Rightarrow>
      (case sha_step b0 b1 k2 w2 g h a b c d e f of (b, f) \<Rightarrow>
      (case sha_step b0 b1 k3 w3 f g h a b c d e of (a, e) \<Rightarrow>
      (case sha_step b0 b1 k4 w4 e f g h a b c d of (h, d) \<Rightarrow>
      (case sha_step b0 b1 k5 w5 d e f g h a b c of (g, c) \<Rightarrow>
      (case sha_step b0 b1 k6 w6 c d e f g h a b of (f, b) \<Rightarrow>
      (case sha_step b0 b1 k7 w7 b c d e f g h a of (e, a) \<Rightarrow>
        F a b c d e f g h)))))))) =
   (case fold (fips_step b0 b1) [(k0, w0), (k1, w1), (k2, w2), (k3, w3), (k4, w4), (k5, w5), (k6, w6), (k7, w7)]
       (a, b, c, d, e, f, g, h) of (a, b, c, d, e, f, g, h) \<Rightarrow> F a b c d e f g h)"
  by (simp add: fips_step_eq split_beta)

section \<open>The message schedule\<close>

lemma fips_W_start: "t < 16 \<Longrightarrow> fips_W s0 s1 M t = M t"
  by (simp add: fips_W.simps)

text \<open>Right to left, the recursion of the schedule; the conditions find the position of the sum.\<close>

lemma fips_W_fold:
  "p = 14 + s \<Longrightarrow> q = 9 + s \<Longrightarrow> r = Suc s \<Longrightarrow>
     s1 (fips_W s0 s1 M p) + fips_W s0 s1 M q + s0 (fips_W s0 s1 M r) + fips_W s0 s1 M s = fips_W s0 s1 M (s + 16)"
  by (simp add: fips_W.simps [of s0 s1 M "s + 16"])

abbreviation W256 :: "(nat \<Rightarrow> u32) \<Rightarrow> nat \<Rightarrow> u32" where
  "W256 \<equiv> fips_W SSG2_0 SSG2_1"

abbreviation steps256 :: "(nat \<Rightarrow> u32) \<Rightarrow> nat \<Rightarrow> nat \<Rightarrow> u32 list \<Rightarrow> u32 list" where
  "steps256 M i j r \<equiv>
     list_of_regs (fold (fips_step BSG2_0 BSG2_1) (map (\<lambda>t. (sha2_K ! t, W256 M t)) [i..<j]) (regs_of r))"

lemma upt_0_16: "[0..<16] = [0, 1, 2, 3, 4, 5, 6, 7, 8, 9, 10, 11, 12, 13, 14, 15 :: nat]"
  by (simp add: upt_rec numeral_eq_Suc)

lemma split_regs:
  "(case s of (a, b, c, d, e, f, g, h) \<Rightarrow> ([a, b, c, d, e, f, g, h], W)) = (list_of_regs s, W)"
  by (simp add: list_of_regs_def split_beta)

lemma body_0: "sha2_body_0 M r = (steps256 M 0 16 r, map (W256 M) [0..<16])"
  unfolding sha2_body_0_def Let_def sha2_step_eq eight_steps
  by (simp add: upt_0_16 regs_of_def sha2_K_def split_regs fips_W_start)

lemma body_1: "sha2_body_1 (map (W256 M) [0..<16]) r = (steps256 M 16 32 r, map (W256 M) [16..<32])"
  unfolding sha2_body_1_def Let_def sha2_step_eq eight_steps
  by (simp add: upt_0_16 regs_of_def sha2_K_def split_regs fips_W_fold)

lemma body_2: "sha2_body_2 (map (W256 M) [16..<32]) r = (steps256 M 32 48 r, map (W256 M) [32..<48])"
  unfolding sha2_body_2_def Let_def sha2_step_eq eight_steps
  by (simp add: regs_of_def sha2_K_def split_regs fips_W_fold)

lemma body_3: "sha2_body_3 (map (W256 M) [32..<48]) r = (steps256 M 48 64 r, map (W256 M) [48..<64])"
  unfolding sha2_body_3_def Let_def sha2_step_eq eight_steps
  by (simp add: regs_of_def sha2_K_def split_regs fips_W_fold)

lemma list_of_regs_of: "length r = 8 \<Longrightarrow> list_of_regs (regs_of r) = r"
  by (auto simp: list_of_regs_def regs_of_def length_Suc_conv eval_nat_numeral)

lemma regs_of_list [simp]: "regs_of (list_of_regs s) = s"
  by (simp add: list_of_regs_def regs_of_def split_beta)

lemma length_list_of_regs [simp]: "length (list_of_regs s) = 8"
  by (simp add: list_of_regs_def split_beta)

lemma fold_upt_append:
  "i \<le> j \<Longrightarrow> j \<le> k \<Longrightarrow> fold f (map g [j..<k]) (fold f (map g [i..<j]) s) = fold f (map g [i..<k]) s"
  using upt_add_eq_append [of i j "k - j"] by simp

theorem ROUND_BODY_fips: "SHA2_ROUND_BODY M r = fips256_compress M r"
  by (simp add: SHA2_ROUND_BODY_def fips256_compress_def body_0 body_1 body_2 body_3 fold_upt_append
    del: upt_rec_numeral)

section \<open>The version with a small footprint\<close>

lemma STEP1_case:
  "(case SHA2_STEP1 pcount a b c d e f g h inp pc W of (d, h, W) \<Rightarrow> F d h W) =
     (case sha2_step (sha2_K ! (pcount + pc)) (SHA2_MEXP1 inp pc W ! (pc mod 16)) a b c d e f g h of
        (d, h) \<Rightarrow> F d h (SHA2_MEXP1 inp pc W))"
  by (simp add: SHA2_STEP1_def Let_def split_beta)

lemma STEP2_case:
  "(case SHA2_STEP2 pcount a b c d e f g h inp pc W of (d, h, W) \<Rightarrow> F d h W) =
     (case sha2_step (sha2_K ! (pcount + pc)) (SHA2_MEXP2 pc W ! (pc mod 16)) a b c d e f g h of
        (d, h) \<Rightarrow> F d h (SHA2_MEXP2 pc W))"
  by (simp add: SHA2_STEP2_def Let_def split_beta)

lemma small_first:
  assumes "length W = 16"
  shows "sha2_small_first M W r = (steps256 M 0 16 r, map (W256 M) [0..<16])"
proof -
  obtain v0 v1 v2 v3 v4 v5 v6 v7 v8 v9 v10 v11 v12 v13 v14 v15
    where W: "W = [v0, v1, v2, v3, v4, v5, v6, v7, v8, v9, v10, v11, v12, v13, v14, v15]"
    using assms by (auto simp: length_Suc_conv eval_nat_numeral)
  show ?thesis
    unfolding sha2_small_first_def Let_def STEP1_case sha2_step_eq eight_steps W
    by (simp add: upt_0_16 regs_of_def split_regs fips_W_start SHA2_MEXP1_def sha2_K_def)
qed

lemma small_loop:
  assumes "p \<in> {16, 32, 48}"
  shows "sha2_small_loop M p (r, map (W256 M) [p - 16..<p]) = (steps256 M p (p + 16) r, map (W256 M) [p..<p + 16])"
proof -
  consider "p = 16" | "p = 32" | "p = 48" using assms by auto
  then show ?thesis
    unfolding sha2_small_loop_def Let_def STEP2_case sha2_step_eq eight_steps
    by cases (simp_all add: upt_0_16 regs_of_def split_regs fips_W_fold SHA2_MEXP2_def)
qed

theorem small_ROUND_BODY_fips: "length W = 16 \<Longrightarrow> SHA2_ROUND_BODY_small M W r = fips256_compress M r"
  using small_loop [of 16 M] small_loop [of 32 M] small_loop [of 48 M]
  by (simp add: SHA2_ROUND_BODY_small_def fips256_compress_def small_first fold_upt_append del: upt_rec_numeral)

section \<open>The 64-bit compression function\<close>

abbreviation W512 :: "(nat \<Rightarrow> u64) \<Rightarrow> nat \<Rightarrow> u64" where
  "W512 \<equiv> fips_W SSG5_0 SSG5_1"

text \<open>An array that a loop fills from left to right, each cell from those before it.\<close>

lemma fold_fill:
  assumes "take m W = map v [0..<m]" and "length W = N" and "m \<le> n" and "n \<le> N"
    and step: "\<And>i W. m \<le> i \<Longrightarrow> i < n \<Longrightarrow> length W = N \<Longrightarrow> take i W = map v [0..<i] \<Longrightarrow> f i W = v i"
  shows "take n (fold (\<lambda>i W. W[i := f i W]) [m..<n] W) = map v [0..<n] \<and> length (fold (\<lambda>i W. W[i := f i W]) [m..<n] W) = N"
proof -
  have "take k (fold (\<lambda>i W. W[i := f i W]) [m..<k] W) = map v [0..<k] \<and> length (fold (\<lambda>i W. W[i := f i W]) [m..<k] W) = N"
    if "m \<le> k" "k \<le> n" for k
    using that
  proof (induction k rule: dec_induct)
    case base
    then show ?case using assms(1,2) by simp
  next
    case (step k)
    then show ?case
      using assms(4) assms(5) [of k "fold (\<lambda>i W. W[i := f i W]) [m..<k] W"]
      by (simp add: take_Suc_conv_app_nth)
  qed
  then show ?thesis using assms(3) by blast
qed

lemma fold_fill_all:
  assumes "take m W = map v [0..<m]" and "length W = N" and "m \<le> N"
    and "\<And>i W. m \<le> i \<Longrightarrow> i < N \<Longrightarrow> length W = N \<Longrightarrow> take i W = map v [0..<i] \<Longrightarrow> f i W = v i"
  shows "fold (\<lambda>i W. W[i := f i W]) [m..<N] W = map v [0..<N]"
proof -
  have "take N (fold (\<lambda>i W. W[i := f i W]) [m..<N] W) = map v [0..<N] \<and> length (fold (\<lambda>i W. W[i := f i W]) [m..<N] W) = N"
    by (rule fold_fill) (use assms in auto)
  then show ?thesis by (metis order_refl take_all)
qed

lemma nth_take_map: "take i W = map v [0..<i] \<Longrightarrow> j < i \<Longrightarrow> W ! j = v j"
  by (metis add_0 length_map length_upt minus_nat.diff_0 nth_map nth_take nth_upt)

text \<open>A loop that writes cells, and one that rewrites each cell from its own value.\<close>

lemma fold_store:
  assumes "a \<le> b" and "b \<le> length l"
  shows "fold (\<lambda>t l. l[t := f t]) [a..<b] l = take a l @ map f [a..<b] @ drop b l"
  using assms
proof (induction b rule: dec_induct)
  case (step n)
  then show ?case
    by (simp add: list_update_append Cons_nth_drop_Suc [symmetric])
qed simp

lemma fold_rewrite_at:
  assumes "n \<le> length l"
  shows "fold (\<lambda>i l. l[i := f i (l ! i)]) [0..<n] l = map (\<lambda>i. f i (l ! i)) [0..<n] @ drop n l"
  using assms
proof (induction n)
  case (Suc n)
  then show ?case
    by (simp add: list_update_append nth_append Cons_nth_drop_Suc [symmetric])
qed simp

lemma fold_rewrite:
  assumes "n \<le> length l"
  shows "fold (\<lambda>i l. l[i := g (l ! i)]) [0..<n] l = map g (take n l) @ drop n l"
proof -
  have "map (\<lambda>i. g (l ! i)) [0..<n] = map g (take n l)" using assms by (auto intro: nth_equalityI)
  then show ?thesis using fold_rewrite_at [OF assms, of "\<lambda>_. g"] by simp
qed

lemma fold_rewrite_map2:
  assumes "length s \<le> length l"
  shows "fold (\<lambda>i l. l[i := g (l ! i) (s ! i)]) [0..<length s] l = map2 g (take (length s) l) s @ drop (length s) l"
proof -
  have "map (\<lambda>i. g (l ! i) (s ! i)) [0..<length s] = map2 g (take (length s) l) s"
    using assms by (auto intro: nth_equalityI)
  then show ?thesis using fold_rewrite_at [OF assms, of "\<lambda>i x. g x (s ! i)"] by simp
qed

text \<open>The schedule, from the message words in the first sixteen cells.\<close>

lemma schedule_fill:
  assumes "take 16 W = map M [0..<16]" and "length W = N" and "16 \<le> N"
  shows "fold (\<lambda>i W. W[i := s1 (W ! (i - 2)) + W ! (i - 7) + s0 (W ! (i - 15)) + W ! (i - 16)]) [16..<N] W =
    map (fips_W s0 s1 M) [0..<N]"
proof (rule fold_fill_all)
  show "take 16 W = map (fips_W s0 s1 M) [0..<16]" by (simp add: assms(1) fips_W_start)
  fix i V
  assume "16 \<le> i" and "take i V = map (fips_W s0 s1 M) [0..<i]"
  then show "s1 (V ! (i - 2)) + V ! (i - 7) + s0 (V ! (i - 15)) + V ! (i - 16) = fips_W s0 s1 M i"
    by (simp add: fips_W.simps [of s0 s1 M i] nth_take_map [of i V "fips_W s0 s1 M"])
qed (use assms in simp_all)

lemma schedule_W512:
  assumes "length W = 80"
  shows "sha3_schedule W M = map (W512 M) [0..<80]"
proof -
  let ?W = "fold (\<lambda>i W. W[i := M i]) [0..<16] W"
  have "take 16 ?W = map M [0..<16] \<and> length ?W = 80"
    by (rule fold_fill) (simp_all add: assms)
  then show ?thesis
    by (simp only: sha3_schedule_def Let_def schedule_fill [of _ M 80] numeral_le_iff semiring_norm)
qed

abbreviation steps512 :: "(nat \<Rightarrow> u64) \<Rightarrow> nat \<Rightarrow> nat \<Rightarrow> u64 list \<Rightarrow> u64 list" where
  "steps512 M i j r \<equiv>
     list_of_regs (fold (fips_step BSG5_0 BSG5_1) (map (\<lambda>t. (K512 ! t, W512 M t)) [i..<j]) (regs_of r))"

lemma upt_8: "[i..<i + 8] = [i, i + 1, i + 2, i + 3, i + 4, i + 5, i + 6, i + 7]"
  by (simp add: upt_rec numeral_eq_Suc)

lemma eight_512:
  assumes "i + 8 \<le> 80"
  shows "sha3_eight (map (W512 M) [0..<80]) i r = steps512 M i (i + 8) r"
  unfolding sha3_eight_def Let_def SHA3_STEP_eq eight_steps upt_8
  using assms by (simp add: regs_of_def list_of_regs_def del: upt_rec_numeral)

lemma loop_512:
  "n < 10 \<Longrightarrow> fold (\<lambda>k. sha3_eight (map (W512 M) [0..<80]) (8 * k)) [0..<Suc n] r = steps512 M 0 (8 * Suc n) r"
proof (induction n)
  case 0
  then show ?case using eight_512 [of 0 M r] by simp
next
  case (Suc n)
  then have "fold (\<lambda>k. sha3_eight (map (W512 M) [0..<80]) (8 * k)) [0..<Suc (Suc n)] r =
      sha3_eight (map (W512 M) [0..<80]) (8 * Suc n) (steps512 M 0 (8 * Suc n) r)"
    by simp
  also have "\<dots> = steps512 M (8 * Suc n) (8 * Suc n + 8) (steps512 M 0 (8 * Suc n) r)"
    by (rule eight_512) (use Suc.prems in simp)
  also have "8 * Suc n + 8 = 8 * Suc (Suc n)" by simp
  finally show ?case by (simp only: regs_of_list fold_upt_append le0 le_add2 mult_le_mono2 le_SucI order_refl)
qed

theorem ROUND_BODY_fips512: "length W = 80 \<Longrightarrow> SHA3_ROUND_BODY W M r = fips512_compress M r"
  using loop_512 [of 9 M r] by (simp add: SHA3_ROUND_BODY_def fips512_compress_def schedule_W512 del: upt_rec_numeral upt_Suc)

section \<open>The hash functions of the standard\<close>

text \<open>
  A message of \<open>m\<close> bytes and \<open>n\<close> more bits, the upper ones of \<open>ub\<close>: the byte with these bits and the end
  mark, zeros up to the length field, and the number of bits as \<open>L\<close> bytes, the most significant first.
\<close>

definition be_of_nat :: "nat \<Rightarrow> nat \<Rightarrow> bytes" where
  "be_of_nat n x = rev (map (\<lambda>i. of_nat (x div 256 ^ i)) [0..<n])"

definition fips_mark :: "u32 \<Rightarrow> nat \<Rightarrow> u8" where
  "fips_mark ub n = (ucast ub AND NOT (mask (8 - n))) OR push_bit (7 - n) 1"

text \<open>
  The padding of the standard. It is defined for messages whose number of bits fits into the \<open>L\<close> bytes of the length
  field; for a longer message \<open>fips_pad\<close> keeps the lower bits of the length, and no claim about the standard is
  made of it.
\<close>

definition fips_pad :: "nat \<Rightarrow> nat \<Rightarrow> bytes \<Rightarrow> u32 \<Rightarrow> nat \<Rightarrow> bytes" where
  "fips_pad B L m ub n =
     m @ fips_mark ub n # replicate ((2 * B - L - 1 - length m mod B) mod B) 0 @ be_of_nat L (8 * length m + n)"

definition fips_sha256 :: "u32 list \<Rightarrow> bytes \<Rightarrow> u32 \<Rightarrow> nat \<Rightarrow> bytes" where
  "fips_sha256 iv m ub n =
     concat (map (be_bytes 4)
       (fold (\<lambda>b. fips256_compress (\<lambda>t. sph_dec32be b (4 * t))) (chunks 64 (fips_pad 64 8 m ub n)) iv))"

definition fips_sha512 :: "u64 list \<Rightarrow> bytes \<Rightarrow> u32 \<Rightarrow> nat \<Rightarrow> bytes" where
  "fips_sha512 iv m ub n =
     concat (map (be_bytes 8)
       (fold (\<lambda>b. fips512_compress (\<lambda>t. sph_dec64be b (8 * t))) (chunks 128 (fips_pad 128 16 m ub n)) iv))"

subsection \<open>The padding\<close>

lemma end_byte_mark:
  assumes "n < 8" and "\<not> conf_PW01 c"
  shows "md_end_byte c ub n = fips_mark ub n"
proof -
  have FF: "(0xFF :: u32) = mask 8" by (simp add: mask_eq_exp_minus_1)
  have "(drop_bit n 0x80 :: u32) = 2 ^ (7 - n)"
    using assms(1) drop_bit_exp_eq [where ?'a = u32, of n 7] by simp
  then show ?thesis
    using assms unfolding md_end_byte_def FF
    by (intro bit_word_eqI)
      (auto simp: fips_mark_def Let_def minus_exp_eq_not_mask bit_simps bit_mask_iff bit_exp_iff)
qed

lemma be_bytes_of_nat: "8 * k \<le> LENGTH('a::len) \<Longrightarrow> be_bytes k (of_nat x :: 'a word) = be_of_nat k x"
proof -
  assume k: "8 * k \<le> LENGTH('a)"
  have "le_bytes k (of_nat x :: 'a word) = map (\<lambda>i. of_nat (x div 256 ^ i)) [0..<k]"
  proof (rule nth_equalityI)
    fix i
    assume "i < length (le_bytes k (of_nat x :: 'a word))"
    then have i: "i < k" by simp
    have "x div 256 ^ i = drop_bit (8 * i) x" by (simp add: drop_bit_eq_div power_mult)
    then have "(ucast (drop_bit (8 * i) (of_nat x :: 'a word)) :: u8) = of_nat (x div 256 ^ i)"
      using i k by (intro bit_word_eqI) (auto simp: bit_simps)
    with i show "le_bytes k (of_nat x :: 'a word) ! i = map (\<lambda>i. of_nat (x div 256 ^ i)) [0..<k] ! i"
      by (simp add: nth_le_bytes)
  qed simp
  then show ?thesis by (simp add: be_bytes_def be_of_nat_def)
qed

lemma be_bytes_8: "be_bytes 8 (of_nat x :: u64) = be_of_nat 8 x"
  by (rule be_bytes_of_nat) simp

lemma be_of_nat_add: "be_of_nat (a + b) x = be_of_nat a (x div 256 ^ b) @ be_of_nat b x"
proof -
  have "map (\<lambda>i. of_nat (x div 256 ^ i) :: u8) [b..<a + b] = map (\<lambda>i. of_nat (x div 256 ^ b div 256 ^ i)) [0..<a]"
    by (rule nth_equalityI) (simp_all add: power_add div_mult2_eq)
  moreover have "[0..<a + b] = [0..<b] @ [b..<a + b]"
    using upt_add_eq_append [of 0 b a] by (simp add: add.commute)
  ultimately show ?thesis by (simp add: be_of_nat_def)
qed

lemma length_field_256: "md_length_field sha224_conf (of_nat len) n = be_of_nat 8 (8 * len + n)"
proof -
  have "md_length_field sha224_conf (of_nat len) n = be_bytes 8 (of_nat (8 * len + n) :: u64)"
    by (simp add: md_length_field_def sha224_conf_def Let_def push_bit_eq_mult mult.commute)
  then show ?thesis by (simp only: be_bytes_8)
qed

lemma length_field_512:
  assumes "len < 2 ^ 64" and "n < 8"
  shows "md_length_field sha384_conf (of_nat len) n = be_of_nat 16 (8 * len + n)"
proof -
  have "unat (of_nat len :: u64) = len" using assms(1) by (simp add: unsigned_of_nat take_bit_nat_eq_self)
  then have "unat (drop_bit 61 (of_nat len) :: u64) = len div 2 ^ 61" by (subst unat_drop_bit_eq) (simp only: drop_bit_eq_div)
  then have "(drop_bit 61 (of_nat len) :: u64) = of_nat (len div 2 ^ 61)" by (metis of_nat_unat ucast_id)
  then have "md_length_field sha384_conf (of_nat len) n =
      be_bytes 8 (of_nat (len div 2 ^ 61) :: u64) @ be_bytes 8 (of_nat (8 * len + n) :: u64)"
    by (simp add: md_length_field_def sha384_conf_def Let_def push_bit_eq_mult mult.commute)
  also have "\<dots> = be_of_nat 8 (len div 2 ^ 61) @ be_of_nat 8 (8 * len + n)"
    by (simp only: be_bytes_8)
  also have "len div 2 ^ 61 = (8 * len + n) div 256 ^ 8"
    using assms(2) div_mult2_eq [of "8 * len + n" 8 "2 ^ 61"] by simp
  finally show ?thesis using be_of_nat_add [of 8 8] by simp
qed

lemma md_value_chunks:
  "0 < B \<Longrightarrow> length m mod B = 0 \<Longrightarrow> md_value B rfun iv m = fold rfun (chunks B m) iv"
proof (induction B rfun iv m rule: md_loop.induct)
  case (1 B rfun iv m)
  show ?case
  proof (cases "m = []")
    case True
    then show ?thesis using 1 by (simp add: md_loop_stop)
  next
    case False
    then have "\<not> length m < B" using 1(3) by auto
    then have B: "B \<le> length m" by simp
    then have "md_value B rfun iv m = md_value B rfun (rfun (take B m) iv) (drop B m)"
      using 1(2) by (simp add: md_loop.simps [of B rfun iv m])
    also have "\<dots> = fold rfun (chunks B (drop B m)) (rfun (take B m) iv)"
      by (rule 1(1)) (use 1(2,3) B in \<open>simp_all add: le_mod_geq\<close>)
    also have "\<dots> = fold rfun (chunks B m) iv"
      using False 1(2) by (simp add: chunks.simps [of B m])
    finally show ?thesis .
  qed
qed

subsection \<open>The front end on the two configurations\<close>

interpretation md256: md_front sha224_conf sha2_round
proof
  show "\<exists>k<32. SPH_BLEN sha224_conf = 2 ^ k"
    by (rule exI [of _ 6]) (simp add: SPH_BLEN_def sha224_conf_def)
qed (simp add: SPH_BLEN_def SPH_MAXPAD_def SPH_WLEN_def sha224_conf_def md_length_field_def)

interpretation md512: md_front sha384_conf "sha3_round W" for W
proof
  show "\<exists>k<32. SPH_BLEN sha384_conf = 2 ^ k"
    by (rule exI [of _ 7]) (simp add: SPH_BLEN_def sha384_conf_def)
qed (simp add: SPH_BLEN_def SPH_MAXPAD_def SPH_WLEN_def sha384_conf_def md_length_field_def)

lemma blen_256 [simp]: "SPH_BLEN sha224_conf = 64" "SPH_MAXPAD sha224_conf = 56"
  by (simp_all add: SPH_BLEN_def SPH_MAXPAD_def SPH_WLEN_def sha224_conf_def)

lemma blen_512 [simp]: "SPH_BLEN sha384_conf = 128" "SPH_MAXPAD sha384_conf = 112"
  by (simp_all add: SPH_BLEN_def SPH_MAXPAD_def SPH_WLEN_def sha384_conf_def)

lemma md_zeros_fips:
  assumes "SPH_MAXPAD c = SPH_BLEN c - L" and "L < SPH_BLEN c" and "0 < L"
  shows "md_zeros c len = (2 * SPH_BLEN c - L - 1 - len mod SPH_BLEN c) mod SPH_BLEN c"
proof -
  let ?B = "SPH_BLEN c" and ?r = "len mod SPH_BLEN c"
  have r: "?r < ?B" using assms(2) by simp
  show ?thesis
  proof (cases "?r + 1 > ?B - L")
    case True
    then have "2 * ?B - L - 1 - ?r < ?B" "?B - (?r + 1) + (?B - L) = 2 * ?B - L - 1 - ?r"
      using r assms(2,3) by linarith+
    with True show ?thesis by (simp add: md_zeros_def Let_def assms(1))
  next
    case False
    then have "2 * ?B - L - 1 - ?r = ?B - L - (?r + 1) + ?B" "?B - L - (?r + 1) < ?B"
      using r assms(2,3) by linarith+
    then have "(2 * ?B - L - 1 - ?r) mod ?B = ?B - L - (?r + 1)" by (simp only: mod_add_self2 mod_less)
    with False show ?thesis by (simp add: md_zeros_def Let_def assms(1))
  qed
qed

lemma padded_256: "n < 8 \<Longrightarrow> md_padded sha224_conf m ub n = fips_pad 64 8 m ub n"
  by (simp add: md_padded_def fips_pad_def md_zeros_fips [of sha224_conf 8] length_field_256
    end_byte_mark [of n sha224_conf] sha224_conf_def [THEN arg_cong, of conf_PW01])

lemma padded_512: "n < 8 \<Longrightarrow> length m < 2 ^ 64 \<Longrightarrow> md_padded sha384_conf m ub n = fips_pad 128 16 m ub n"
  by (simp add: md_padded_def fips_pad_def md_zeros_fips [of sha384_conf 16] length_field_512
    end_byte_mark [of n sha384_conf] sha384_conf_def [THEN arg_cong, of conf_PW01])

subsection \<open>A context fed in pieces\<close>

lemma round_256: "sha2_round = (\<lambda>b. fips256_compress (\<lambda>t. sph_dec32be b (4 * t)))"
  by (intro ext) (simp add: sha2_round_def ROUND_BODY_fips)

lemma round_512: "length W = 80 \<Longrightarrow> sha3_round W = (\<lambda>b. fips512_compress (\<lambda>t. sph_dec64be b (8 * t)))"
  by (intro ext) (simp add: sha3_round_def ROUND_BODY_fips512)

lemma init_absorbed:
  "length (md_buf sc) = SPH_BLEN c \<Longrightarrow> md_absorbed c rfun iv [] (sc\<lparr>md_val := iv, md_count := 0\<rparr>)"
  by (auto simp: md_absorbed_def buffered_def md_loop.simps)

lemma length_fips256 [simp]: "length r = 8 \<Longrightarrow> length (fips256_compress M r) = 8"
  and length_fips512 [simp]: "length s = 8 \<Longrightarrow> length (fips512_compress N s) = 8"
  by (simp_all add: fips256_compress_def fips512_compress_def)

lemma take_map_nth: "k \<le> length xs \<Longrightarrow> take k xs = map ((!) xs) [0..<k]"
  by (rule nth_equalityI) simp_all

lemma take_concat_words:
  "k \<le> length ws \<Longrightarrow> take (n * k) (concat (map (be_bytes n) ws)) = concat (map (be_bytes n) (take k ws))"
proof (induction ws arbitrary: k)
  case (Cons w ws)
  then show ?case by (cases k) simp_all
qed simp

lemma md_output_256:
  "length val = 8 \<Longrightarrow> k \<le> 8 \<Longrightarrow> md_output sha224_conf k val = take (4 * k) (concat (map (be_bytes 4) val))"
proof -
  assume len: "length val = 8" and k: "k \<le> 8"
  have "md_output sha224_conf k val = concat (map (be_bytes 4) (take k val))"
    using len k by (simp add: md_output_def sha224_conf_def take_map_nth comp_def)
  then show ?thesis using len k by (simp add: take_concat_words)
qed

lemma close_256:
  assumes "md_absorbed sha224_conf sha2_round iv m sc" and "n < 8" and "length iv = 8" and "k \<le> 8"
  shows "md_addbits_and_close sha224_conf sha2_round sc ub n k = take (4 * k) (fips_sha256 iv m ub n)"
proof -
  let ?h = "fold sha2_round (chunks 64 (fips_pad 64 8 m ub n)) iv"
  have "length (fips_pad 64 8 m ub n) mod 64 = 0"
    using md256.length_padded [of m ub n] assms(2) by (simp add: padded_256)
  then have "md_val (md_finish sha224_conf sha2_round sc ub n) = ?h"
    using md256.finish_value [OF assms(1), of ub n] assms(2) by (simp only: padded_256 blen_256 md_value_chunks zero_less_numeral)
  moreover have "length ?h = 8"
    by (rule fold_invariant_set [where P = "\<lambda>s. length s = 8"]) (simp_all add: round_256 assms(3))
  ultimately show ?thesis
    using assms(4) by (simp add: md_addbits_and_close_def md_output_256 fips_sha256_def round_256)
qed

lemma md_output_512:
  "length val = 8 \<Longrightarrow> k \<le> 8 \<Longrightarrow> md_output sha384_conf k val = take (8 * k) (concat (map (be_bytes 8) val))"
proof -
  assume len: "length val = 8" and k: "k \<le> 8"
  have "md_output sha384_conf k val = concat (map (be_bytes 8) (take k val))"
    using len k by (simp add: md_output_def sha384_conf_def take_map_nth comp_def)
  then show ?thesis using len k by (simp add: take_concat_words)
qed

lemma close_512:
  assumes "md_absorbed sha384_conf (sha3_round W) iv m sc" and "n < 8" and "length iv = 8" and "k \<le> 8"
    and "length W = 80" and "length m < 2 ^ 64"
  shows "md_addbits_and_close sha384_conf (sha3_round W) sc ub n k = take (8 * k) (fips_sha512 iv m ub n)"
proof -
  let ?h = "fold (sha3_round W) (chunks 128 (fips_pad 128 16 m ub n)) iv"
  have "length (fips_pad 128 16 m ub n) mod 128 = 0"
    using md512.length_padded [of m ub n] assms(2,6) by (simp add: padded_512)
  then have "md_val (md_finish sha384_conf (sha3_round W) sc ub n) = ?h"
    using md512.finish_value [OF assms(1), of ub n] assms(2,6)
    by (simp only: padded_512 blen_512 md_value_chunks zero_less_numeral)
  moreover have "length ?h = 8"
    by (rule fold_invariant_set [where P = "\<lambda>s. length s = 8"]) (simp_all add: round_512 assms(3,5))
  ultimately show ?thesis
    using assms(4,5) by (simp add: md_addbits_and_close_def md_output_512 fips_sha512_def round_512)
qed

lemmas sha256_defs = sph_sha224_def sph_sha224_init_def sph_sha256_init_def sph_sha224_close_def sph_sha256_close_def
  sph_sha224_addbits_and_close_def sph_sha256_addbits_and_close_def md_close_def

lemmas sha512_defs = sph_sha384_def sph_sha384_init_def sph_sha512_init_def sph_sha384_close_def sph_sha512_close_def
  sph_sha384_addbits_and_close_def sph_sha512_addbits_and_close_def md_close_def

lemma length_H [simp]: "length H224 = 8" "length H256 = 8" "length H384 = 8" "length H512 = 8"
  by (simp_all add: H224_def H256_def H384_def H512_def)

lemma fed_256:
  assumes "length (md_buf sc) = 64"
  shows "md_absorbed sha224_conf sha2_round iv (concat pieces)
     (fold (\<lambda>p sc. sph_sha224 sc p) pieces (sc\<lparr>md_val := iv, md_count := 0\<rparr>))"
  using md256.updates_absorbed [OF init_absorbed, of sc iv pieces] assms by (simp add: sph_sha224_def)

lemma fed_512:
  assumes "length (md_buf sc) = 128"
  shows "md_absorbed sha384_conf (sha3_round W) iv (concat pieces)
     (fold (\<lambda>p sc. sph_sha384 W sc p) pieces (sc\<lparr>md_val := iv, md_count := 0\<rparr>))"
  using md512.updates_absorbed [OF init_absorbed, of sc W iv pieces] assms by (simp add: sph_sha384_def)

lemma length_fips_sha256 [simp]: "length iv = 8 \<Longrightarrow> length (fips_sha256 iv m ub n) = 32"
proof -
  assume "length iv = 8"
  then have "length (fold (\<lambda>b. fips256_compress (\<lambda>t. sph_dec32be b (4 * t))) bs iv) = 8" for bs
    by (intro fold_invariant_set [where P = "\<lambda>s. length s = 8"]) simp_all
  then show ?thesis by (simp add: fips_sha256_def length_concat comp_def sum_list_triv)
qed

lemma length_fips_sha512 [simp]: "length iv = 8 \<Longrightarrow> length (fips_sha512 iv m ub n) = 64"
proof -
  assume "length iv = 8"
  then have "length (fold (\<lambda>b. fips512_compress (\<lambda>t. sph_dec64be b (8 * t))) bs iv) = 8" for bs
    by (intro fold_invariant_set [where P = "\<lambda>s. length s = 8"]) simp_all
  then show ?thesis by (simp add: fips_sha512_def length_concat comp_def sum_list_triv)
qed

lemma absorbed_buf: "md_absorbed c rfun iv m sc \<Longrightarrow> length (md_buf sc) = SPH_BLEN c"
  by (simp add: md_absorbed_def)

text \<open>After a close the context is one that the matching \<open>init\<close> has set up.\<close>

lemma closed_256:
  assumes "length (md_buf sc) = 64"
  shows "length (md_buf (fst (sph_sha224_addbits_and_close sc ub n))) = 64"
    and "length (md_buf (fst (sph_sha256_addbits_and_close sc ub n))) = 64"
    and "sph_sha224_init (fst (sph_sha224_addbits_and_close sc ub n)) = fst (sph_sha224_addbits_and_close sc ub n)"
    and "sph_sha256_init (fst (sph_sha256_addbits_and_close sc ub n)) = fst (sph_sha256_addbits_and_close sc ub n)"
  using md256.finish_buf [of sc ub n] assms by (simp_all add: sha256_defs)

lemma closed_512:
  assumes "length (md_buf sc) = 128"
  shows "length (md_buf (fst (sph_sha384_addbits_and_close W sc ub n))) = 128"
    and "length (md_buf (fst (sph_sha512_addbits_and_close W sc ub n))) = 128"
    and "sph_sha384_init (fst (sph_sha384_addbits_and_close W sc ub n)) = fst (sph_sha384_addbits_and_close W sc ub n)"
    and "sph_sha512_init (fst (sph_sha512_addbits_and_close W sc ub n)) = fst (sph_sha512_addbits_and_close W sc ub n)"
  using md512.finish_buf [of sc W ub n] assms by (simp_all add: sha512_defs)

lemma digest_256:
  assumes "length (md_buf sc) = 64" and "n < 8"
  shows "snd (sph_sha224_addbits_and_close (fold (\<lambda>p sc. sph_sha224 sc p) pieces (sph_sha224_init sc)) ub n) =
      take 28 (fips_sha256 H224 (concat pieces) ub n)"
    and "snd (sph_sha256_addbits_and_close (fold (\<lambda>p sc. sph_sha224 sc p) pieces (sph_sha256_init sc)) ub n) =
      fips_sha256 H256 (concat pieces) ub n"
  using close_256 [OF fed_256 [OF assms(1)] assms(2), where k = 7 and iv = H224]
    close_256 [OF fed_256 [OF assms(1)] assms(2), where k = 8 and iv = H256]
  by (simp_all add: sph_sha224_addbits_and_close_def sph_sha256_addbits_and_close_def
      sph_sha224_init_def sph_sha256_init_def)

lemma digest_512:
  assumes "length (md_buf sc) = 128" and "n < 8" and "length W = 80" and "length (concat pieces) < 2 ^ 64"
  shows "snd (sph_sha384_addbits_and_close W (fold (\<lambda>p sc. sph_sha384 W sc p) pieces (sph_sha384_init sc)) ub n) =
      take 48 (fips_sha512 H384 (concat pieces) ub n)"
    and "snd (sph_sha512_addbits_and_close W (fold (\<lambda>p sc. sph_sha384 W sc p) pieces (sph_sha512_init sc)) ub n) =
      fips_sha512 H512 (concat pieces) ub n"
  using close_512 [OF fed_512 [OF assms(1)] assms(2) _ _ assms(3,4), where k = 6 and iv = H384]
    close_512 [OF fed_512 [OF assms(1)] assms(2) _ _ assms(3,4), where k = 8 and iv = H512]
  by (simp_all add: sph_sha384_addbits_and_close_def sph_sha512_addbits_and_close_def
      sph_sha384_init_def sph_sha512_init_def)

text \<open>Closing without extra bits is closing with none of them.\<close>

lemma close_addbits:
  "sph_sha224_close sc = sph_sha224_addbits_and_close sc 0 0"
  "sph_sha256_close sc = sph_sha256_addbits_and_close sc 0 0"
  "sph_sha384_close W sc' = sph_sha384_addbits_and_close W sc' 0 0"
  "sph_sha512_close W sc' = sph_sha512_addbits_and_close W sc' 0 0"
  by (simp_all add: sha256_defs sha512_defs)

section \<open>Reading the message\<close>

text \<open>The compression depends on the sixteen words of its block.\<close>

lemma fips_W_cong: "(\<And>t. t < 16 \<Longrightarrow> M t = M' t) \<Longrightarrow> fips_W s0 s1 M t = fips_W s0 s1 M' t"
proof (induction t rule: less_induct)
  case (less t)
  show ?case
  proof (cases "t < 16")
    case True
    then show ?thesis by (simp add: fips_W_start less.prems)
  next
    case False
    then show ?thesis by (simp add: fips_W.simps [of _ _ _ t] less)
  qed
qed

lemma fips256_compress_cong:
  "(\<And>t. t < 16 \<Longrightarrow> M t = M' t) \<Longrightarrow> fips256_compress M r = fips256_compress M' r"
  by (simp add: fips256_compress_def fips_W_cong [of M M'] del: upt_rec_numeral)

lemma length_fold_fips256: "length H = 8 \<Longrightarrow> length (fold (\<lambda>b. fips256_compress (f b)) bs H) = 8"
  by (induction bs arbitrary: H) simp_all

text \<open>Four bytes added up.\<close>

lemma be_word_sum:
  "be_word [a, b, c, d] = push_bit 24 (ucast a) + push_bit 16 (ucast b) + push_bit 8 (ucast c) + (ucast d :: u32)"
proof -
  have or: "push_bit 8 x + ucast b = push_bit 8 x OR ucast b" for x :: u32 and b :: u8
  proof (rule disjunctive_add_eq_or)
    show "push_bit 8 x AND ucast b = 0"
      by (rule bit_word_eqI) (auto simp: bit_simps dest: bit_imp_le_length)
  qed
  have "push_bit 24 (ucast a) + push_bit 16 (ucast b) + push_bit 8 (ucast c) + (ucast d :: u32) =
      push_bit 8 (push_bit 8 (push_bit 8 (ucast a) + ucast b) + ucast c) + ucast d"
    by (simp add: push_bit_add push_bit_push_bit)
  also have "\<dots> = be_word [a, b, c, d]"
    unfolding be_word_def or by (simp add: or.commute)
  finally show ?thesis by simp
qed

text \<open>The number of zeros for SHA-256.\<close>

lemma fips_zeros: "r < 64 \<Longrightarrow> (119 - r) mod 64 = (if r < 56 then 55 - r else 119 - r :: nat)"
  using mod_add_self2 [of "55 - r" 64] by (cases "r < 56") simp_all

lemma length_in_chunks:
  assumes "0 < n" and "length xs mod n = 0" and "b \<in> set (chunks n xs)"
  shows "length b = n"
proof -
  let ?k = "length xs div n"
  have xs: "length xs = n * ?k" using assms(2) by auto
  from assms(3) obtain i where i: "i < ?k" "b = chunks n xs ! i"
    unfolding in_set_conv_nth length_chunks [OF assms(1) xs] by blast
  then have "n * Suc i \<le> n * ?k" by (simp only: mult_le_mono2 Suc_leI)
  then show ?thesis using i(2) nth_chunks [OF assms(1) xs i(1)] xs by simp
qed

end
