(* ===== verification/Sha256_Ctx.thy ===== *)
theory Sha256_Ctx
  imports Sha2
begin

unbundle bit_operations_syntax

text \<open>
  \<open>src/src/Native/libmultihash/sha256.h\<close>, \<open>sha256t.h\<close> and \<open>sha256dt.c\<close>: the SHA-256 that scrypt uses, with
  HMAC and PBKDF2 on top of it, and the double hash that starts from a fixed state. Local variables are
  uninitialised in C: a context is a parameter, and the cells of the schedule are all written before they are
  read. The loop over full blocks is the \<open>md_loop\<close> of \<open>Md_Helper\<close>.

  The lemmas show that a context stands for the message fed into it, that the digest is that of FIPS 180-4, that
  HMAC is that of RFC 2104 and the derived key that of RFC 8018.
\<close>

section \<open>Byte order\<close>

definition be32dec :: "bytes \<Rightarrow> nat \<Rightarrow> u32" where
  "be32dec p i =
     ucast (p ! (i + 3)) + push_bit 8 (ucast (p ! (i + 2))) + push_bit 16 (ucast (p ! (i + 1))) + push_bit 24 (ucast (p ! i))"

definition be32enc :: "u32 \<Rightarrow> bytes" where
  "be32enc x = [ucast (drop_bit 24 x AND 0xFF), ucast (drop_bit 16 x AND 0xFF), ucast (drop_bit 8 x AND 0xFF), ucast (x AND 0xFF)]"

definition le32dec :: "bytes \<Rightarrow> nat \<Rightarrow> u32" where
  "le32dec p i =
     ucast (p ! i) + push_bit 8 (ucast (p ! (i + 1))) + push_bit 16 (ucast (p ! (i + 2))) + push_bit 24 (ucast (p ! (i + 3)))"

definition le32enc :: "u32 \<Rightarrow> bytes" where
  "le32enc x = [ucast (x AND 0xFF), ucast (drop_bit 8 x AND 0xFF), ucast (drop_bit 16 x AND 0xFF), ucast (drop_bit 24 x AND 0xFF)]"

definition be32enc_vect :: "u32 list \<Rightarrow> nat \<Rightarrow> bytes" where
  "be32enc_vect src len = concat (map (\<lambda>i. be32enc (src ! i)) [0..<len div 4])"

definition be32dec_vect :: "u32 list \<Rightarrow> bytes \<Rightarrow> nat \<Rightarrow> u32 list" where
  "be32dec_vect dst src len = fold (\<lambda>i dst. dst[i := be32dec src (i * 4)]) [0..<len div 4] dst"

section \<open>The compression function\<close>

definition s256_Ch :: "u32 \<Rightarrow> u32 \<Rightarrow> u32 \<Rightarrow> u32" where
  "s256_Ch x y z = (x AND (y XOR z)) XOR z"

definition s256_Maj :: "u32 \<Rightarrow> u32 \<Rightarrow> u32 \<Rightarrow> u32" where
  "s256_Maj x y z = (x AND (y OR z)) OR (y AND z)"

definition s256_S0 :: "u32 \<Rightarrow> u32" where
  "s256_S0 x = ror32 x 2 XOR ror32 x 13 XOR ror32 x 22"

definition s256_S1 :: "u32 \<Rightarrow> u32" where
  "s256_S1 x = ror32 x 6 XOR ror32 x 11 XOR ror32 x 25"

definition s256_s0 :: "u32 \<Rightarrow> u32" where
  "s256_s0 x = ror32 x 7 XOR ror32 x 18 XOR drop_bit 3 x"

definition s256_s1 :: "u32 \<Rightarrow> u32" where
  "s256_s1 x = ror32 x 17 XOR ror32 x 19 XOR drop_bit 10 x"

text \<open>The new values of \<open>d\<close> and \<open>h\<close>.\<close>

definition RND :: "u32 \<Rightarrow> u32 \<Rightarrow> u32 \<Rightarrow> u32 \<Rightarrow> u32 \<Rightarrow> u32 \<Rightarrow> u32 \<Rightarrow> u32 \<Rightarrow> u32 \<Rightarrow> u32 \<times> u32" where
  "RND a b c d e f g h k =
     (let t0 = h + s256_S1 e + s256_Ch e f g + k; t1 = s256_S0 a + s256_Maj a b c in (d + t0, t0 + t1))"

definition RNDr :: "u32 list \<Rightarrow> nat \<times> u32 \<Rightarrow> u32 list \<Rightarrow> u32 list" where
  "RNDr W ik S =
     (case ik of (i, k) \<Rightarrow>
        case RND (S ! ((64 - i) mod 8)) (S ! ((65 - i) mod 8)) (S ! ((66 - i) mod 8)) (S ! ((67 - i) mod 8))
          (S ! ((68 - i) mod 8)) (S ! ((69 - i) mod 8)) (S ! ((70 - i) mod 8)) (S ! ((71 - i) mod 8)) (W ! i + k) of
          (d, h) \<Rightarrow> S[(67 - i) mod 8 := d, (71 - i) mod 8 := h])"

text \<open>The 64 calls of \<open>RNDr\<close> with their constants.\<close>

definition RNDr_calls :: "(nat \<times> u32) list" where
  "RNDr_calls =
     [(0, 0x428A2F98), (1, 0x71374491), (2, 0xB5C0FBCF), (3, 0xE9B5DBA5), (4, 0x3956C25B), (5, 0x59F111F1),
      (6, 0x923F82A4), (7, 0xAB1C5ED5), (8, 0xD807AA98), (9, 0x12835B01), (10, 0x243185BE), (11, 0x550C7DC3),
      (12, 0x72BE5D74), (13, 0x80DEB1FE), (14, 0x9BDC06A7), (15, 0xC19BF174), (16, 0xE49B69C1), (17, 0xEFBE4786),
      (18, 0x0FC19DC6), (19, 0x240CA1CC), (20, 0x2DE92C6F), (21, 0x4A7484AA), (22, 0x5CB0A9DC), (23, 0x76F988DA),
      (24, 0x983E5152), (25, 0xA831C66D), (26, 0xB00327C8), (27, 0xBF597FC7), (28, 0xC6E00BF3), (29, 0xD5A79147),
      (30, 0x06CA6351), (31, 0x14292967), (32, 0x27B70A85), (33, 0x2E1B2138), (34, 0x4D2C6DFC), (35, 0x53380D13),
      (36, 0x650A7354), (37, 0x766A0ABB), (38, 0x81C2C92E), (39, 0x92722C85), (40, 0xA2BFE8A1), (41, 0xA81A664B),
      (42, 0xC24B8B70), (43, 0xC76C51A3), (44, 0xD192E819), (45, 0xD6990624), (46, 0xF40E3585), (47, 0x106AA070),
      (48, 0x19A4C116), (49, 0x1E376C08), (50, 0x2748774C), (51, 0x34B0BCB5), (52, 0x391C0CB3), (53, 0x4ED8AA4A),
      (54, 0x5B9CCA4F), (55, 0x682E6FF3), (56, 0x748F82EE), (57, 0x78A5636F), (58, 0x84C87814), (59, 0x8CC70208),
      (60, 0x90BEFFFA), (61, 0xA4506CEB), (62, 0xBEF9A3F7), (63, 0xC67178F2)]"

definition SHA256_schedule :: "u32 list \<Rightarrow> bytes \<Rightarrow> u32 list" where
  "SHA256_schedule W block =
     (let W = be32dec_vect W block 64
      in fold (\<lambda>i W. W[i := s256_s1 (W ! (i - 2)) + W ! (i - 7) + s256_s0 (W ! (i - 15)) + W ! (i - 16)]) [16..<64] W)"

definition SHA256_Transform :: "bytes \<Rightarrow> u32 list \<Rightarrow> u32 list" where
  "SHA256_Transform block state =
     (let W = SHA256_schedule (replicate 64 0) block;
          S = take 8 state;
          S = fold (RNDr W) RNDr_calls S
      in fold (\<lambda>i state. state[i := state ! i + S ! i]) [0..<8] state)"

section \<open>Contexts\<close>

record SHA256_CTX =
  s256_state :: "u32 list"
  s256_count0 :: u32
  s256_count1 :: u32
  s256_buf :: bytes

definition s256_PAD :: bytes where
  "s256_PAD = 0x80 # replicate 63 0"

definition SHA256_Init :: "SHA256_CTX \<Rightarrow> SHA256_CTX" where
  "SHA256_Init ctx = ctx\<lparr>s256_count0 := 0, s256_count1 := 0,
     s256_state := [0x6A09E667, 0xBB67AE85, 0x3C6EF372, 0xA54FF53A, 0x510E527F, 0x9B05688C, 0x1F83D9AB, 0x5BE0CD19]\<rparr>"

text \<open>The number of bits as it is kept in two words.\<close>

definition SHA256_count :: "SHA256_CTX \<Rightarrow> nat \<Rightarrow> SHA256_CTX" where
  "SHA256_count ctx len =
     (let bitlen1 = push_bit 3 (of_nat len);
          bitlen0 = of_nat (len div 2 ^ 29);
          count1 = s256_count1 ctx + bitlen1;
          count0 = (if count1 < bitlen1 then s256_count0 ctx + 1 else s256_count0 ctx)
      in ctx\<lparr>s256_count1 := count1, s256_count0 := count0 + bitlen0\<rparr>)"

definition SHA256_Update :: "SHA256_CTX \<Rightarrow> bytes \<Rightarrow> SHA256_CTX" where
  "SHA256_Update ctx src =
     (let r = unat (drop_bit 3 (s256_count1 ctx) AND 0x3F);
          ctx = SHA256_count ctx (length src)
      in if length src < 64 - r then ctx\<lparr>s256_buf := copy_at (s256_buf ctx) r src\<rparr>
         else
           let buf = copy_at (s256_buf ctx) r (take (64 - r) src);
               state = SHA256_Transform buf (s256_state ctx);
               src = drop (64 - r) src;
               (state, src) = md_loop 64 SHA256_Transform state src
           in ctx\<lparr>s256_state := state, s256_buf := copy_at buf 0 src\<rparr>)"

definition SHA256_Pad :: "SHA256_CTX \<Rightarrow> SHA256_CTX" where
  "SHA256_Pad ctx =
     (let len = be32enc_vect [s256_count0 ctx, s256_count1 ctx] 8;
          r = unat (drop_bit 3 (s256_count1 ctx) AND 0x3F);
          plen = (if r < 56 then 56 - r else 120 - r);
          ctx = SHA256_Update ctx (take plen s256_PAD)
      in SHA256_Update ctx len)"

text \<open>The cleared context and the digest.\<close>

definition SHA256_cleared :: SHA256_CTX where
  "SHA256_cleared = \<lparr>s256_state = replicate 8 0, s256_count0 = 0, s256_count1 = 0, s256_buf = replicate 64 0\<rparr>"

definition SHA256_Final :: "SHA256_CTX \<Rightarrow> SHA256_CTX \<times> bytes" where
  "SHA256_Final ctx =
     (let ctx = SHA256_Pad ctx; digest = be32enc_vect (s256_state ctx) 32 in (SHA256_cleared, digest))"

section \<open>HMAC and PBKDF2\<close>

record HMAC_SHA256_CTX =
  hmac_ictx :: SHA256_CTX
  hmac_octx :: SHA256_CTX

definition hmac_pad :: "u8 \<Rightarrow> bytes \<Rightarrow> bytes" where
  "hmac_pad b K = fold (\<lambda>i pad. pad[i := pad ! i XOR K ! i]) [0..<length K] (replicate 64 b)"

definition HMAC_SHA256_Init :: "HMAC_SHA256_CTX \<Rightarrow> bytes \<Rightarrow> HMAC_SHA256_CTX" where
  "HMAC_SHA256_Init ctx K =
     (let (ictx, K) =
            (if length K > 64 then SHA256_Final (SHA256_Update (SHA256_Init (hmac_ictx ctx)) K) else (hmac_ictx ctx, K));
          ictx = SHA256_Update (SHA256_Init ictx) (hmac_pad 0x36 K);
          octx = SHA256_Update (SHA256_Init (hmac_octx ctx)) (hmac_pad 0x5C K)
      in \<lparr>hmac_ictx = ictx, hmac_octx = octx\<rparr>)"

definition HMAC_SHA256_Update :: "HMAC_SHA256_CTX \<Rightarrow> bytes \<Rightarrow> HMAC_SHA256_CTX" where
  "HMAC_SHA256_Update ctx src = ctx\<lparr>hmac_ictx := SHA256_Update (hmac_ictx ctx) src\<rparr>"

definition HMAC_SHA256_Final :: "HMAC_SHA256_CTX \<Rightarrow> HMAC_SHA256_CTX \<times> bytes" where
  "HMAC_SHA256_Final ctx =
     (let (ictx, ihash) = SHA256_Final (hmac_ictx ctx);
          octx = SHA256_Update (hmac_octx ctx) ihash;
          (octx, digest) = SHA256_Final octx
      in (\<lparr>hmac_ictx = ictx, hmac_octx = octx\<rparr>, digest))"

text \<open>
  The loop over \<open>j\<close>, a 64-bit number: for \<open>c = 2 ^ 64 - 1\<close> it wraps and the loop does not end, so that the function
  is partial.
\<close>

definition pbkdf2_step :: "bytes \<Rightarrow> HMAC_SHA256_CTX \<times> bytes \<times> bytes \<Rightarrow> HMAC_SHA256_CTX \<times> bytes \<times> bytes" where
  "pbkdf2_step passwd s =
     (case s of (hctx, U, T) \<Rightarrow>
        let hctx = HMAC_SHA256_Init hctx passwd;
            hctx = HMAC_SHA256_Update hctx U;
            (hctx, U) = HMAC_SHA256_Final hctx
        in (hctx, U, fold (\<lambda>k T. T[k := T ! k XOR U ! k]) [0..<32] T))"

partial_function (option) pbkdf2_rounds ::
  "bytes \<Rightarrow> u64 \<Rightarrow> u64 \<Rightarrow> HMAC_SHA256_CTX \<times> bytes \<times> bytes \<Rightarrow> (HMAC_SHA256_CTX \<times> bytes \<times> bytes) option" where
  "pbkdf2_rounds passwd c j s =
     (if j \<le> c then pbkdf2_rounds passwd c (j + 1) (pbkdf2_step passwd s) else Some s)"

text \<open>The block \<open>T\<close> of one pass of the outer loop.\<close>

definition pbkdf2_block :: "HMAC_SHA256_CTX \<Rightarrow> bytes \<Rightarrow> u64 \<Rightarrow> nat \<Rightarrow> bytes option" where
  "pbkdf2_block PShctx passwd c i =
     (let ivec = be32enc (of_nat (i + 1));
          (hctx, U) = HMAC_SHA256_Final (HMAC_SHA256_Update PShctx ivec)
      in map_option (\<lambda>(hctx, U, T). T) (pbkdf2_rounds passwd c 2 (hctx, U, U)))"

text \<open>
  The loop runs while \<open>i * 32 < dkLen\<close>. \<open>dkLen\<close> is a number: the comment of the code limits it to
  \<open>32 * (2 ^ 32 - 1)\<close>, where \<open>i * 32\<close> does not wrap. \<open>None\<close> is a write behind \<open>buf\<close> or a loop without end.
\<close>

definition PBKDF2_SHA256 :: "HMAC_SHA256_CTX \<Rightarrow> bytes \<Rightarrow> bytes \<Rightarrow> u64 \<Rightarrow> bytes \<Rightarrow> nat \<Rightarrow> bytes option" where
  "PBKDF2_SHA256 PShctx passwd salt c buf dkLen =
     (if length buf < dkLen then None
      else
        let PShctx = HMAC_SHA256_Init PShctx passwd;
            PShctx = HMAC_SHA256_Update PShctx salt
        in loop_opt (\<lambda>i buf. map_option (\<lambda>T.
             let clen = (if dkLen - i * 32 > 32 then 32 else dkLen - i * 32)
             in copy_at buf (i * 32) (take clen T)) (pbkdf2_block PShctx passwd c i)) [0..<(dkLen + 31) div 32] buf)"

section \<open>The fixed start state\<close>

definition SHA256t_Init :: "SHA256_CTX \<Rightarrow> SHA256_CTX" where
  "SHA256t_Init ctx = ctx\<lparr>s256_count0 := 0, s256_count1 := 512,
     s256_state := [0xDFA9BF2C, 0xB72074D4, 0x6BB01122, 0xD338E869, 0xAA3FF126, 0x475BBF30, 0x8FD52E5B, 0x9F75C9AD]\<rparr>"

text \<open>A read behind the input is \<open>None\<close>.\<close>

definition sha256dt_hash :: "SHA256_CTX \<Rightarrow> bytes \<Rightarrow> bytes option" where
  "sha256dt_hash ctx input =
     (if length input < 80 then None
      else
        let ctx = SHA256t_Init ctx;
            ctx = SHA256_Update ctx (take 80 input);
            (ctx, temp) = SHA256_Final ctx;
            ctx = SHA256t_Init ctx;
            ctx = SHA256_Update ctx temp
        in Some (snd (SHA256_Final ctx)))"

section \<open>The compression function of the standard\<close>

lemma be32dec_be_word:
  assumes "i + 4 \<le> length p"
  shows "be32dec p i = be_word (take 4 (drop i p))"
proof -
  have "take 4 (drop i p) = [p ! i, p ! (i + 1), p ! (i + 2), p ! (i + 3)]"
    using assms by (auto simp: list_eq_iff_nth_eq less_Suc_eq_0_disj numeral_eq_Suc)
  then show ?thesis by (simp add: be32dec_def be_word_sum ac_simps)
qed

lemma be32enc_be_bytes: "be32enc x = be_bytes 4 x"
proof -
  have FF: "(0xFF :: u32) = mask 8" by (simp add: mask_eq_exp_minus_1)
  have "ucast (y AND 0xFF) = (ucast y :: u8)" for y :: u32
    unfolding FF by (rule bit_word_eqI) (auto simp: bit_simps)
  then show ?thesis by (simp add: be32enc_def be_bytes_def numeral_eq_Suc drop_bit_drop_bit)
qed

lemma s256_macros: "s256_Ch = fips_Ch" "s256_Maj = fips_Maj" "s256_S0 = BSG2_0" "s256_S1 = BSG2_1"
  "s256_s0 = SSG2_0" "s256_s1 = SSG2_1"
  by (intro ext; rule bit_word_eqI;
      auto simp: s256_Ch_def fips_Ch_def s256_Maj_def fips_Maj_def s256_S0_def BSG2_0_def s256_S1_def BSG2_1_def
        s256_s0_def SSG2_0_def s256_s1_def SSG2_1_def bit_simps)+

lemma s256_schedule:
  assumes "length W = 64"
  shows "SHA256_schedule W block = map (W256 (\<lambda>t. be32dec block (t * 4))) [0..<64]"
proof -
  let ?M = "\<lambda>t. be32dec block (t * 4)"
  let ?W = "be32dec_vect W block 64"
  have W: "?W = map ?M [0..<16] @ drop 16 W"
    unfolding be32dec_vect_def by (subst fold_store) (simp_all add: assms del: upt_rec_numeral)
  have "take 16 ?W = map ?M [0..<16]" and "length ?W = 64"
    using assms by (simp_all add: W del: upt_rec_numeral)
  then show ?thesis
    by (simp only: SHA256_schedule_def Let_def s256_macros schedule_fill [of _ ?M 64] numeral_le_iff semiring_norm)
qed

text \<open>The eight registers as step \<open>i\<close> sees them: the names rotate through the array.\<close>

definition S_view :: "nat \<Rightarrow> u32 list \<Rightarrow> 32 regs" where
  "S_view i S = (S ! ((64 - i) mod 8), S ! ((65 - i) mod 8), S ! ((66 - i) mod 8), S ! ((67 - i) mod 8),
     S ! ((68 - i) mod 8), S ! ((69 - i) mod 8), S ! ((70 - i) mod 8), S ! ((71 - i) mod 8))"

lemma view_index:
  assumes "i \<le> 64"
  shows "(64 + k - i) mod 8 = ((64 - i) mod 8 + k) mod (8 :: nat)"
  using assms by (simp add: mod_add_left_eq)

lemma RNDr_view:
  assumes "i < 64" and "length S = 8"
  shows "S_view (Suc i) (RNDr W (i, k) S) = fips_step BSG2_0 BSG2_1 (k, W ! i) (S_view i S)"
    and "length (RNDr W (i, k) S) = 8"
proof -
  define m where "m = (64 - i) mod 8"
  have vx: "(64 + k - i) mod 8 = (m + k) mod 8" for k using view_index [of i k] assms(1) by (simp only: m_def less_imp_le)
  have ix: "(64 - i) mod 8 = m" "(65 - i) mod 8 = (m + 1) mod 8" "(66 - i) mod 8 = (m + 2) mod 8"
    "(67 - i) mod 8 = (m + 3) mod 8" "(68 - i) mod 8 = (m + 4) mod 8" "(69 - i) mod 8 = (m + 5) mod 8"
    "(70 - i) mod 8 = (m + 6) mod 8" "(71 - i) mod 8 = (m + 7) mod 8"
    using m_def vx [of 1] vx [of 2] vx [of 3] vx [of 4] vx [of 5] vx [of 6] vx [of 7]
    by (simp_all only: numeral_plus_numeral numeral_plus_one add_num_simps)
  have jx: "(64 - Suc i) mod 8 = (m + 7) mod 8"
  proof -
    have "(m + 7) mod 8 = ((64 - i) + 7) mod 8" unfolding m_def by (rule mod_add_left_eq)
    also have "(64 - i) + 7 = (64 - Suc i) + 8" using assms(1) by simp
    finally show ?thesis by simp
  qed
  have "m < 8" by (simp add: m_def)
  then consider "m = 0" | "m = 1" | "m = 2" | "m = 3" | "m = 4" | "m = 5" | "m = 6" | "m = 7" by linarith
  note m = this
  show "length (RNDr W (i, k) S) = 8" using assms(2) by (simp add: RNDr_def split_beta)
  have sh: "65 - Suc i = 64 - i" "66 - Suc i = 65 - i" "67 - Suc i = 66 - i" "68 - Suc i = 67 - i"
    "69 - Suc i = 68 - i" "70 - Suc i = 69 - i" "71 - Suc i = 70 - i" by simp_all
  obtain s0 s1 s2 s3 s4 s5 s6 s7 where S: "S = [s0, s1, s2, s3, s4, s5, s6, s7]"
    using assms(2) by (auto simp: length_Suc_conv eval_nat_numeral)
  have sum: "h + x + y + (W ! i + k) = h + x + y + k + W ! i" for h x y by simp
  show "S_view (Suc i) (RNDr W (i, k) S) = fips_step BSG2_0 BSG2_1 (k, W ! i) (S_view i S)"
    unfolding S_view_def RNDr_def RND_def fips_step_def Let_def prod.case sh jx ix s256_macros sum S
    by (cases rule: m; simp)
qed

lemma RNDr_calls_K: "RNDr_calls = map (\<lambda>i. (i, sha2_K ! i)) [0..<64]"
  by code_simp

lemma RNDr_fold:
  assumes "length S = 8" and "n \<le> 64"
  shows "S_view n (fold (RNDr W) (map (\<lambda>i. (i, sha2_K ! i)) [0..<n]) S) =
      fold (fips_step BSG2_0 BSG2_1) (map (\<lambda>i. (sha2_K ! i, W ! i)) [0..<n]) (regs_of S) \<and>
    length (fold (RNDr W) (map (\<lambda>i. (i, sha2_K ! i)) [0..<n]) S) = 8"
  using assms(2)
proof (induction n)
  case 0
  then show ?case using assms(1) by (simp add: S_view_def regs_of_def)
next
  case (Suc n)
  then show ?case by (simp add: RNDr_view)
qed

lemma S_view_64: "S_view 64 S = regs_of S"
  by (simp add: S_view_def regs_of_def)

theorem Transform_fips:
  assumes "length state = 8" and "length block = 64"
  shows "SHA256_Transform block state = fips256_compress (\<lambda>t. sph_dec32be block (4 * t)) state"
proof -
  let ?M = "\<lambda>t. be32dec block (t * 4)"
  let ?W = "map (W256 ?M) [0..<64]"
  let ?S = "fold (RNDr ?W) RNDr_calls state"
  have S: "regs_of ?S = fold (fips_step BSG2_0 BSG2_1) (map (\<lambda>i. (sha2_K ! i, ?W ! i)) [0..<64]) (regs_of state)"
      "length ?S = 8"
    using RNDr_fold [OF assms(1), of 64 ?W] by (simp_all only: S_view_64 RNDr_calls_K order_refl)
  have "map (\<lambda>i. (sha2_K ! i, ?W ! i)) [0..<64] = map (\<lambda>i. (sha2_K ! i, W256 ?M i)) [0..<64]"
    by (rule map_cong) (simp_all del: upt_rec_numeral)
  then have "?S = steps256 ?M 0 64 state"
    using S list_of_regs_of [of ?S] by (simp only:)
  moreover have "fold (\<lambda>i state. state[i := state ! i + ?S ! i]) [0..<8] state = map2 (+) state ?S"
    using fold_rewrite_map2 [of ?S state "(+)"] S(2) assms(1) by simp
  moreover have "fips256_compress (\<lambda>t. sph_dec32be block (4 * t)) state = fips256_compress ?M state"
    by (rule fips256_compress_cong) (use assms(2) in \<open>simp add: sph_dec32be_def be32dec_be_word mult.commute\<close>)
  ultimately show ?thesis
    using assms(1) by (simp only: SHA256_Transform_def Let_def s256_schedule length_replicate take_all order_refl fips256_compress_def)
qed

section \<open>Feeding a context\<close>

interpretation s256: block_buffer 64 SHA256_Transform
  by unfold_locales simp

text \<open>
  The context after the message \<open>m\<close>, started with the state \<open>iv\<close> after \<open>p\<close> bytes: the number of bits is
  kept modulo \<open>2 ^ 64\<close>.
\<close>

definition sha256_fed :: "u32 list \<Rightarrow> nat \<Rightarrow> bytes \<Rightarrow> SHA256_CTX \<Rightarrow> bool" where
  "sha256_fed iv p m ctx \<longleftrightarrow>
     length (s256_buf ctx) = 64 \<and>
     buffered 64 SHA256_Transform iv m (s256_buf ctx) (length m mod 64) (s256_state ctx) \<and>
     s256_count1 ctx = of_nat (8 * (p + length m)) \<and>
     s256_count0 ctx = of_nat (8 * (p + length m) div 2 ^ 32)"

lemma add_carry: "(a + b :: 'a::len word) < b \<longleftrightarrow> 2 ^ LENGTH('a) \<le> unat a + unat b"
proof -
  have "(x + y) mod N < y \<longleftrightarrow> N \<le> x + y" if "x < N" "y < N" for x y N :: nat
    using that by (cases "N \<le> x + y") (auto simp: le_mod_geq)
  then show ?thesis by (simp add: word_less_nat_alt unat_word_ariths)
qed

lemma add_div_carry:
  assumes "0 < n"
  shows "(x + y) div n = x div n + y div n + (if n \<le> x mod n + y mod n then 1 else 0 :: nat)"
proof -
  have "s div n = (if n \<le> s then 1 else 0)" if "s < n + n" for s
    using that assms by (simp add: le_div_geq)
  moreover have "x mod n + y mod n < n + n" using assms by (intro add_strict_mono) simp_all
  ultimately show ?thesis by (simp only: div_add1_eq [of x y n])
qed

text \<open>The two counter words after \<open>len\<close> more bytes.\<close>

lemma SHA256_count_eq:
  assumes "s256_count1 ctx = of_nat (8 * n)" and "s256_count0 ctx = of_nat (8 * n div 2 ^ 32)"
  shows "SHA256_count ctx len =
    ctx\<lparr>s256_count1 := of_nat (8 * (n + len)), s256_count0 := of_nat (8 * (n + len) div 2 ^ 32)\<rparr>"
proof -
  have b: "push_bit 3 (of_nat len) = (of_nat (8 * len) :: u32)" by (simp add: push_bit_of_nat push_bit_eq_mult mult.commute)
  have c: "of_nat (8 * n) + of_nat (8 * len) < (of_nat (8 * len) :: u32) \<longleftrightarrow> 2 ^ 32 \<le> 8 * n mod 2 ^ 32 + 8 * len mod 2 ^ 32"
    by (subst add_carry, simp only: unat_of_nat) simp
  have d: "8 * (n + len) div 2 ^ 32 = 8 * n div 2 ^ 32 + 8 * len div 2 ^ 32 +
      (if 2 ^ 32 \<le> 8 * n mod 2 ^ 32 + 8 * len mod 2 ^ 32 then 1 else 0)"
    using add_div_carry [of "2 ^ 32" "8 * n" "8 * len"] by (simp add: distrib_left)
  have e: "8 * len div 2 ^ 32 = len div 2 ^ 29" using div_mult_mult1 [of 8 len "2 ^ 29"] by simp
  show ?thesis
    unfolding SHA256_count_def Let_def b assms c d e
    by (simp add: distrib_left)
qed

lemma bytes_in_buffer:
  "unat (drop_bit 3 (of_nat (8 * x) :: u32) AND 0x3F) = x mod 64"
proof -
  have F: "(0x3F :: u32) = mask 6" by (simp add: mask_eq_exp_minus_1)
  define w where "w = (of_nat (8 * x) :: u32)"
  have "unat (drop_bit 3 w AND 0x3F) = unat (take_bit 6 (drop_bit 3 w))" unfolding F by (simp only: take_bit_eq_mask)
  also have "\<dots> = take_bit 6 (drop_bit 3 (unat w))"
    using unat_less [of w] by (simp add: unsigned_take_bit_eq unsigned_drop_bit_eq take_bit_nat_eq_self)
  also have "\<dots> = (8 * x mod 2 ^ 32) div 8 mod 64"
    unfolding w_def unat_of_nat take_bit_eq_mod drop_bit_eq_div by simp
  also have "(8 * x mod 2 ^ 32) div 8 = x mod 2 ^ 29"
    using mult_mod_right [of 8 x "2 ^ 29"] by simp
  finally show ?thesis by (simp add: w_def mod_mod_cancel)
qed

lemma fed_position:
  assumes "sha256_fed iv p m ctx" and "p mod 64 = 0"
  shows "unat (drop_bit 3 (s256_count1 ctx) AND 0x3F) = length m mod 64"
proof -
  have "s256_count1 ctx = of_nat (8 * (p + length m))" using assms(1) by (simp only: sha256_fed_def)
  then show ?thesis using assms(2) by (simp only: bytes_in_buffer) (simp add: mod_add_left_eq [symmetric])
qed

lemma update_fed:
  assumes "sha256_fed iv p m ctx" and "p mod 64 = 0"
  shows "sha256_fed iv p (m @ d) (SHA256_Update ctx d)"
proof -
  let ?r = "length m mod 64" and ?T = SHA256_Transform
  have fed: "length (s256_buf ctx) = 64" "buffered 64 ?T iv m (s256_buf ctx) ?r (s256_state ctx)"
      "s256_count1 ctx = of_nat (8 * (p + length m))" "s256_count0 ctx = of_nat (8 * (p + length m) div 2 ^ 32)"
    using assms(1) by (simp_all add: sha256_fed_def)
  note r = fed_position [OF assms]
  define ctx1 where "ctx1 = SHA256_count ctx (length d)"
  have ctx1: "s256_buf ctx1 = s256_buf ctx" "s256_state ctx1 = s256_state ctx"
      "s256_count1 ctx1 = of_nat (8 * (p + length (m @ d)))" "s256_count0 ctx1 = of_nat (8 * (p + length (m @ d)) div 2 ^ 32)"
    unfolding ctx1_def SHA256_count_eq [OF fed(3,4)] by (simp_all add: add.assoc)
  show ?thesis
  proof (cases "length d < 64 - ?r")
    case True
    have "buffered 64 ?T iv (m @ d) (copy_at (s256_buf ctx) ?r d) (?r + length d) (s256_state ctx)"
    proof (cases "d = []")
      case False
      then show ?thesis using s256.put_buffered [OF fed(2), of d _ False] True by simp
    qed (use fed(2) in \<open>simp add: copy_at_def\<close>)
    moreover from this have "length (m @ d) mod 64 = ?r + length d" by (simp add: buffered_def)
    moreover have "SHA256_Update ctx d = ctx1\<lparr>s256_buf := copy_at (s256_buf ctx) ?r d\<rparr>"
      using True by (simp add: SHA256_Update_def Let_def r ctx1(1) flip: ctx1_def)
    moreover have "length (copy_at (s256_buf ctx) ?r d) = 64" using True fed(1) by simp
    ultimately show ?thesis using ctx1(2-4) by (simp add: sha256_fed_def)
  next
    case False
    define a where "a = take (64 - ?r) d"
    define d' where "d' = drop (64 - ?r) d"
    define buf where "buf = copy_at (s256_buf ctx) ?r a"
    obtain state rest where loop: "md_loop 64 ?T (?T buf (s256_state ctx)) d' = (state, rest)"
      by (cases "md_loop 64 ?T (?T buf (s256_state ctx)) d'")
    have a: "length a = 64 - ?r" "a \<noteq> []" using False by (auto simp: a_def)
    have buf: "length buf = 64" using a(1) fed(1) by (simp add: buf_def)
    have "buffered 64 ?T iv (m @ a) buf 0 (?T buf (s256_state ctx))"
      using s256.put_buffered [OF fed(2), of a buf True] a buf by (simp add: buf_def)
    from s256.loop_buffered [OF this loop]
    have 2: "buffered 64 ?T iv (m @ d) (copy_at buf 0 rest) (length rest) state" by (simp add: a_def d'_def)
    have "SHA256_Update ctx d = ctx1\<lparr>s256_state := state, s256_buf := copy_at buf 0 rest\<rparr>"
      using False by (simp add: SHA256_Update_def Let_def r ctx1(1,2) loop flip: ctx1_def a_def d'_def buf_def)
    moreover have "length rest = length (m @ d) mod 64" using 2 by (simp add: buffered_def)
    moreover from this have "length (copy_at buf 0 rest) = 64"
      using buf by (subst length_copy_at) (simp_all add: less_imp_le)
    ultimately show ?thesis using 2 ctx1(3,4) by (simp add: sha256_fed_def)
  qed
qed

lemma init_fed_ctx: "length (s256_buf ctx) = 64 \<Longrightarrow> sha256_fed H256 0 [] (SHA256_Init ctx)"
  using s256.start_buffered [of "s256_buf ctx" H256] by (simp add: sha256_fed_def SHA256_Init_def H256_def)

section \<open>Digests\<close>

text \<open>
  The digest of a message of which \<open>p\<close> bytes went into the state \<open>iv\<close> before: the padding of the standard with
  the length of the whole.
\<close>

definition fips_sha256_from :: "u32 list \<Rightarrow> nat \<Rightarrow> bytes \<Rightarrow> bytes" where
  "fips_sha256_from iv p m =
     concat (map (be_bytes 4) (fold (\<lambda>b. fips256_compress (\<lambda>t. sph_dec32be b (4 * t)))
       (chunks 64 (m @ 0x80 # replicate ((119 - length m mod 64) mod 64) 0 @ be_of_nat 8 (8 * (p + length m)))) iv))"

abbreviation sha256_spec :: "bytes \<Rightarrow> bytes" where
  "sha256_spec m \<equiv> fips_sha256 H256 m 0 0"

lemma fips_sha256_from_0: "fips_sha256_from iv 0 m = fips_sha256 iv m 0 0"
  by (simp add: fips_sha256_from_def fips_sha256_def fips_pad_def fips_mark_def)

text \<open>A state that full blocks led to is the start of a longer message.\<close>

lemma fips_sha256_from_blocks:
  assumes "length x mod 64 = 0"
  shows "fips_sha256_from (fold (\<lambda>b. fips256_compress (\<lambda>t. sph_dec32be b (4 * t))) (chunks 64 x) iv) (length x) m =
    fips_sha256 iv (x @ m) 0 0"
proof -
  have x: "length x = 64 * (length x div 64)" using assms by auto
  have "(length x + length m) mod 64 = length m mod 64" using assms by (simp add: mod_add_left_eq [symmetric])
  then show ?thesis
    using chunks_append_blocks [OF _ x]
    by (simp add: fips_sha256_from_def fips_sha256_def fips_pad_def fips_mark_def)
qed

lemma take_PAD: "n \<le> 64 \<Longrightarrow> 0 < n \<Longrightarrow> take n s256_PAD = 0x80 # replicate (n - 1) 0"
  by (cases n) (simp_all add: s256_PAD_def)

lemma fold_Transform:
  assumes "length iv = 8" and "\<And>b. b \<in> set bs \<Longrightarrow> length b = 64"
  shows "fold SHA256_Transform bs iv = fold (\<lambda>b. fips256_compress (\<lambda>t. sph_dec32be b (4 * t))) bs iv"
  using assms by (induction bs arbitrary: iv) (simp_all add: Transform_fips)

lemma Final_digest:
  assumes "sha256_fed iv p m ctx" and "p mod 64 = 0" and "length iv = 8"
  shows "SHA256_Final ctx = (SHA256_cleared, fips_sha256_from iv p m)"
proof -
  let ?r = "length m mod 64"
  let ?n = "if ?r < 56 then 56 - ?r else 120 - ?r"
  let ?pad = "0x80 # replicate (?n - 1) 0" and ?len = "be_of_nat 8 (8 * (p + length m))"
  note r = fed_position [OF assms(1,2)]
  have len: "be32enc_vect [s256_count0 ctx, s256_count1 ctx] 8 = ?len"
  proof -
    have "be32enc_vect [s256_count0 ctx, s256_count1 ctx] 8 = be_bytes 4 (s256_count0 ctx) @ be_bytes 4 (s256_count1 ctx)"
      by (simp add: be32enc_vect_def be32enc_be_bytes numeral_2_eq_2)
    also have "\<dots> = be_of_nat 4 (8 * (p + length m) div 2 ^ 32) @ be_of_nat 4 (8 * (p + length m))"
      using assms(1) by (simp add: sha256_fed_def be_bytes_of_nat del: of_nat_mult of_nat_add)
    finally show ?thesis using be_of_nat_add [of 4 4 "8 * (p + length m)"] by simp
  qed
  have n: "?n \<le> 64" "0 < ?n" by (auto simp: not_less)
  have pad: "SHA256_Pad ctx = SHA256_Update (SHA256_Update ctx ?pad) ?len"
    by (simp only: SHA256_Pad_def Let_def r len take_PAD [OF n])
  have z: "?n - 1 = (119 - ?r) mod 64" by (simp add: fips_zeros)
  let ?all = "m @ 0x80 # replicate ((119 - ?r) mod 64) 0 @ ?len"
  have "sha256_fed iv p ((m @ ?pad) @ ?len) (SHA256_Pad ctx)"
    unfolding pad by (rule update_fed [OF update_fed [OF assms(1,2)] assms(2)])
  then have fed: "sha256_fed iv p ?all (SHA256_Pad ctx)" by (simp only: z append_assoc append_Cons)
  have all: "length ?all mod 64 = 0"
  proof -
    have "?r + (9 + (119 - ?r) mod 64) = (if ?r < 56 then 64 else 128)" by (auto simp: fips_zeros not_less)
    then have "(?r + (9 + (119 - ?r) mod 64)) mod 64 = 0" by simp
    then have "(length m + (9 + (119 - ?r) mod 64)) mod 64 = 0" by (simp only: mod_add_left_eq)
    then show ?thesis by (simp add: be_of_nat_def)
  qed
  from all have st: "s256_state (SHA256_Pad ctx) = fold SHA256_Transform (chunks 64 ?all) iv"
    using fed by (simp only: sha256_fed_def buffered_def md_value_chunks [OF _ all] zero_less_numeral)
  have "length b = 64" if "b \<in> set (chunks 64 ?all)" for b
    by (rule length_in_chunks [OF _ all that]) simp
  then have "s256_state (SHA256_Pad ctx) = fold (\<lambda>b. fips256_compress (\<lambda>t. sph_dec32be b (4 * t))) (chunks 64 ?all) iv"
    unfolding st by (rule fold_Transform [OF assms(3)])
  moreover from this have "length (s256_state (SHA256_Pad ctx)) = 8" by (simp only: length_fold_fips256 assms(3))
  moreover have "be32enc_vect s 32 = concat (map (be_bytes 4) s)" if "length s = 8" for s
    using that map_nth [of s] by (simp add: be32enc_vect_def be32enc_be_bytes flip: map_map [of _ "(!) s", unfolded comp_def])
  ultimately show ?thesis
    by (simp only: SHA256_Final_def Let_def fips_sha256_from_def)
qed

section \<open>HMAC\<close>

text \<open>RFC 2104 with SHA-256.\<close>

definition hmac_key :: "bytes \<Rightarrow> bytes" where
  "hmac_key K = (let k = (if length K > 64 then sha256_spec K else K) in k @ replicate (64 - length k) 0)"

definition hmac_sha256 :: "bytes \<Rightarrow> bytes \<Rightarrow> bytes" where
  "hmac_sha256 K m =
     sha256_spec (map ((XOR) 0x5C) (hmac_key K) @ sha256_spec (map ((XOR) 0x36) (hmac_key K) @ m))"

lemma length_hmac_sha256 [simp]: "length (hmac_sha256 K m) = 32"
  by (simp add: hmac_sha256_def H256_def)

lemma hmac_pad_map: "length K \<le> 64 \<Longrightarrow> hmac_pad b K = map ((XOR) b) (K @ replicate (64 - length K) 0)"
  using fold_rewrite_map2 [of K "replicate 64 b" "(XOR)"]
  by (simp add: hmac_pad_def zip_replicate1 comp_def)

definition hmac_bufs :: "HMAC_SHA256_CTX \<Rightarrow> bool" where
  "hmac_bufs ctx \<longleftrightarrow> length (s256_buf (hmac_ictx ctx)) = 64 \<and> length (s256_buf (hmac_octx ctx)) = 64"

definition hmac_fed :: "bytes \<Rightarrow> bytes \<Rightarrow> HMAC_SHA256_CTX \<Rightarrow> bool" where
  "hmac_fed K m ctx \<longleftrightarrow>
     sha256_fed H256 0 (map ((XOR) 0x36) (hmac_key K) @ m) (hmac_ictx ctx) \<and>
     sha256_fed H256 0 (map ((XOR) 0x5C) (hmac_key K)) (hmac_octx ctx)"

text \<open>One digest with an initialised context.\<close>

lemma sha256_ctx_once:
  "length (s256_buf ctx) = 64 \<Longrightarrow> SHA256_Final (SHA256_Update (SHA256_Init ctx) m) = (SHA256_cleared, sha256_spec m)"
  using Final_digest [OF update_fed [OF init_fed_ctx], of ctx m] by (simp add: fips_sha256_from_0 H256_def)

lemma sha256_ctx_pieces:
  assumes "length (s256_buf ctx) = 64"
  shows "SHA256_Final (fold (\<lambda>p ctx. SHA256_Update ctx p) pieces (SHA256_Init ctx)) = (SHA256_cleared, sha256_spec (concat pieces))"
proof -
  have "sha256_fed H256 0 m c \<Longrightarrow> sha256_fed H256 0 (m @ concat ps) (fold (\<lambda>p ctx. SHA256_Update ctx p) ps c)" for m c ps
  proof (induction ps arbitrary: m c)
    case (Cons p ps)
    then show ?case using Cons.IH [OF update_fed [OF Cons.prems, of p]] by simp
  qed simp
  from Final_digest [OF this [OF init_fed_ctx [OF assms]], of pieces] show ?thesis by (simp add: fips_sha256_from_0 H256_def)
qed

lemma length_cleared [simp]: "length (s256_buf SHA256_cleared) = 64"
  by (simp add: SHA256_cleared_def)

lemma hmac_init_fed:
  assumes "hmac_bufs ctx"
  shows "hmac_fed K [] (HMAC_SHA256_Init ctx K)"
proof -
  have bufs: "length (s256_buf (hmac_ictx ctx)) = 64" "length (s256_buf (hmac_octx ctx)) = 64"
    using assms by (simp_all add: hmac_bufs_def)
  define k where "k = (if length K > 64 then sha256_spec K else K)"
  have k: "length k \<le> 64" "hmac_key K = k @ replicate (64 - length k) 0"
    by (simp_all add: k_def hmac_key_def H256_def)
  obtain ictx where i: "(if length K > 64 then SHA256_Final (SHA256_Update (SHA256_Init (hmac_ictx ctx)) K)
      else (hmac_ictx ctx, K)) = (ictx, k)" and "length (s256_buf ictx) = 64"
    using bufs(1) by (cases "64 < length K") (simp_all add: k_def sha256_ctx_once)
  then show ?thesis
    using update_fed [OF init_fed_ctx [of ictx], of "hmac_pad 0x36 k"] update_fed [OF init_fed_ctx [OF bufs(2)], of "hmac_pad 0x5C k"]
    by (simp add: HMAC_SHA256_Init_def hmac_fed_def k hmac_pad_map)
qed

lemma hmac_update_fed: "hmac_fed K m ctx \<Longrightarrow> hmac_fed K (m @ d) (HMAC_SHA256_Update ctx d)"
  using update_fed [of H256 0 _ "hmac_ictx ctx" d] by (fastforce simp: hmac_fed_def HMAC_SHA256_Update_def)

lemma hmac_final_digest:
  assumes "hmac_fed K m ctx"
  shows "HMAC_SHA256_Final ctx = (\<lparr>hmac_ictx = SHA256_cleared, hmac_octx = SHA256_cleared\<rparr>, hmac_sha256 K m)"
proof -
  let ?i = "map ((XOR) 0x36) (hmac_key K) @ m" and ?o = "map ((XOR) 0x5C) (hmac_key K)"
  have "SHA256_Final (hmac_ictx ctx) = (SHA256_cleared, sha256_spec ?i)"
    using Final_digest [of H256 0 ?i "hmac_ictx ctx"] assms by (simp add: hmac_fed_def fips_sha256_from_0 H256_def)
  moreover have "SHA256_Final (SHA256_Update (hmac_octx ctx) h) = (SHA256_cleared, sha256_spec (?o @ h))" for h
    using Final_digest [OF update_fed, of H256 0 ?o "hmac_octx ctx" h] assms
    by (simp add: hmac_fed_def fips_sha256_from_0 H256_def)
  ultimately show ?thesis by (simp add: HMAC_SHA256_Final_def hmac_sha256_def)
qed

lemma hmac_updates_fed:
  "hmac_fed K m ctx \<Longrightarrow> hmac_fed K (m @ concat pieces) (fold (\<lambda>p ctx. HMAC_SHA256_Update ctx p) pieces ctx)"
proof (induction pieces arbitrary: m ctx)
  case (Cons p pieces)
  then show ?case using Cons.IH [OF hmac_update_fed [OF Cons.prems, of p]] by simp
qed simp

theorem hmac_value:
  assumes "hmac_bufs ctx"
  shows "snd (HMAC_SHA256_Final (fold (\<lambda>p ctx. HMAC_SHA256_Update ctx p) pieces (HMAC_SHA256_Init ctx K))) =
    hmac_sha256 K (concat pieces)"
  using hmac_final_digest [OF hmac_updates_fed [OF hmac_init_fed [OF assms]], of pieces K] by simp

section \<open>PBKDF2\<close>

text \<open>RFC 8018 with HMAC-SHA-256; the blocks count from 0.\<close>

primrec pbkdf2_U :: "bytes \<Rightarrow> bytes \<Rightarrow> nat \<Rightarrow> nat \<Rightarrow> bytes" where
  "pbkdf2_U P S i 0 = hmac_sha256 P (S @ be_bytes 4 (of_nat (i + 1) :: u32))"
| "pbkdf2_U P S i (Suc j) = hmac_sha256 P (pbkdf2_U P S i j)"

definition pbkdf2_F :: "bytes \<Rightarrow> bytes \<Rightarrow> nat \<Rightarrow> nat \<Rightarrow> bytes" where
  "pbkdf2_F P S c i = fold (\<lambda>j T. map2 (XOR) T (pbkdf2_U P S i j)) [1..<c] (pbkdf2_U P S i 0)"

definition pbkdf2_spec :: "bytes \<Rightarrow> bytes \<Rightarrow> nat \<Rightarrow> nat \<Rightarrow> bytes" where
  "pbkdf2_spec P S c dkLen = take dkLen (concat (map (pbkdf2_F P S c) [0..<(dkLen + 31) div 32]))"

lemma length_pbkdf2_U [simp]: "length (pbkdf2_U P S i j) = 32"
  by (cases j) simp_all

lemma length_pbkdf2_F [simp]: "length (pbkdf2_F P S c i) = 32"
proof -
  have "length T = 32 \<Longrightarrow> length (fold (\<lambda>j T. map2 (XOR) T (pbkdf2_U P S i j)) js T) = 32" for js T
    by (induction js arbitrary: T) simp_all
  then show ?thesis by (simp add: pbkdf2_F_def)
qed

abbreviation hmac_clear :: HMAC_SHA256_CTX where
  "hmac_clear \<equiv> \<lparr>hmac_ictx = SHA256_cleared, hmac_octx = SHA256_cleared\<rparr>"

lemma pbkdf2_step_eq:
  assumes "length T = 32"
  shows "pbkdf2_step P (hmac_clear, U, T) = (hmac_clear, hmac_sha256 P U, map2 (XOR) T (hmac_sha256 P U))"
proof -
  have "hmac_bufs hmac_clear" by (simp add: hmac_bufs_def)
  from hmac_final_digest [OF hmac_update_fed [OF hmac_init_fed [OF this]]]
  have "HMAC_SHA256_Final (HMAC_SHA256_Update (HMAC_SHA256_Init hmac_clear P) U) = (hmac_clear, hmac_sha256 P U)" by simp
  then show ?thesis
    using fold_rewrite_map2 [of "hmac_sha256 P U" T "(XOR)"] assms by (simp add: pbkdf2_step_def)
qed

text \<open>The loop over \<open>j\<close> ends after \<open>c - 1\<close> passes, unless \<open>c\<close> is the largest number.\<close>

lemma pbkdf2_rounds_funpow:
  assumes "c \<noteq> - 1"
  shows "unat j + n = unat c + 1 \<Longrightarrow> pbkdf2_rounds P c j s = Some ((pbkdf2_step P ^^ n) s)"
proof (induction n arbitrary: j s)
  case 0
  then have "\<not> j \<le> c" by (simp add: word_le_nat_alt)
  then show ?case by (subst pbkdf2_rounds.simps) simp
next
  case (Suc n)
  then have le: "j \<le> c" by (simp add: word_le_nat_alt)
  then have "j \<noteq> - 1" using assms by (metis max_word_max order_antisym)
  then have "unat (j + 1) = unat j + 1" by (metis Suc_eq_plus1 add.commute unatSuc eq_neg_iff_add_eq_0)
  then have "pbkdf2_rounds P c (j + 1) (pbkdf2_step P s) = Some ((pbkdf2_step P ^^ n) (pbkdf2_step P s))"
    using Suc.prems by (intro Suc.IH) simp
  then show ?case using le by (subst pbkdf2_rounds.simps) (simp add: funpow_swap1)
qed

lemma pbkdf2_rounds_forever: "pbkdf2_rounds P (- 1) j s = None"
proof (rule ccontr)
  assume "pbkdf2_rounds P (- 1) j s \<noteq> None"
  then obtain r where "pbkdf2_rounds P (- 1) j s = Some r" by blast
  then have "(- 1 :: u64) \<noteq> - 1"
    by (rule pbkdf2_rounds.raw_induct [where P = "\<lambda>P c j s r. c \<noteq> - 1", rotated]) (auto split: if_splits)
  then show False by simp
qed

lemma pbkdf2_block_F:
  assumes "hmac_fed P S ctx" and "0 < c" and "c \<noteq> - 1"
  shows "pbkdf2_block ctx P c i = Some (pbkdf2_F P S (unat c) i)"
proof -
  have "HMAC_SHA256_Final (HMAC_SHA256_Update ctx (be32enc (of_nat (i + 1)))) = (hmac_clear, pbkdf2_U P S i 0)"
    using hmac_final_digest [OF hmac_update_fed [OF assms(1)]] by (simp add: be32enc_be_bytes)
  moreover have "(pbkdf2_step P ^^ n) (hmac_clear, pbkdf2_U P S i 0, pbkdf2_U P S i 0) =
      (hmac_clear, pbkdf2_U P S i n, pbkdf2_F P S (Suc n) i)" for n
  proof (induction n)
    case (Suc n)
    have "pbkdf2_F P S (Suc (Suc n)) i = map2 (XOR) (pbkdf2_F P S (Suc n) i) (pbkdf2_U P S i (Suc n))"
      by (simp add: pbkdf2_F_def)
    then show ?case using Suc by (simp add: pbkdf2_step_eq)
  qed (simp add: pbkdf2_F_def)
  moreover have c: "0 < unat c" using assms(2) by (simp add: word_gt_0 unat_gt_0)
  moreover have "pbkdf2_rounds P c 2 s = Some ((pbkdf2_step P ^^ (unat c - 1)) s)" for s
    by (rule pbkdf2_rounds_funpow [OF assms(3)]) (use c in simp)
  ultimately show ?thesis by (simp add: pbkdf2_block_def)
qed

text \<open>Blocks of 32 bytes written one after the other, the last one cut off.\<close>

lemma copy_blocks:
  assumes "dkLen \<le> length buf" and "\<And>i. length (T i) = 32"
  shows "32 * k < dkLen + 32 \<Longrightarrow>
    fold (\<lambda>i buf. copy_at buf (i * 32) (take (if dkLen - i * 32 > 32 then 32 else dkLen - i * 32) (T i))) [0..<k] buf =
      take dkLen (concat (map T [0..<k])) @ drop (min dkLen (32 * k)) buf"
proof (induction k)
  case (Suc k)
  let ?c = "concat (map T [0..<k])"
  have c: "length ?c = 32 * k" using assms(2) by (simp add: length_concat comp_def sum_list_triv)
  have k: "32 * k < dkLen" using Suc.prems by simp
  then have "fold (\<lambda>i buf. copy_at buf (i * 32) (take (if dkLen - i * 32 > 32 then 32 else dkLen - i * 32) (T i))) [0..<k] buf =
      ?c @ drop (32 * k) buf" using Suc c by simp
  then show ?case
    using c k assms by (simp add: copy_at_def mult.commute)
qed simp

theorem PBKDF2_value:
  assumes "hmac_bufs ctx" and "0 < c" and "c \<noteq> - 1" and "dkLen \<le> length buf"
  shows "PBKDF2_SHA256 ctx P S c buf dkLen = Some (pbkdf2_spec P S (unat c) dkLen @ drop dkLen buf)"
proof -
  let ?PS = "HMAC_SHA256_Update (HMAC_SHA256_Init ctx P) S"
  have "hmac_fed P S ?PS" using hmac_update_fed [OF hmac_init_fed [OF assms(1)], of P S] by simp
  then have "pbkdf2_block ?PS P c i = Some (pbkdf2_F P S (unat c) i)" for i using assms(2,3) by (rule pbkdf2_block_F)
  moreover have "min dkLen (32 * ((dkLen + 31) div 32)) = dkLen" and "32 * ((dkLen + 31) div 32) < dkLen + 32" by linarith+
  ultimately show ?thesis
    using copy_blocks [OF assms(4), of "pbkdf2_F P S (unat c)" "(dkLen + 31) div 32"] assms(4)
    by (simp add: PBKDF2_SHA256_def Let_def pbkdf2_spec_def loop_opt_Some)
qed

lemma PBKDF2_forever:
  assumes "0 < dkLen"
  shows "PBKDF2_SHA256 ctx P S (- 1) buf dkLen = None"
proof -
  have "0 < (dkLen + 31) div 32" using assms by (simp add: div_greater_zero_iff)
  then have "[0..<(dkLen + 31) div 32] = 0 # [1..<(dkLen + 31) div 32]" by (simp add: upt_conv_Cons)
  then show ?thesis by (simp add: PBKDF2_SHA256_def Let_def pbkdf2_block_def pbkdf2_rounds_forever split_beta)
qed

lemma length_pbkdf2_spec [simp]: "length (pbkdf2_spec P S c dkLen) = dkLen"
proof -
  have "dkLen \<le> 32 * ((dkLen + 31) div 32)" by linarith
  then show ?thesis by (simp add: pbkdf2_spec_def length_concat comp_def sum_list_triv)
qed

section \<open>The double hash from a fixed state\<close>

definition sha256t_state :: "u32 list" where
  "sha256t_state = [0xDFA9BF2C, 0xB72074D4, 0x6BB01122, 0xD338E869, 0xAA3FF126, 0x475BBF30, 0x8FD52E5B, 0x9F75C9AD]"

lemma sha256t_once:
  assumes "length (s256_buf ctx) = 64"
  shows "SHA256_Final (SHA256_Update (SHA256t_Init ctx) m) = (SHA256_cleared, fips_sha256_from sha256t_state 64 m)"
proof -
  have "sha256_fed sha256t_state 64 [] (SHA256t_Init ctx)"
    using s256.start_buffered [of "s256_buf ctx" sha256t_state] assms
    by (simp add: sha256_fed_def SHA256t_Init_def sha256t_state_def)
  from Final_digest [OF update_fed [OF this]] show ?thesis by (simp add: sha256t_state_def)
qed

lemma sha256dt_value:
  assumes "length (s256_buf ctx) = 64"
  shows "sha256dt_hash ctx input =
    (if length input < 80 then None
     else Some (fips_sha256_from sha256t_state 64 (fips_sha256_from sha256t_state 64 (take 80 input))))"
  using sha256t_once [OF assms] sha256t_once [of SHA256_cleared] by (simp add: sha256dt_hash_def)

end
