(* ===== verification/Sph_Branches.thy ===== *)
theory Sph_Branches
  imports Sph_Chains Sha256_Ctx
begin

unbundle bit_operations_syntax

text \<open>
  The hashes of \<open>libmultihash\<close> that choose a digest by the value computed so far
  (\<open>quark.c\<close>, \<open>hmq17.c\<close>, \<open>phi2.c\<close>) and \<open>hefty1.c\<close>, which interleaves the bits of four digests.
\<close>

section \<open>quark\<close>

text \<open>The test \<open>(buf[0] & mask) != 0\<close> on an array of 32-bit words.\<close>

definition word_test :: "bytes \<Rightarrow> u32 \<Rightarrow> bool" where
  "word_test buf msk \<longleftrightarrow> le_word (take 4 buf) AND msk \<noteq> 0"

definition quark_hash :: "(sph \<Rightarrow> bytes \<Rightarrow> bytes) \<Rightarrow> bytes \<Rightarrow> bytes \<Rightarrow> bytes \<Rightarrow> nat \<Rightarrow> bytes" where
  "quark_hash H hashA hashB input len =
     (let hashA = digest_to hashA (H BLAKE512 (take len input));
          hashB = digest_to hashB (H BMW512 (take 64 hashA));
          hashA = (if word_test hashB 8
                   then digest_to hashA (H GROESTL512 (take 64 hashB))
                   else digest_to hashA (H SKEIN512 (take 64 hashB)));
          hashB = digest_to hashB (H GROESTL512 (take 64 hashA));
          hashA = digest_to hashA (H JH512 (take 64 hashB));
          hashB = (if word_test hashA 8
                   then digest_to hashB (H BLAKE512 (take 64 hashA))
                   else digest_to hashB (H BMW512 (take 64 hashA)));
          hashA = digest_to hashA (H KECCAK512 (take 64 hashB));
          hashB = digest_to hashB (H SKEIN512 (take 64 hashA));
          hashA = (if word_test hashB 8
                   then digest_to hashA (H KECCAK512 (take 64 hashB))
                   else digest_to hashA (H JH512 (take 64 hashB)))
      in take 32 hashA)"

section \<open>hmq17\<close>

text \<open>
  The array \<open>hash\<close> has 32 words, 128 bytes. The contexts are copies of a thread-local set that is
  initialised once, so each is a fresh context. \<open>memset(&hash[8], 0, 32)\<close> clears bytes 32 to 63.
\<close>

definition clear_upper :: "bytes \<Rightarrow> bytes" where
  "clear_upper buf = copy_at buf 32 (replicate 32 0)"

definition hmq17_hash :: "(sph \<Rightarrow> bytes \<Rightarrow> bytes) \<Rightarrow> bytes \<Rightarrow> bytes \<Rightarrow> nat \<Rightarrow> bytes" where
  "hmq17_hash H hash input len =
     (let hash = digest_to hash (H BMW512 (take len input));
          hash = digest_to hash (H WHIRLPOOL (take 64 hash));
          hash = (if word_test hash 24 then digest_to hash (H GROESTL512 (take 64 hash))
                  else digest_to hash (H SKEIN512 (take 64 hash)));
          hash = digest_to hash (H JH512 (take 64 hash));
          hash = digest_to hash (H KECCAK512 (take 64 hash));
          hash = (if word_test hash 24 then digest_to hash (H BLAKE512 (take 64 hash))
                  else digest_to hash (H BMW512 (take 64 hash)));
          hash = digest_to hash (H LUFFA512 (take 64 hash));
          hash = digest_to hash (H CUBEHASH512 (take 64 hash));
          hash = (if word_test hash 24 then digest_to hash (H KECCAK512 (take 64 hash))
                  else digest_to hash (H JH512 (take 64 hash)));
          hash = digest_to hash (H SHAVITE512 (take 64 hash));
          hash = digest_to hash (H SIMD512 (take 64 hash));
          hash = (if word_test hash 24 then digest_to hash (H WHIRLPOOL (take 64 hash))
                  else clear_upper (digest_to hash (H HAVAL256_5 (take 64 hash))));
          hash = digest_to hash (H ECHO512 (take 64 hash));
          hash = digest_to hash (H BLAKE512 (take 64 hash));
          hash = (if word_test hash 24 then digest_to hash (H SHAVITE512 (take 64 hash))
                  else digest_to hash (H LUFFA512 (take 64 hash)));
          hash = digest_to hash (H HAMSI512 (take 64 hash));
          hash = digest_to hash (H FUGUE512 (take 64 hash));
          hash = (if word_test hash 24 then digest_to hash (H ECHO512 (take 64 hash))
                  else digest_to hash (H SIMD512 (take 64 hash)));
          hash = digest_to hash (H SHABAL512 (take 64 hash));
          hash = digest_to hash (H WHIRLPOOL (take 64 hash));
          hash = (if word_test hash 24 then digest_to hash (H FUGUE512 (take 64 hash))
                  else digest_to hash (H SHA512 (take 64 hash)));
          hash = digest_to hash (H GROESTL512 (take 64 hash));
          hash = digest_to hash (H SHA512 (take 64 hash));
          hash = (if word_test hash 24 then clear_upper (digest_to hash (H HAVAL256_5 (take 64 hash)))
                  else digest_to hash (H WHIRLPOOL (take 64 hash)));
          hash = digest_to hash (H BMW512 (take 64 hash))
      in take 32 hash)"

section \<open>phi2\<close>

definition phi2_hash ::
    "(sph \<Rightarrow> bytes \<Rightarrow> bytes) \<Rightarrow> lyra_fun \<Rightarrow> bytes \<Rightarrow> bytes \<Rightarrow> bytes \<Rightarrow> bytes \<Rightarrow> nat \<Rightarrow> bytes" where
  "phi2_hash H L hash hashA hashB input len =
     (let hashB = digest_to hashB (H CUBEHASH512 (take len input));
          hashA = copy_at hashA 0 (L LYRA2 32 (take 32 hashB) (take 32 hashB) 1 8 8);
          hashA = copy_at hashA 32 (L LYRA2 32 (take 32 (drop 32 hashB)) (take 32 (drop 32 hashB)) 1 8 8);
          hash = digest_to hash (H JH512 (take 64 hashA));
          hash = (if hash ! 0 AND 1 \<noteq> 0 then digest_to hash (H GOST512 (take 64 hash))
                  else
                    let hash = digest_to hash (H ECHO512 (take 64 hash))
                    in digest_to hash (H ECHO512 (take 64 hash)));
          hash = digest_to hash (H SKEIN512 (take 64 hash));
          hash = fold (\<lambda>i hash. hash[i := hash ! i XOR hash ! (i + 32)]) [0..<32] hash
      in take 32 hash)"

section \<open>hefty1\<close>

text \<open>
  \<open>hefty\<close> stands for the functions of \<open>sha3/sph_hefty1.c\<close>. SHA-256 is the one of \<open>sha256.h\<close>, with the context \<open>ctx_sha256\<close>
  a local variable. The loop sets bit \<open>i * 4 + j\<close> of the output, counted from the most significant bit of the
  first byte, when bit \<open>i\<close> of digest \<open>j\<close> is set.
\<close>

definition hefty_bit :: "bytes \<Rightarrow> nat \<Rightarrow> bool" where
  "hefty_bit h i \<longleftrightarrow> h ! (i div 8) AND drop_bit (i mod 8) 0x80 \<noteq> 0"

definition hefty_set :: "bytes \<Rightarrow> nat \<Rightarrow> bytes" where
  "hefty_set output n = output[n div 8 := output ! (n div 8) OR drop_bit (n mod 8) 0x80]"

definition hefty_combine :: "bytes list \<Rightarrow> bytes" where
  "hefty_combine hs =
     fold (\<lambda>i. fold (\<lambda>j output. if hefty_bit (hs ! j) i then hefty_set output (i * 4 + j) else output)
       [0..<4]) [0..<64] (replicate 32 0)"

definition hefty1_hash ::
    "(sph \<Rightarrow> bytes \<Rightarrow> bytes) \<Rightarrow> (bytes \<Rightarrow> bytes) \<Rightarrow> SHA256_CTX \<Rightarrow> bytes \<Rightarrow> nat \<Rightarrow> bytes" where
  "hefty1_hash H hefty ctx_sha256 input len =
     (let hash32_1 = hefty (take len input);
          ctx_sha256 = SHA256_Init ctx_sha256;
          ctx_sha256 = SHA256_Update ctx_sha256 (take len input);
          ctx_sha256 = SHA256_Update ctx_sha256 hash32_1;
          (ctx_sha256, hash32_2) = SHA256_Final ctx_sha256;
          hash64_3 = H KECCAK512 (take len input @ hash32_1);
          hash64_4 = H GROESTL512 (take len input @ hash32_1);
          hash64_5 = H BLAKE512 (take len input @ hash32_1)
      in hefty_combine [hash32_2, hash64_3, hash64_4, hash64_5])"

section \<open>Branches as functions of the running value\<close>

text \<open>A digest padded with zeros to 64 bytes, and the choice between two of them.\<close>

definition wide :: "(sph \<Rightarrow> bytes \<Rightarrow> bytes) \<Rightarrow> sph \<Rightarrow> bytes \<Rightarrow> bytes" where
  "wide H a h = H a h @ replicate (64 - digest_len a) 0"

definition branch :: "(sph \<Rightarrow> bytes \<Rightarrow> bytes) \<Rightarrow> u32 \<Rightarrow> sph \<Rightarrow> sph \<Rightarrow> bytes \<Rightarrow> bytes" where
  "branch H msk a b h = (if word_test h msk then wide H a h else wide H b h)"

lemma length_branch: "sph_ok H \<Longrightarrow> length (branch H msk a b h) = 64"
  using digest_len_le [of a] digest_len_le [of b] by (simp add: branch_def wide_def sph_ok_length)

lemma branch_if:
  "digest_len a = 64 \<Longrightarrow> digest_len b = 64 \<Longrightarrow>
     (if word_test h msk then H a h else H b h) = branch H msk a b h"
  "digest_len a = 64 \<Longrightarrow> digest_len b = 32 \<Longrightarrow>
     (if word_test h msk then H a h else H b h @ replicate 32 0) = branch H msk a b h"
  "digest_len a = 32 \<Longrightarrow> digest_len b = 64 \<Longrightarrow>
     (if word_test h msk then H a h @ replicate 32 0 else H b h) = branch H msk a b h"
  by (simp_all add: branch_def wide_def)

lemma quark_branches:
  "sph_ok H \<Longrightarrow> length hashA = 64 \<Longrightarrow> length hashB = 64 \<Longrightarrow>
     quark_hash H hashA hashB input len = take 32
       ((branch H 8 KECCAK512 JH512 \<circ> H SKEIN512 \<circ> H KECCAK512 \<circ> branch H 8 BLAKE512 BMW512
         \<circ> H JH512 \<circ> H GROESTL512 \<circ> branch H 8 GROESTL512 SKEIN512 \<circ> H BMW512 \<circ> H BLAKE512) (take len input))"
  by (simp add: quark_hash_def sph_simps branch_if [where H = H] length_branch
      cong: let_weak_cong if_cong split del: if_split)

text \<open>In \<open>hmq17\<close> the value is the first half of the buffer; the second half \<open>r\<close> is never read.\<close>

lemma digest_to_front: "length d' = length d \<Longrightarrow> digest_to (d @ r) d' = d' @ r"
  by (simp add: digest_to_def copy_at_def)

lemma clear_upper_front:
  "length d = 64 \<Longrightarrow> length d' = 32 \<Longrightarrow> clear_upper (digest_to (d @ r) d') = (d' @ replicate 32 0) @ r"
  by (simp add: digest_to_def copy_at_def clear_upper_def)

lemma word_test_front: "4 \<le> length d \<Longrightarrow> word_test (d @ r) msk = word_test d msk"
  by (simp add: word_test_def)

lemma if_front: "(if c then d @ r else d' @ r) = (if c then d else d') @ r"
  by simp

lemma hmq17_branches:
  assumes "sph_ok H" and "length hash = 128"
  shows "hmq17_hash H hash input len = take 32
    ((H BMW512 \<circ> branch H 24 HAVAL256_5 WHIRLPOOL \<circ> H SHA512 \<circ> H GROESTL512 \<circ> branch H 24 FUGUE512 SHA512
      \<circ> H WHIRLPOOL \<circ> H SHABAL512 \<circ> branch H 24 ECHO512 SIMD512 \<circ> H FUGUE512 \<circ> H HAMSI512
      \<circ> branch H 24 SHAVITE512 LUFFA512 \<circ> H BLAKE512 \<circ> H ECHO512 \<circ> branch H 24 WHIRLPOOL HAVAL256_5
      \<circ> H SIMD512 \<circ> H SHAVITE512 \<circ> branch H 24 KECCAK512 JH512 \<circ> H CUBEHASH512 \<circ> H LUFFA512
      \<circ> branch H 24 BLAKE512 BMW512 \<circ> H KECCAK512 \<circ> H JH512 \<circ> branch H 24 GROESTL512 SKEIN512
      \<circ> H WHIRLPOOL \<circ> H BMW512) (take len input))"
proof -
  obtain d r where hash: "hash = d @ r" and d: "length d = 64"
    using assms(2) by (intro that [of "take 64 hash" "drop 64 hash"]) simp_all
  show ?thesis
    unfolding hmq17_hash_def hash
    by (simp add: Let_def d sph_ok_length [OF assms(1)] length_branch [OF assms(1)] digest_to_front
        clear_upper_front word_test_front if_front branch_if [where H = H]
        del: append_assoc cong: let_weak_cong if_cong split del: if_split)
qed

section \<open>phi2\<close>

lemma xor_fold_loop:
  "n + k \<le> length h \<Longrightarrow> n \<le> k \<Longrightarrow>
     fold (\<lambda>i h. h[i := h ! i XOR h ! (i + k)]) [0..<n] h =
       map2 (XOR) (take n h) (take n (drop k h)) @ drop n (h :: bytes)"
proof (induction n)
  case (Suc n)
  let ?f = "fold (\<lambda>i h. h[i := h ! i XOR h ! (i + k)]) [0..<n] h"
  have f: "?f = map2 (XOR) (take n h) (take n (drop k h)) @ drop n h" using Suc by simp
  have "length (map2 (XOR) (take n h) (take n (drop k h))) = n" using Suc.prems by simp
  then have "?f ! n = h ! n" "?f ! (n + k) = h ! (n + k)"
      "?f[n := x] = map2 (XOR) (take n h) (take n (drop k h)) @ (drop n h)[0 := x]" for x
    using Suc.prems unfolding f by (simp_all add: nth_append list_update_append)
  moreover have "(drop n h)[0 := x] = x # drop (Suc n) h" for x
    using Suc.prems by (simp add: Cons_nth_drop_Suc [symmetric])
  ultimately show ?case
    using Suc.prems by (simp add: take_Suc_conv_app_nth add.commute)
qed simp

lemma phi2_value:
  assumes "sph_ok H" and "lyra_ok L" and "length hash = 64" and "length hashA = 64" and "length hashB = 64"
  shows "phi2_hash H L hash hashA hashB input len =
    (let b = H CUBEHASH512 (take len input);
         j = H JH512 (lyra_step L LYRA2 8 (take 32 b) @ lyra_step L LYRA2 8 (drop 32 b));
         s = H SKEIN512 (if j ! 0 AND 1 \<noteq> 0 then H GOST512 j else H ECHO512 (H ECHO512 j))
     in map2 (XOR) (take 32 s) (drop 32 s))"
proof -
  note len = sph_ok_length [OF assms(1)] lyra_ok_length [OF assms(2)]
  have lyra: "copy_at (copy_at hashA 0 x) 32 y = x @ y" if "length x = 32" "length y = 32" for x y
    using that assms(4) by (simp add: copy_at_def)
  have choice: "length (if c then H GOST512 x else H ECHO512 y) = 64" for c x y
    by (simp add: len)
  show ?thesis
    unfolding phi2_hash_def Let_def
    by (simp add: len assms lyra lyra_step_def xor_fold_loop choice if_distrib [of "\<lambda>x. digest_to _ x", symmetric]
        cong: if_cong split del: if_split)
qed

section \<open>hefty1\<close>

text \<open>Bit \<open>n\<close> of a byte string, counted from the most significant bit of its first byte.\<close>

definition msb_bit :: "bytes \<Rightarrow> nat \<Rightarrow> bool" where
  "msb_bit bs n \<longleftrightarrow> bit (bs ! (n div 8)) (7 - n mod 8)"

lemma bit_0x80: "m < 8 \<Longrightarrow> bit (drop_bit m (0x80 :: u8)) i \<longleftrightarrow> i = 7 - m"
proof -
  assume m: "m < 8"
  have "(0x80 :: u8) = push_bit 7 1" by simp
  then have "bit (drop_bit m (0x80 :: u8)) i \<longleftrightarrow> bit (push_bit 7 1 :: u8) (m + i)"
    by (simp only: bit_drop_bit_eq comp_def)
  also have "\<dots> \<longleftrightarrow> i = 7 - m"
    using m by (auto simp only: bit_push_bit_iff bit_1_iff possible_bit_word) auto
  finally show ?thesis .
qed

lemma hefty_bit_msb: "hefty_bit h i \<longleftrightarrow> msb_bit h i"
proof -
  have b: "bit (h ! (i div 8) AND drop_bit (i mod 8) 0x80) n \<longleftrightarrow> bit (h ! (i div 8)) n \<and> n = 7 - i mod 8" for n
    by (auto simp: bit_and_iff bit_0x80)
  have "h ! (i div 8) AND drop_bit (i mod 8) 0x80 = 0 \<longleftrightarrow> \<not> bit (h ! (i div 8)) (7 - i mod 8)"
  proof
    assume "h ! (i div 8) AND drop_bit (i mod 8) 0x80 = 0"
    with b [of "7 - i mod 8"] show "\<not> bit (h ! (i div 8)) (7 - i mod 8)" by simp
  next
    assume "\<not> bit (h ! (i div 8)) (7 - i mod 8)"
    with b show "h ! (i div 8) AND drop_bit (i mod 8) 0x80 = 0" by (intro bit_eqI) auto
  qed
  then show ?thesis by (simp add: hefty_bit_def msb_bit_def)
qed

lemma msb_hefty_set:
  assumes "n div 8 < length out"
  shows "msb_bit (hefty_set out n) m \<longleftrightarrow> msb_bit out m \<or> m = n"
proof (cases "m div 8 = n div 8")
  case True
  then have "7 - m mod 8 = 7 - n mod 8 \<longleftrightarrow> m = n"
    using div_mult_mod_eq [of m 8] div_mult_mod_eq [of n 8] mod_less_divisor [of 8 m] mod_less_divisor [of 8 n]
    by (auto, linarith)
  with True assms show ?thesis by (simp add: msb_bit_def hefty_set_def bit_or_iff bit_0x80)
next
  case False
  then show ?thesis by (auto simp: msb_bit_def hefty_set_def)
qed

lemma hefty_loop:
  assumes "\<forall>n \<in> set ns. n < 8 * length out"
  shows "length (fold (\<lambda>n out. if P n then hefty_set out n else out) ns out) = length out \<and>
    (msb_bit (fold (\<lambda>n out. if P n then hefty_set out n else out) ns out) m \<longleftrightarrow> msb_bit out m \<or> m \<in> set ns \<and> P m)"
  using assms
proof (induction ns arbitrary: out)
  case (Cons n ns)
  let ?out = "if P n then hefty_set out n else out"
  have "length ?out = length out" by (simp add: hefty_set_def)
  moreover have "n div 8 < length out" using Cons.prems by auto
  ultimately show ?case
    using Cons.IH [of ?out] Cons.prems by (auto simp: msb_hefty_set)
qed simp

lemma hefty_combine_bits:
  "length (hefty_combine hs) = 32 \<and> (m < 256 \<longrightarrow> (msb_bit (hefty_combine hs) m \<longleftrightarrow> msb_bit (hs ! (m mod 4)) (m div 4)))"
proof -
  let ?P = "\<lambda>n. hefty_bit (hs ! (n mod 4)) (n div 4)"
  let ?step = "\<lambda>n out. if ?P n then hefty_set out n else out"
  have inner: "fold (\<lambda>j out. if hefty_bit (hs ! j) i then hefty_set out (i * 4 + j) else out) [0..<4] out =
      fold ?step (map (\<lambda>j. i * 4 + j) [0..<4]) out" for i out
    by (simp add: fold_map comp_def) (rule fold_cong, simp_all)
  have nested: "fold (\<lambda>i. fold ?step (ms i)) is out = fold ?step (concat (map ms is)) out" for ms "is" out
    by (induction "is" arbitrary: out) simp_all
  let ?ns = "concat (map (\<lambda>i. map (\<lambda>j. i * 4 + j) [0..<4]) [0..<64])"
  have c: "hefty_combine hs = fold ?step ?ns (replicate 32 0)"
    unfolding hefty_combine_def inner nested ..
  have set: "set ?ns = {0..<256}"
  proof (intro set_eqI iffI)
    fix n
    assume "n \<in> {0..<256 :: nat}"
    then have i: "n div 4 < 64" by auto
    have "n = n div 4 * 4 + n mod 4" "n mod 4 < 4" by auto
    with i show "n \<in> set ?ns"
      unfolding set_concat set_map set_upt image_image UN_iff bex_simps by (metis atLeastLessThan_iff image_eqI zero_le)
  qed auto
  have "\<not> msb_bit (replicate 32 0) m" if "m < 256" using that by (simp add: msb_bit_def)
  with hefty_loop [of ?ns "replicate 32 0" ?P m] show ?thesis
    unfolding c set by (auto simp: hefty_bit_msb)
qed

text \<open>The first digest is that of the standard.\<close>

lemma hefty1_digests:
  assumes "length (s256_buf ctx) = 64"
  shows "hefty1_hash H hefty ctx input len =
    (let m = take len input @ hefty (take len input)
     in hefty_combine [sha256_spec m, H KECCAK512 m, H GROESTL512 m, H BLAKE512 m])"
  using sha256_ctx_pieces [OF assms, of "[take len input, hefty (take len input)]"] by (simp add: hefty1_hash_def Let_def)

end
