(* ===== verification/Keccak_Cn.thy ===== *)
theory Keccak_Cn
  imports Keccak_Progpow
begin

unbundle bit_operations_syntax

text \<open>
  The Keccak of the CryptoNote libraries: \<open>keccak.c\<close> and \<open>hash.c\<close> of
  \<open>src/src/Native/libcryptonote/crypto\<close> (\<open>libzanonote\<close> has the same \<open>keccak.c\<close> and a
  \<open>cn_fast_hash\<close> that asks it for 32 bytes instead of the whole state). The permutation is a loop
  over \<open>rounds\<close>, the sponge builds its last block in a buffer of 144 bytes. The message length
  reaches \<open>keccak\<close> as a C \<open>int\<close>.

  The library part shows that every step is the step of the sponge of \<open>Keccak_Tiny\<close>, so that the
  two byte sponges give the same digest on every message whose length is an \<open>int\<close>.
\<close>

section \<open>The permutation\<close>

definition keccakf_rndc :: "u64 list" where
  "keccakf_rndc =
    [0x0000000000000001, 0x0000000000008082, 0x800000000000808a,
     0x8000000080008000, 0x000000000000808b, 0x0000000080000001,
     0x8000000080008081, 0x8000000000008009, 0x000000000000008a,
     0x0000000000000088, 0x0000000080008009, 0x000000008000000a,
     0x000000008000808b, 0x800000000000008b, 0x8000000000008089,
     0x8000000000008003, 0x8000000000008002, 0x8000000000000080,
     0x000000000000800a, 0x800000008000000a, 0x8000000080008081,
     0x8000000000008080, 0x0000000080000001, 0x8000000080008008]"

definition keccakf_rotc :: "nat list" where
  "keccakf_rotc =
    [1, 3, 6, 10, 15, 21, 28, 36, 45, 55, 2, 14, 27, 41, 56, 8, 25, 43, 62, 18, 39, 61, 20, 44]"

definition keccakf_piln :: "nat list" where
  "keccakf_piln =
    [10, 7, 11, 17, 18, 3, 5, 16, 8, 21, 24, 4, 15, 23, 19, 13, 12, 2, 20, 14, 22, 9, 6, 1]"

definition cn_theta :: "u64 list \<Rightarrow> u64 list" where
  "cn_theta st =
     (let bc = map (\<lambda>i. st ! i XOR st ! (i + 5) XOR st ! (i + 10) XOR st ! (i + 15) XOR st ! (i + 20))
                 for5_1
      in fold (\<lambda>i st.
           let t = bc ! ((i + 4) mod 5) XOR rol64 (bc ! ((i + 1) mod 5)) 1
           in fold (\<lambda>j st. st[j + i := st ! (j + i) XOR t]) for5_5 st) for5_1 st)"

definition cn_rho_pi :: "u64 list \<Rightarrow> u64 list" where
  "cn_rho_pi st =
     snd (fold (\<lambda>(j, r) (t, st). (st ! j, st[j := rol64 t r]))
       (zip keccakf_piln keccakf_rotc) (st ! 1, st))"

definition cn_chi :: "u64 list \<Rightarrow> u64 list" where
  "cn_chi st =
     fold (\<lambda>j st.
       let bc = map (\<lambda>i. st ! (j + i)) for5_1
       in fold (\<lambda>i st. st[j + i := st ! (j + i) XOR
              (NOT (bc ! ((i + 1) mod 5)) AND bc ! ((i + 2) mod 5))]) for5_1 st) for5_5 st"

definition cn_keccakf :: "u64 list \<Rightarrow> nat \<Rightarrow> u64 list" where
  "cn_keccakf st rounds =
     fold (\<lambda>round st.
       let st = cn_chi (cn_rho_pi (cn_theta st))
       in st[0 := st ! 0 XOR keccakf_rndc ! round]) [0..<rounds] st"

section \<open>The sponge\<close>

definition HASH_DATA_AREA :: nat where "HASH_DATA_AREA = 136"
definition KECCAK_ROUNDS :: nat where "KECCAK_ROUNDS = 24"
definition HASH_SIZE :: nat where "HASH_SIZE = 32"

text \<open>\<open>for (i = 0; i < rsizw; i++) st[i] ^= ((uint64_t *) in)[i]\<close>.\<close>

definition cn_xor_block :: "nat \<Rightarrow> u64 list \<Rightarrow> bytes \<Rightarrow> u64 list" where
  "cn_xor_block rsizw st inp =
     fold (\<lambda>i st. st[i := st ! i XOR le_word (take 8 (drop (8 * i) inp))]) [0..<rsizw] st"

text \<open>The loop \<open>for ( ; inlen >= rsiz; inlen -= rsiz, in += rsiz)\<close>; \<open>inlen\<close> is the length of what is left.\<close>

function cn_absorb :: "nat \<Rightarrow> u64 list \<Rightarrow> bytes \<Rightarrow> u64 list \<times> bytes" where
  "cn_absorb rsiz st inp =
     (if rsiz \<noteq> 0 \<and> rsiz \<le> length inp then
        cn_absorb rsiz (cn_keccakf (cn_xor_block (rsiz div 8) st inp) KECCAK_ROUNDS) (drop rsiz inp)
      else (st, inp))"
  by pat_completeness auto
termination
  by (relation "measure (\<lambda>(r, s, d). length d)") auto

declare cn_absorb.simps [simp del]

text \<open>The last block: \<open>temp\<close> after the copy, the end mark, the zeros and the frame bit.\<close>

definition cn_last_block :: "nat \<Rightarrow> bytes \<Rightarrow> bytes" where
  "cn_last_block rsiz inp =
     (let temp = inp @ 0x01 # replicate (rsiz - (length inp + 1)) 0
      in temp[rsiz - 1 := temp ! (rsiz - 1) OR 0x80])"

text \<open>
  \<open>keccak(in, inlen, md, mdlen)\<close>: \<open>inlen\<close> is the argument as a 32-bit signed integer. \<open>None\<close> is a
  run without defined behaviour: a negative \<open>inlen\<close> makes \<open>memcpy\<close> copy \<open>(size_t) inlen\<close>
  bytes into \<open>temp\<close>, a block size above 144 overruns \<open>temp\<close>, and one that is not positive
  has no last block.
\<close>

definition cn_keccak :: "bytes \<Rightarrow> int \<Rightarrow> nat \<Rightarrow> bytes option" where
  "cn_keccak inp inlen mdlen =
     (let rsiz = (if mdlen = 200 then HASH_DATA_AREA else 200 - 2 * mdlen);
          rsizw = rsiz div 8
      in if inlen < 0 \<or> rsiz = 0 \<or> 144 < rsiz then None
         else
           let (st, rest) = cn_absorb rsiz (replicate 25 0) (take (nat inlen) inp);
               st = cn_xor_block rsizw st (cn_last_block rsiz rest);
               st = cn_keccakf st KECCAK_ROUNDS
           in Some (take mdlen (bytes_of st)))"

definition keccak1600 :: "bytes \<Rightarrow> int \<Rightarrow> bytes option" where
  "keccak1600 inp inlen = cn_keccak inp inlen 200"

definition hash_permutation :: "bytes \<Rightarrow> bytes" where
  "hash_permutation state = bytes_of (cn_keccakf (words_of state) 24)"

text \<open>The conversion of a \<open>size_t\<close> argument to the \<open>int\<close> parameter keeps its low 32 bits.\<close>

definition int_of_size :: "nat \<Rightarrow> int" where
  "int_of_size n = sint (of_nat n :: u32)"

definition hash_process :: "bytes \<Rightarrow> nat \<Rightarrow> bytes option" where
  "hash_process buf count = keccak1600 buf (int_of_size count)"

definition cn_fast_hash :: "bytes \<Rightarrow> nat \<Rightarrow> bytes option" where
  "cn_fast_hash inp len = map_option (take HASH_SIZE) (hash_process inp len)"

definition zano_cn_fast_hash :: "bytes \<Rightarrow> nat \<Rightarrow> bytes option" where
  "zano_cn_fast_hash inp len = cn_keccak inp (int_of_size len) HASH_SIZE"

section \<open>Agreement with the byte sponge\<close>

text \<open>The steps agree lane by lane.\<close>

lemma cn_theta_theta: "length st = 25 \<Longrightarrow> cn_theta st = theta st"
  by (erule list_25_cases) (simp add: cn_theta_def theta_def Let_def xor.assoc)

lemma cn_rho_pi_rho_pi: "cn_rho_pi st = rho_pi st"
  by (simp add: cn_rho_pi_def rho_pi_def pi_idx_def rho_def keccakf_piln_def keccakf_rotc_def)

lemma cn_chi_chi: "length st = 25 \<Longrightarrow> cn_chi st = chi st"
  by (erule list_25_cases) (simp add: cn_chi_def chi_def Let_def)

lemma cn_round:
  "length st = 25 \<Longrightarrow>
     (let st = cn_chi (cn_rho_pi (cn_theta st)) in st[0 := st ! 0 XOR keccakf_rndc ! i]) =
     iota i (chi (rho_pi (theta st)))"
  by (simp add: cn_theta_theta cn_rho_pi_rho_pi cn_chi_chi iota_def Let_def keccakf_rndc_def RC_def)

lemma cn_keccakf_keccakf:
  assumes "length st = 25"
  shows "cn_keccakf st 24 = keccakf st"
proof -
  have "length s = 25 \<Longrightarrow>
    fold (\<lambda>round st. let st = cn_chi (cn_rho_pi (cn_theta st)) in st[0 := st ! 0 XOR keccakf_rndc ! round]) is s =
    fold (\<lambda>i a. iota i (chi (rho_pi (theta a)))) is s" for "is" s
    by (induction "is" arbitrary: s) (simp_all add: cn_round)
  with assms show ?thesis by (simp only: cn_keccakf_def keccakf_def)
qed

lemma xor_words_cn_xor_block:
  "fst (xor_words n i st (drop (8 * i) d)) =
     fold (\<lambda>i st. st[i := st ! i XOR le_word (take 8 (drop (8 * i) d))]) [i..<i + n] st"
proof (induction n arbitrary: i st)
  case (Suc n)
  have "[i..<i + Suc n] = i # [Suc i..<Suc i + n]" by (simp add: upt_rec)
  with Suc [of "Suc i"] show ?case by (simp add: load_le_def add.commute)
qed simp

lemma cn_xor_block_words: "cn_xor_block n st d = fst (xor_words n 0 st d)"
  using xor_words_cn_xor_block [of n 0 st d] by (simp add: cn_xor_block_def)

lemma cn_xor_block_xorin:
  "length a = 200 \<Longrightarrow> 8 * n \<le> length d \<Longrightarrow> n \<le> 25 \<Longrightarrow>
     cn_xor_block n (words_of a) d = words_of (xorin a d (8 * n))"
  by (simp add: cn_xor_block_words xorin_words)

lemma cn_absorb_absorb:
  assumes "0 < r" and "r \<le> 25" and "length a = 200"
  shows "cn_absorb (8 * r) (words_of a) d =
     (words_of (fst (absorb (8 * r) a d)), snd (absorb (8 * r) a d))"
  using assms(3)
proof (induction "8 * r" a d rule: absorb.induct)
  case (1 a inp)
  show ?case
  proof (cases "8 * r \<le> length inp")
    case True
    have "cn_absorb (8 * r) (words_of a) inp =
        cn_absorb (8 * r) (words_of (keccakP (xorin a inp (8 * r)))) (drop (8 * r) inp)"
      using True assms "1.prems"
      by (simp add: cn_absorb.simps [of "8 * r" "words_of a"] cn_xor_block_xorin KECCAK_ROUNDS_def
          cn_keccakf_keccakf keccakP_def length_words_of [of _ 25])
    with True assms "1.prems" "1.hyps" show ?thesis by (simp add: absorb_step)
  next
    case False
    then show ?thesis by (simp add: absorb_stop cn_absorb.simps [of "8 * r" "words_of a"])
  qed
qed

lemma bit_cn_last_block:
  assumes "length rest < rsiz" and "B < rsiz"
  shows "bit (cn_last_block rsiz rest ! B) k \<longleftrightarrow>
     (if B < length rest then bit (rest ! B) k else B = length rest \<and> k = 0) \<or> (B = rsiz - 1 \<and> k = 7)"
proof -
  have "cn_last_block rsiz rest ! B =
      (if B < length rest then rest ! B else if B = length rest then 0x01 else 0)
      OR (if B = rsiz - 1 then 0x80 else 0)"
    using assms by (simp add: cn_last_block_def Let_def nth_list_update nth_append nth_Cons')
  then show ?thesis by (simp only: bit_or_iff bit_if_0 bit_frame_byte) (auto simp: bit_1_iff)
qed

lemma length_cn_last_block: "length rest < rsiz \<Longrightarrow> length (cn_last_block rsiz rest) = rsiz"
  by (simp add: cn_last_block_def Let_def)

lemma xorin_cn_last_block:
  assumes "length a = 200" and "length rest < rsiz" and "rsiz \<le> 200"
  shows "xorin a (cn_last_block rsiz rest) rsiz = pad_bytes rsiz a rest"
proof (rule nth_equalityI)
  show "length (xorin a (cn_last_block rsiz rest) rsiz) = length (pad_bytes rsiz a rest)"
    by (simp add: pad_bytes_def Let_def)
next
  fix B
  assume "B < length (xorin a (cn_last_block rsiz rest) rsiz)"
  with assms have B: "B < length a" by simp
  show "xorin a (cn_last_block rsiz rest) rsiz ! B = pad_bytes rsiz a rest ! B"
  proof (rule bit_eqI)
    fix k
    show "bit (xorin a (cn_last_block rsiz rest) rsiz ! B) k \<longleftrightarrow> bit (pad_bytes rsiz a rest ! B) k"
      using B assms
      by (auto simp: bit_pad_bytes nth_xorin length_cn_last_block bit_xor_iff bit_cn_last_block)
  qed
qed

text \<open>The whole sponge on a length that is an \<open>int\<close>.\<close>

lemma cn_keccak_hash:
  assumes "rsiz = (if mdlen = 200 then HASH_DATA_AREA else 200 - 2 * mdlen)"
    and "rsiz = 8 * r" and "0 < rsiz" and "rsiz \<le> 144" and "n < rsiz"
  shows "\<exists>st. cn_keccak inp (int (length inp)) mdlen = Some (take mdlen st) \<and> length st = 200 \<and>
     hash n inp rsiz 0x01 = Some (take n st)"
proof -
  obtain a rest where ar: "absorb rsiz (replicate 200 0) inp = (a, rest)"
    by fastforce
  with assms have len: "length a = 200" "length rest < rsiz"
    using absorb_lengths [OF ar] by auto
  have "cn_absorb rsiz (replicate 25 0) inp = (words_of a, rest)"
    using cn_absorb_absorb [of r "replicate 200 0" inp] assms(2-) ar by (simp add: words_of_zeros)
  moreover have "cn_xor_block (rsiz div 8) (words_of a) (cn_last_block rsiz rest) =
      words_of (pad_bytes rsiz a rest)"
    using cn_xor_block_xorin [of a r "cn_last_block rsiz rest"] len assms(2-)
      xorin_cn_last_block [of a rest rsiz]
    by (simp add: length_cn_last_block)
  moreover have "length (pad_bytes rsiz a rest) = 200"
    using len by (simp add: pad_bytes_def Let_def)
  ultimately have "cn_keccak inp (int (length inp)) mdlen =
      Some (take mdlen (keccakP (pad_bytes rsiz a rest)))"
    using assms
    by (simp add: cn_keccak_def Let_def KECCAK_ROUNDS_def cn_keccakf_keccakf keccakP_def
        length_words_of [of _ 25])
  moreover have "hash n inp rsiz 0x01 = Some (take n (keccakP (pad_bytes rsiz a rest)))"
    using assms(4,5) ar by (simp add: hash_pad_bytes)
  moreover have "length (keccakP (pad_bytes rsiz a rest)) = 200"
    using len by (simp add: pad_bytes_def Let_def)
  ultimately show ?thesis by blast
qed

lemma int_of_size_small: "n < 2 ^ 31 \<Longrightarrow> int_of_size n = int n"
  by (simp add: int_of_size_def signed_of_nat signed_take_bit_int_eq_self)

lemma int_of_size_neg:
  "n mod 2 ^ 32 \<ge> 2 ^ 31 \<Longrightarrow> int_of_size n < 0"
proof -
  assume "2 ^ 31 \<le> n mod 2 ^ 32"
  moreover have "n mod 2 ^ 32 = 2 ^ 31 * (n div 2 ^ 31 mod 2) + n mod 2 ^ 31"
    using mod_mult2_eq [of n "2 ^ 31" 2] by simp
  moreover have "n mod 2 ^ 31 < 2 ^ 31" by simp
  ultimately have "odd (n div 2 ^ 31)" by (cases "even (n div 2 ^ 31)") simp_all
  then have "odd (int (n div 2 ^ 31))" by simp
  then show "int_of_size n < 0"
    by (simp add: int_of_size_def signed_of_nat bit_iff_odd zdiv_int)
qed

lemma cn_fast_hash_SHA3:
  assumes "length inp < 2 ^ 31"
  shows "cn_fast_hash inp (length inp) = Some (SHA3_256 inp)"
    and "zano_cn_fast_hash inp (length inp) = Some (SHA3_256 inp)"
proof -
  have sha: "hash 32 inp 136 0x01 = Some (SHA3_256 inp)"
    using sha3_Some [of 32 256 inp] by (auto simp: SHA3_256_def sha3_def)
  obtain st where "cn_keccak inp (int (length inp)) 200 = Some (take 200 st)" "length st = 200"
      "hash 32 inp 136 0x01 = Some (take 32 st)"
    using cn_keccak_hash [of 136 200 17 32 inp] unfolding HASH_DATA_AREA_def by fastforce
  with sha assms show "cn_fast_hash inp (length inp) = Some (SHA3_256 inp)"
    by (simp add: cn_fast_hash_def hash_process_def keccak1600_def int_of_size_small HASH_SIZE_def)
  obtain st where "cn_keccak inp (int (length inp)) 32 = Some (take 32 st)"
      "hash 32 inp 136 0x01 = Some (take 32 st)"
    using cn_keccak_hash [of 136 32 17 32 inp] unfolding HASH_DATA_AREA_def by fastforce
  with sha assms show "zano_cn_fast_hash inp (length inp) = Some (SHA3_256 inp)"
    by (simp add: zano_cn_fast_hash_def int_of_size_small HASH_SIZE_def)
qed

lemma cn_fast_hash_negative:
  "2 ^ 31 \<le> len mod 2 ^ 32 \<Longrightarrow> cn_fast_hash inp len = None \<and> zano_cn_fast_hash inp len = None"
  using int_of_size_neg [of len]
  by (simp add: cn_fast_hash_def zano_cn_fast_hash_def hash_process_def keccak1600_def cn_keccak_def Let_def)

end
