(* ===== verification/Tree_Hash.thy ===== *)
theory Tree_Hash
  imports Keccak_Cn
begin

unbundle bit_operations_syntax

text \<open>
  The Merkle tree of the CryptoNote libraries: \<open>src/src/Native/libcryptonote/crypto/tree-hash.c\<close>
  (\<open>libzanonote\<close> has the same \<open>tree_hash\<close>). A \<open>char (*)[HASH_SIZE]\<close> is a list of digests; the
  memory \<open>alloca\<close> returns and the automatic buffers hold arbitrary values \<open>junk\<close> until they are
  written, and an \<open>assert\<close> that fails is the value \<open>None\<close>. All counters are below $2^{59}$
  (an array of 32-byte digests fits the address space), so the \<open>size_t\<close> arithmetic on them is
  arithmetic on natural numbers; the bit smearing of \<open>cnt\<close> is done on 64-bit words.

  The specification is a binary tree (\<open>mtree\<close>) with the digests as its fringe. The lemmas show that
  \<open>tree_hash\<close> computes its root, \<open>tree_branch\<close> the siblings on the path to its first leaf, and
  \<open>tree_hash_from_branch\<close> the root from any such path.
\<close>

section \<open>The operations\<close>

text \<open>\<open>cn_fast_hash(hashes[i], 2 * HASH_SIZE, \<dots>)\<close>: the two digests that start at \<open>hashes[i]\<close>.\<close>

definition hash_pair :: "bytes \<Rightarrow> bytes \<Rightarrow> bytes" where
  "hash_pair x y = the (cn_fast_hash (x @ y) (2 * HASH_SIZE))"

abbreviation hash_pair_at :: "bytes list \<Rightarrow> nat \<Rightarrow> bytes" where
  "hash_pair_at hashes i \<equiv> hash_pair (hashes ! i) (hashes ! (i + 1))"

text \<open>The two loops that set \<open>cnt\<close>, and the halving loop of \<open>tree_depth\<close>.\<close>

definition tree_hash_cnt :: "nat \<Rightarrow> nat" where
  "tree_hash_cnt count =
     (let cnt = (of_nat (count - 1) :: u64);
          cnt = fold (\<lambda>i cnt. cnt OR drop_bit i cnt) [1, 2, 4, 8, 16, 32] cnt
      in unat (cnt AND NOT (drop_bit 1 cnt)))"

definition tree_depth :: "nat \<Rightarrow> nat option" where
  "tree_depth count =
     (if count = 0 then None
      else Some (snd (fold (\<lambda>i (count, depth).
             if drop_bit i count > 0 then (drop_bit i count, depth + i) else (count, depth))
           [32, 16, 8, 4, 2, 1] (count, 0))))"

definition tree_branch_cnt :: "nat \<Rightarrow> nat \<times> nat" where
  "tree_branch_cnt count =
     fold (\<lambda>i (cnt, depth). if push_bit i cnt \<le> count then (push_bit i cnt, depth + i) else (cnt, depth))
       [32, 16, 8, 4, 2, 1] (1, 0)"

text \<open>
  \<open>for (i = i0, j = j0; j < n; i += 2, ++j) cn_fast_hash(hashes[i], \<dots>, ints[j])\<close>: the first layer,
  read from \<open>hashes\<close>; the final \<open>i\<close> is returned for the assertion that follows.
\<close>

definition tree_first_layer :: "bytes list \<Rightarrow> nat \<Rightarrow> nat \<Rightarrow> nat \<Rightarrow> bytes list \<Rightarrow> nat \<times> bytes list" where
  "tree_first_layer hashes i0 j0 n ints =
     fold (\<lambda>j (i, ints). (i + 2, ints[j := hash_pair_at hashes i])) [j0..<n] (i0, ints)"

text \<open>\<open>for (i = i0, j = 0; j < n; i += 2, ++j) cn_fast_hash(ints[i], \<dots>, ints[j])\<close>: a layer in place.\<close>

definition tree_layer :: "nat \<Rightarrow> nat \<Rightarrow> bytes list \<Rightarrow> bytes list" where
  "tree_layer i0 n ints =
     snd (fold (\<lambda>j (i, ints). (i + 2, ints[j := hash_pair_at ints i])) [0..<n] (i0, ints))"

text \<open>\<open>while (cnt > 2)\<close>.\<close>

function tree_hash_layers :: "nat \<Rightarrow> bytes list \<Rightarrow> bytes list" where
  "tree_hash_layers cnt ints =
     (if cnt > 2 then tree_hash_layers (drop_bit 1 cnt) (tree_layer 0 (drop_bit 1 cnt) ints) else ints)"
  by pat_completeness auto
termination
  by (relation "measure fst") (auto simp: drop_bit_eq_div)

declare tree_hash_layers.simps [simp del]

definition tree_hash :: "(nat \<Rightarrow> bytes) \<Rightarrow> bytes list \<Rightarrow> bytes option" where
  "tree_hash junk hashes =
     (let count = length hashes
      in if count = 0 then None
         else if count = 1 then Some (hashes ! 0)
         else if count = 2 then Some (hash_pair_at hashes 0)
         else
           let cnt = tree_hash_cnt count;
               k = 2 * cnt - count;
               ints = take k hashes @ map junk [k..<cnt];
               (i, ints) = tree_first_layer hashes k k cnt ints
           in if i \<noteq> count then None
              else Some (hash_pair_at (tree_hash_layers cnt ints) 0))"

text \<open>
  \<open>while (depth > 0)\<close> of \<open>tree_branch\<close>; \<open>branch\<close> is the output array. The assertion at the head of
  the body is checked in every iteration.
\<close>

fun tree_branch_layers :: "nat \<Rightarrow> nat \<Rightarrow> bytes list \<Rightarrow> bytes list \<Rightarrow> bytes list option" where
  "tree_branch_layers cnt 0 ints branch = Some branch"
| "tree_branch_layers cnt (Suc depth) ints branch =
     (if cnt \<noteq> push_bit (Suc depth) 1 then None
      else
        let cnt = drop_bit 1 cnt;
            branch = branch[depth := ints ! 0];
            ints = tree_layer 1 (cnt - 1) ints
        in tree_branch_layers cnt depth ints branch)"

definition tree_branch :: "(nat \<Rightarrow> bytes) \<Rightarrow> bytes list \<Rightarrow> bytes list \<Rightarrow> bytes list option" where
  "tree_branch junk hashes branch =
     (let count = length hashes
      in if count = 0 then None
         else
           let (cnt, depth) = tree_branch_cnt count
           in if cnt \<noteq> push_bit depth 1 \<or> Some depth \<noteq> tree_depth count then None
              else
                let k = 2 * cnt - count;
                    ints = take (k - 1) (drop 1 hashes) @ map junk [k - 1..<cnt - 1];
                    (i, ints) = tree_first_layer hashes k (k - 1) (cnt - 1) ints
                in if i \<noteq> count then None else tree_branch_layers cnt depth ints branch)"

text \<open>
  \<open>tree_hash_from_branch\<close>: \<open>path\<close> is \<open>None\<close> for the null pointer; \<open>right\<close> is the test that puts the
  leaf side into \<open>buffer[1]\<close>.
\<close>

definition path_right :: "bytes option \<Rightarrow> nat \<Rightarrow> bool" where
  "path_right path depth =
     (case path of None \<Rightarrow> False
      | Some p \<Rightarrow> p ! (drop_bit 3 depth) AND push_bit (depth mod 8) 1 \<noteq> 0)"

fun from_branch_loop ::
  "bytes list \<Rightarrow> bytes option \<Rightarrow> bytes \<Rightarrow> nat \<Rightarrow> bool \<Rightarrow> bytes \<times> bytes \<Rightarrow> bytes \<times> bytes" where
  "from_branch_loop branch path leaf 0 from_leaf buffer = buffer"
| "from_branch_loop branch path leaf (Suc depth) from_leaf buffer =
     (let leaf_side = (if from_leaf then leaf else hash_pair (fst buffer) (snd buffer));
          buffer = (if path_right path depth then (branch ! depth, leaf_side)
                    else (leaf_side, branch ! depth))
      in from_branch_loop branch path leaf depth False buffer)"

definition tree_hash_from_branch ::
  "bytes \<times> bytes \<Rightarrow> bytes list \<Rightarrow> nat \<Rightarrow> bytes \<Rightarrow> bytes option \<Rightarrow> bytes" where
  "tree_hash_from_branch junk branch depth leaf path =
     (if depth = 0 then leaf
      else case_prod hash_pair (from_branch_loop branch path leaf depth True junk))"

section \<open>The counters\<close>

lemma smear_step:
  fixes w :: u64
  assumes "\<And>n. bit x n \<longleftrightarrow> (\<exists>d < i. bit w (n + d))"
  shows "bit (x OR drop_bit i x) n \<longleftrightarrow> (\<exists>d < i + i. bit w (n + d))"
proof -
  have "(\<exists>d < i + i. P d) \<longleftrightarrow> (\<exists>d < i. P d) \<or> (\<exists>d < i. P (i + d))" for P :: "nat \<Rightarrow> bool"
    by (metis add_less_cancel_left le_Suc_ex not_less trans_less_add1)
  then show ?thesis
    by (simp add: bit_or_iff bit_drop_bit_eq assms add.assoc add.left_commute)
qed

lemma bit_smear:
  fixes w :: u64
  shows "bit (fold (\<lambda>i cnt. cnt OR drop_bit i cnt) [1, 2, 4, 8, 16, 32] w) n \<longleftrightarrow>
    (\<exists>d < 64. bit w (n + d))"
proof -
  have s0: "bit w n \<longleftrightarrow> (\<exists>d < 1. bit w (n + d))" for n by simp
  note s1 = smear_step [OF s0, simplified one_add_one]
  note s2 = smear_step [OF s1, simplified]
  note s3 = smear_step [OF s2, simplified]
  note s4 = smear_step [OF s3, simplified]
  note s5 = smear_step [OF s4, simplified]
  note s6 = smear_step [OF s5, simplified]
  show ?thesis by (simp add: s6)
qed

lemma log_ex: "0 < (n :: nat) \<Longrightarrow> \<exists>d. 2 ^ d \<le> n \<and> n < 2 ^ Suc d"
  using ex_power_ivl1 [of 2 n] by auto

lemma tree_hash_cnt_pow:
  assumes "2 ^ d < count" and "count \<le> 2 ^ Suc d" and "count < 2 ^ 64"
  shows "tree_hash_cnt count = 2 ^ d"
proof -
  let ?w = "of_nat (count - 1) :: u64"
  let ?s = "fold (\<lambda>i cnt. cnt OR drop_bit i cnt) [1, 2, 4, 8, 16, 32] ?w"
  have d: "d < 64"
    using assms power_strict_increasing_iff [of "2 :: nat" d 64] by auto
  have bits: "bit ?w j \<longleftrightarrow> odd ((count - 1) div 2 ^ j)" for j
  proof -
    have "bit ?w j \<longleftrightarrow> bit (unat ?w) j" by (simp add: bit_unsigned_iff)
    also have "unat ?w = count - 1" using assms by (intro unat_of_nat_small) simp
    finally show ?thesis by (simp add: bit_iff_odd)
  qed
  have bd: "bit ?w d"
  proof -
    have "(count - 1) div 2 ^ d = 1"
      using assms by (intro div_nat_eqI) auto
    then show ?thesis unfolding bits by simp
  qed
  have hi: "\<not> bit ?w j" if "d < j" for j
  proof -
    have "count - 1 < 2 ^ Suc d" using assms by linarith
    also have "\<dots> \<le> 2 ^ j" using that by (intro power_increasing) auto
    finally show ?thesis unfolding bits by simp
  qed
  have "bit ?s n \<longleftrightarrow> n \<le> d" for n
  proof
    assume "bit ?s n"
    then show "n \<le> d" unfolding bit_smear using hi by (metis not_le trans_less_add1)
  next
    assume "n \<le> d"
    with bd d have "d - n < 64 \<and> bit ?w (n + (d - n))" by simp
    then show "bit ?s n" unfolding bit_smear by blast
  qed
  moreover define s where "s = ?s"
  ultimately have "bit s n \<longleftrightarrow> n \<le> d" for n by (simp only: s_def)
  then have "bit (s AND NOT (drop_bit 1 s)) n \<longleftrightarrow> n = d" for n
    using d by (auto simp: bit_simps)
  then have "s AND NOT (drop_bit 1 s) = 2 ^ d"
    using d by (intro bit_eqI) (simp add: bit_exp_iff)
  moreover have "unat ((2 :: u64) ^ d) = 2 ^ d"
    using unat_of_nat_small [where 'a = 64, of "2 ^ d"] d power_strict_increasing [of d 64 "2 :: nat"]
    by simp
  ultimately show ?thesis
    by (simp only: tree_hash_cnt_def Let_def s_def [symmetric])
qed

text \<open>The steps \<open>32, 16, 8, 4, 2, 1\<close> are the powers of two below \<open>sizeof(size_t) << 3\<close>.\<close>

lemma halving_steps: "[32, 16, 8, 4, 2, 1] = map (\<lambda>j. 2 ^ j :: nat) (rev [0..<6])"
  by (simp add: upt_rec)

lemma tree_depth_fold:
  fixes n :: nat
  assumes "c = n div 2 ^ depth" and "0 < c" and "c < 2 ^ 2 ^ m"
  shows "n div 2 ^ snd (fold (\<lambda>i (count, depth).
       if drop_bit i count > 0 then (drop_bit i count, depth + i) else (count, depth))
     (map (\<lambda>j. 2 ^ j) (rev [0..<m])) (c, depth)) = 1"
  using assms
proof (induction m arbitrary: c depth)
  case 0
  then show ?case by simp
next
  case (Suc m)
  show ?case
  proof (cases "drop_bit (2 ^ m) c > 0")
    case True
    have "drop_bit (2 ^ m) c = n div 2 ^ (depth + 2 ^ m)"
      using Suc.prems(1) by (simp add: drop_bit_eq_div div_mult2_eq power_add)
    moreover have "drop_bit (2 ^ m) c < 2 ^ 2 ^ m"
      using Suc.prems(3) by (simp add: drop_bit_eq_div less_mult_imp_div_less power_add mult_2)
    ultimately show ?thesis using Suc.IH [of "drop_bit (2 ^ m) c" "depth + 2 ^ m"] True by simp
  next
    case False
    then have "c < 2 ^ 2 ^ m" by (simp add: drop_bit_eq_div div_eq_0_iff)
    with Suc.IH [of c depth] Suc.prems False show ?thesis by simp
  qed
qed

lemma log_unique:
  assumes "2 ^ d \<le> n" and "n < 2 ^ Suc d" and "2 ^ e \<le> n" and "n < (2 :: nat) ^ Suc e"
  shows "e = d"
proof -
  have "(2 :: nat) ^ d < 2 ^ Suc e" and "(2 :: nat) ^ e < 2 ^ Suc d"
    using assms by linarith+
  then have "d < Suc e" and "e < Suc d" by (simp_all only: power_strict_increasing_iff one_less_numeral_iff semiring_norm)
  then show ?thesis by simp
qed

lemma tree_depth_log:
  assumes "2 ^ d \<le> count" and "count < 2 ^ Suc d" and "count < 2 ^ 64"
  shows "tree_depth count = Some d"
proof -
  define e where "e = snd (fold (\<lambda>i (count, depth).
       if drop_bit i count > 0 then (drop_bit i count, depth + i) else (count, depth))
     [32, 16, 8, 4, 2, 1] (count, 0))"
  have pos: "0 < count" using assms(1) by (metis gr0I le_zero_eq power_not_zero zero_neq_numeral)
  have "count div 2 ^ e = 1"
    unfolding halving_steps e_def using pos assms(3) by (intro tree_depth_fold) simp_all
  then have "count = 2 ^ e + count mod 2 ^ e"
    using div_mult_mod_eq [of count "2 ^ e"] by simp
  moreover have "count mod 2 ^ e < 2 ^ e" by simp
  ultimately have "2 ^ e \<le> count \<and> count < 2 ^ Suc e" unfolding power_Suc by linarith
  then have "e = d" using log_unique assms by blast
  with pos show ?thesis by (simp only: tree_depth_def e_def [symmetric]) simp
qed

lemma tree_branch_cnt_fold:
  fixes n :: nat
  assumes "cnt = 2 ^ depth" and "cnt \<le> n" and "n < cnt * 2 ^ 2 ^ m"
  shows "case fold (\<lambda>i (cnt, depth). if push_bit i cnt \<le> n then (push_bit i cnt, depth + i) else (cnt, depth))
     (map (\<lambda>j. 2 ^ j) (rev [0..<m])) (cnt, depth) of (cnt, depth) \<Rightarrow> cnt = 2 ^ depth \<and> cnt \<le> n \<and> n < cnt * 2"
  using assms
proof (induction m arbitrary: cnt depth)
  case 0
  then show ?case by simp
next
  case (Suc m)
  show ?case
  proof (cases "push_bit (2 ^ m) cnt \<le> n")
    case True
    moreover have "push_bit (2 ^ m) cnt = 2 ^ (depth + 2 ^ m)"
      using Suc.prems(1) by (simp add: push_bit_eq_mult power_add)
    moreover have "n < push_bit (2 ^ m) cnt * 2 ^ 2 ^ m"
      using Suc.prems(3) by (simp add: push_bit_eq_mult power_add mult_2 mult.assoc)
    ultimately show ?thesis using Suc.IH [of "push_bit (2 ^ m) cnt" "depth + 2 ^ m"] by simp
  next
    case False
    then have "n < cnt * 2 ^ 2 ^ m" by (simp add: push_bit_eq_mult)
    with Suc.IH [of cnt depth] Suc.prems False show ?thesis by simp
  qed
qed

lemma tree_branch_cnt_log:
  assumes "2 ^ d \<le> count" and "count < 2 ^ Suc d" and "count < 2 ^ 64"
  shows "tree_branch_cnt count = (2 ^ d, d)"
proof -
  obtain cnt e where ce: "tree_branch_cnt count = (cnt, e)" by fastforce
  have "0 < count" using assms(1) by (metis gr0I le_zero_eq power_not_zero zero_neq_numeral)
  then have "case tree_branch_cnt count of (cnt, depth) \<Rightarrow> cnt = 2 ^ depth \<and> cnt \<le> count \<and> count < cnt * 2"
    unfolding tree_branch_cnt_def halving_steps using assms(3) by (intro tree_branch_cnt_fold) simp_all
  with ce have "cnt = 2 ^ e" "2 ^ e \<le> count" "count < 2 ^ Suc e" by auto
  with ce log_unique assms show ?thesis by blast
qed

section \<open>The tree\<close>

datatype mtree = Leaf bytes | Node mtree mtree

primrec mroot :: "mtree \<Rightarrow> bytes" where
  "mroot (Leaf h) = h"
| "mroot (Node l r) = hash_pair (mroot l) (mroot r)"

primrec mleaves :: "mtree \<Rightarrow> bytes list" where
  "mleaves (Leaf h) = [h]"
| "mleaves (Node l r) = mleaves l @ mleaves r"

text \<open>
  \<open>mbranch t p\<close> follows the directions \<open>p\<close> (\<open>True\<close> is right) and gives the digest of the subtree it
  ends in and the digests of the siblings passed on the way, from the root down.
\<close>

fun mbranch :: "mtree \<Rightarrow> bool list \<Rightarrow> (bytes \<times> bytes list) option" where
  "mbranch t [] = Some (mroot t, [])"
| "mbranch (Leaf h) (b # p) = None"
| "mbranch (Node l r) (b # p) =
     (case mbranch (if b then r else l) p of
        None \<Rightarrow> None
      | Some (h, br) \<Rightarrow> Some (h, mroot (if b then l else r) # br))"

text \<open>The tree of CryptoNote: a complete tree over \<open>2 ^ d\<close> nodes, the first of which are leaves and the
  others pairs of leaves.\<close>

fun pair_up :: "('a \<Rightarrow> 'a \<Rightarrow> 'b) \<Rightarrow> 'a list \<Rightarrow> 'b list" where
  "pair_up f (x # y # xs) = f x y # pair_up f xs"
| "pair_up f xs = []"

primrec complete_tree :: "nat \<Rightarrow> mtree list \<Rightarrow> mtree" where
  "complete_tree 0 ts = hd ts"
| "complete_tree (Suc d) ts = Node (complete_tree d (take (2 ^ d) ts)) (complete_tree d (drop (2 ^ d) ts))"

definition base_layer :: "nat \<Rightarrow> bytes list \<Rightarrow> mtree list" where
  "base_layer d hashes =
     (let k = 2 ^ Suc d - length hashes
      in map Leaf (take k hashes) @ pair_up Node (map Leaf (drop k hashes)))"

definition merkle_tree :: "nat \<Rightarrow> bytes list \<Rightarrow> mtree" where
  "merkle_tree d hashes = complete_tree d (base_layer d hashes)"

subsection \<open>Its shape\<close>

lemma length_pair_up [simp]: "length (pair_up f xs) = length xs div 2"
  by (induction f xs rule: pair_up.induct) auto

lemma nth_pair_up: "2 * j + 1 < length xs \<Longrightarrow> pair_up f xs ! j = f (xs ! (2 * j)) (xs ! (2 * j + 1))"
proof (induction f xs arbitrary: j rule: pair_up.induct)
  case (1 f x y xs)
  then show ?case by (cases j) auto
qed auto

lemma pair_up_append: "even (length xs) \<Longrightarrow> pair_up f (xs @ ys) = pair_up f xs @ pair_up f ys"
  by (induction f xs rule: pair_up.induct) auto

lemma map_pair_up: "map g (pair_up f xs) = pair_up (\<lambda>x y. g (f x y)) xs"
  by (induction f xs rule: pair_up.induct) auto

lemma pair_up_map: "pair_up f (map g xs) = pair_up (\<lambda>x y. f (g x) (g y)) xs"
  by (induction "\<lambda>x y. f (g x) (g y)" xs rule: pair_up.induct) auto

lemma complete_pair_up:
  "length ts = 2 ^ Suc d \<Longrightarrow> complete_tree (Suc d) ts = complete_tree d (pair_up Node ts)"
proof (induction d arbitrary: ts)
  case 0
  then obtain a b where "ts = [a, b]" by (auto simp: length_Suc_conv eval_nat_numeral)
  then show ?case by simp
next
  case (Suc d)
  let ?l = "take (2 ^ Suc d) ts" and ?r = "drop (2 ^ Suc d) ts"
  have "pair_up Node ts = pair_up Node ?l @ pair_up Node ?r"
    using Suc.prems pair_up_append [of ?l Node ?r] by simp
  moreover have "length (pair_up Node ?l) = 2 ^ d" using Suc.prems by simp
  ultimately have "complete_tree (Suc d) (pair_up Node ts) = Node (complete_tree d (pair_up Node ?l)) (complete_tree d (pair_up Node ?r))"
    by simp
  also have "\<dots> = Node (complete_tree (Suc d) ?l) (complete_tree (Suc d) ?r)"
  proof -
    have "complete_tree (Suc d) ?l = complete_tree d (pair_up Node ?l)" "complete_tree (Suc d) ?r = complete_tree d (pair_up Node ?r)"
      by (rule Suc.IH, use Suc.prems in simp)+
    then show ?thesis by (simp only:)
  qed
  finally show ?case by simp
qed

lemma mleaves_complete: "length ts = 2 ^ d \<Longrightarrow> mleaves (complete_tree d ts) = concat (map mleaves ts)"
proof (induction d arbitrary: ts)
  case 0
  then show ?case by (cases ts) auto
next
  case (Suc d)
  then have "mleaves (complete_tree (Suc d) ts) =
      concat (map mleaves (take (2 ^ d) ts)) @ concat (map mleaves (drop (2 ^ d) ts))"
    by simp
  also have "\<dots> = concat (map mleaves ts)"
    by (metis append_take_drop_id concat_append map_append)
  finally show ?case .
qed

lemma mleaves_pair_up: "even (length hs) \<Longrightarrow> concat (map mleaves (pair_up Node (map Leaf hs))) = hs"
  by (induction Node "map Leaf hs" arbitrary: hs rule: pair_up.induct) auto

lemma length_base_layer:
  "2 ^ d \<le> length hashes \<Longrightarrow> length hashes \<le> 2 ^ Suc d \<Longrightarrow> length (base_layer d hashes) = 2 ^ d"
  by (auto simp: base_layer_def Let_def)

lemma mleaves_merkle_tree:
  assumes "2 ^ d \<le> length hashes" and "length hashes \<le> 2 ^ Suc d"
  shows "mleaves (merkle_tree d hashes) = hashes"
proof -
  let ?k = "2 ^ Suc d - length hashes"
  have "even (length (drop ?k hashes))"
    using assms by (simp add: algebra_simps)
  then have "concat (map mleaves (base_layer d hashes)) = take ?k hashes @ drop ?k hashes"
    by (simp add: base_layer_def Let_def mleaves_pair_up comp_def)
  with assms show ?thesis
    by (simp add: merkle_tree_def mleaves_complete length_base_layer)
qed

subsection \<open>The layers\<close>

lemma pair_up_take_Suc:
  assumes "2 * m + 2 \<le> length xs"
  shows "pair_up f (take (2 * Suc m) xs) = pair_up f (take (2 * m) xs) @ [f (xs ! (2 * m)) (xs ! (2 * m + 1))]"
proof -
  have "take (2 * Suc m) xs = take (2 * m) xs @ [xs ! (2 * m), xs ! (2 * m + 1)]"
    using assms by (simp add: take_Suc_conv_app_nth)
  moreover have "even (length (take (2 * m) xs))" using assms by simp
  ultimately show ?thesis by (simp only: pair_up_append) simp
qed

lemma tree_first_layer:
  "i0 + 2 * m \<le> length hashes \<Longrightarrow> j0 + m \<le> length ints \<Longrightarrow>
   tree_first_layer hashes i0 j0 (j0 + m) ints =
     (i0 + 2 * m, take j0 ints @ pair_up hash_pair (take (2 * m) (drop i0 hashes)) @ drop (j0 + m) ints)"
proof (induction m)
  case 0
  then show ?case by (simp add: tree_first_layer_def)
next
  case (Suc m)
  let ?P = "pair_up hash_pair (take (2 * m) (drop i0 hashes))"
  have len: "length ?P = m" using Suc.prems by simp
  have "tree_first_layer hashes i0 j0 (j0 + Suc m) ints =
      (i0 + 2 * Suc m, (take j0 ints @ ?P @ drop (j0 + m) ints)[j0 + m := hash_pair_at hashes (i0 + 2 * m)])"
    using Suc by (simp add: tree_first_layer_def)
  moreover have "(take j0 ints @ ?P @ drop (j0 + m) ints)[j0 + m := hash_pair_at hashes (i0 + 2 * m)] =
      take j0 ints @ ?P @ hash_pair_at hashes (i0 + 2 * m) # drop (j0 + Suc m) ints"
    using Suc.prems len by (simp add: list_update_append Cons_nth_drop_Suc [symmetric])
  moreover have "pair_up hash_pair (take (2 * Suc m) (drop i0 hashes)) = ?P @ [hash_pair_at hashes (i0 + 2 * m)]"
    using Suc.prems pair_up_take_Suc [of m "drop i0 hashes" hash_pair] by simp
  ultimately show ?case by simp
qed

lemma tree_layer_loop:
  "i0 + 2 * n \<le> length ints \<Longrightarrow>
   fold (\<lambda>j (i, ints). (i + 2, ints[j := hash_pair_at ints i])) [0..<n] (i0, ints) =
     (i0 + 2 * n, pair_up hash_pair (take (2 * n) (drop i0 ints)) @ drop n ints)"
proof (induction n)
  case 0
  then show ?case by simp
next
  case (Suc n)
  let ?P = "pair_up hash_pair (take (2 * n) (drop i0 ints))"
  have len: "length ?P = n" using Suc.prems by simp
  have nths: "(?P @ drop n ints) ! m = ints ! m" if "n \<le> m" for m
    using Suc.prems len that by (simp add: nth_append)
  have "fold (\<lambda>j (i, ints). (i + 2, ints[j := hash_pair_at ints i])) [0..<Suc n] (i0, ints) =
      (i0 + 2 * Suc n, (?P @ drop n ints)[n := hash_pair_at ints (i0 + 2 * n)])"
    using Suc nths by simp
  moreover have "(?P @ drop n ints)[n := hash_pair_at ints (i0 + 2 * n)] =
      ?P @ hash_pair_at ints (i0 + 2 * n) # drop (Suc n) ints"
    using Suc.prems len by (simp add: list_update_append Cons_nth_drop_Suc [symmetric])
  moreover have "pair_up hash_pair (take (2 * Suc n) (drop i0 ints)) = ?P @ [hash_pair_at ints (i0 + 2 * n)]"
    using Suc.prems pair_up_take_Suc [of n "drop i0 ints" hash_pair] by simp
  ultimately show ?case by simp
qed

lemma take_tree_layer:
  "i0 + 2 * n \<le> length ints \<Longrightarrow>
     take n (tree_layer i0 n ints) = pair_up hash_pair (take (2 * n) (drop i0 ints))"
  unfolding tree_layer_def by (subst tree_layer_loop) simp_all

lemma length_tree_layer: "i0 + 2 * n \<le> length ints \<Longrightarrow> length (tree_layer i0 n ints) = length ints"
  unfolding tree_layer_def by (subst tree_layer_loop) simp_all

lemma map_mroot_pair_up: "map mroot (pair_up Node ts) = pair_up hash_pair (map mroot ts)"
  by (simp add: map_pair_up pair_up_map)

lemma tree_hash_layers_root:
  assumes "length ts = 2 ^ Suc d" and "take (2 ^ Suc d) ints = map mroot ts"
  shows "hash_pair_at (tree_hash_layers (2 ^ Suc d) ints) 0 = mroot (complete_tree (Suc d) ts)"
  using assms
proof (induction d arbitrary: ts ints)
  case 0
  then obtain a b where "ts = [a, b]" by (auto simp: length_Suc_conv eval_nat_numeral)
  moreover from this 0 have "take 2 ints = [mroot a, mroot b]" by simp
  then have "ints ! 0 = mroot a" "ints ! 1 = mroot b"
    by (metis nth_Cons_0 nth_take zero_less_numeral, metis nth_Cons_0 nth_Cons_Suc nth_take One_nat_def one_less_numeral_iff semiring_norm(76))
  ultimately show ?case by (simp add: tree_hash_layers.simps)
next
  case (Suc d)
  let ?ints = "tree_layer 0 (2 ^ Suc d) ints"
  have len: "2 ^ Suc (Suc d) \<le> length ints"
    using arg_cong [OF Suc.prems(2), of length] Suc.prems(1) by simp
  have "tree_hash_layers (2 ^ Suc (Suc d)) ints = tree_hash_layers (2 ^ Suc d) ?ints"
  proof -
    have "2 < (2 :: nat) ^ Suc (Suc d)" using one_less_power [of "2 :: nat" "Suc d"] by simp
    moreover have "drop_bit 1 ((2 :: nat) ^ Suc (Suc d)) = 2 ^ Suc d" by (simp add: drop_bit_eq_div)
    ultimately show ?thesis by (simp only: tree_hash_layers.simps [of "2 ^ Suc (Suc d)"] if_True)
  qed
  moreover have "take (2 ^ Suc d) ?ints = map mroot (pair_up Node ts)"
    using len Suc.prems(2) by (simp add: take_tree_layer map_mroot_pair_up)
  moreover have "length (pair_up Node ts) = 2 ^ Suc d" using Suc.prems(1) by simp
  ultimately show ?case
    using Suc.IH [of "pair_up Node ts" ?ints] complete_pair_up [OF Suc.prems(1)] by simp
qed

lemma tree_hash_root:
  assumes "2 ^ d < length hashes" and "length hashes \<le> 2 ^ Suc d" and "length hashes < 2 ^ 64"
  shows "tree_hash junk hashes = Some (mroot (merkle_tree d hashes))"
proof (cases "length hashes = 2")
  case True
  then obtain a b where hs: "hashes = [a, b]" by (auto simp: length_Suc_conv eval_nat_numeral)
  have "d = 0" using assms True by (cases d) auto
  with hs show ?thesis
    by (simp add: tree_hash_def merkle_tree_def base_layer_def)
next
  case False
  with assms obtain e where d: "d = Suc e" by (cases d) auto
  let ?k = "2 * 2 ^ d - length hashes"
  let ?ints = "take ?k hashes @ map junk [?k..<2 ^ d]"
  let ?P = "take ?k hashes @ pair_up hash_pair (drop ?k hashes)"
  have k: "?k + 2 * (2 ^ d - ?k) = length hashes" "?k + (2 ^ d - ?k) = 2 ^ d" "?k \<le> length hashes"
    using assms by auto
  have "tree_first_layer hashes ?k ?k (2 ^ d) ?ints = (length hashes, ?P)"
    using tree_first_layer [of ?k "2 ^ d - ?k" hashes ?k ?ints] k by simp
  moreover have layer: "?P = map mroot (base_layer d hashes)"
    by (simp add: base_layer_def Let_def map_mroot_pair_up comp_def)
  moreover have len: "length (base_layer d hashes) = 2 ^ d"
    using assms by (intro length_base_layer) auto
  moreover have "hash_pair_at (tree_hash_layers (2 ^ d) ?P) 0 = mroot (complete_tree d (base_layer d hashes))"
    unfolding d using len layer unfolding d by (intro tree_hash_layers_root) simp_all
  moreover have "tree_hash_cnt (length hashes) = 2 ^ d" using assms by (rule tree_hash_cnt_pow)
  moreover have "length hashes \<noteq> 0" "length hashes \<noteq> 1" using assms by auto
  ultimately show ?thesis using False by (simp add: tree_hash_def merkle_tree_def Let_def)
qed

text \<open>A power of two leaves: one layer more or less gives the same tree.\<close>

lemma merkle_tree_pow:
  assumes "length hashes = 2 ^ Suc d"
  shows "merkle_tree (Suc d) hashes = merkle_tree d hashes"
proof -
  have "base_layer (Suc d) hashes = map Leaf hashes" "base_layer d hashes = pair_up Node (map Leaf hashes)"
    using assms by (simp_all add: base_layer_def Let_def)
  with complete_pair_up [of "map Leaf hashes" d] assms show ?thesis by (simp add: merkle_tree_def)
qed

lemma tree_hash_merkle:
  assumes "2 ^ d \<le> length hashes" and "length hashes < 2 ^ Suc d" and "length hashes < 2 ^ 64"
  shows "tree_hash junk hashes = Some (mroot (merkle_tree d hashes))"
proof (cases "length hashes = 2 ^ d")
  case False
  with assms show ?thesis by (intro tree_hash_root) auto
next
  case True
  show ?thesis
  proof (cases d)
    case 0
    with True obtain h where "hashes = [h]" by (auto simp: length_Suc_conv)
    with 0 show ?thesis by (simp add: tree_hash_def merkle_tree_def base_layer_def)
  next
    case (Suc e)
    then have "tree_hash junk hashes = Some (mroot (merkle_tree e hashes))"
      using True assms(3) by (intro tree_hash_root) auto
    with merkle_tree_pow [of hashes e] True Suc show ?thesis by simp
  qed
qed

section \<open>Branches\<close>

text \<open>The siblings of the leftmost path of a complete tree.\<close>

primrec left_siblings :: "nat \<Rightarrow> mtree list \<Rightarrow> bytes list" where
  "left_siblings 0 ts = []"
| "left_siblings (Suc d) ts = mroot (complete_tree d (drop (2 ^ d) ts)) # left_siblings d (take (2 ^ d) ts)"

lemma length_left_siblings [simp]: "length (left_siblings d ts) = d"
  by (induction d arbitrary: ts) auto

lemma mbranch_complete:
  "length ts = 2 ^ d \<Longrightarrow>
     mbranch (complete_tree d ts) (replicate d False) = Some (mroot (hd ts), left_siblings d ts)"
proof (induction d arbitrary: ts)
  case (Suc d)
  then have "hd (take (2 ^ d) ts) = hd ts" by simp
  with Suc show ?case by simp
qed simp

lemma left_siblings_pair_up:
  "length ts = 2 ^ Suc d \<Longrightarrow>
     left_siblings (Suc d) ts = left_siblings d (pair_up Node ts) @ [mroot (ts ! 1)]"
proof (induction d arbitrary: ts)
  case 0
  then obtain a b where "ts = [a, b]" by (auto simp: length_Suc_conv eval_nat_numeral)
  then show ?case by simp
next
  case (Suc d)
  let ?l = "take (2 ^ Suc d) ts" and ?r = "drop (2 ^ Suc d) ts"
  have pu: "pair_up Node ts = pair_up Node ?l @ pair_up Node ?r"
    using Suc.prems pair_up_append [of ?l Node ?r] by simp
  have l: "left_siblings (Suc d) ?l = left_siblings d (pair_up Node ?l) @ [mroot (?l ! 1)]"
    by (rule Suc.IH) (use Suc.prems in simp)
  have r: "complete_tree (Suc d) ?r = complete_tree d (pair_up Node ?r)"
    by (rule complete_pair_up) (use Suc.prems in simp)
  have "(1 :: nat) < 2 ^ Suc d" by (rule one_less_power) simp_all
  then have "?l ! 1 = ts ! 1" by (rule nth_take)
  moreover have "length (pair_up Node ?l) = 2 ^ d" using Suc.prems by simp
  ultimately show ?case using l r pu by (simp only: left_siblings.simps) simp
qed

lemma tree_branch_layers_siblings:
  assumes "length ts = 2 ^ d" and "take (2 ^ d - 1) ints = map mroot (tl ts)" and "d \<le> length branch"
  shows "tree_branch_layers (2 ^ d) d ints branch = Some (left_siblings d ts @ drop d branch)"
  using assms
proof (induction d arbitrary: ts ints branch)
  case 0
  then show ?case by simp
next
  case (Suc d)
  obtain a b ts' where ts: "ts = a # b # ts'"
    using Suc.prems(1) by (cases ts; cases "tl ts"; simp)
  let ?ints = "tree_layer 1 (2 ^ d - 1) ints"
  have len: "2 ^ Suc d - 1 \<le> length ints"
    using arg_cong [OF Suc.prems(2), of length] Suc.prems(1) by simp
  have pow: "2 ^ Suc d - 1 = Suc (2 * (2 ^ d - 1))"
    by (cases "(2 :: nat) ^ d") simp_all
  have ints: "take (2 * (2 ^ d - 1)) (drop 1 ints) = map mroot ts'" "ints ! 0 = mroot b"
    using Suc.prems(2) unfolding pow ts by (cases ints; simp)+
  have "take (2 ^ d - 1) ?ints = map mroot (tl (pair_up Node ts))"
    using len pow ints(1) by (simp add: take_tree_layer ts map_mroot_pair_up)
  moreover have "length (pair_up Node ts) = 2 ^ d" using Suc.prems(1) by simp
  ultimately have "tree_branch_layers (2 ^ d) d ?ints (branch[d := ints ! 0]) =
      Some (left_siblings d (pair_up Node ts) @ drop d (branch[d := ints ! 0]))"
    using Suc.prems(3) by (intro Suc.IH) simp_all
  moreover have "drop d (branch[d := ints ! 0]) = mroot (ts ! 1) # drop (Suc d) branch"
    using Suc.prems(3) ints ts by (simp add: drop_update_swap Cons_nth_drop_Suc [symmetric])
  ultimately show ?case
    using left_siblings_pair_up [OF Suc.prems(1)]
    by (simp add: Let_def drop_bit_eq_div push_bit_eq_mult del: left_siblings.simps)
qed

lemma tree_branch_siblings:
  assumes "2 ^ d \<le> length hashes" and "length hashes < 2 ^ Suc d" and "length hashes < 2 ^ 64"
    and "d \<le> length branch"
  shows "tree_branch junk hashes branch = Some (left_siblings d (base_layer d hashes) @ drop d branch)"
proof -
  let ?k = "2 * 2 ^ d - length hashes"
  let ?ints = "take (?k - 1) (drop 1 hashes) @ map junk [?k - 1..<2 ^ d - 1]"
  let ?P = "take (?k - 1) (drop 1 hashes) @ pair_up hash_pair (drop ?k hashes)"
  have k: "?k + 2 * (2 ^ d - ?k) = length hashes" "?k - 1 + (2 ^ d - ?k) = 2 ^ d - 1" "?k \<le> length hashes"
    "0 < ?k" "?k \<le> 2 ^ d" "hashes \<noteq> []"
    using assms by auto
  have first: "tree_first_layer hashes ?k (?k - 1) (2 ^ d - 1) ?ints = (length hashes, ?P)"
    using tree_first_layer [of ?k "2 ^ d - ?k" hashes "?k - 1" ?ints] k by simp
  have len: "length (base_layer d hashes) = 2 ^ d"
    using assms by (intro length_base_layer) auto
  have "?P = map mroot (tl (base_layer d hashes))"
    using k by (cases hashes) (auto simp: base_layer_def Let_def map_mroot_pair_up comp_def take_Cons' tl_append map_tl)
  then have "tree_branch_layers (2 ^ d) d ?P branch = Some (left_siblings d (base_layer d hashes) @ drop d branch)"
    using len assms(4) by (intro tree_branch_layers_siblings) simp_all
  moreover have "tree_branch_cnt (length hashes) = (2 ^ d, d)" "tree_depth (length hashes) = Some d"
    using assms by (auto intro: tree_branch_cnt_log tree_depth_log)
  ultimately show ?thesis
    using first k by (simp add: tree_branch_def Let_def push_bit_eq_mult)
qed

section \<open>From a branch to the root\<close>

text \<open>
  The digest at level \<open>i\<close> of a branch of \<open>n\<close> siblings above \<open>x\<close>, and the 64 bytes hashed to get it;
  \<open>right i\<close> tells that the path turns right at level \<open>i\<close>.
\<close>

definition branch_node :: "bytes list \<Rightarrow> (nat \<Rightarrow> bool) \<Rightarrow> nat \<Rightarrow> bytes \<Rightarrow> bytes" where
  "branch_node br right i x = (if right i then hash_pair (br ! i) x else hash_pair x (br ! i))"

definition climb_branch :: "bytes list \<Rightarrow> (nat \<Rightarrow> bool) \<Rightarrow> nat \<Rightarrow> bytes \<Rightarrow> nat \<Rightarrow> bytes" where
  "climb_branch br right n x i = fold (branch_node br right) (rev [i..<n]) x"

definition branch_input :: "bytes list \<Rightarrow> (nat \<Rightarrow> bool) \<Rightarrow> nat \<Rightarrow> bytes \<Rightarrow> nat \<Rightarrow> bytes" where
  "branch_input br right n x i =
     (let y = climb_branch br right n x (Suc i) in if right i then br ! i @ y else y @ br ! i)"

lemma climb_top [simp]: "climb_branch br right n x n = x"
  by (simp add: climb_branch_def)

lemma climb_step: "i < n \<Longrightarrow> climb_branch br right n x i = branch_node br right i (climb_branch br right n x (Suc i))"
  by (simp add: climb_branch_def upt_conv_Cons)

lemma climb_input:
  "i < n \<Longrightarrow> climb_branch br right n x i = the (cn_fast_hash (branch_input br right n x i) (2 * HASH_SIZE))"
  by (simp add: climb_step branch_node_def branch_input_def hash_pair_def Let_def)

lemma climb_Cons:
  "climb_branch (s # br) right (Suc n) x 0 = branch_node [s] right 0 (climb_branch br (\<lambda>i. right (Suc i)) n x 0)"
proof -
  have "rev [0..<Suc n] = map Suc (rev [0..<n]) @ [0]"
    by (simp add: rev_map [symmetric] map_Suc_upt upt_conv_Cons del: upt_Suc)
  moreover have "(\<lambda>i. branch_node (s # br) right (Suc i)) = branch_node br (\<lambda>i. right (Suc i))"
    by (simp add: branch_node_def fun_eq_iff)
  ultimately show ?thesis
    by (simp add: climb_branch_def fold_map comp_def del: upt_Suc) (simp add: branch_node_def)
qed

lemma climb_append: "length br = n \<Longrightarrow> climb_branch (br @ rest) right n x 0 = climb_branch br right n x 0"
  unfolding climb_branch_def by (rule fold_cong) (auto simp: branch_node_def nth_append)

lemma from_branch_loop_climb:
  "case_prod hash_pair (from_branch_loop br path leaf n False buffer) =
     climb_branch br (path_right path) n (case_prod hash_pair buffer) 0"
proof (induction n arbitrary: buffer)
  case (Suc n)
  then show ?case by (cases buffer) (simp add: Let_def climb_branch_def branch_node_def)
qed (simp add: climb_branch_def)

lemma tree_hash_from_branch_climb:
  "tree_hash_from_branch junk br n leaf path = climb_branch br (path_right path) n leaf 0"
proof (cases n)
  case (Suc m)
  then show ?thesis
    by (simp add: tree_hash_from_branch_def Let_def from_branch_loop_climb climb_branch_def branch_node_def)
qed (simp add: tree_hash_from_branch_def climb_branch_def)

lemma climb_mbranch:
  "mbranch t p = Some (h, br) \<Longrightarrow> (\<And>i. i < length p \<Longrightarrow> right i = p ! i) \<Longrightarrow>
     climb_branch br right (length p) h 0 = mroot t"
proof (induction t p arbitrary: h br right rule: mbranch.induct)
  case (3 l r b p)
  let ?t = "if b then r else l"
  obtain br' where br: "mbranch ?t p = Some (h, br')" "br = mroot (if b then l else r) # br'"
    using "3.prems"(1) by (auto split: option.splits)
  have "climb_branch br' (\<lambda>i. right (Suc i)) (length p) h 0 = mroot ?t"
    by (rule "3.IH" [OF br(1)]) (use "3.prems"(2) in fastforce)
  moreover have "right 0 = b" using "3.prems"(2) [of 0] by simp
  ultimately show ?case
    using climb_Cons [of "mroot (if b then l else r)" br' right "length p" h] br(2)
    by (simp add: branch_node_def)
qed (simp_all add: climb_branch_def)

lemma path_right_None: "path_right None i = False"
  by (simp add: path_right_def)

lemma path_right_Some: "path_right (Some p) i \<longleftrightarrow> bit (p ! (i div 8)) (i mod 8)"
proof -
  have "push_bit n 1 AND w \<noteq> 0 \<longleftrightarrow> bit w n" if "n < 8" for w :: u8 and n
    using that by (simp add: and_exp_eq_0_iff_not_bit and.commute)
  then show ?thesis
    by (simp add: path_right_def drop_bit_eq_div and.commute)
qed

lemma length_hash_pair:
  assumes "length x = 32" and "length y = 32"
  shows "length (hash_pair x y) = 32"
  using assms cn_fast_hash_SHA3 [of "x @ y"] by (simp add: hash_pair_def HASH_SIZE_def)

lemma length_climb:
  assumes "length x = 32" and "\<forall>s \<in> set br. length s = 32" and "n \<le> length br" and "i \<le> n"
  shows "length (climb_branch br right n x i) = 32"
  using assms(4)
proof (induction rule: inc_induct)
  case (step m)
  then have "length (br ! m) = 32" using assms by simp
  with step show ?case by (simp add: climb_step branch_node_def length_hash_pair)
qed (simp add: assms)

text \<open>Two branches with the same root differ in a level where they hash different inputs to the same digest.\<close>

lemma climb_collision:
  assumes "length x = 32" "length y = 32" "\<forall>s \<in> set br \<union> set cr. length s = 32"
    and "n \<le> length br" "n \<le> length cr"
    and root: "climb_branch br right n x 0 = climb_branch cr right n y 0"
    and none: "\<And>i. i < n \<Longrightarrow> branch_input br right n x i \<noteq> branch_input cr right n y i \<Longrightarrow>
      cn_fast_hash (branch_input br right n x i) 64 \<noteq> cn_fast_hash (branch_input cr right n y i) 64"
  shows "x = y \<and> take n br = take n cr"
proof -
  have len: "length (climb_branch br right n x i) = 32" "length (climb_branch cr right n y i) = 32" if "i \<le> n" for i
    using assms that by (auto intro: length_climb)
  have inputs: "length (branch_input br right n x i) = 64" "length (branch_input cr right n y i) = 64"
    if "i < n" for i
    using that assms len [of "Suc i"] by (auto simp: branch_input_def Let_def)
  have step: "climb_branch br right n x (Suc i) = climb_branch cr right n y (Suc i) \<and> br ! i = cr ! i"
    if "i < n" and eq: "climb_branch br right n x i = climb_branch cr right n y i" for i
  proof -
    have "cn_fast_hash (branch_input br right n x i) 64 = cn_fast_hash (branch_input cr right n y i) 64"
      using eq inputs [OF \<open>i < n\<close>] cn_fast_hash_SHA3(1) [of "branch_input br right n x i"]
        cn_fast_hash_SHA3(1) [of "branch_input cr right n y i"]
      by (simp add: climb_input \<open>i < n\<close> HASH_SIZE_def)
    with none \<open>i < n\<close> have "branch_input br right n x i = branch_input cr right n y i" by blast
    moreover have "length (br ! i) = 32" "length (cr ! i) = 32"
      using assms \<open>i < n\<close> by auto
    ultimately show ?thesis
      using len [of "Suc i"] \<open>i < n\<close> by (auto simp: branch_input_def Let_def split: if_splits)
  qed
  have levels: "climb_branch br right n x i = climb_branch cr right n y i" if "i \<le> n" for i
    using that by (induction i) (auto simp: root step)
  have "take n br = take n cr"
    using assms(4,5) levels step by (intro nth_equalityI) auto
  with levels [of n] show ?thesis by simp
qed

end
