(* ===== verification/Chacha8.thy ===== *)
theory Chacha8
  imports Prelude
begin

unbundle bit_operations_syntax

text \<open>
  ChaCha with eight rounds in two versions, both in \<open>src/src/Native/libzanonote/crypto\<close>:
  \<open>chacha8.c\<close> works on sixteen local variables and encrypts a whole message under a key and a nonce,
  \<open>chacha8_stream.c\<close> works on an array behind the ECRYPT interface and keeps its state between calls.
  The state is a list of sixteen 32-bit words; words 12 and 13 are the block counter.

  The lemmas show that both core functions are the same, that the two counter words are one 64-bit
  counter, and that both encrypt by the exclusive-or with the same key stream.
\<close>

section \<open>The version on local variables\<close>

definition QUARTERROUND :: "u32 \<Rightarrow> u32 \<Rightarrow> u32 \<Rightarrow> u32 \<Rightarrow> u32 \<times> u32 \<times> u32 \<times> u32" where
  "QUARTERROUND a b c d =
     (let a = a + b; d = rol32 (d XOR a) 16;
          c = c + d; b = rol32 (b XOR c) 12;
          a = a + b; d = rol32 (d XOR a) 8;
          c = c + d; b = rol32 (b XOR c) 7
      in (a, b, c, d))"

text \<open>The string \<open>"expand 32-byte k"\<close>.\<close>

definition chacha_sigma :: bytes where
  "chacha_sigma = [0x65, 0x78, 0x70, 0x61, 0x6e, 0x64, 0x20, 0x33, 0x32, 0x2d, 0x62, 0x79, 0x74, 0x65, 0x20, 0x6b]"

definition U8TO32_LITTLE :: "bytes \<Rightarrow> nat \<Rightarrow> u32" where
  "U8TO32_LITTLE p i = le_word (take 4 (drop i p))"

text \<open>The body of \<open>for (i = 8; i > 0; i -= 2)\<close>.\<close>

definition double_round :: "u32 list \<Rightarrow> u32 list" where
  "double_round x =
     (let x0 = x ! 0; x1 = x ! 1; x2 = x ! 2; x3 = x ! 3;
          x4 = x ! 4; x5 = x ! 5; x6 = x ! 6; x7 = x ! 7;
          x8 = x ! 8; x9 = x ! 9; x10 = x ! 10; x11 = x ! 11;
          x12 = x ! 12; x13 = x ! 13; x14 = x ! 14; x15 = x ! 15;
          (x0, x4, x8, x12) = QUARTERROUND x0 x4 x8 x12;
          (x1, x5, x9, x13) = QUARTERROUND x1 x5 x9 x13;
          (x2, x6, x10, x14) = QUARTERROUND x2 x6 x10 x14;
          (x3, x7, x11, x15) = QUARTERROUND x3 x7 x11 x15;
          (x0, x5, x10, x15) = QUARTERROUND x0 x5 x10 x15;
          (x1, x6, x11, x12) = QUARTERROUND x1 x6 x11 x12;
          (x2, x7, x8, x13) = QUARTERROUND x2 x7 x8 x13;
          (x3, x4, x9, x14) = QUARTERROUND x3 x4 x9 x14
      in [x0, x1, x2, x3, x4, x5, x6, x7, x8, x9, x10, x11, x12, x13, x14, x15])"

definition chacha8_core :: "u32 list \<Rightarrow> u32 list" where
  "chacha8_core j = (let x = (double_round ^^ 4) j in map2 (+) x j)"

text \<open>\<open>j0 \<dots> j15\<close> before the loop.\<close>

definition chacha8_init :: "bytes \<Rightarrow> bytes \<Rightarrow> u32 list" where
  "chacha8_init key iv =
     [U8TO32_LITTLE chacha_sigma 0, U8TO32_LITTLE chacha_sigma 4, U8TO32_LITTLE chacha_sigma 8,
      U8TO32_LITTLE chacha_sigma 12,
      U8TO32_LITTLE key 0, U8TO32_LITTLE key 4, U8TO32_LITTLE key 8, U8TO32_LITTLE key 12,
      U8TO32_LITTLE key 16, U8TO32_LITTLE key 20, U8TO32_LITTLE key 24, U8TO32_LITTLE key 28,
      0, 0, U8TO32_LITTLE iv 0, U8TO32_LITTLE iv 4]"

definition chacha8_count :: "u32 list \<Rightarrow> u32 list" where
  "chacha8_count j =
     (let j = j[12 := j ! 12 + 1] in if j ! 12 = 0 then j[13 := j ! 13 + 1] else j)"

text \<open>
  The loop over the blocks; \<open>tmp\<close> is the local buffer of 64 bytes, which the last, short block is
  copied into and encrypted in. The result is what is written to \<open>cipher\<close>.
\<close>

function chacha8_loop :: "bytes \<Rightarrow> u32 list \<Rightarrow> bytes \<Rightarrow> bytes" where
  "chacha8_loop tmp j msg =
     (let block = (if length msg < 64 then copy_at tmp 0 msg else take 64 msg);
          x = map2 (XOR) (chacha8_core j) (words32_of block);
          cipher = bytes32_of x
      in if length msg \<le> 64 then take (length msg) cipher
         else cipher @ chacha8_loop tmp (chacha8_count j) (drop 64 msg))"
  by pat_completeness auto
termination
  by (relation "measure (\<lambda>(tmp, j, msg). length msg)") auto

declare chacha8_loop.simps [simp del]

definition chacha8 :: "bytes \<Rightarrow> bytes \<Rightarrow> bytes \<Rightarrow> bytes \<Rightarrow> bytes" where
  "chacha8 tmp msg key iv =
     (if length msg = 0 then [] else chacha8_loop tmp (chacha8_init key iv) msg)"

section \<open>The ECRYPT interface\<close>

record ECRYPT_ctx =
  ctx_input :: "u32 list"

text \<open>\<open>QUARTERROUND(a, b, c, d)\<close> of \<open>chacha8_stream.c\<close>, on the array \<open>x\<close>.\<close>

definition quarterround_at :: "nat \<Rightarrow> nat \<Rightarrow> nat \<Rightarrow> nat \<Rightarrow> u32 list \<Rightarrow> u32 list" where
  "quarterround_at a b c d x =
     (let x = x[a := x ! a + x ! b]; x = x[d := rol32 (x ! d XOR x ! a) 16];
          x = x[c := x ! c + x ! d]; x = x[b := rol32 (x ! b XOR x ! c) 12];
          x = x[a := x ! a + x ! b]; x = x[d := rol32 (x ! d XOR x ! a) 8];
          x = x[c := x ! c + x ! d]; x = x[b := rol32 (x ! b XOR x ! c) 7]
      in x)"

definition double_round_at :: "u32 list \<Rightarrow> u32 list" where
  "double_round_at x =
     (let x = quarterround_at 0 4 8 12 x;
          x = quarterround_at 1 5 9 13 x;
          x = quarterround_at 2 6 10 14 x;
          x = quarterround_at 3 7 11 15 x;
          x = quarterround_at 0 5 10 15 x;
          x = quarterround_at 1 6 11 12 x;
          x = quarterround_at 2 7 8 13 x;
          x = quarterround_at 3 4 9 14 x
      in x)"

definition salsa20_wordtobyte :: "u32 list \<Rightarrow> bytes" where
  "salsa20_wordtobyte input =
     (let x = (double_round_at ^^ 4) input;
          x = fold (\<lambda>i x. x[i := x ! i + input ! i]) [0..<16] x
      in bytes32_of x)"

text \<open>The string \<open>"expand 16-byte k"\<close>.\<close>

definition chacha_tau :: bytes where
  "chacha_tau = [0x65, 0x78, 0x70, 0x61, 0x6e, 0x64, 0x20, 0x31, 0x36, 0x2d, 0x62, 0x79, 0x74, 0x65, 0x20, 0x6b]"

definition ECRYPT_keysetup :: "ECRYPT_ctx \<Rightarrow> bytes \<Rightarrow> u32 \<Rightarrow> ECRYPT_ctx" where
  "ECRYPT_keysetup x k kbits =
     (let i = ctx_input x;
          i = i[4 := U8TO32_LITTLE k 0, 5 := U8TO32_LITTLE k 4, 6 := U8TO32_LITTLE k 8,
                7 := U8TO32_LITTLE k 12];
          (k, constants) = (if kbits = 256 then (drop 16 k, chacha_sigma) else (k, chacha_tau));
          i = i[8 := U8TO32_LITTLE k 0, 9 := U8TO32_LITTLE k 4, 10 := U8TO32_LITTLE k 8,
                11 := U8TO32_LITTLE k 12];
          i = i[0 := U8TO32_LITTLE constants 0, 1 := U8TO32_LITTLE constants 4,
                2 := U8TO32_LITTLE constants 8, 3 := U8TO32_LITTLE constants 12]
      in x\<lparr>ctx_input := i\<rparr>)"

definition ECRYPT_ivsetup :: "ECRYPT_ctx \<Rightarrow> bytes \<Rightarrow> ECRYPT_ctx" where
  "ECRYPT_ivsetup x iv =
     x\<lparr>ctx_input := (ctx_input x)[12 := 0, 13 := 0, 14 := U8TO32_LITTLE iv 0, 15 := U8TO32_LITTLE iv 4]\<rparr>"

text \<open>
  The context after the call and the bytes written to \<open>c\<close>; \<open>bytes\<close> is the length of \<open>m\<close>. It has 32 bits in the code, so
  the functions below model calls with fewer than \<open>2 ^ 32\<close> bytes; \<open>bytes\<close> is only compared with 64 and decreased by
  64 when it is larger, and does not wrap.
\<close>

function encrypt_loop :: "u32 list \<Rightarrow> bytes \<Rightarrow> u32 list \<times> bytes" where
  "encrypt_loop input m =
     (let output = salsa20_wordtobyte input;
          input = input[12 := input ! 12 + 1];
          input = (if input ! 12 = 0 then input[13 := input ! 13 + 1] else input)
      in if length m \<le> 64 then (input, map (\<lambda>i. m ! i XOR output ! i) [0..<length m])
         else
           let (input', c) = encrypt_loop input (drop 64 m)
           in (input', map (\<lambda>i. m ! i XOR output ! i) [0..<64] @ c))"
  by pat_completeness auto
termination
  by (relation "measure (\<lambda>(x, m). length m)") auto

declare encrypt_loop.simps [simp del]

definition ECRYPT_encrypt_bytes :: "ECRYPT_ctx \<Rightarrow> bytes \<Rightarrow> ECRYPT_ctx \<times> bytes" where
  "ECRYPT_encrypt_bytes x m =
     (if length m = 0 then (x, [])
      else let (input, c) = encrypt_loop (ctx_input x) m in (x\<lparr>ctx_input := input\<rparr>, c))"

definition ECRYPT_decrypt_bytes :: "ECRYPT_ctx \<Rightarrow> bytes \<Rightarrow> ECRYPT_ctx \<times> bytes" where
  "ECRYPT_decrypt_bytes x c = ECRYPT_encrypt_bytes x c"

definition ECRYPT_keystream_bytes :: "ECRYPT_ctx \<Rightarrow> nat \<Rightarrow> ECRYPT_ctx \<times> bytes" where
  "ECRYPT_keystream_bytes x n = ECRYPT_encrypt_bytes x (replicate n 0)"

section \<open>The two cores agree\<close>

lemma list_16_cases:
  assumes "length (xs :: 'a list) = 16"
  obtains a0 a1 a2 a3 a4 a5 a6 a7 a8 a9 a10 a11 a12 a13 a14 a15
  where "xs = [a0, a1, a2, a3, a4, a5, a6, a7, a8, a9, a10, a11, a12, a13, a14, a15]"
  using assms by (auto simp: length_Suc_conv eval_nat_numeral)

lemma quarterround_at_QUARTERROUND:
  assumes "distinct [a, b, c, d]" and "{a, b, c, d} \<subseteq> {..<length x}"
    and "QUARTERROUND (x ! a) (x ! b) (x ! c) (x ! d) = (p, q, r, s)"
  shows "quarterround_at a b c d x = x[a := p, b := q, c := r, d := s]"
proof (rule nth_equalityI)
  show "length (quarterround_at a b c d x) = length (x[a := p, b := q, c := r, d := s])"
    by (simp add: quarterround_at_def Let_def)
next
  fix i
  assume "i < length (quarterround_at a b c d x)"
  then have "i < length x" by (simp add: quarterround_at_def Let_def)
  with assms show "quarterround_at a b c d x ! i = x[a := p, b := q, c := r, d := s] ! i"
    by (auto simp: quarterround_at_def QUARTERROUND_def Let_def nth_list_update)
qed

lemma double_round_at_double_round:
  assumes "length x = 16"
  shows "double_round_at x = double_round x"
proof -
  obtain x0 x1 x2 x3 x4 x5 x6 x7 x8 x9 x10 x11 x12 x13 x14 x15 where
    x: "x = [x0, x1, x2, x3, x4, x5, x6, x7, x8, x9, x10, x11, x12, x13, x14, x15]"
    using assms by (rule list_16_cases)
  obtain a0 a4 a8 a12 where 1: "QUARTERROUND x0 x4 x8 x12 = (a0, a4, a8, a12)"
    by (metis prod_cases4)
  obtain a1 a5 a9 a13 where 2: "QUARTERROUND x1 x5 x9 x13 = (a1, a5, a9, a13)"
    by (metis prod_cases4)
  obtain a2 a6 a10 a14 where 3: "QUARTERROUND x2 x6 x10 x14 = (a2, a6, a10, a14)"
    by (metis prod_cases4)
  obtain a3 a7 a11 a15 where 4: "QUARTERROUND x3 x7 x11 x15 = (a3, a7, a11, a15)"
    by (metis prod_cases4)
  obtain b0 b5 b10 b15 where 5: "QUARTERROUND a0 a5 a10 a15 = (b0, b5, b10, b15)"
    by (metis prod_cases4)
  obtain b1 b6 b11 b12 where 6: "QUARTERROUND a1 a6 a11 a12 = (b1, b6, b11, b12)"
    by (metis prod_cases4)
  obtain b2 b7 b8 b13 where 7: "QUARTERROUND a2 a7 a8 a13 = (b2, b7, b8, b13)"
    by (metis prod_cases4)
  obtain b3 b4 b9 b14 where 8: "QUARTERROUND a3 a4 a9 a14 = (b3, b4, b9, b14)"
    by (metis prod_cases4)
  show ?thesis
    by (simp add: x double_round_def double_round_at_def Let_def quarterround_at_QUARTERROUND 1 2 3 4 5 6 7 8)
qed

lemma length_double_round [simp]: "length (double_round x) = 16"
  by (simp add: double_round_def Let_def split_beta)

lemma double_rounds:
  "length x = 16 \<Longrightarrow> (double_round_at ^^ n) x = (double_round ^^ n) x \<and> length ((double_round ^^ n) x) = 16"
  by (induction n) (auto simp: double_round_at_double_round)

lemma fold_add_map2:
  fixes x y :: "u32 list"
  assumes "length x = n" and "length y = n"
  shows "fold (\<lambda>i x. x[i := x ! i + y ! i]) [0..<n] x = map2 (+) x y"
proof -
  have "fold (\<lambda>i x. x[i := x ! i + y ! i]) [0..<k] x = map2 (+) (take k x) (take k y) @ drop k x"
    if "k \<le> n" for k
    using that
  proof (induction k)
    case (Suc k)
    then have "drop k x = x ! k # drop (Suc k) x" using assms by (simp add: Cons_nth_drop_Suc)
    with Suc assms show ?case
      by (simp add: take_Suc_conv_app_nth list_update_append nth_append)
  qed simp
  from this [of n] assms show ?thesis by simp
qed

lemma salsa20_wordtobyte_core:
  "length j = 16 \<Longrightarrow> salsa20_wordtobyte j = bytes32_of (chacha8_core j)"
  using double_rounds [of j 4]
  by (simp only: salsa20_wordtobyte_def chacha8_core_def Let_def fold_add_map2)

lemma length_chacha8_core [simp]: "length j = 16 \<Longrightarrow> length (chacha8_core j) = 16"
  using double_rounds [of j 4] by (simp add: chacha8_core_def Let_def)

section \<open>The block counter\<close>

text \<open>The state at block \<open>n\<close>: words 12 and 13 are the low and the high half of \<open>n\<close>.\<close>

definition at_block :: "u32 list \<Rightarrow> nat \<Rightarrow> u32 list" where
  "at_block j n = j[12 := of_nat n, 13 := of_nat (n div 2 ^ 32)]"

lemma length_at_block [simp]: "length (at_block j n) = length j"
  by (simp add: at_block_def)

lemma of_nat_u32_eq_0: "(of_nat n :: u32) = 0 \<longleftrightarrow> n mod 2 ^ 32 = 0"
  by (simp add: word_of_nat_eq_0_iff dvd_eq_mod_eq_0)

lemma chacha8_count_at_block:
  assumes "length j = 16"
  shows "chacha8_count (at_block j n) = at_block j (Suc n)"
proof (cases "Suc n mod 2 ^ 32 = 0")
  case True
  then have "Suc n div 2 ^ 32 = Suc (n div 2 ^ 32)" by (simp add: div_Suc)
  moreover have "(of_nat (Suc n) :: u32) = 0" using True by (simp only: of_nat_u32_eq_0)
  ultimately show ?thesis
    using assms by (simp add: chacha8_count_def at_block_def Let_def list_update_swap [of 12 13] add.commute)
next
  case False
  then have "Suc n div 2 ^ 32 = n div 2 ^ 32" by (simp add: div_Suc)
  moreover have "(of_nat (Suc n) :: u32) \<noteq> 0" using False by (simp only: of_nat_u32_eq_0 not_False_eq_True)
  ultimately show ?thesis
    using assms by (simp add: chacha8_count_def at_block_def Let_def list_update_swap [of 12 13] add.commute)
qed

section \<open>The key stream\<close>

definition keystream_byte :: "u32 list \<Rightarrow> nat \<Rightarrow> u8" where
  "keystream_byte j i = bytes32_of (chacha8_core (at_block j (i div 64))) ! (i mod 64)"

lemma encrypt_loop_step:
  "encrypt_loop j m =
     (if length m \<le> 64
      then (chacha8_count j, map (\<lambda>i. m ! i XOR salsa20_wordtobyte j ! i) [0..<length m])
      else (fst (encrypt_loop (chacha8_count j) (drop 64 m)),
            map (\<lambda>i. m ! i XOR salsa20_wordtobyte j ! i) [0..<64] @ snd (encrypt_loop (chacha8_count j) (drop 64 m))))"
  by (subst encrypt_loop.simps) (simp only: Let_def chacha8_count_def split_beta)

lemma encrypt_loop_keystream:
  assumes "length j = 16" and "m \<noteq> []"
  shows "encrypt_loop (at_block j n) m =
     (at_block j (n + (length m + 63) div 64), map (\<lambda>i. m ! i XOR keystream_byte j (64 * n + i)) [0..<length m])"
  using assms(2)
proof (induction "length m" arbitrary: m n rule: less_induct)
  case less
  have out: "map (\<lambda>i. m ! i XOR salsa20_wordtobyte (at_block j n) ! i) [0..<l] =
      map (\<lambda>i. m ! i XOR keystream_byte j (64 * n + i)) [0..<l]" if "l \<le> 64" for l
    using that assms(1) by (intro map_cong) (simp_all add: salsa20_wordtobyte_core keystream_byte_def)
  note count = chacha8_count_at_block [OF assms(1), of n]
  show ?case
  proof (cases "length m \<le> 64")
    case True
    moreover from True less.prems have "(length m + 63) div 64 = 1"
      by (cases m) auto
    ultimately show ?thesis
      using out [OF True] count by (subst encrypt_loop_step) simp
  next
    case False
    have "encrypt_loop (at_block j (Suc n)) (drop 64 m) =
        (at_block j (Suc n + (length (drop 64 m) + 63) div 64),
         map (\<lambda>i. drop 64 m ! i XOR keystream_byte j (64 * Suc n + i)) [0..<length (drop 64 m)])"
      by (rule less.hyps) (use False in simp_all)
    moreover have "Suc n + (length (drop 64 m) + 63) div 64 = n + (length m + 63) div 64"
      using False by (simp add: le_div_geq)
    moreover have "map (\<lambda>i. m ! i XOR keystream_byte j (64 * n + i)) [0..<64] @
        map (\<lambda>i. drop 64 m ! i XOR keystream_byte j (64 * Suc n + i)) [0..<length (drop 64 m)] =
        map (\<lambda>i. m ! i XOR keystream_byte j (64 * n + i)) [0..<length m]"
      using False by (intro nth_equalityI) (auto simp: nth_append algebra_simps simp del: upt_Suc)
    ultimately show ?thesis
      using False out [of 64] count by (subst encrypt_loop_step) (simp only: if_False fst_conv snd_conv order_refl)
  qed
qed

lemma le_bytes_xor: "le_bytes n (a XOR b) = map2 (XOR) (le_bytes n a) (le_bytes n b)"
  by (induction n arbitrary: a b) (simp_all add: unsigned_xor_eq)

lemma bytes32_of_xor:
  "length as = length bs \<Longrightarrow> bytes32_of (map2 (XOR) as bs) = map2 (XOR) (bytes32_of as) (bytes32_of bs)"
  by (induction as bs rule: list_induct2) (auto simp: bytes32_of_def le_bytes_xor)

lemma take_xor_block:
  assumes "length j = 16" and "length block = 64" and "n \<le> 64"
    and "\<And>i. i < n \<Longrightarrow> block ! i = m ! i"
  shows "take n (bytes32_of (map2 (XOR) (chacha8_core j) (words32_of block))) =
     map (\<lambda>i. m ! i XOR salsa20_wordtobyte j ! i) [0..<n]"
proof -
  have "bytes32_of (map2 (XOR) (chacha8_core j) (words32_of block)) =
      map2 (XOR) (bytes32_of (chacha8_core j)) block"
    using assms by (simp add: bytes32_of_xor length_words32_of [of block 16] bytes32_of_words32_of [of block 16])
  with assms show ?thesis
    by (intro nth_equalityI) (auto simp: salsa20_wordtobyte_core xor.commute simp del: upt_Suc)
qed

lemma chacha8_loop_encrypt_loop:
  assumes "length tmp = 64" and "length j = 16"
  shows "chacha8_loop tmp j msg = snd (encrypt_loop j msg)"
  using assms
proof (induction tmp j msg rule: chacha8_loop.induct)
  case (1 tmp j msg)
  let ?block = "if length msg < 64 then copy_at tmp 0 msg else take 64 msg"
  have block: "length ?block = 64" "i < min 64 (length msg) \<Longrightarrow> ?block ! i = msg ! i" for i
    using "1.prems" by (auto simp: copy_at_def nth_append)
  have xor: "take (min 64 (length msg)) (bytes32_of (map2 (XOR) (chacha8_core j) (words32_of ?block))) =
      map (\<lambda>i. msg ! i XOR salsa20_wordtobyte j ! i) [0..<min 64 (length msg)]"
    using "1.prems" block by (intro take_xor_block) auto
  show ?case
  proof (cases "length msg \<le> 64")
    case True
    with xor show ?thesis
      by (subst chacha8_loop.simps, subst encrypt_loop_step) (simp only: Let_def if_True snd_conv min_absorb2)
  next
    case False
    have "length (bytes32_of (map2 (XOR) (chacha8_core j) (words32_of ?block))) = 64"
      using "1.prems" block(1) by (simp only: length_bytes32_of) (simp add: length_words32_of [of _ 16])
    moreover have "length (chacha8_count j) = 16" using "1.prems" by (simp add: chacha8_count_def Let_def)
    moreover have "min 64 (length msg) = 64" using False by simp
    ultimately show ?thesis
      using xor "1.IH" [OF refl refl refl False] "1.prems"(1) False
      by (subst chacha8_loop.simps, subst encrypt_loop_step) (simp only: Let_def if_False snd_conv take_all order_refl)
  qed
qed

text \<open>The ECRYPT context after both set-ups is the state of \<open>chacha8\<close> at block 0.\<close>

lemma ECRYPT_setup:
  assumes "length (ctx_input x) = 16"
  shows "ctx_input (ECRYPT_ivsetup (ECRYPT_keysetup x key 256) iv) = chacha8_init key iv"
  using assms
  by (elim list_16_cases)
    (simp add: ECRYPT_ivsetup_def ECRYPT_keysetup_def chacha8_init_def U8TO32_LITTLE_def)

lemma length_chacha8_init [simp]: "length (chacha8_init key iv) = 16"
  by (simp add: chacha8_init_def)

lemma at_block_0: "at_block (chacha8_init key iv) 0 = chacha8_init key iv"
  by (simp add: at_block_def chacha8_init_def)

lemma chacha8_ECRYPT:
  assumes "length tmp = 64" and "ctx_input x = chacha8_init key iv"
  shows "chacha8 tmp msg key iv = snd (ECRYPT_encrypt_bytes x msg)"
  using assms
  by (simp add: chacha8_def ECRYPT_encrypt_bytes_def chacha8_loop_encrypt_loop split_beta)

lemma ECRYPT_encrypt_keystream:
  assumes "ctx_input x = at_block j n" and "length j = 16"
  shows "ECRYPT_encrypt_bytes x m =
     (x\<lparr>ctx_input := at_block j (n + (length m + 63) div 64)\<rparr>,
      map (\<lambda>i. m ! i XOR keystream_byte j (64 * n + i)) [0..<length m])"
proof (cases "m = []")
  case True
  with assms show ?thesis by (simp add: ECRYPT_encrypt_bytes_def)
next
  case False
  with assms show ?thesis
    by (simp add: ECRYPT_encrypt_bytes_def encrypt_loop_keystream)
qed

lemma chacha8_keystream:
  assumes "length tmp = 64"
  shows "chacha8 tmp msg key iv =
     map (\<lambda>i. msg ! i XOR keystream_byte (chacha8_init key iv) i) [0..<length msg]"
  using chacha8_ECRYPT [OF assms, of "\<lparr>ctx_input = chacha8_init key iv\<rparr>" key iv msg]
    ECRYPT_encrypt_keystream [of "\<lparr>ctx_input = chacha8_init key iv\<rparr>" "chacha8_init key iv" 0 msg]
  by (simp add: at_block_0)

lemma xor_stream_twice:
  fixes k :: "nat \<Rightarrow> u8"
  shows "map (\<lambda>i. map (\<lambda>i. m ! i XOR k i) [0..<length m] ! i XOR k i) [0..<length m] = m"
  by (rule nth_equalityI) (auto simp: xor.assoc)

text \<open>Every state is the state at the block its counter words name.\<close>

lemma at_block_self:
  assumes "length j = 16"
  shows "\<exists>n. j = at_block j n"
proof
  let ?n = "unat (j ! 12) + 2 ^ 32 * unat (j ! 13)"
  have "unat (j ! 12) < 2 ^ 32" using unat_less [of "j ! 12"] by simp
  then have "?n div 2 ^ 32 = unat (j ! 13)" by simp
  moreover have "(of_nat ?n :: u32) = j ! 12"
  proof -
    have "(of_nat (2 ^ 32 * unat (j ! 13)) :: u32) = 0" by (simp only: of_nat_u32_eq_0) simp
    then show ?thesis by (simp only: of_nat_add of_nat_unat) simp
  qed
  ultimately show "j = at_block j ?n" by (simp add: at_block_def)
qed

lemma ECRYPT_encrypt_append:
  assumes "ctx_input x = at_block j n" and "length j = 16" and "64 dvd length a"
  shows "ECRYPT_encrypt_bytes x (a @ b) =
     (case ECRYPT_encrypt_bytes x a of (x1, c1) \<Rightarrow>
        case ECRYPT_encrypt_bytes x1 b of (x2, c2) \<Rightarrow> (x2, c1 @ c2))"
proof -
  obtain q where q: "length a = 64 * q" using assms(3) by blast
  let ?x1 = "x\<lparr>ctx_input := at_block j (n + q)\<rparr>"
  have "ECRYPT_encrypt_bytes x a = (?x1, map (\<lambda>i. a ! i XOR keystream_byte j (64 * n + i)) [0..<length a])"
    using ECRYPT_encrypt_keystream [OF assms(1,2), of a] q by simp
  moreover have "ECRYPT_encrypt_bytes ?x1 b =
      (x\<lparr>ctx_input := at_block j (n + q + (length b + 63) div 64)\<rparr>,
       map (\<lambda>i. b ! i XOR keystream_byte j (64 * (n + q) + i)) [0..<length b])"
    using ECRYPT_encrypt_keystream [of ?x1 j "n + q" b] assms(2) by simp
  moreover have "map (\<lambda>i. (a @ b) ! i XOR keystream_byte j (64 * n + i)) [0..<length (a @ b)] =
      map (\<lambda>i. a ! i XOR keystream_byte j (64 * n + i)) [0..<length a] @
      map (\<lambda>i. b ! i XOR keystream_byte j (64 * (n + q) + i)) [0..<length b]"
    using q by (intro nth_equalityI) (auto simp: nth_append algebra_simps simp del: upt_Suc)
  moreover have "n + (length (a @ b) + 63) div 64 = n + q + (length b + 63) div 64"
    using q by (simp add: add.assoc)
  ultimately show ?thesis
    using ECRYPT_encrypt_keystream [OF assms(1,2), of "a @ b"] by (simp only: prod.case)
qed

end
