(* ===== verification/Keccak800.thy ===== *)
theory Keccak800
  imports Prelude
begin

unbundle bit_operations_syntax

text \<open>
  The two Keccak permutations of 800 bits. \<open>keccak/keccakf800.c\<close> of \<open>src/src/Native/libfiropow\<close> (the
  same text in the other ProgPoW libraries) has 25 named lanes and two rounds per turn of its loop; it
  is the permutation ProgPoW hashes headers with. \<open>src/src/Native/libmultihash/KeccakP-800-reference.c\<close>
  is the Keccak team's reference in separate steps, with byte access to the state, a variable number of
  rounds and, when compiled with \<open>KeccakReference\<close>, tables that it generates; OdoCrypt uses its twelve
  last rounds.

  The lemmas show that the unrolled permutation is the reference with 22 rounds, that the generated
  tables are the tables in the text, and how the byte accesses to the state behave.
\<close>

section \<open>The unrolled permutation\<close>

definition round_constants_800 :: "u32 list" where
  "round_constants_800 =
    [0x00000001, 0x00008082, 0x0000808A, 0x80008000, 0x0000808B, 0x80000001, 0x80008081, 0x00008009,
     0x0000008A, 0x00000088, 0x80008009, 0x8000000A, 0x8000808B, 0x0000008B, 0x00008089, 0x00008003,
     0x00008002, 0x00000080, 0x0000800A, 0x8000000A, 0x80008081, 0x00008080]"

text \<open>Round \<open>round + 0\<close>: the lanes \<open>Axx\<close> give the lanes \<open>Exx\<close>.\<close>

definition keccakf800_AE :: "u32 \<Rightarrow> u32 list \<Rightarrow> u32 list" where
  "keccakf800_AE rc s =
     (let
      Aba = s ! 0;
      Abe = s ! 1;
      Abi = s ! 2;
      Abo = s ! 3;
      Abu = s ! 4;
      Aga = s ! 5;
      Age = s ! 6;
      Agi = s ! 7;
      Ago = s ! 8;
      Agu = s ! 9;
      Aka = s ! 10;
      Ake = s ! 11;
      Aki = s ! 12;
      Ako = s ! 13;
      Aku = s ! 14;
      Ama = s ! 15;
      Ame = s ! 16;
      Ami = s ! 17;
      Amo = s ! 18;
      Amu = s ! 19;
      Asa = s ! 20;
      Ase = s ! 21;
      Asi = s ! 22;
      Aso = s ! 23;
      Asu = s ! 24;
      Ba = Aba XOR Aga XOR Aka XOR Ama XOR Asa;
      Be = Abe XOR Age XOR Ake XOR Ame XOR Ase;
      Bi = Abi XOR Agi XOR Aki XOR Ami XOR Asi;
      Bo = Abo XOR Ago XOR Ako XOR Amo XOR Aso;
      Bu = Abu XOR Agu XOR Aku XOR Amu XOR Asu;
      Da = Bu XOR rol32 Be 1;
      De = Ba XOR rol32 Bi 1;
      Di = Be XOR rol32 Bo 1;
      Do = Bi XOR rol32 Bu 1;
      Du = Bo XOR rol32 Ba 1;
      Ba = Aba XOR Da;
      Be = rol32 (Age XOR De) 12;
      Bi = rol32 (Aki XOR Di) 11;
      Bo = rol32 (Amo XOR Do) 21;
      Bu = rol32 (Asu XOR Du) 14;
      Eba = Ba XOR (NOT Be AND Bi) XOR rc;
      Ebe = Be XOR (NOT Bi AND Bo);
      Ebi = Bi XOR (NOT Bo AND Bu);
      Ebo = Bo XOR (NOT Bu AND Ba);
      Ebu = Bu XOR (NOT Ba AND Be);
      Ba = rol32 (Abo XOR Do) 28;
      Be = rol32 (Agu XOR Du) 20;
      Bi = rol32 (Aka XOR Da) 3;
      Bo = rol32 (Ame XOR De) 13;
      Bu = rol32 (Asi XOR Di) 29;
      Ega = Ba XOR (NOT Be AND Bi);
      Ege = Be XOR (NOT Bi AND Bo);
      Egi = Bi XOR (NOT Bo AND Bu);
      Ego = Bo XOR (NOT Bu AND Ba);
      Egu = Bu XOR (NOT Ba AND Be);
      Ba = rol32 (Abe XOR De) 1;
      Be = rol32 (Agi XOR Di) 6;
      Bi = rol32 (Ako XOR Do) 25;
      Bo = rol32 (Amu XOR Du) 8;
      Bu = rol32 (Asa XOR Da) 18;
      Eka = Ba XOR (NOT Be AND Bi);
      Eke = Be XOR (NOT Bi AND Bo);
      Eki = Bi XOR (NOT Bo AND Bu);
      Eko = Bo XOR (NOT Bu AND Ba);
      Eku = Bu XOR (NOT Ba AND Be);
      Ba = rol32 (Abu XOR Du) 27;
      Be = rol32 (Aga XOR Da) 4;
      Bi = rol32 (Ake XOR De) 10;
      Bo = rol32 (Ami XOR Di) 15;
      Bu = rol32 (Aso XOR Do) 24;
      Ema = Ba XOR (NOT Be AND Bi);
      Eme = Be XOR (NOT Bi AND Bo);
      Emi = Bi XOR (NOT Bo AND Bu);
      Emo = Bo XOR (NOT Bu AND Ba);
      Emu = Bu XOR (NOT Ba AND Be);
      Ba = rol32 (Abi XOR Di) 30;
      Be = rol32 (Ago XOR Do) 23;
      Bi = rol32 (Aku XOR Du) 7;
      Bo = rol32 (Ama XOR Da) 9;
      Bu = rol32 (Ase XOR De) 2;
      Esa = Ba XOR (NOT Be AND Bi);
      Ese = Be XOR (NOT Bi AND Bo);
      Esi = Bi XOR (NOT Bo AND Bu);
      Eso = Bo XOR (NOT Bu AND Ba);
      Esu = Bu XOR (NOT Ba AND Be)
      in [Eba, Ebe, Ebi, Ebo, Ebu, Ega, Ege, Egi, Ego, Egu, Eka, Eke, Eki, Eko, Eku, Ema, Eme,
       Emi, Emo, Emu, Esa, Ese, Esi, Eso, Esu])"

text \<open>Round \<open>round + 1\<close>: the lanes \<open>Exx\<close> give the lanes \<open>Axx\<close>.\<close>

definition keccakf800_EA :: "u32 \<Rightarrow> u32 list \<Rightarrow> u32 list" where
  "keccakf800_EA rc s =
     (let
      Eba = s ! 0;
      Ebe = s ! 1;
      Ebi = s ! 2;
      Ebo = s ! 3;
      Ebu = s ! 4;
      Ega = s ! 5;
      Ege = s ! 6;
      Egi = s ! 7;
      Ego = s ! 8;
      Egu = s ! 9;
      Eka = s ! 10;
      Eke = s ! 11;
      Eki = s ! 12;
      Eko = s ! 13;
      Eku = s ! 14;
      Ema = s ! 15;
      Eme = s ! 16;
      Emi = s ! 17;
      Emo = s ! 18;
      Emu = s ! 19;
      Esa = s ! 20;
      Ese = s ! 21;
      Esi = s ! 22;
      Eso = s ! 23;
      Esu = s ! 24;
      Ba = Eba XOR Ega XOR Eka XOR Ema XOR Esa;
      Be = Ebe XOR Ege XOR Eke XOR Eme XOR Ese;
      Bi = Ebi XOR Egi XOR Eki XOR Emi XOR Esi;
      Bo = Ebo XOR Ego XOR Eko XOR Emo XOR Eso;
      Bu = Ebu XOR Egu XOR Eku XOR Emu XOR Esu;
      Da = Bu XOR rol32 Be 1;
      De = Ba XOR rol32 Bi 1;
      Di = Be XOR rol32 Bo 1;
      Do = Bi XOR rol32 Bu 1;
      Du = Bo XOR rol32 Ba 1;
      Ba = Eba XOR Da;
      Be = rol32 (Ege XOR De) 12;
      Bi = rol32 (Eki XOR Di) 11;
      Bo = rol32 (Emo XOR Do) 21;
      Bu = rol32 (Esu XOR Du) 14;
      Aba = Ba XOR (NOT Be AND Bi) XOR rc;
      Abe = Be XOR (NOT Bi AND Bo);
      Abi = Bi XOR (NOT Bo AND Bu);
      Abo = Bo XOR (NOT Bu AND Ba);
      Abu = Bu XOR (NOT Ba AND Be);
      Ba = rol32 (Ebo XOR Do) 28;
      Be = rol32 (Egu XOR Du) 20;
      Bi = rol32 (Eka XOR Da) 3;
      Bo = rol32 (Eme XOR De) 13;
      Bu = rol32 (Esi XOR Di) 29;
      Aga = Ba XOR (NOT Be AND Bi);
      Age = Be XOR (NOT Bi AND Bo);
      Agi = Bi XOR (NOT Bo AND Bu);
      Ago = Bo XOR (NOT Bu AND Ba);
      Agu = Bu XOR (NOT Ba AND Be);
      Ba = rol32 (Ebe XOR De) 1;
      Be = rol32 (Egi XOR Di) 6;
      Bi = rol32 (Eko XOR Do) 25;
      Bo = rol32 (Emu XOR Du) 8;
      Bu = rol32 (Esa XOR Da) 18;
      Aka = Ba XOR (NOT Be AND Bi);
      Ake = Be XOR (NOT Bi AND Bo);
      Aki = Bi XOR (NOT Bo AND Bu);
      Ako = Bo XOR (NOT Bu AND Ba);
      Aku = Bu XOR (NOT Ba AND Be);
      Ba = rol32 (Ebu XOR Du) 27;
      Be = rol32 (Ega XOR Da) 4;
      Bi = rol32 (Eke XOR De) 10;
      Bo = rol32 (Emi XOR Di) 15;
      Bu = rol32 (Eso XOR Do) 24;
      Ama = Ba XOR (NOT Be AND Bi);
      Ame = Be XOR (NOT Bi AND Bo);
      Ami = Bi XOR (NOT Bo AND Bu);
      Amo = Bo XOR (NOT Bu AND Ba);
      Amu = Bu XOR (NOT Ba AND Be);
      Ba = rol32 (Ebi XOR Di) 30;
      Be = rol32 (Ego XOR Do) 23;
      Bi = rol32 (Eku XOR Du) 7;
      Bo = rol32 (Ema XOR Da) 9;
      Bu = rol32 (Ese XOR De) 2;
      Asa = Ba XOR (NOT Be AND Bi);
      Ase = Be XOR (NOT Bi AND Bo);
      Asi = Bi XOR (NOT Bo AND Bu);
      Aso = Bo XOR (NOT Bu AND Ba);
      Asu = Bu XOR (NOT Ba AND Be)
      in [Aba, Abe, Abi, Abo, Abu, Aga, Age, Agi, Ago, Agu, Aka, Ake, Aki, Ako, Aku, Ama, Ame,
       Ami, Amo, Amu, Asa, Ase, Asi, Aso, Asu])"

definition ethash_keccakf800 :: "u32 list \<Rightarrow> u32 list" where
  "ethash_keccakf800 state =
     fold (\<lambda>round s. keccakf800_EA (round_constants_800 ! (round + 1))
         (keccakf800_AE (round_constants_800 ! round) s))
       [0, 2, 4, 6, 8, 10, 12, 14, 16, 18, 20] state"

section \<open>The reference\<close>

definition maxNrRounds :: nat where "maxNrRounds = 22"
definition nrLanes :: nat where "nrLanes = 25"

definition lane_index :: "nat \<Rightarrow> nat \<Rightarrow> nat" where
  "lane_index x y = x mod 5 + 5 * (y mod 5)"

text \<open>The tables of the text, for a build without \<open>KeccakReference\<close>.\<close>

definition KeccakRoundConstants :: "u32 list" where
  "KeccakRoundConstants =
    [0x00000001, 0x00008082, 0x0000808a, 0x80008000, 0x0000808b, 0x80000001, 0x80008081, 0x00008009,
     0x0000008a, 0x00000088, 0x80008009, 0x8000000a, 0x8000808b, 0x0000008b, 0x00008089, 0x00008003,
     0x00008002, 0x00000080, 0x0000800a, 0x8000000a, 0x80008081, 0x00008080]"

definition KeccakRhoOffsets :: "nat list" where
  "KeccakRhoOffsets =
    [0, 1, 30, 28, 27, 4, 12, 6, 23, 20, 3, 10, 11, 25, 7, 9, 13, 15, 21, 8, 18, 2, 29, 24, 14]"

text \<open>The generators, for a build with it: the result and the next state of the register.\<close>

definition LFSR86540 :: "u8 \<Rightarrow> bool \<times> u8" where
  "LFSR86540 lfsr =
     (lfsr AND 0x01 \<noteq> 0,
      if lfsr AND 0x80 \<noteq> 0 then push_bit 1 lfsr XOR 0x71 else push_bit 1 lfsr)"

definition InitializeRoundConstants :: "u32 list" where
  "InitializeRoundConstants =
     snd (fold (\<lambda>i (lfsr, rcs).
         let (lfsr, rc) = fold (\<lambda>j (lfsr, rc).
               let bitPosition = 2 ^ j - 1; (r, lfsr) = LFSR86540 lfsr
               in (lfsr, if r \<and> bitPosition < 32 then rc XOR push_bit bitPosition 1 else rc))
             [0, 1, 2, 3, 4, 5, 6] (lfsr, 0)
         in (lfsr, rcs[i := rc])) [0..<maxNrRounds] (1, replicate maxNrRounds 0))"

definition InitializeRhoOffsets :: "nat list" where
  "InitializeRhoOffsets =
     snd (fold (\<lambda>t ((x, y), offs).
         ((y mod 5, (2 * x + 3 * y) mod 5),
          offs[lane_index x y := (t + 1) * (t + 2) div 2 mod 32]))
       [0..<24] ((1, 0), (replicate nrLanes 0)[lane_index 0 0 := 0]))"

text \<open>
  Access to the state as 100 bytes; a failed assertion is \<open>None\<close>. In C the sum of \<open>offset\<close> and \<open>length\<close> has 32 bits:
  when it wraps, the assertion may hold, and the loop or \<open>memcpy\<close> then leaves the 100 bytes, which is \<open>None\<close> as well.
\<close>

definition KeccakP800_Initialize :: bytes where
  "KeccakP800_Initialize = replicate 100 0"

definition KeccakP800_AddByte :: "bytes \<Rightarrow> u8 \<Rightarrow> nat \<Rightarrow> bytes option" where
  "KeccakP800_AddByte state byte offset =
     (if offset < 100 then Some (state[offset := state ! offset XOR byte]) else None)"

definition KeccakP800_AddBytes :: "bytes \<Rightarrow> bytes \<Rightarrow> nat \<Rightarrow> nat \<Rightarrow> bytes option" where
  "KeccakP800_AddBytes state inp offset len =
     (if offset < 100 \<and> offset + len \<le> 100
      then Some (fold (\<lambda>i state. state[offset + i := state ! (offset + i) XOR inp ! i]) [0..<len] state)
      else None)"

definition KeccakP800_OverwriteBytes :: "bytes \<Rightarrow> bytes \<Rightarrow> nat \<Rightarrow> nat \<Rightarrow> bytes option" where
  "KeccakP800_OverwriteBytes state inp offset len =
     (if offset < 100 \<and> offset + len \<le> 100 then Some (copy_at state offset (take len inp)) else None)"

definition KeccakP800_OverwriteWithZeroes :: "bytes \<Rightarrow> nat \<Rightarrow> bytes option" where
  "KeccakP800_OverwriteWithZeroes state byteCount =
     (if byteCount \<le> 100 then Some (copy_at state 0 (replicate byteCount 0)) else None)"

definition KeccakP800_ExtractBytes :: "bytes \<Rightarrow> nat \<Rightarrow> nat \<Rightarrow> bytes option" where
  "KeccakP800_ExtractBytes state offset len =
     (if offset < 100 \<and> offset + len \<le> 100 then Some (take len (drop offset state)) else None)"

definition KeccakP800_ExtractAndAddBytes :: "bytes \<Rightarrow> bytes \<Rightarrow> nat \<Rightarrow> nat \<Rightarrow> bytes option" where
  "KeccakP800_ExtractAndAddBytes state input offset len =
     (if offset < 100 \<and> offset + len \<le> 100
      then Some (map (\<lambda>i. input ! i XOR state ! (offset + i)) [0..<len]) else None)"

text \<open>The conversions a big-endian build uses.\<close>

definition fromBytesToWords :: "bytes \<Rightarrow> u32 list" where
  "fromBytesToWords state =
     map (\<lambda>i. fold (\<lambda>j w. w OR push_bit (8 * j) (ucast (state ! (i * 4 + j)))) [0, 1, 2, 3] 0) [0..<nrLanes]"

definition fromWordsToBytes :: "u32 list \<Rightarrow> bytes" where
  "fromWordsToBytes ws =
     concat (map (\<lambda>i. map (\<lambda>j. ucast (drop_bit (8 * j) (ws ! i) AND 0xFF)) [0, 1, 2, 3]) [0..<nrLanes])"

text \<open>The steps; loops over \<open>x\<close> and \<open>y\<close> from 0 to 4.\<close>

definition ROL32 :: "u32 \<Rightarrow> nat \<Rightarrow> u32" where
  "ROL32 a offset = (if offset \<noteq> 0 then push_bit offset a XOR drop_bit (32 - offset) a else a)"

abbreviation (input) xs5 :: "nat list" where "xs5 \<equiv> [0, 1, 2, 3, 4]"

definition p800_theta :: "u32 list \<Rightarrow> u32 list" where
  "p800_theta A =
     (let C = map (\<lambda>x. fold (\<lambda>y c. c XOR A ! lane_index x y) xs5 0) xs5;
          D = map (\<lambda>x. ROL32 (C ! ((x + 1) mod 5)) 1 XOR C ! ((x + 4) mod 5)) xs5
      in fold (\<lambda>x. fold (\<lambda>y A. A[lane_index x y := A ! lane_index x y XOR D ! x]) xs5) xs5 A)"

definition p800_rho :: "u32 list \<Rightarrow> u32 list" where
  "p800_rho A =
     fold (\<lambda>x. fold (\<lambda>y A. A[lane_index x y := ROL32 (A ! lane_index x y) (KeccakRhoOffsets ! lane_index x y)])
       xs5) xs5 A"

definition p800_pi :: "u32 list \<Rightarrow> u32 list" where
  "p800_pi A =
     fold (\<lambda>x. fold (\<lambda>y B. B[lane_index y (2 * x + 3 * y) := A ! lane_index x y]) xs5) xs5 A"

definition p800_chi :: "u32 list \<Rightarrow> u32 list" where
  "p800_chi A =
     fold (\<lambda>y A.
       let C = map (\<lambda>x. A ! lane_index x y XOR (NOT (A ! lane_index (x + 1) y) AND A ! lane_index (x + 2) y)) xs5
       in fold (\<lambda>x A. A[lane_index x y := C ! x]) xs5 A) xs5 A"

definition p800_iota :: "u32 list \<Rightarrow> nat \<Rightarrow> u32 list" where
  "p800_iota A indexRound =
     A[lane_index 0 0 := A ! lane_index 0 0 XOR KeccakRoundConstants ! indexRound]"

definition KeccakP800Round :: "u32 list \<Rightarrow> nat \<Rightarrow> u32 list" where
  "KeccakP800Round state indexRound =
     p800_iota (p800_chi (p800_pi (p800_rho (p800_theta state)))) indexRound"

definition KeccakP800OnWords :: "u32 list \<Rightarrow> nat \<Rightarrow> u32 list" where
  "KeccakP800OnWords state nrRounds =
     fold (\<lambda>i state. KeccakP800Round state i) [maxNrRounds - nrRounds..<maxNrRounds] state"

definition KeccakP800_Permute_Nrounds :: "bytes \<Rightarrow> nat \<Rightarrow> bytes" where
  "KeccakP800_Permute_Nrounds state nrounds = bytes32_of (KeccakP800OnWords (words32_of state) nrounds)"

definition KeccakP800_Permute_12rounds :: "bytes \<Rightarrow> bytes" where
  "KeccakP800_Permute_12rounds state = bytes32_of (KeccakP800OnWords (words32_of state) 12)"

definition KeccakP800_Permute_22rounds :: "bytes \<Rightarrow> bytes" where
  "KeccakP800_Permute_22rounds state = bytes32_of (KeccakP800OnWords (words32_of state) 22)"

section \<open>The permutations agree\<close>

lemma ROL32_rol32:
  assumes "0 < s" and "s < 32"
  shows "ROL32 x s = rol32 x s"
proof (rule bit_eqI)
  fix n
  show "bit (ROL32 x s) n \<longleftrightarrow> bit (rol32 x s) n"
    using assms bit_imp_le_length [of x "32 - s + n"]
    by (auto simp: ROL32_def rol32_def bit_simps)
qed

lemma ROL32_0: "ROL32 x 0 = x"
  by (simp add: ROL32_def)

lemmas p800_steps = p800_theta_def p800_rho_def p800_pi_def p800_chi_def p800_iota_def

lemma p800_theta_explicit:
  "p800_theta [a0, a1, a2, a3, a4, a5, a6, a7, a8, a9, a10, a11, a12, a13, a14, a15, a16, a17, a18,
    a19, a20, a21, a22, a23, a24] =
   (let c0 = a0 XOR a5 XOR a10 XOR a15 XOR a20; c1 = a1 XOR a6 XOR a11 XOR a16 XOR a21;
        c2 = a2 XOR a7 XOR a12 XOR a17 XOR a22; c3 = a3 XOR a8 XOR a13 XOR a18 XOR a23;
        c4 = a4 XOR a9 XOR a14 XOR a19 XOR a24;
        d0 = c4 XOR rol32 c1 1; d1 = c0 XOR rol32 c2 1; d2 = c1 XOR rol32 c3 1;
        d3 = c2 XOR rol32 c4 1; d4 = c3 XOR rol32 c0 1
    in [a0 XOR d0, a1 XOR d1, a2 XOR d2, a3 XOR d3, a4 XOR d4, a5 XOR d0, a6 XOR d1, a7 XOR d2,
        a8 XOR d3, a9 XOR d4, a10 XOR d0, a11 XOR d1, a12 XOR d2, a13 XOR d3, a14 XOR d4,
        a15 XOR d0, a16 XOR d1, a17 XOR d2, a18 XOR d3, a19 XOR d4, a20 XOR d0, a21 XOR d1,
        a22 XOR d2, a23 XOR d3, a24 XOR d4])"
  by (simp add: p800_theta_def lane_index_def ROL32_rol32 Let_def xor.assoc xor.commute xor.left_commute)

lemma p800_rho_pi_explicit:
  "p800_pi (p800_rho [a0, a1, a2, a3, a4, a5, a6, a7, a8, a9, a10, a11, a12, a13, a14, a15, a16, a17, a18,
    a19, a20, a21, a22, a23, a24]) =
   [a0, rol32 a6 12, rol32 a12 11, rol32 a18 21, rol32 a24 14,
    rol32 a3 28, rol32 a9 20, rol32 a10 3, rol32 a16 13, rol32 a22 29,
    rol32 a1 1, rol32 a7 6, rol32 a13 25, rol32 a19 8, rol32 a20 18,
    rol32 a4 27, rol32 a5 4, rol32 a11 10, rol32 a17 15, rol32 a23 24,
    rol32 a2 30, rol32 a8 23, rol32 a14 7, rol32 a15 9, rol32 a21 2]"
  by (simp add: p800_pi_def p800_rho_def lane_index_def KeccakRhoOffsets_def ROL32_rol32 ROL32_0)

lemma p800_chi_explicit:
  "p800_chi [a0, a1, a2, a3, a4, a5, a6, a7, a8, a9, a10, a11, a12, a13, a14, a15, a16, a17, a18,
    a19, a20, a21, a22, a23, a24] =
   [a0 XOR (NOT a1 AND a2), a1 XOR (NOT a2 AND a3), a2 XOR (NOT a3 AND a4), a3 XOR (NOT a4 AND a0), a4 XOR (NOT a0 AND a1),
    a5 XOR (NOT a6 AND a7), a6 XOR (NOT a7 AND a8), a7 XOR (NOT a8 AND a9), a8 XOR (NOT a9 AND a5), a9 XOR (NOT a5 AND a6),
    a10 XOR (NOT a11 AND a12), a11 XOR (NOT a12 AND a13), a12 XOR (NOT a13 AND a14), a13 XOR (NOT a14 AND a10), a14 XOR (NOT a10 AND a11),
    a15 XOR (NOT a16 AND a17), a16 XOR (NOT a17 AND a18), a17 XOR (NOT a18 AND a19), a18 XOR (NOT a19 AND a15), a19 XOR (NOT a15 AND a16),
    a20 XOR (NOT a21 AND a22), a21 XOR (NOT a22 AND a23), a22 XOR (NOT a23 AND a24), a23 XOR (NOT a24 AND a20), a24 XOR (NOT a20 AND a21)]"
  by (simp add: p800_chi_def lane_index_def Let_def)

lemma KeccakP800Round_explicit:
  "KeccakP800Round [a0, a1, a2, a3, a4, a5, a6, a7, a8, a9, a10, a11, a12, a13, a14, a15, a16, a17, a18,
    a19, a20, a21, a22, a23, a24] i =
   keccakf800_AE (KeccakRoundConstants ! i) [a0, a1, a2, a3, a4, a5, a6, a7, a8, a9, a10, a11, a12,
    a13, a14, a15, a16, a17, a18, a19, a20, a21, a22, a23, a24]"
  by (simp add: KeccakP800Round_def p800_theta_explicit p800_rho_pi_explicit p800_chi_explicit p800_iota_def
      lane_index_def keccakf800_AE_def Let_def xor.assoc)

lemma KeccakP800Round_AE:
  "length s = 25 \<Longrightarrow> KeccakP800Round s i = keccakf800_AE (KeccakRoundConstants ! i) s"
  by (erule list_25_cases) (simp only: KeccakP800Round_explicit)

lemma keccakf800_EA_AE: "keccakf800_EA = keccakf800_AE"
  by (intro ext) (simp only: keccakf800_EA_def keccakf800_AE_def)

lemma round_constants_800: "round_constants_800 = KeccakRoundConstants"
  by (simp add: round_constants_800_def KeccakRoundConstants_def)

lemma length_keccakf800_AE [simp]: "length (keccakf800_AE rc s) = 25"
  by (simp add: keccakf800_AE_def Let_def)

lemma length_KeccakP800OnWords:
  assumes "length s = 25"
  shows "length (KeccakP800OnWords s n) = 25"
  unfolding KeccakP800OnWords_def
  by (rule fold_invariant_set [where P = "\<lambda>s. length s = 25"]) (simp_all add: assms KeccakP800Round_AE)

lemma ethash_keccakf800_reference:
  assumes "length s = 25"
  shows "ethash_keccakf800 s = KeccakP800OnWords s 22"
proof -
  have "[0..<22] = [0, 1, 2, 3, 4, 5, 6, 7, 8, 9, 10, 11, 12, 13, 14, 15, 16, 17, 18, 19, 20, 21]"
    by (simp add: upt_rec)
  then show ?thesis
    using assms
    by (simp add: ethash_keccakf800_def KeccakP800OnWords_def maxNrRounds_def keccakf800_EA_AE
        round_constants_800 KeccakP800Round_AE)
qed

section \<open>The tables\<close>

lemma InitializeRoundConstants_table: "InitializeRoundConstants = KeccakRoundConstants"
  by code_simp

lemma InitializeRhoOffsets_table: "InitializeRhoOffsets = KeccakRhoOffsets"
  by code_simp

section \<open>Access to the state\<close>

lemma nth_words32_of:
  "length bs = 4 * k \<Longrightarrow> j < k \<Longrightarrow> words32_of bs ! j = le_word (take 4 (drop (4 * j) bs))"
  by (simp add: words32_of_def nth_chunks length_chunks)

lemma take_4_drop:
  "i + 4 \<le> length bs \<Longrightarrow> take 4 (drop i bs) = [bs ! i, bs ! (i + 1), bs ! (i + 2), bs ! (i + 3)]"
  by (rule nth_equalityI) (auto simp: less_Suc_eq nth_Cons' eval_nat_numeral)

lemma fromBytesToWords_words32_of:
  assumes "length state = 100"
  shows "fromBytesToWords state = words32_of state"
proof (rule nth_equalityI)
  show "length (fromBytesToWords state) = length (words32_of state)"
    using assms by (simp add: fromBytesToWords_def nrLanes_def length_words32_of [of _ 25])
next
  fix i
  assume "i < length (fromBytesToWords state)"
  then have i: "i < 25" by (simp add: fromBytesToWords_def nrLanes_def)
  then have "words32_of state ! i = le_word [state ! (4 * i), state ! (4 * i + 1), state ! (4 * i + 2), state ! (4 * i + 3)]"
    using assms by (simp add: nth_words32_of [of _ 25] take_4_drop)
  with i show "fromBytesToWords state ! i = words32_of state ! i"
    by (simp add: fromBytesToWords_def nrLanes_def push_bit_or or.assoc mult.commute del: upt_Suc)
qed

lemma fromWordsToBytes_bytes32_of:
  assumes "length ws = 25"
  shows "fromWordsToBytes ws = bytes32_of ws"
proof -
  have mask: "(ucast (w AND 0xFF) :: u8) = ucast w" for w :: u32
  proof -
    have "w AND 0xFF = take_bit 8 w" by (simp add: take_bit_eq_mask mask_eq_exp_minus_1)
    then show ?thesis by (auto intro!: bit_eqI simp: bit_simps)
  qed
  have "map (\<lambda>j. ucast (drop_bit (8 * j) w AND 0xFF)) [0, 1, 2, 3] = le_bytes 4 w" for w :: u32
    by (simp add: mask numeral_eq_Suc drop_bit_drop_bit)
  then have "fromWordsToBytes ws = concat (map (\<lambda>i. le_bytes 4 (ws ! i)) [0..<25])"
    by (simp only: fromWordsToBytes_def nrLanes_def)
  also have "map (\<lambda>i. le_bytes 4 (ws ! i)) [0..<25] = map (le_bytes 4) ws"
    using assms map_nth [of ws] by (metis (no_types, lifting) map_map comp_def map_cong)
  finally show ?thesis by (simp add: bytes32_of_def)
qed

lemma fold_xor_at:
  "offset + len \<le> length state \<Longrightarrow>
   length (fold (\<lambda>i s. s[offset + i := s ! (offset + i) XOR inp ! i]) [0..<len] state) = length state \<and>
   (\<forall>k < length state. fold (\<lambda>i s. s[offset + i := s ! (offset + i) XOR inp ! i]) [0..<len] state ! k =
     (if offset \<le> k \<and> k < offset + len then state ! k XOR (inp ! (k - offset) :: u8) else state ! k))"
proof (induction len)
  case (Suc len)
  then show ?case by (auto simp: nth_list_update)
qed auto

lemma AddBytes_nth:
  assumes "length state = 100" and "offset < 100" and "offset + len \<le> 100"
  obtains s where "KeccakP800_AddBytes state inp offset len = Some s" and "length s = 100"
    and "\<And>k. k < 100 \<Longrightarrow> s ! k =
      (if offset \<le> k \<and> k < offset + len then state ! k XOR inp ! (k - offset) else state ! k)"
  using that fold_xor_at [of offset len state inp] assms by (auto simp: KeccakP800_AddBytes_def)

lemma AddBytes_ExtractBytes:
  assumes "length state = 100" and "offset < 100" and "offset + len \<le> 100"
    and "KeccakP800_AddBytes state inp offset len = Some s"
  shows "KeccakP800_ExtractBytes s offset len = KeccakP800_ExtractAndAddBytes state inp offset len"
    and "KeccakP800_AddBytes s inp offset len = Some state"
proof -
  obtain s' where "KeccakP800_AddBytes state inp offset len = Some s'" and l: "length s' = 100"
    and n: "\<And>k. k < 100 \<Longrightarrow> s' ! k =
      (if offset \<le> k \<and> k < offset + len then state ! k XOR inp ! (k - offset) else state ! k)"
    using AddBytes_nth [OF assms(1-3), of inp] by blast
  with assms(4) have [simp]: "s' = s" by simp
  show "KeccakP800_ExtractBytes s offset len = KeccakP800_ExtractAndAddBytes state inp offset len"
    using assms(2,3) l n
    by (auto simp: KeccakP800_ExtractBytes_def KeccakP800_ExtractAndAddBytes_def xor.commute
        intro!: nth_equalityI simp del: upt_Suc)
  obtain s2 where s2: "KeccakP800_AddBytes s inp offset len = Some s2" and l2: "length s2 = 100"
    and n2: "\<And>k. k < 100 \<Longrightarrow> s2 ! k =
      (if offset \<le> k \<and> k < offset + len then s ! k XOR inp ! (k - offset) else s ! k)"
    using AddBytes_nth [of s offset len inp] l assms(2,3) by auto
  have "s2 = state"
    using l2 assms(1) n n2 by (intro nth_equalityI) (auto simp: xor.assoc)
  with s2 show "KeccakP800_AddBytes s inp offset len = Some state" by simp
qed

end
