(* ===== verification/Primes.thy ===== *)
theory Primes
  imports Main
begin

text \<open>
  The prime search of \<open>src/src/Native/libsccpow/ethash/primes.c\<close> (the other ProgPoW
  libraries have the same text), which ProgPoW uses to size its dataset. The C \<open>int\<close> is \<open>int\<close> here;
  the lemmas on bounds show that no intermediate value leaves its range.
\<close>

section \<open>The search\<close>

text \<open>The loop of \<open>is_odd_prime\<close>, from the candidate factor \<open>d\<close> on.\<close>

function odd_prime_loop :: "int \<Rightarrow> int \<Rightarrow> bool" where
  "odd_prime_loop number d =
     (if d * d \<le> number then (if number mod d = 0 then False else odd_prime_loop number (d + 2)) else True)"
  by pat_completeness auto
termination
proof (relation "measure (\<lambda>(number, d). nat (number + 2 - d))")
  fix number d :: int
  assume "d * d \<le> number"
  moreover have "d \<le> d * d"
    by (cases "d \<le> 0") (auto simp: mult_le_cancel_left1 order_trans [of d 0])
  ultimately show "((number, d + 2), (number, d)) \<in> measure (\<lambda>(number, d). nat (number + 2 - d))"
    by simp
qed simp

definition is_odd_prime :: "int \<Rightarrow> bool" where
  "is_odd_prime number = odd_prime_loop number 3"

declare odd_prime_loop.simps [simp del]

lemma is_odd_prime_small: "number < 9 \<Longrightarrow> is_odd_prime number"
  by (simp add: is_odd_prime_def odd_prime_loop.simps)

text \<open>\<open>while (!is_odd_prime(n)) n -= 2\<close>.\<close>

function prime_descent :: "int \<Rightarrow> int" where
  "prime_descent n = (if \<not> is_odd_prime n then prime_descent (n - 2) else n)"
  by pat_completeness auto
termination
proof (relation "measure nat")
  fix n
  assume "\<not> is_odd_prime n"
  then have "9 \<le> n" using is_odd_prime_small by force
  then show "(n - 2, n) \<in> measure nat" by simp
qed simp

declare prime_descent.simps [simp del]

definition ethash_find_largest_prime :: "int \<Rightarrow> int" where
  "ethash_find_largest_prime upper_bound =
     (let n = upper_bound
      in if n < 2 then 0
         else if n = 2 then 2
         else
           let n = (if n mod 2 = 0 then n - 1 else n)
           in prime_descent n)"

section \<open>Its result\<close>

definition prime_number :: "int \<Rightarrow> bool" where
  "prime_number p \<longleftrightarrow> 2 \<le> p \<and> (\<forall>d. 2 \<le> d \<and> d < p \<longrightarrow> \<not> d dvd p)"

lemma odd_prime_loop_iff:
  "0 < d \<Longrightarrow> odd d \<Longrightarrow>
     odd_prime_loop n d \<longleftrightarrow> (\<forall>e. odd e \<and> d \<le> e \<and> e * e \<le> n \<longrightarrow> \<not> e dvd n)"
proof (induction n d rule: odd_prime_loop.induct)
  case (1 n d)
  show ?case
  proof (cases "d * d \<le> n")
    case False
    moreover have "\<not> e * e \<le> n" if "d \<le> e" for e
      using False that "1.prems" mult_mono [of d e d e] by auto
    ultimately show ?thesis by (subst odd_prime_loop.simps) auto
  next
    case True
    have next_odd: "d < e \<Longrightarrow> odd e \<Longrightarrow> d + 2 \<le> e" for e
      using "1.prems"(2) by presburger
    show ?thesis
    proof (cases "n mod d = 0")
      case True': True
      with True "1.prems" show ?thesis
        by (subst odd_prime_loop.simps) (auto simp: dvd_eq_mod_eq_0)
    next
      case False
      then have "odd_prime_loop n (d + 2) \<longleftrightarrow>
          (\<forall>e. odd e \<and> d + 2 \<le> e \<and> e * e \<le> n \<longrightarrow> \<not> e dvd n)"
        using "1.IH" [OF True] "1.prems" by simp
      moreover have "(\<forall>e. odd e \<and> d \<le> e \<and> e * e \<le> n \<longrightarrow> \<not> e dvd n) \<longleftrightarrow>
          (\<forall>e. odd e \<and> d + 2 \<le> e \<and> e * e \<le> n \<longrightarrow> \<not> e dvd n)"
      proof (intro iff_allI)
        fix e
        have "\<not> d dvd n" using False by (simp add: dvd_eq_mod_eq_0)
        then show "(odd e \<and> d \<le> e \<and> e * e \<le> n \<longrightarrow> \<not> e dvd n) \<longleftrightarrow>
            (odd e \<and> d + 2 \<le> e \<and> e * e \<le> n \<longrightarrow> \<not> e dvd n)"
          using next_odd [of e] by (cases "e = d") (simp_all, linarith)
      qed
      ultimately show ?thesis
        using True False by (subst odd_prime_loop.simps) simp
    qed
  qed
qed

lemma small_factor:
  assumes "2 \<le> a" and "a < n" and "a dvd (n :: int)"
  obtains e where "2 \<le> e" and "e * e \<le> n" and "e dvd n"
proof -
  from assms(3) obtain b where b: "n = a * b" ..
  have "0 < b"
    using b assms by (intro zero_less_mult_pos [of a b]) simp_all
  moreover have "b \<noteq> 1" using b assms by auto
  ultimately have "2 \<le> b" by linarith
  show ?thesis
  proof (cases "a \<le> b")
    case True
    then have "a * a \<le> n" using b assms by (simp add: mult_left_mono)
    with assms that show ?thesis by blast
  next
    case False
    then have "b * b \<le> n" using b \<open>0 < b\<close> by (simp add: mult_right_mono)
    with \<open>2 \<le> b\<close> b that show ?thesis by simp
  qed
qed

lemma is_odd_prime_iff:
  assumes "odd n" and "3 \<le> n"
  shows "is_odd_prime n \<longleftrightarrow> prime_number n"
proof
  assume "is_odd_prime n"
  then have no: "odd e \<Longrightarrow> 3 \<le> e \<Longrightarrow> e * e \<le> n \<Longrightarrow> \<not> e dvd n" for e
    by (simp add: is_odd_prime_def odd_prime_loop_iff)
  show "prime_number n"
    unfolding prime_number_def
  proof (intro conjI allI impI notI)
    fix a
    assume a: "2 \<le> a \<and> a < n" "a dvd n"
    then obtain e where e: "2 \<le> e" "e * e \<le> n" "e dvd n" using small_factor by blast
    moreover have "odd e" using e(3) assms(1) by (metis dvd_trans)
    moreover from this e(1) have "3 \<le> e" by presburger
    ultimately show False using no by blast
  qed (use assms in simp)
next
  assume p: "prime_number n"
  have "e < n" if "3 \<le> e" "e * e \<le> n" for e
  proof -
    have "e * 3 \<le> e * e" using that by (intro mult_left_mono) auto
    with that show ?thesis by linarith
  qed
  with p show "is_odd_prime n"
    by (auto simp: is_odd_prime_def odd_prime_loop_iff prime_number_def)
qed

lemma prime_descent_largest:
  "odd n \<Longrightarrow> 3 \<le> n \<Longrightarrow>
     prime_number (prime_descent n) \<and> prime_descent n \<le> n \<and> odd (prime_descent n) \<and>
     (\<forall>p. odd p \<and> prime_descent n < p \<and> p \<le> n \<longrightarrow> \<not> prime_number p)"
proof (induction n rule: prime_descent.induct)
  case (1 n)
  show ?case
  proof (cases "is_odd_prime n")
    case True
    with "1.prems" show ?thesis by (auto simp: prime_descent.simps [of n] is_odd_prime_iff)
  next
    case False
    then have "9 \<le> n" using is_odd_prime_small by force
    with False "1.prems" have IH: "prime_number (prime_descent (n - 2)) \<and> prime_descent (n - 2) \<le> n - 2 \<and>
        odd (prime_descent (n - 2)) \<and>
        (\<forall>p. odd p \<and> prime_descent (n - 2) < p \<and> p \<le> n - 2 \<longrightarrow> \<not> prime_number p)"
      using "1.IH" by simp
    have eq: "prime_descent n = prime_descent (n - 2)"
      using False by (simp add: prime_descent.simps [of n])
    have "\<not> prime_number p" if "odd p" "prime_descent (n - 2) < p" "p \<le> n" for p
    proof (cases "p = n")
      case True
      with False "1.prems" show ?thesis by (simp add: is_odd_prime_iff)
    next
      case False
      with that "1.prems" have "p \<le> n - 2" by presburger
      with IH that show ?thesis by blast
    qed
    with IH eq show ?thesis by auto
  qed
qed

lemma prime_number_even: "prime_number p \<Longrightarrow> even p \<Longrightarrow> p = 2"
  unfolding prime_number_def by (metis order_le_less order_refl)

text \<open>Trial factors stay below 46345, so \<open>d + 2\<close> does not overflow and \<open>d * d\<close> fits 64 bits.\<close>

lemma odd_prime_factor_bound:
  assumes "d * d \<le> number" and "number < 2 ^ 31"
  shows "d + 2 < (46345 :: int)"
proof (rule ccontr)
  assume "\<not> d + 2 < 46345"
  then have "46343 * 46343 \<le> d * d" by (intro mult_mono) auto
  with assms show False by simp
qed

lemma find_largest_prime:
  assumes "2 \<le> b"
  shows "prime_number (ethash_find_largest_prime b) \<and> ethash_find_largest_prime b \<le> b \<and>
     (\<forall>p. prime_number p \<and> p \<le> b \<longrightarrow> p \<le> ethash_find_largest_prime b)"
proof (cases "b = 2")
  case True
  then show ?thesis by (auto simp: ethash_find_largest_prime_def prime_number_def)
next
  case False
  let ?n = "if b mod 2 = 0 then b - 1 else b"
  have n: "odd ?n" "3 \<le> ?n" "?n \<le> b" "\<And>p. p \<le> b \<Longrightarrow> odd p \<Longrightarrow> p \<le> ?n"
    using assms False by (auto, presburger+)
  have r: "ethash_find_largest_prime b = prime_descent ?n"
    using assms False by (simp add: ethash_find_largest_prime_def Let_def)
  note largest = prime_descent_largest [OF n(1,2)]
  have "p \<le> prime_descent ?n" if "prime_number p" "p \<le> b" for p
  proof (cases "even p")
    case True
    with that have "p = 2" by (intro prime_number_even)
    with largest show ?thesis unfolding prime_number_def by blast
  next
    case odd: False
    with n(4) that have "p \<le> ?n" by blast
    with odd that largest show ?thesis by (meson not_le)
  qed
  with largest n(3) show ?thesis unfolding r by (meson order_trans)
qed

end
