(* ===== verification/Permutation.thy ===== *)
theory Permutation
  imports Prelude "HOL-Library.Multiset"
begin

text \<open>
  The helpers of \<open>src/src/Native/libmultihash/megabtx.c\<close> that enumerate permutations: \<open>swap\<close>,
  \<open>reverse\<close> and \<open>next_permutation\<close>, on the list of the elements between \<open>pbegin\<close> and \<open>pend\<close>, with
  pointers as indices.

  The lemmas give \<open>next_permutation\<close> its meaning: it keeps the elements, and on lists without
  repetition it adds one to the place in the lexicographic order, modulo the number of permutations.
\<close>

section \<open>The helpers\<close>

definition swap_at :: "'a list \<Rightarrow> nat \<Rightarrow> nat \<Rightarrow> 'a list" where
  "swap_at xs a b = xs[a := xs ! b, b := xs ! a]"

text \<open>\<open>reverse(pbegin, pend)\<close> is called with \<open>pbegin \<le> pend\<close>, so that the two pointers meet.\<close>

function reverse_range :: "'a list \<Rightarrow> nat \<Rightarrow> nat \<Rightarrow> 'a list" where
  "reverse_range xs b e =
     (if b < e \<and> b < e - 1 then reverse_range (swap_at xs b (e - 1)) (b + 1) (e - 1) else xs)"
  by pat_completeness auto
termination
  by (relation "measure (\<lambda>(xs, b, e). e)") auto

declare reverse_range.simps [simp del]

text \<open>\<open>while (!(*i < *--k))\<close> from \<open>k = pend\<close>; the element behind \<open>*i\<close> stops the search.\<close>

fun find_greater :: "int list \<Rightarrow> int \<Rightarrow> nat \<Rightarrow> nat" where
  "find_greater xs x 0 = 0"
| "find_greater xs x (Suc k) = (if \<not> x < xs ! k then find_greater xs x k else k)"

text \<open>The loop \<open>while (1)\<close>; the argument is the value of \<open>i\<close> at its head, above \<open>pbegin\<close>.\<close>

fun next_permutation_loop :: "int list \<Rightarrow> nat \<Rightarrow> int list" where
  "next_permutation_loop xs 0 = xs"
| "next_permutation_loop xs (Suc i) =
     (let j = Suc i
      in if xs ! i < xs ! j then
           let k = find_greater xs (xs ! i) (length xs)
           in reverse_range (swap_at xs i k) j (length xs)
         else if i = 0 then reverse_range xs 0 (length xs)
         else next_permutation_loop xs i)"

definition next_permutation :: "int list \<Rightarrow> int list" where
  "next_permutation xs =
     (if length xs = 0 then xs
      else if length xs = 1 then xs
      else next_permutation_loop xs (length xs - 1))"

section \<open>What they do\<close>

lemma swap_at_ends: "swap_at (pre @ x # mid @ y # post) (length pre) (length pre + Suc (length mid)) =
    pre @ y # mid @ x # post"
  by (simp add: swap_at_def list_update_append nth_append)

lemma reverse_range_rev:
  "reverse_range (pre @ ys @ post) (length pre) (length pre + length ys) = pre @ rev ys @ post"
proof (induction "length ys" arbitrary: pre ys post rule: less_induct)
  case less
  consider "length ys \<le> 1" | x mid y where "ys = x # mid @ [y]"
    by (metis One_nat_def append_butlast_last_id length_Cons list.size(3) not_less_eq_eq remdups_adj.cases le0 neq_Nil_conv)
  then show ?case
  proof cases
    case 1
    then have "rev ys = ys" by (cases ys) auto
    with 1 show ?thesis by (subst reverse_range.simps) auto
  next
    case (2 x mid y)
    have "reverse_range (pre @ ys @ post) (length pre) (length pre + length ys) =
        reverse_range ((pre @ [y]) @ mid @ x # post) (length (pre @ [y])) (length (pre @ [y]) + length mid)"
      using swap_at_ends [of pre x mid y post] 2 by (subst reverse_range.simps) simp
    also have "\<dots> = (pre @ [y]) @ rev mid @ x # post"
      by (rule less.hyps) (simp add: 2)
    finally show ?thesis using 2 by simp
  qed
qed

lemma find_greater_last:
  assumes "xs = us @ y # vs" and "x < y" and "\<forall>v \<in> set vs. \<not> x < v"
  shows "find_greater xs x (length xs) = length us"
proof -
  have "find_greater xs x (Suc (length us) + n) = length us" if "n \<le> length vs" for n
    using that
  proof (induction n)
    case 0
    then show ?case using assms by simp
  next
    case (Suc n)
    then have "xs ! (Suc (length us) + n) = vs ! n"
      using assms(1) by (simp add: nth_append)
    moreover have "vs ! n \<in> set vs" using Suc.prems by simp
    ultimately show ?case using Suc assms(3) by auto
  qed
  from this [of "length vs"] assms(1) show ?thesis by simp
qed

text \<open>The loop walks down over a descending end.\<close>

lemma next_permutation_loop_descent:
  assumes "sorted_wrt (\<ge>) ds" and "i < length ds"
  shows "next_permutation_loop (pre @ x # ds) (length pre + Suc i) =
     next_permutation_loop (pre @ x # ds) (length pre + 1)"
  using assms(2)
proof (induction i)
  case (Suc i)
  have "ds ! i \<ge> ds ! Suc i"
    using assms(1) Suc.prems by (auto simp: sorted_wrt_iff_nth_less)
  then have "\<not> (pre @ x # ds) ! (length pre + Suc i) < (pre @ x # ds) ! Suc (length pre + Suc i)"
    by (simp add: nth_append)
  then have "next_permutation_loop (pre @ x # ds) (Suc (length pre + Suc i)) =
      next_permutation_loop (pre @ x # ds) (length pre + Suc i)"
    by simp
  with Suc show ?case by simp
qed simp

lemma next_permutation_step:
  assumes "sorted_wrt (\<ge>) (us @ y # vs)" and "x < y" and "\<forall>v \<in> set vs. \<not> x < v"
  shows "next_permutation (pre @ x # us @ y # vs) = pre @ y # rev vs @ x # rev us"
proof -
  let ?ds = "us @ y # vs"
  let ?xs = "pre @ x # ?ds"
  have "next_permutation ?xs = next_permutation_loop ?xs (length pre + Suc (length ?ds - 1))"
    by (simp add: next_permutation_def)
  also have "\<dots> = next_permutation_loop ?xs (length pre + 1)"
    using assms(1) by (intro next_permutation_loop_descent) auto
  also have "\<dots> = reverse_range (swap_at ?xs (length pre) (find_greater ?xs x (length ?xs)))
      (Suc (length pre)) (length ?xs)"
  proof -
    have "x < hd ?ds" using assms(1,2) by (cases us) auto
    then have "?xs ! length pre < ?xs ! Suc (length pre)"
      by (simp add: nth_append hd_conv_nth)
    then show ?thesis by simp
  qed
  also have "find_greater ?xs x (length ?xs) = length (pre @ x # us)"
    by (rule find_greater_last) (use assms in auto)
  also have "swap_at ?xs (length pre) (length (pre @ x # us)) = (pre @ [y]) @ (us @ x # vs) @ []"
    using swap_at_ends [of pre x us y vs] by simp
  also have "reverse_range \<dots> (Suc (length pre)) (length ?xs) = (pre @ [y]) @ rev (us @ x # vs) @ []"
    using reverse_range_rev [of "pre @ [y]" "us @ x # vs" "[]"] by simp
  finally show ?thesis by simp
qed

lemma next_permutation_last:
  assumes "sorted_wrt (\<ge>) xs"
  shows "next_permutation xs = rev xs"
proof -
  consider "length xs \<le> 1" | x y ds where "xs = x # y # ds"
    by (metis One_nat_def length_Cons list.size(3) not_less_eq_eq remdups_adj.cases le0)
  then show ?thesis
  proof cases
    case 1
    then show ?thesis by (cases xs) (auto simp: next_permutation_def)
  next
    case (2 x y ds)
    have "next_permutation xs = next_permutation_loop ([] @ x # y # ds) (length ([] :: int list) + Suc (length ds))"
      by (simp add: next_permutation_def 2)
    also have "\<dots> = next_permutation_loop ([] @ x # y # ds) (length ([] :: int list) + 1)"
      using assms 2 by (intro next_permutation_loop_descent) auto
    also have "\<dots> = reverse_range xs 0 (length xs)"
      using assms 2 by simp
    finally show ?thesis using reverse_range_rev [of "[]" xs "[]"] by simp
  qed
qed

text \<open>Every list that is not descending is at a step.\<close>

lemma ascent_cases:
  assumes "\<not> sorted_wrt (\<ge>) (xs :: int list)"
  obtains pre x us y vs where "xs = pre @ x # us @ y # vs" and "sorted_wrt (\<ge>) (us @ y # vs)"
    and "x < y" and "\<forall>v \<in> set vs. \<not> x < v"
  using assms
proof (induction xs arbitrary: thesis)
  case Nil
  then show ?case by simp
next
  case (Cons a xs)
  show ?case
  proof (cases "sorted_wrt (\<ge>) xs")
    case False
    then obtain pre x us y vs where "xs = pre @ x # us @ y # vs" "sorted_wrt (\<ge>) (us @ y # vs)"
      "x < y" "\<forall>v \<in> set vs. \<not> x < v"
      using Cons.IH by blast
    then show ?thesis using Cons.prems(1) [of "a # pre" x us y vs] by simp
  next
    case True
    let ?ys = "takeWhile (\<lambda>v. a < v) xs"
    have drop: "\<not> a < v" if "v \<in> set (dropWhile (\<lambda>v. a < v) xs)" for v
      using that True
    proof (induction xs)
      case (Cons b xs)
      then show ?case by (cases "a < b") (auto split: if_splits)
    qed simp
    have "?ys \<noteq> []"
    proof
      assume "?ys = []"
      then have "dropWhile (\<lambda>v. a < v) xs = xs" by (metis append_Nil takeWhile_dropWhile_id)
      then have "\<forall>v \<in> set xs. \<not> a < v" using drop by metis
      with True Cons.prems(2) show False by (auto simp: not_less)
    qed
    then obtain us y where ys: "?ys = us @ [y]" by (metis append_butlast_last_id)
    define ws where "ws = dropWhile (\<lambda>v. a < v) xs"
    have xs: "xs = us @ y # ws"
      using ys takeWhile_dropWhile_id [of "\<lambda>v. a < v" xs] by (simp add: ws_def)
    have "y \<in> set ?ys" by (simp add: ys)
    then have "a < y" by (rule set_takeWhileD [THEN conjunct2])
    moreover have "\<forall>v \<in> set ws. \<not> a < v" unfolding ws_def using drop by blast
    moreover have "a # xs = [] @ a # us @ y # ws" "sorted_wrt (\<ge>) (us @ y # ws)" using True by (simp_all add: xs)
    ultimately show ?thesis by (intro Cons.prems(1))
  qed
qed

lemma mset_next_permutation: "mset (next_permutation xs) = mset xs"
proof (cases "sorted_wrt (\<ge>) xs")
  case True
  then show ?thesis by (simp add: next_permutation_last)
next
  case False
  then obtain pre x us y vs where "xs = pre @ x # us @ y # vs" "sorted_wrt (\<ge>) (us @ y # vs)"
    "x < y" "\<forall>v \<in> set vs. \<not> x < v"
    by (rule ascent_cases)
  then show ?thesis by (simp add: next_permutation_step)
qed

lemma next_permutation_prefix:
  assumes "\<not> sorted_wrt (\<ge>) xs"
  shows "next_permutation (z # xs) = z # next_permutation xs"
proof -
  obtain pre x us y vs where xs: "xs = pre @ x # us @ y # vs" "sorted_wrt (\<ge>) (us @ y # vs)"
    "x < y" "\<forall>v \<in> set vs. \<not> x < v"
    using assms by (rule ascent_cases)
  then show ?thesis
    using next_permutation_step [of us y vs x "z # pre"] by (simp add: next_permutation_step)
qed

section \<open>The place of a permutation\<close>

text \<open>The number of permutations of a list without repetition that precede it in the lexicographic order.\<close>

primrec perm_rank :: "int list \<Rightarrow> nat" where
  "perm_rank [] = 0"
| "perm_rank (x # xs) = length (filter (\<lambda>y. y < x) xs) * fact (length xs) + perm_rank xs"

lemma perm_rank_less: "perm_rank xs < fact (length xs)"
proof (induction xs)
  case (Cons x xs)
  have "length (filter (\<lambda>y. y < x) xs) * fact (length xs) \<le> length xs * fact (length xs)"
    by (rule mult_right_mono) simp_all
  then have "perm_rank (x # xs) < length xs * fact (length xs) + fact (length xs)"
    unfolding perm_rank.simps using Cons by linarith
  then show ?case by (simp add: algebra_simps)
qed simp

lemma perm_rank_ascending: "sorted_wrt (<) xs \<Longrightarrow> perm_rank xs = 0"
  by (induction xs) (auto simp: filter_empty_conv)

lemma perm_rank_descending: "sorted_wrt (>) xs \<Longrightarrow> perm_rank xs = fact (length xs) - 1"
proof (induction xs)
  case (Cons x xs)
  then have "filter (\<lambda>y. y < x) xs = xs" by (auto simp: filter_id_conv)
  moreover have "(1 :: nat) \<le> fact (length xs)" by (rule fact_ge_1)
  ultimately show ?case using Cons by (simp add: add_diff_assoc)
qed simp

lemma perm_rank_append:
  assumes "mset ys = mset zs"
  shows "int (perm_rank (pre @ ys)) - int (perm_rank (pre @ zs)) = int (perm_rank ys) - int (perm_rank zs)"
proof (induction pre)
  case (Cons a pre)
  have "length ys = length zs" using assms by (rule mset_eq_length)
  moreover have "length (filter (\<lambda>y. y < a) (pre @ ys)) = length (filter (\<lambda>y. y < a) (pre @ zs))"
    using assms by (metis mset_append mset_filter size_mset)
  ultimately show ?case using Cons by simp
qed simp

lemma sorted_wrt_distinct:
  "distinct xs \<Longrightarrow> sorted_wrt (\<ge>) xs \<Longrightarrow> sorted_wrt (>) (xs :: int list)"
  by (induction xs) (auto simp: less_le)

lemma perm_rank_step:
  assumes "distinct (x # us @ y # vs)" and "sorted_wrt (\<ge>) (us @ y # vs)" and "x < y" and "\<forall>v \<in> set vs. \<not> x < v"
  shows "perm_rank (y # rev vs @ x # rev us) = Suc (perm_rank (x # us @ y # vs))"
proof -
  let ?n = "length (us @ y # vs)"
  have desc: "sorted_wrt (>) (us @ y # vs)" using assms by (intro sorted_wrt_distinct) auto
  then have us: "u > y" if "u \<in> set us" for u using that by (auto simp: sorted_wrt_append)
  have vs: "v < x" if "v \<in> set vs" for v using that assms(1,4) by (metis distinct.simps(2) in_set_conv_decomp_first linorder_less_linear list.set_intros(2) Un_iff set_append)
  have "filter (\<lambda>z. z < x) us = []" "filter (\<lambda>z. z < x) vs = vs" "filter (\<lambda>z. z < y) (rev us) = []"
    "filter (\<lambda>z. z < y) (rev vs) = rev vs"
    unfolding filter_empty_conv filter_id_conv using us vs assms(3) by force+
  then have "filter (\<lambda>z. z < x) (us @ y # vs) = vs" "filter (\<lambda>z. z < y) (rev vs @ x # rev us) = rev vs @ [x]"
    using assms(3) by simp_all
  moreover have "sorted_wrt (<) (rev vs @ x # rev us)"
  proof -
    have "sorted_wrt (<) (rev vs)" "sorted_wrt (<) (rev us)"
      using desc by (simp_all add: sorted_wrt_append sorted_wrt_rev)
    moreover have "v < u" "v < x" "x < u" if "v \<in> set vs" "u \<in> set us" for u v
      using us [OF that(2)] vs [OF that(1)] assms(3) by linarith+
    moreover have "x < u" if "u \<in> set us" for u using us [OF that] assms(3) by linarith
    ultimately show ?thesis using vs by (simp add: sorted_wrt_append)
  qed
  then have "perm_rank (rev vs @ x # rev us) = 0" by (rule perm_rank_ascending)
  moreover have "perm_rank (us @ y # vs) = fact ?n - 1" using desc by (rule perm_rank_descending)
  moreover have "length (rev vs @ x # rev us) = ?n" by simp
  moreover have "(1 :: nat) \<le> fact ?n" by (rule fact_ge_1)
  ultimately show ?thesis by (simp only: perm_rank.simps length_append length_rev list.size) simp
qed

lemma perm_rank_next:
  assumes "distinct xs"
  shows "perm_rank (next_permutation xs) = Suc (perm_rank xs) mod fact (length xs)"
proof (cases "sorted_wrt (\<ge>) xs")
  case True
  with assms have desc: "sorted_wrt (>) xs" by (intro sorted_wrt_distinct)
  then have "perm_rank (rev xs) = 0" by (intro perm_rank_ascending) (simp add: sorted_wrt_rev)
  moreover have "Suc (perm_rank xs) = fact (length xs)"
    using desc fact_ge_1 [of "length xs"] by (simp add: perm_rank_descending)
  ultimately show ?thesis using True by (simp add: next_permutation_last)
next
  case False
  then obtain pre x us y vs where xs: "xs = pre @ x # us @ y # vs" "sorted_wrt (\<ge>) (us @ y # vs)"
    "x < y" "\<forall>v \<in> set vs. \<not> x < v"
    by (rule ascent_cases)
  then have next_xs: "next_permutation xs = pre @ y # rev vs @ x # rev us" by (simp add: next_permutation_step)
  have "perm_rank (y # rev vs @ x # rev us) = Suc (perm_rank (x # us @ y # vs))"
    using assms xs by (intro perm_rank_step) auto
  then have "perm_rank (next_permutation xs) = Suc (perm_rank xs)"
    using perm_rank_append [of "y # rev vs @ x # rev us" "x # us @ y # vs" pre]
    unfolding next_xs unfolding xs(1) by (simp del: perm_rank.simps)
  moreover have "perm_rank (next_permutation xs) < fact (length xs)"
    using perm_rank_less [of "next_permutation xs"] mset_eq_length [OF mset_next_permutation [of xs]] by simp
  ultimately show ?thesis by simp
qed

lemma perm_rank_iterate:
  assumes "distinct xs"
  shows "mset ((next_permutation ^^ n) xs) = mset xs \<and>
    perm_rank ((next_permutation ^^ n) xs) = (perm_rank xs + n) mod fact (length xs)"
proof (induction n)
  case 0
  then show ?case by (simp add: perm_rank_less)
next
  case (Suc n)
  let ?ys = "(next_permutation ^^ n) xs"
  have "distinct ?ys" "length ?ys = length xs"
    using Suc assms by (metis mset_eq_imp_distinct_iff, metis mset_eq_length)
  then show ?case
    using Suc by (simp add: perm_rank_next mset_next_permutation mod_Suc_eq)
qed

text \<open>A permutation is determined by its place.\<close>

lemma perm_rank_inject:
  assumes "mset xs = mset ys" and "distinct xs" and "perm_rank xs = perm_rank ys"
  shows "xs = ys"
  using assms
proof (induction xs arbitrary: ys)
  case Nil
  then show ?case by simp
next
  case (Cons x xs)
  obtain y ys' where ys: "ys = y # ys'" using Cons.prems(1) by (cases ys) auto
  have len: "length xs = length ys'" using mset_eq_length [OF Cons.prems(1)] ys by simp
  have dist: "distinct ys" using Cons.prems(1,2) by (metis mset_eq_imp_distinct_iff)
  let ?f = "fact (length xs) :: nat"
  have split: "(a * ?f + b) div ?f = a \<and> (a * ?f + b) mod ?f = b" if "b < ?f" for a b :: nat
    using that by simp
  have eq: "length (filter (\<lambda>z. z < x) xs) * ?f + perm_rank xs = length (filter (\<lambda>z. z < y) ys') * ?f + perm_rank ys'"
    using Cons.prems(3) ys len by simp
  have bx: "perm_rank xs < ?f" and by': "perm_rank ys' < ?f"
    using perm_rank_less [of xs] perm_rank_less [of ys'] len by simp_all
  have lf: "length (filter (\<lambda>z. z < x) xs) = length (filter (\<lambda>z. z < y) ys')" and rest: "perm_rank xs = perm_rank ys'"
    using split [OF bx] split [OF by'] eq by metis+
  have below: "length (filter (\<lambda>z. z < a) (x # xs)) = length (filter (\<lambda>z. z < a) ys)" for a
    using Cons.prems(1) by (metis mset_filter size_mset)
  have "x = y"
  proof (rule ccontr)
    assume "x \<noteq> y"
    have mono: "length (filter (\<lambda>z. z < a) zs) < length (filter (\<lambda>z. z < b) zs)" if "a < b" "a \<in> set zs" for a b :: int and zs
      using that(2)
    proof (induction zs)
      case (Cons c zs)
      have "length (filter (\<lambda>z. z < a) zs) \<le> length (filter (\<lambda>z. z < b) zs)"
        using that(1) by (induction zs) auto
      with Cons that(1) show ?case by auto
    qed simp
    have "length (filter (\<lambda>z. z < x) (x # xs)) = length (filter (\<lambda>z. z < y) (x # xs))"
      using lf below [of x] below [of y] ys by simp
    moreover have "x \<in> set (x # xs)" "y \<in> set (x # xs)"
      using mset_eq_setD [OF Cons.prems(1)] ys by auto
    ultimately show False using mono [of x y "x # xs"] mono [of y x "x # xs"] \<open>x \<noteq> y\<close> by linarith
  qed
  moreover have "xs = ys'"
    by (rule Cons.IH) (use Cons.prems ys \<open>x = y\<close> rest in auto)
  ultimately show ?case using ys by simp
qed

end
