(* ===== verification/Megabtx.thy ===== *)
theory Megabtx
  imports Permutation Sph_Chains
begin

unbundle bit_operations_syntax

text \<open>
  \<open>megabtx_hash\<close> of \<open>src/src/Native/libmultihash/megabtx.c\<close>: the time stamp of the block header chooses
  three permutations, and each permutation the order in which a group of digests is applied. The
  digests are the parameter \<open>H\<close> of \<open>Sph_Chains\<close>; the local arrays are arguments, holding whatever
  the stack holds on entry. The arrays of \<open>uint32_t\<close> are handed to \<open>next_permutation\<close> as arrays of
  \<open>int\<close>, which is how their elements are modelled.

  The lemmas show which entries of the local arrays the result depends on: not on
  \<open>permutation_1[0]\<close>, though it takes part in the first permutation, but on eight entries of
  \<open>permutation_3\<close> that are never written.
\<close>

section \<open>The function\<close>

definition HASH_FUNC_BASE_TIMESTAMP_1 :: u32 where "HASH_FUNC_BASE_TIMESTAMP_1 = 1492973331"
definition HASH_FUNC_COUNT_1 :: nat where "HASH_FUNC_COUNT_1 = 8"
definition HASH_FUNC_COUNT_2 :: nat where "HASH_FUNC_COUNT_2 = 8"
definition HASH_FUNC_COUNT_3 :: nat where "HASH_FUNC_COUNT_3 = 7"
definition HASH_FUNC_VAR_1 :: u32 where "HASH_FUNC_VAR_1 = 3333"
definition HASH_FUNC_VAR_2 :: u32 where "HASH_FUNC_VAR_2 = 2100"
definition HASH_FUNC_COUNT_PERMUTATIONS_7 :: u32 where "HASH_FUNC_COUNT_PERMUTATIONS_7 = 5040"
definition HASH_FUNC_COUNT_PERMUTATIONS :: u32 where "HASH_FUNC_COUNT_PERMUTATIONS = 40320"

lemmas mega_consts = HASH_FUNC_BASE_TIMESTAMP_1_def HASH_FUNC_COUNT_1_def HASH_FUNC_COUNT_2_def
  HASH_FUNC_COUNT_3_def HASH_FUNC_VAR_1_def HASH_FUNC_VAR_2_def HASH_FUNC_COUNT_PERMUTATIONS_7_def
  HASH_FUNC_COUNT_PERMUTATIONS_def

text \<open>\<open>for (i = lo; i < hi; i++) permutation[i] = i\<close>.\<close>

definition init_range :: "nat \<Rightarrow> nat \<Rightarrow> int list \<Rightarrow> int list" where
  "init_range lo hi p = fold (\<lambda>i p. p[i := int i]) [lo..<hi] p"

text \<open>\<open>next_permutation(p + lo, p + hi)\<close>.\<close>

definition permute_range :: "nat \<Rightarrow> nat \<Rightarrow> int list \<Rightarrow> int list" where
  "permute_range lo hi p = take lo p @ next_permutation (take (hi - lo) (drop lo p)) @ drop hi p"

definition mega_timestamp :: "bytes \<Rightarrow> u32" where
  "mega_timestamp input = le_word (take 4 (drop (4 * 17) input))"

definition steps_1 :: "u32 \<Rightarrow> nat" where
  "steps_1 timestamp = unat ((timestamp - HASH_FUNC_BASE_TIMESTAMP_1) mod HASH_FUNC_COUNT_PERMUTATIONS_7)"

definition steps_2 :: "u32 \<Rightarrow> nat" where
  "steps_2 timestamp =
     unat ((timestamp + HASH_FUNC_VAR_1 - HASH_FUNC_BASE_TIMESTAMP_1) mod HASH_FUNC_COUNT_PERMUTATIONS)"

definition steps_3 :: "u32 \<Rightarrow> nat" where
  "steps_3 timestamp =
     unat ((timestamp + HASH_FUNC_VAR_2 - HASH_FUNC_BASE_TIMESTAMP_1) mod HASH_FUNC_COUNT_PERMUTATIONS_7)"

text \<open>The three \<open>switch\<close> statements: the digests that a case applies to \<open>hash\<close>, 64 bytes each.\<close>

definition mega_switch_1 :: "int \<Rightarrow> sph list" where
  "mega_switch_1 c =
     (if c = 1 then [ECHO512, BLAKE512]
      else if c = 2 then [SIMD512, BMW512]
      else if c = 3 then [GROESTL512]
      else if c = 4 then [WHIRLPOOL, JH512]
      else if c = 5 then [GOST512, KECCAK512]
      else if c = 6 then [FUGUE512, SKEIN512]
      else if c = 7 then [SHAVITE512, LUFFA512]
      else [])"

definition mega_switch_2 :: "int \<Rightarrow> sph list" where
  "mega_switch_2 c =
     (if c = 8 then [WHIRLPOOL, CUBEHASH512]
      else if c = 9 then [JH512, SHAVITE512]
      else if c = 10 then [BLAKE512, SIMD512]
      else if c = 11 then [SHABAL512, ECHO512]
      else if c = 12 then [HAMSI512]
      else if c = 13 then [BMW512, FUGUE512]
      else if c = 14 then [KECCAK512, SHABAL512]
      else if c = 15 then [LUFFA512, WHIRLPOOL]
      else [])"

definition mega_switch_3 :: "int \<Rightarrow> sph list" where
  "mega_switch_3 c =
     (if c = 16 then [SHA512, HAVAL256_5]
      else if c = 17 then [SKEIN512, GROESTL512]
      else if c = 18 then [SIMD512, HAMSI512]
      else if c = 19 then [GOST512, HAVAL256_5]
      else if c = 20 then [CUBEHASH512, SHA512]
      else if c = 21 then [ECHO512, SHAVITE512]
      else if c = 22 then [LUFFA512, SHABAL512]
      else [])"

text \<open>\<open>for (i = lo; i < hi; i++) switch (p[i])\<close>.\<close>

definition mega_loop ::
  "(sph \<Rightarrow> bytes \<Rightarrow> bytes) \<Rightarrow> (int \<Rightarrow> sph list) \<Rightarrow> int list \<Rightarrow> nat \<Rightarrow> nat \<Rightarrow> bytes \<Rightarrow> bytes" where
  "mega_loop H switch p lo hi hash =
     fold (\<lambda>i. fold (\<lambda>a hash. digest_to hash (H a (take 64 hash))) (switch (p ! i))) [lo..<hi] hash"

definition megabtx_hash ::
  "(sph \<Rightarrow> bytes \<Rightarrow> bytes) \<Rightarrow> bytes \<Rightarrow> int list \<Rightarrow> int list \<Rightarrow> int list \<Rightarrow> bytes \<Rightarrow> nat \<Rightarrow> bytes" where
  "megabtx_hash H hash permutation_1 permutation_2 permutation_3 input len =
     (let timestamp = mega_timestamp input;
          n1 = HASH_FUNC_COUNT_1; n2 = HASH_FUNC_COUNT_2; n3 = HASH_FUNC_COUNT_3;
          p1 = init_range 1 n1 permutation_1;
          p2 = init_range n1 (n2 + n1) permutation_2;
          p3 = init_range (n1 + n2) (n3 + n2 + n1) permutation_3;
          p1 = (permute_range 0 n1 ^^ steps_1 timestamp) p1;
          p2 = (permute_range n1 (n1 + n2) ^^ steps_2 timestamp) p2;
          p3 = (permute_range (n1 + n2) (n1 + n2 + n3) ^^ steps_3 timestamp) p3;
          hash = digest_to hash (H BLAKE512 (take len input));
          hash = mega_loop H mega_switch_1 p1 1 n1 hash;
          hash = mega_loop H mega_switch_2 p2 n1 (n1 + n2) hash;
          hash = mega_loop H mega_switch_3 p3 n2 (n1 + n2 + n3) hash
      in take 32 hash)"

section \<open>The permutations\<close>

lemma steps_less: "steps_1 t < 5040" "steps_2 t < 40320" "steps_3 t < 5040"
  using unat_mod_less [of "HASH_FUNC_COUNT_PERMUTATIONS_7" "t - HASH_FUNC_BASE_TIMESTAMP_1"]
    unat_mod_less [of "HASH_FUNC_COUNT_PERMUTATIONS" "t + HASH_FUNC_VAR_1 - HASH_FUNC_BASE_TIMESTAMP_1"]
    unat_mod_less [of "HASH_FUNC_COUNT_PERMUTATIONS_7" "t + HASH_FUNC_VAR_2 - HASH_FUNC_BASE_TIMESTAMP_1"]
  by (simp_all add: steps_1_def steps_2_def steps_3_def mega_consts)

lemma init_range_append:
  "lo + k \<le> length p \<Longrightarrow>
     init_range lo (lo + k) p = take lo p @ map int [lo..<lo + k] @ drop (lo + k) p"
proof (induction k)
  case 0
  then show ?case by (simp add: init_range_def)
next
  case (Suc k)
  then have "init_range lo (lo + Suc k) p =
      (take lo p @ map int [lo..<lo + k] @ drop (lo + k) p)[lo + k := int (lo + k)]"
    by (simp add: init_range_def)
  also have "\<dots> = take lo p @ map int [lo..<lo + k] @ int (lo + k) # drop (Suc (lo + k)) p"
    using Suc.prems by (simp add: list_update_append Cons_nth_drop_Suc [symmetric])
  finally show ?case by simp
qed

lemma permute_range_iterate:
  "(permute_range (length pre) (length pre + length xs) ^^ n) (pre @ xs @ post) =
     pre @ (next_permutation ^^ n) xs @ post"
proof (induction n)
  case (Suc n)
  have "length ((next_permutation ^^ n) xs) = length xs" for n
    by (induction n) (auto simp: mset_eq_length [OF mset_next_permutation])
  with Suc show ?case by (simp add: permute_range_def)
qed simp

text \<open>The first element stays as long as the others have not gone through all their permutations.\<close>

lemma next_permutation_iterate_prefix:
  assumes "sorted_wrt (<) xs" and "n < fact (length xs)"
  shows "(next_permutation ^^ n) (z # xs) = z # (next_permutation ^^ n) xs"
  using assms(2)
proof (induction n)
  case (Suc n)
  have dist: "distinct xs" using assms(1) by (simp add: strict_sorted_iff)
  let ?ys = "(next_permutation ^^ n) xs"
  have ys: "mset ?ys = mset xs" "perm_rank ?ys = n"
    using perm_rank_iterate [OF dist, of n] Suc.prems by (simp_all add: perm_rank_ascending assms(1))
  have "distinct ?ys" using ys(1) dist by (metis mset_eq_imp_distinct_iff)
  have "\<not> sorted_wrt (\<ge>) ?ys"
  proof
    assume "sorted_wrt (\<ge>) ?ys"
    with \<open>distinct ?ys\<close> have "perm_rank ?ys = fact (length ?ys) - 1"
      by (intro perm_rank_descending sorted_wrt_distinct)
    with ys Suc.prems mset_eq_length [OF ys(1)] show False by simp
  qed
  with Suc show ?case by (simp add: next_permutation_prefix)
qed simp

text \<open>The three arrays when the digests start.\<close>

lemma ints_1: "map int [1..<8] = [1, 2, 3, 4, 5, 6, 7]"
  and ints_2: "map int [8..<16] = [8, 9, 10, 11, 12, 13, 14, 15]"
  and ints_3: "map int [16..<23] = [16, 17, 18, 19, 20, 21, 22]"
  by (simp_all add: upt_rec)

lemma permutation_1_final:
  assumes "length p = 8"
  shows "(permute_range 0 8 ^^ steps_1 t) (init_range 1 8 p) =
     p ! 0 # (next_permutation ^^ steps_1 t) [1, 2, 3, 4, 5, 6, 7]"
proof -
  have "init_range 1 (1 + 7) p = p ! 0 # [1, 2, 3, 4, 5, 6, 7]"
    using assms init_range_append [of 1 7 p] ints_1 by (cases p) simp_all
  moreover have "sorted_wrt (<) [1, 2, 3, 4, 5, 6, 7 :: int]" by simp
  moreover have "steps_1 t < fact (length [1, 2, 3, 4, 5, 6, 7 :: int])"
  proof -
    have "length [1, 2, 3, 4, 5, 6, 7 :: int] = 7" by simp
    moreover have "fact 7 = (5040 :: nat)" by (simp add: fact_numeral)
    ultimately show ?thesis using steps_less(1) [of t] by (simp only:)
  qed
  note next_permutation_iterate_prefix [OF calculation(2) this, of "p ! 0"]
  ultimately show ?thesis
    using permute_range_iterate [where pre = "[]" and xs = "p ! 0 # [1, 2, 3, 4, 5, 6, 7]" and n = "steps_1 t" and post = "[]"]
    by (simp add: eval_nat_numeral)
qed

lemma permutation_2_final:
  assumes "length p = 16"
  shows "(permute_range 8 16 ^^ steps_2 t) (init_range 8 16 p) =
     take 8 p @ (next_permutation ^^ steps_2 t) [8, 9, 10, 11, 12, 13, 14, 15]"
  using assms init_range_append [of 8 8 p] ints_2
    permute_range_iterate [where pre = "take 8 p" and xs = "[8, 9, 10, 11, 12, 13, 14, 15]" and n = "steps_2 t" and post = "[]"]
  by simp

lemma permutation_3_final:
  assumes "length p = 23"
  shows "(permute_range 16 23 ^^ steps_3 t) (init_range 16 23 p) =
     take 16 p @ (next_permutation ^^ steps_3 t) [16, 17, 18, 19, 20, 21, 22]"
  using assms init_range_append [of 16 7 p] ints_3
    permute_range_iterate [where pre = "take 16 p" and xs = "[16, 17, 18, 19, 20, 21, 22]" and n = "steps_3 t" and post = "[]"]
  by simp

text \<open>The orders are permutations at the places the steps name.\<close>

lemma mega_order:
  assumes "sorted_wrt (<) xs" and "n < fact (length xs)"
  shows "mset ((next_permutation ^^ n) xs) = mset xs \<and> perm_rank ((next_permutation ^^ n) xs) = n"
  using perm_rank_iterate [of xs n] assms by (simp add: perm_rank_ascending strict_sorted_iff)

lemma mega_orders:
  "mset ((next_permutation ^^ steps_1 t) [1, 2, 3, 4, 5, 6, 7]) = mset [1, 2, 3, 4, 5, 6, 7] \<and>
     perm_rank ((next_permutation ^^ steps_1 t) [1, 2, 3, 4, 5, 6, 7]) = steps_1 t"
  "mset ((next_permutation ^^ steps_2 t) [8, 9, 10, 11, 12, 13, 14, 15]) = mset [8, 9, 10, 11, 12, 13, 14, 15] \<and>
     perm_rank ((next_permutation ^^ steps_2 t) [8, 9, 10, 11, 12, 13, 14, 15]) = steps_2 t"
  "mset ((next_permutation ^^ steps_3 t) [16, 17, 18, 19, 20, 21, 22]) = mset [16, 17, 18, 19, 20, 21, 22] \<and>
     perm_rank ((next_permutation ^^ steps_3 t) [16, 17, 18, 19, 20, 21, 22]) = steps_3 t"
proof -
  have f: "fact 7 = (5040 :: nat)" "fact 8 = (40320 :: nat)" by (simp_all add: fact_numeral)
  have l: "length [1, 2, 3, 4, 5, 6, 7 :: int] = 7" "length [8, 9, 10, 11, 12, 13, 14, 15 :: int] = 8"
    "length [16, 17, 18, 19, 20, 21, 22 :: int] = 7" by simp_all
  show "mset ((next_permutation ^^ steps_1 t) [1, 2, 3, 4, 5, 6, 7]) = mset [1, 2, 3, 4, 5, 6, 7] \<and>
     perm_rank ((next_permutation ^^ steps_1 t) [1, 2, 3, 4, 5, 6, 7]) = steps_1 t"
    by (rule mega_order [where xs = "[1, 2, 3, 4, 5, 6, 7]"]) (simp, simp only: l f steps_less)
  show "mset ((next_permutation ^^ steps_2 t) [8, 9, 10, 11, 12, 13, 14, 15]) = mset [8, 9, 10, 11, 12, 13, 14, 15] \<and>
     perm_rank ((next_permutation ^^ steps_2 t) [8, 9, 10, 11, 12, 13, 14, 15]) = steps_2 t"
    by (rule mega_order [where xs = "[8, 9, 10, 11, 12, 13, 14, 15]"]) (simp, simp only: l f steps_less)
  show "mset ((next_permutation ^^ steps_3 t) [16, 17, 18, 19, 20, 21, 22]) = mset [16, 17, 18, 19, 20, 21, 22] \<and>
     perm_rank ((next_permutation ^^ steps_3 t) [16, 17, 18, 19, 20, 21, 22]) = steps_3 t"
    by (rule mega_order [where xs = "[16, 17, 18, 19, 20, 21, 22]"]) (simp, simp only: l f steps_less)
qed

section \<open>The chain of digests\<close>

text \<open>A digest applied to the 64 bytes of the running value; a shorter one keeps the tail.\<close>

definition mega_digest :: "(sph \<Rightarrow> bytes \<Rightarrow> bytes) \<Rightarrow> sph \<Rightarrow> bytes \<Rightarrow> bytes" where
  "mega_digest H a v = H a v @ drop (digest_len a) v"

lemma digest_to_buffer:
  assumes "sph_ok H" and "64 \<le> length h"
  shows "take 64 (digest_to h (H a (take 64 h))) = mega_digest H a (take 64 h)"
    and "length (digest_to h (H a (take 64 h))) = length h"
proof -
  have len: "length (H a (take 64 h)) \<le> 64" "length (H a (take 64 h)) = digest_len a"
    using assms(1) digest_len_le [of a] by (simp_all add: sph_ok_length)
  with assms(2) show "take 64 (digest_to h (H a (take 64 h))) = mega_digest H a (take 64 h)"
    by (simp add: digest_to_part mega_digest_def drop_take)
  from len(1) assms(2) show "length (digest_to h (H a (take 64 h))) = length h"
    by (intro length_digest_to) simp
qed

lemma fold_buffer:
  assumes "sph_ok H" and "64 \<le> length h"
  shows "take 64 (fold (\<lambda>a h. digest_to h (H a (take 64 h))) as h) = fold (mega_digest H) as (take 64 h) \<and>
     length (fold (\<lambda>a h. digest_to h (H a (take 64 h))) as h) = length h"
  using assms(2)
proof (induction as arbitrary: h)
  case (Cons a as)
  then show ?case using digest_to_buffer [OF assms(1) Cons.prems, of a] by simp
qed simp

lemma fold_concat_map: "fold (\<lambda>c. fold g (f c)) cs x = fold g (concat (map f cs)) x"
  by (induction cs arbitrary: x) auto

lemma mega_loop_fold:
  assumes "hi \<le> length p"
  shows "mega_loop H switch p lo hi h =
     fold (\<lambda>a h. digest_to h (H a (take 64 h))) (concat (map switch (take (hi - lo) (drop lo p)))) h"
proof -
  have "map ((!) p) [lo..<hi] = take (hi - lo) (drop lo p)"
    using assms by (intro nth_equalityI) auto
  moreover have "fold g (map ((!) p) [lo..<hi]) h = fold (\<lambda>i. g (p ! i)) [lo..<hi] h" for g :: "int \<Rightarrow> bytes \<Rightarrow> bytes"
    by (simp add: fold_map comp_def)
  ultimately show ?thesis
    unfolding mega_loop_def fold_concat_map [symmetric] by (simp only:)
qed

lemma length_iterate [simp]: "length ((next_permutation ^^ n) xs) = length xs"
  by (induction n) (simp_all add: mset_eq_length [OF mset_next_permutation])

lemma megabtx_chain:
  assumes "sph_ok H" and "length hash = 92"
    and "length permutation_1 = 8" "length permutation_2 = 16" "length permutation_3 = 23"
  shows "megabtx_hash H hash permutation_1 permutation_2 permutation_3 input len =
     take 32 (fold (mega_digest H)
       (concat (map mega_switch_1 ((next_permutation ^^ steps_1 (mega_timestamp input)) [1, 2, 3, 4, 5, 6, 7])) @
        concat (map mega_switch_2 ((next_permutation ^^ steps_2 (mega_timestamp input)) [8, 9, 10, 11, 12, 13, 14, 15])) @
        concat (map mega_switch_3 (take 8 (drop 8 permutation_3))) @
        concat (map mega_switch_3 ((next_permutation ^^ steps_3 (mega_timestamp input)) [16, 17, 18, 19, 20, 21, 22])))
       (H BLAKE512 (take len input)))"
proof -
  let ?t = "mega_timestamp input"
  let ?D = "\<lambda>a h. digest_to h (H a (take 64 h))"
  let ?h = "digest_to hash (H BLAKE512 (take len input))"
  let ?p1 = "(next_permutation ^^ steps_1 ?t) [1, 2, 3, 4, 5, 6, 7]"
  let ?p2 = "(next_permutation ^^ steps_2 ?t) [8, 9, 10, 11, 12, 13, 14, 15]"
  let ?p3 = "(next_permutation ^^ steps_3 ?t) [16, 17, 18, 19, 20, 21, 22]"
  let ?j = "take 8 (drop 8 permutation_3)"
  let ?as = "concat (map mega_switch_1 ?p1) @ concat (map mega_switch_2 ?p2) @
    concat (map mega_switch_3 ?j) @ concat (map mega_switch_3 ?p3)"
  have h: "take 64 ?h = H BLAKE512 (take len input)" "length ?h = 92"
    using assms(1,2) by (simp_all add: digest_to_part sph_ok_length)
  have "mega_loop H mega_switch_1 (permutation_1 ! 0 # ?p1) 1 8 h = fold ?D (concat (map mega_switch_1 ?p1)) h" for h
    by (subst mega_loop_fold) simp_all
  moreover have "mega_loop H mega_switch_2 (take 8 permutation_2 @ ?p2) 8 16 h =
      fold ?D (concat (map mega_switch_2 ?p2)) h" for h
    using assms(4) by (subst mega_loop_fold) simp_all
  moreover have "mega_loop H mega_switch_3 (take 16 permutation_3 @ ?p3) 8 23 h =
      fold ?D (concat (map mega_switch_3 (?j @ ?p3))) h" for h
    using assms(5) by (subst mega_loop_fold) (simp_all add: drop_take)
  ultimately have "megabtx_hash H hash permutation_1 permutation_2 permutation_3 input len =
      take 32 (fold ?D ?as ?h)"
    using permutation_1_final [OF assms(3), of ?t] permutation_2_final [OF assms(4), of ?t]
      permutation_3_final [OF assms(5), of ?t]
    by (simp add: megabtx_hash_def Let_def HASH_FUNC_COUNT_1_def HASH_FUNC_COUNT_2_def
        HASH_FUNC_COUNT_3_def)
  also have "\<dots> = take 32 (take 64 (fold ?D ?as ?h))" by simp
  also have "take 64 (fold ?D ?as ?h) = fold (mega_digest H) ?as (H BLAKE512 (take len input))"
    using fold_buffer [OF assms(1), of ?h ?as] by (simp only: h)
  finally show ?thesis .
qed

section \<open>Entries that are read before they are written\<close>

text \<open>Digests that count: the first byte is one more than the first byte of the message.\<close>

definition counting_sph :: "sph \<Rightarrow> bytes \<Rightarrow> bytes" where
  "counting_sph a m = (hd (m @ [0]) + 1) # replicate (digest_len a - 1) 0"

lemma counting_sph_ok: "sph_ok counting_sph"
proof -
  have "0 < digest_len a" for a by (cases a) simp_all
  then show ?thesis by (simp add: sph_ok_def counting_sph_def)
qed

lemma fold_counting:
  "v \<noteq> [] \<Longrightarrow> fold (mega_digest counting_sph) as v \<noteq> [] \<and>
     hd (fold (mega_digest counting_sph) as v) = hd v + of_nat (length as)"
proof (induction as arbitrary: v)
  case (Cons a as)
  have "mega_digest counting_sph a v \<noteq> []" "hd (mega_digest counting_sph a v) = hd v + 1"
    using Cons.prems by (simp_all add: mega_digest_def counting_sph_def)
  with Cons.IH show ?case by (simp add: add.assoc add.commute)
qed simp

lemma megabtx_uninitialised:
  assumes "length hash = 92" and "length permutation_1 = 8" "length permutation_2 = 16"
  shows "megabtx_hash counting_sph hash permutation_1 permutation_2 (replicate 23 0) input len \<noteq>
     megabtx_hash counting_sph hash permutation_1 permutation_2 (replicate 8 0 @ 16 # replicate 14 0) input len"
proof -
  define v where "v = counting_sph BLAKE512 (take len input)"
  define A where "A = concat (map mega_switch_1 ((next_permutation ^^ steps_1 (mega_timestamp input)) [1, 2, 3, 4, 5, 6, 7])) @
    concat (map mega_switch_2 ((next_permutation ^^ steps_2 (mega_timestamp input)) [8, 9, 10, 11, 12, 13, 14, 15]))"
  define C where "C = concat (map mega_switch_3 ((next_permutation ^^ steps_3 (mega_timestamp input)) [16, 17, 18, 19, 20, 21, 22]))"
  have "v \<noteq> []" by (simp add: v_def counting_sph_def)
  then have hd_fold: "hd (take 32 (fold (mega_digest counting_sph) as v)) = hd v + of_nat (length as)" for as
    using fold_counting [of v as] by simp
  have none: "concat (map mega_switch_3 (take 8 (drop 8 (replicate 23 0)))) = []"
    and some: "concat (map mega_switch_3 (take 8 (drop 8 (replicate 8 0 @ 16 # replicate 14 0)))) = [SHA512, HAVAL256_5]"
    by (simp_all add: mega_switch_3_def numeral_eq_Suc)
  note chain = megabtx_chain [OF counting_sph_ok assms, unfolded append_assoc [symmetric]]
  have "hd (megabtx_hash counting_sph hash permutation_1 permutation_2 (replicate 23 0) input len) =
      hd v + of_nat (length ((A @ []) @ C))"
    unfolding chain [of "replicate 23 0", OF length_replicate] none A_def C_def v_def
    by (rule hd_fold [unfolded v_def])
  moreover have "hd (megabtx_hash counting_sph hash permutation_1 permutation_2
        (replicate 8 0 @ 16 # replicate 14 0) input len) = hd v + of_nat (length ((A @ [SHA512, HAVAL256_5]) @ C))"
  proof -
    have "length (replicate 8 0 @ 16 # replicate 14 (0 :: int)) = 23" by simp
    then show ?thesis
      by (simp only: chain some A_def [symmetric] C_def [symmetric] v_def [symmetric] hd_fold)
  qed
  ultimately show ?thesis by auto
qed

end
