(* ===== verification/Sph_Keccak.thy ===== *)
theory Sph_Keccak
  imports Keccak_Cn Md_Helper
begin

unbundle bit_operations_syntax

text \<open>
  Keccak of sphlib: \<open>src/src/Native/libmultihash/sha3/sph_keccak.c\<close>, as it is compiled on x86-64
  (\<open>SPH_KECCAK_64\<close> and \<open>SPH_KECCAK_NOCOPY\<close> are 1). The permutation is written with three tricks: six
  lanes are kept complemented, the step pi is never carried out but taken into the names of the lanes
  (\<open>P0\<close> to \<open>P23\<close>), and \<open>SPH_KECCAK_UNROLL\<close> rounds are unrolled before the lanes are moved back. All seven
  choices of \<open>SPH_KECCAK_UNROLL\<close> are modelled; 8 is the one that is compiled.

  The lemmas show that each of them is Keccak-f on the uncomplemented state, and that the streaming
  interface computes the sponge of \<open>sha3.c\<close> whatever the pieces; the \<open>flex\<close> functions differ in the
  domain bits of the padding.
\<close>

section \<open>The lanes\<close>

text \<open>The names of the lanes: \<open>a31\<close> is \<open>kc->u.wide[8]\<close>; \<open>a_t\<close> is the temporary of the moves.\<close>

abbreviation (input) a_00 :: nat where "a_00 \<equiv> 0"
abbreviation (input) a_10 :: nat where "a_10 \<equiv> 1"
abbreviation (input) a_20 :: nat where "a_20 \<equiv> 2"
abbreviation (input) a_30 :: nat where "a_30 \<equiv> 3"
abbreviation (input) a_40 :: nat where "a_40 \<equiv> 4"
abbreviation (input) a_01 :: nat where "a_01 \<equiv> 5"
abbreviation (input) a_11 :: nat where "a_11 \<equiv> 6"
abbreviation (input) a_21 :: nat where "a_21 \<equiv> 7"
abbreviation (input) a_31 :: nat where "a_31 \<equiv> 8"
abbreviation (input) a_41 :: nat where "a_41 \<equiv> 9"
abbreviation (input) a_02 :: nat where "a_02 \<equiv> 10"
abbreviation (input) a_12 :: nat where "a_12 \<equiv> 11"
abbreviation (input) a_22 :: nat where "a_22 \<equiv> 12"
abbreviation (input) a_32 :: nat where "a_32 \<equiv> 13"
abbreviation (input) a_42 :: nat where "a_42 \<equiv> 14"
abbreviation (input) a_03 :: nat where "a_03 \<equiv> 15"
abbreviation (input) a_13 :: nat where "a_13 \<equiv> 16"
abbreviation (input) a_23 :: nat where "a_23 \<equiv> 17"
abbreviation (input) a_33 :: nat where "a_33 \<equiv> 18"
abbreviation (input) a_43 :: nat where "a_43 \<equiv> 19"
abbreviation (input) a_04 :: nat where "a_04 \<equiv> 20"
abbreviation (input) a_14 :: nat where "a_14 \<equiv> 21"
abbreviation (input) a_24 :: nat where "a_24 \<equiv> 22"
abbreviation (input) a_34 :: nat where "a_34 \<equiv> 23"
abbreviation (input) a_44 :: nat where "a_44 \<equiv> 24"
abbreviation (input) a_t :: nat where "a_t \<equiv> 25"

definition keccak_RC :: "u64 list" where
  "keccak_RC =
    [0x0000000000000001, 0x0000000000008082, 0x800000000000808A, 0x8000000080008000,
     0x000000000000808B, 0x0000000080000001, 0x8000000080008081, 0x8000000000008009,
     0x000000000000008A, 0x0000000000000088, 0x0000000080008009, 0x000000008000000A,
     0x000000008000808B, 0x800000000000008B, 0x8000000000008089, 0x8000000000008003,
     0x8000000000008002, 0x8000000000000080, 0x000000000000800A, 0x800000008000000A,
     0x8000000080008081, 0x8000000000008080, 0x0000000080000001, 0x8000000080008008]"

section \<open>The round macros\<close>

text \<open>The macros as functions of the 25 lanes they are given, in the order of their parameters.\<close>

definition TH_ELT ::
  "u64 \<Rightarrow> u64 \<Rightarrow> u64 \<Rightarrow> u64 \<Rightarrow> u64 \<Rightarrow> u64 \<Rightarrow> u64 \<Rightarrow> u64 \<Rightarrow> u64 \<Rightarrow> u64 \<Rightarrow> u64" where
  "TH_ELT c0 c1 c2 c3 c4 d0 d1 d2 d3 d4 =
     (let tt0 = d0 XOR d1; tt1 = d2 XOR d3; tt0 = tt0 XOR d4; tt0 = tt0 XOR tt1; tt0 = rol64 tt0 1;
          tt2 = c0 XOR c1; tt3 = c2 XOR c3; tt0 = tt0 XOR c4; tt2 = tt2 XOR tt3
      in tt0 XOR tt2)"

definition THETA :: "u64 list \<Rightarrow> u64 list" where
  "THETA b =
     (let b00 = b ! 0; b01 = b ! 1; b02 = b ! 2; b03 = b ! 3; b04 = b ! 4;
          b10 = b ! 5; b11 = b ! 6; b12 = b ! 7; b13 = b ! 8; b14 = b ! 9;
          b20 = b ! 10; b21 = b ! 11; b22 = b ! 12; b23 = b ! 13; b24 = b ! 14;
          b30 = b ! 15; b31 = b ! 16; b32 = b ! 17; b33 = b ! 18; b34 = b ! 19;
          b40 = b ! 20; b41 = b ! 21; b42 = b ! 22; b43 = b ! 23; b44 = b ! 24;
          t0 = TH_ELT b40 b41 b42 b43 b44 b10 b11 b12 b13 b14;
          t1 = TH_ELT b00 b01 b02 b03 b04 b20 b21 b22 b23 b24;
          t2 = TH_ELT b10 b11 b12 b13 b14 b30 b31 b32 b33 b34;
          t3 = TH_ELT b20 b21 b22 b23 b24 b40 b41 b42 b43 b44;
          t4 = TH_ELT b30 b31 b32 b33 b34 b00 b01 b02 b03 b04;
          b00 = b00 XOR t0; b01 = b01 XOR t0; b02 = b02 XOR t0; b03 = b03 XOR t0; b04 = b04 XOR t0;
          b10 = b10 XOR t1; b11 = b11 XOR t1; b12 = b12 XOR t1; b13 = b13 XOR t1; b14 = b14 XOR t1;
          b20 = b20 XOR t2; b21 = b21 XOR t2; b22 = b22 XOR t2; b23 = b23 XOR t2; b24 = b24 XOR t2;
          b30 = b30 XOR t3; b31 = b31 XOR t3; b32 = b32 XOR t3; b33 = b33 XOR t3; b34 = b34 XOR t3;
          b40 = b40 XOR t4; b41 = b41 XOR t4; b42 = b42 XOR t4; b43 = b43 XOR t4; b44 = b44 XOR t4
      in [b00, b01, b02, b03, b04,
          b10, b11, b12, b13, b14,
          b20, b21, b22, b23, b24,
          b30, b31, b32, b33, b34,
          b40, b41, b42, b43, b44])"

definition RHO :: "u64 list \<Rightarrow> u64 list" where
  "RHO b =
     (let b00 = b ! 0; b01 = b ! 1; b02 = b ! 2; b03 = b ! 3; b04 = b ! 4;
          b10 = b ! 5; b11 = b ! 6; b12 = b ! 7; b13 = b ! 8; b14 = b ! 9;
          b20 = b ! 10; b21 = b ! 11; b22 = b ! 12; b23 = b ! 13; b24 = b ! 14;
          b30 = b ! 15; b31 = b ! 16; b32 = b ! 17; b33 = b ! 18; b34 = b ! 19;
          b40 = b ! 20; b41 = b ! 21; b42 = b ! 22; b43 = b ! 23; b44 = b ! 24;
          b01 = rol64 b01 36; b02 = rol64 b02 3; b03 = rol64 b03 41; b04 = rol64 b04 18; b10 = rol64 b10 1;
          b11 = rol64 b11 44; b12 = rol64 b12 10; b13 = rol64 b13 45; b14 = rol64 b14 2; b20 = rol64 b20 62;
          b21 = rol64 b21 6; b22 = rol64 b22 43; b23 = rol64 b23 15; b24 = rol64 b24 61; b30 = rol64 b30 28;
          b31 = rol64 b31 55; b32 = rol64 b32 25; b33 = rol64 b33 21; b34 = rol64 b34 56; b40 = rol64 b40 27;
          b41 = rol64 b41 20; b42 = rol64 b42 39; b43 = rol64 b43 8; b44 = rol64 b44 14
      in [b00, b01, b02, b03, b04,
          b10, b11, b12, b13, b14,
          b20, b21, b22, b23, b24,
          b30, b31, b32, b33, b34,
          b40, b41, b42, b43, b44])"

definition KHI_XO :: "u64 \<Rightarrow> u64 \<Rightarrow> u64 \<Rightarrow> u64" where
  "KHI_XO a b c = (let kt = b OR c in a XOR kt)"

definition KHI_XA :: "u64 \<Rightarrow> u64 \<Rightarrow> u64 \<Rightarrow> u64" where
  "KHI_XA a b c = (let kt = b AND c in a XOR kt)"

definition KHI :: "u64 list \<Rightarrow> u64 list" where
  "KHI b =
     (let b00 = b ! 0; b01 = b ! 1; b02 = b ! 2; b03 = b ! 3; b04 = b ! 4;
          b10 = b ! 5; b11 = b ! 6; b12 = b ! 7; b13 = b ! 8; b14 = b ! 9;
          b20 = b ! 10; b21 = b ! 11; b22 = b ! 12; b23 = b ! 13; b24 = b ! 14;
          b30 = b ! 15; b31 = b ! 16; b32 = b ! 17; b33 = b ! 18; b34 = b ! 19;
          b40 = b ! 20; b41 = b ! 21; b42 = b ! 22; b43 = b ! 23; b44 = b ! 24;
          bnn = NOT b20;
          c0 = KHI_XO b00 b10 b20;
          c1 = KHI_XO b10 bnn b30;
          c2 = KHI_XA b20 b30 b40;
          c3 = KHI_XO b30 b40 b00;
          c4 = KHI_XA b40 b00 b10;
          b00 = c0; b10 = c1; b20 = c2; b30 = c3; b40 = c4;
          bnn = NOT b41;
          c0 = KHI_XO b01 b11 b21;
          c1 = KHI_XA b11 b21 b31;
          c2 = KHI_XO b21 b31 bnn;
          c3 = KHI_XO b31 b41 b01;
          c4 = KHI_XA b41 b01 b11;
          b01 = c0; b11 = c1; b21 = c2; b31 = c3; b41 = c4;
          bnn = NOT b32;
          c0 = KHI_XO b02 b12 b22;
          c1 = KHI_XA b12 b22 b32;
          c2 = KHI_XA b22 bnn b42;
          c3 = KHI_XO bnn b42 b02;
          c4 = KHI_XA b42 b02 b12;
          b02 = c0; b12 = c1; b22 = c2; b32 = c3; b42 = c4;
          bnn = NOT b33;
          c0 = KHI_XA b03 b13 b23;
          c1 = KHI_XO b13 b23 b33;
          c2 = KHI_XO b23 bnn b43;
          c3 = KHI_XA bnn b43 b03;
          c4 = KHI_XO b43 b03 b13;
          b03 = c0; b13 = c1; b23 = c2; b33 = c3; b43 = c4;
          bnn = NOT b14;
          c0 = KHI_XA b04 bnn b24;
          c1 = KHI_XO bnn b24 b34;
          c2 = KHI_XA b24 b34 b44;
          c3 = KHI_XO b34 b44 b04;
          c4 = KHI_XA b44 b04 b14;
          b04 = c0; b14 = c1; b24 = c2; b34 = c3; b44 = c4
      in [b00, b01, b02, b03, b04,
          b10, b11, b12, b13, b14,
          b20, b21, b22, b23, b24,
          b30, b31, b32, b33, b34,
          b40, b41, b42, b43, b44])"

text \<open>The permutations of the names that \<open>P0\<close> to \<open>P23\<close> expand to.\<close>

definition keccak_P :: "nat list list" where
  "keccak_P =
    [[a_00, a_01, a_02, a_03, a_04, a_10, a_11, a_12, a_13, a_14, a_20, a_21, a_22,
      a_23, a_24, a_30, a_31, a_32, a_33, a_34, a_40, a_41, a_42, a_43, a_44],
     [a_00, a_30, a_10, a_40, a_20, a_11, a_41, a_21, a_01, a_31, a_22, a_02, a_32,
      a_12, a_42, a_33, a_13, a_43, a_23, a_03, a_44, a_24, a_04, a_34, a_14],
     [a_00, a_33, a_11, a_44, a_22, a_41, a_24, a_02, a_30, a_13, a_32, a_10, a_43,
      a_21, a_04, a_23, a_01, a_34, a_12, a_40, a_14, a_42, a_20, a_03, a_31],
     [a_00, a_23, a_41, a_14, a_32, a_24, a_42, a_10, a_33, a_01, a_43, a_11, a_34,
      a_02, a_20, a_12, a_30, a_03, a_21, a_44, a_31, a_04, a_22, a_40, a_13],
     [a_00, a_12, a_24, a_31, a_43, a_42, a_04, a_11, a_23, a_30, a_34, a_41, a_03,
      a_10, a_22, a_21, a_33, a_40, a_02, a_14, a_13, a_20, a_32, a_44, a_01],
     [a_00, a_21, a_42, a_13, a_34, a_04, a_20, a_41, a_12, a_33, a_03, a_24, a_40,
      a_11, a_32, a_02, a_23, a_44, a_10, a_31, a_01, a_22, a_43, a_14, a_30],
     [a_00, a_02, a_04, a_01, a_03, a_20, a_22, a_24, a_21, a_23, a_40, a_42, a_44,
      a_41, a_43, a_10, a_12, a_14, a_11, a_13, a_30, a_32, a_34, a_31, a_33],
     [a_00, a_10, a_20, a_30, a_40, a_22, a_32, a_42, a_02, a_12, a_44, a_04, a_14,
      a_24, a_34, a_11, a_21, a_31, a_41, a_01, a_33, a_43, a_03, a_13, a_23],
     [a_00, a_11, a_22, a_33, a_44, a_32, a_43, a_04, a_10, a_21, a_14, a_20, a_31,
      a_42, a_03, a_41, a_02, a_13, a_24, a_30, a_23, a_34, a_40, a_01, a_12],
     [a_00, a_41, a_32, a_23, a_14, a_43, a_34, a_20, a_11, a_02, a_31, a_22, a_13,
      a_04, a_40, a_24, a_10, a_01, a_42, a_33, a_12, a_03, a_44, a_30, a_21],
     [a_00, a_24, a_43, a_12, a_31, a_34, a_03, a_22, a_41, a_10, a_13, a_32, a_01,
      a_20, a_44, a_42, a_11, a_30, a_04, a_23, a_21, a_40, a_14, a_33, a_02],
     [a_00, a_42, a_34, a_21, a_13, a_03, a_40, a_32, a_24, a_11, a_01, a_43, a_30,
      a_22, a_14, a_04, a_41, a_33, a_20, a_12, a_02, a_44, a_31, a_23, a_10],
     [a_00, a_04, a_03, a_02, a_01, a_40, a_44, a_43, a_42, a_41, a_30, a_34, a_33,
      a_32, a_31, a_20, a_24, a_23, a_22, a_21, a_10, a_14, a_13, a_12, a_11],
     [a_00, a_20, a_40, a_10, a_30, a_44, a_14, a_34, a_04, a_24, a_33, a_03, a_23,
      a_43, a_13, a_22, a_42, a_12, a_32, a_02, a_11, a_31, a_01, a_21, a_41],
     [a_00, a_22, a_44, a_11, a_33, a_14, a_31, a_03, a_20, a_42, a_23, a_40, a_12,
      a_34, a_01, a_32, a_04, a_21, a_43, a_10, a_41, a_13, a_30, a_02, a_24],
     [a_00, a_32, a_14, a_41, a_23, a_31, a_13, a_40, a_22, a_04, a_12, a_44, a_21,
      a_03, a_30, a_43, a_20, a_02, a_34, a_11, a_24, a_01, a_33, a_10, a_42],
     [a_00, a_43, a_31, a_24, a_12, a_13, a_01, a_44, a_32, a_20, a_21, a_14, a_02,
      a_40, a_33, a_34, a_22, a_10, a_03, a_41, a_42, a_30, a_23, a_11, a_04],
     [a_00, a_34, a_13, a_42, a_21, a_01, a_30, a_14, a_43, a_22, a_02, a_31, a_10,
      a_44, a_23, a_03, a_32, a_11, a_40, a_24, a_04, a_33, a_12, a_41, a_20],
     [a_00, a_03, a_01, a_04, a_02, a_30, a_33, a_31, a_34, a_32, a_10, a_13, a_11,
      a_14, a_12, a_40, a_43, a_41, a_44, a_42, a_20, a_23, a_21, a_24, a_22],
     [a_00, a_40, a_30, a_20, a_10, a_33, a_23, a_13, a_03, a_43, a_11, a_01, a_41,
      a_31, a_21, a_44, a_34, a_24, a_14, a_04, a_22, a_12, a_02, a_42, a_32],
     [a_00, a_44, a_33, a_22, a_11, a_23, a_12, a_01, a_40, a_34, a_41, a_30, a_24,
      a_13, a_02, a_14, a_03, a_42, a_31, a_20, a_32, a_21, a_10, a_04, a_43],
     [a_00, a_14, a_23, a_32, a_41, a_12, a_21, a_30, a_44, a_03, a_24, a_33, a_42,
      a_01, a_10, a_31, a_40, a_04, a_13, a_22, a_43, a_02, a_11, a_20, a_34],
     [a_00, a_31, a_12, a_43, a_24, a_21, a_02, a_33, a_14, a_40, a_42, a_23, a_04,
      a_30, a_11, a_13, a_44, a_20, a_01, a_32, a_34, a_10, a_41, a_22, a_03],
     [a_00, a_13, a_21, a_34, a_42, a_02, a_10, a_23, a_31, a_44, a_04, a_12, a_20,
      a_33, a_41, a_01, a_14, a_22, a_30, a_43, a_03, a_11, a_24, a_32, a_40]]"

text \<open>A macro of 25 lvalues applied to the lanes \<open>p\<close> of the state.\<close>

definition on_lanes :: "nat list \<Rightarrow> (u64 list \<Rightarrow> u64 list) \<Rightarrow> u64 list \<Rightarrow> u64 list" where
  "on_lanes p f w = fold (\<lambda>(i, v) w. w[i := v]) (zip p (f (map ((!) w) p))) w"

definition KF_ELT :: "nat \<Rightarrow> nat \<Rightarrow> u64 \<Rightarrow> u64 list \<Rightarrow> u64 list" where
  "KF_ELT r s k w =
     (let w = on_lanes (keccak_P ! r) THETA w;
          w = on_lanes (keccak_P ! r) RHO w;
          w = on_lanes (keccak_P ! s) KHI w
      in w[a_00 := w ! a_00 XOR k])"

section \<open>The permutation\<close>

text \<open>A sequence of \<open>MOV64(d, s)\<close>, with the temporary behind the 25 lanes.\<close>

definition movs :: "(nat \<times> nat) list \<Rightarrow> u64 list \<Rightarrow> u64 list" where
  "movs ms w = take 25 (fold (\<lambda>(d, s) v. v[d := v ! s]) ms (w @ [0]))"

definition P1_TO_P0 :: "u64 list \<Rightarrow> u64 list" where
  "P1_TO_P0 w =
     movs
      [(a_t, a_01), (a_01, a_30), (a_30, a_33), (a_33, a_23), (a_23, a_12), (a_12, a_21),
       (a_21, a_02), (a_02, a_10), (a_10, a_11), (a_11, a_41), (a_41, a_24), (a_24, a_42),
       (a_42, a_04), (a_04, a_20), (a_20, a_22), (a_22, a_32), (a_32, a_43), (a_43, a_34),
       (a_34, a_03), (a_03, a_40), (a_40, a_44), (a_44, a_14), (a_14, a_31), (a_31, a_13),
       (a_13, a_t)] w"

definition P2_TO_P0 :: "u64 list \<Rightarrow> u64 list" where
  "P2_TO_P0 w =
     movs
      [(a_t, a_01), (a_01, a_33), (a_33, a_12), (a_12, a_02), (a_02, a_11), (a_11, a_24),
       (a_24, a_04), (a_04, a_22), (a_22, a_43), (a_43, a_03), (a_03, a_44), (a_44, a_31),
       (a_31, a_t), (a_t, a_10), (a_10, a_41), (a_41, a_42), (a_42, a_20), (a_20, a_32),
       (a_32, a_34), (a_34, a_40), (a_40, a_14), (a_14, a_13), (a_13, a_30), (a_30, a_23),
       (a_23, a_21), (a_21, a_t)] w"

definition P4_TO_P0 :: "u64 list \<Rightarrow> u64 list" where
  "P4_TO_P0 w =
     movs
      [(a_t, a_01), (a_01, a_12), (a_12, a_11), (a_11, a_04), (a_04, a_43), (a_43, a_44),
       (a_44, a_t), (a_t, a_02), (a_02, a_24), (a_24, a_22), (a_22, a_03), (a_03, a_31),
       (a_31, a_33), (a_33, a_t), (a_t, a_10), (a_10, a_42), (a_42, a_32), (a_32, a_40),
       (a_40, a_13), (a_13, a_23), (a_23, a_t), (a_t, a_14), (a_14, a_30), (a_30, a_21),
       (a_21, a_41), (a_41, a_20), (a_20, a_34), (a_34, a_t)] w"

definition P6_TO_P0 :: "u64 list \<Rightarrow> u64 list" where
  "P6_TO_P0 w =
     movs
      [(a_t, a_01), (a_01, a_02), (a_02, a_04), (a_04, a_03), (a_03, a_t), (a_t, a_10),
       (a_10, a_20), (a_20, a_40), (a_40, a_30), (a_30, a_t), (a_t, a_11), (a_11, a_22),
       (a_22, a_44), (a_44, a_33), (a_33, a_t), (a_t, a_12), (a_12, a_24), (a_24, a_43),
       (a_43, a_31), (a_31, a_t), (a_t, a_13), (a_13, a_21), (a_21, a_42), (a_42, a_34),
       (a_34, a_t), (a_t, a_14), (a_14, a_23), (a_23, a_41), (a_41, a_32), (a_32, a_t)] w"

definition P8_TO_P0 :: "u64 list \<Rightarrow> u64 list" where
  "P8_TO_P0 w =
     movs
      [(a_t, a_01), (a_01, a_11), (a_11, a_43), (a_43, a_t), (a_t, a_02), (a_02, a_22),
       (a_22, a_31), (a_31, a_t), (a_t, a_03), (a_03, a_33), (a_33, a_24), (a_24, a_t),
       (a_t, a_04), (a_04, a_44), (a_44, a_12), (a_12, a_t), (a_t, a_10), (a_10, a_32),
       (a_32, a_13), (a_13, a_t), (a_t, a_14), (a_14, a_21), (a_21, a_20), (a_20, a_t),
       (a_t, a_23), (a_23, a_42), (a_42, a_40), (a_40, a_t), (a_t, a_30), (a_30, a_41),
       (a_41, a_34), (a_34, a_t)] w"

definition P12_TO_P0 :: "u64 list \<Rightarrow> u64 list" where
  "P12_TO_P0 w =
     movs
      [(a_t, a_01), (a_01, a_04), (a_04, a_t), (a_t, a_02), (a_02, a_03), (a_03, a_t),
       (a_t, a_10), (a_10, a_40), (a_40, a_t), (a_t, a_11), (a_11, a_44), (a_44, a_t),
       (a_t, a_12), (a_12, a_43), (a_43, a_t), (a_t, a_13), (a_13, a_42), (a_42, a_t),
       (a_t, a_14), (a_14, a_41), (a_41, a_t), (a_t, a_20), (a_20, a_30), (a_30, a_t),
       (a_t, a_21), (a_21, a_34), (a_34, a_t), (a_t, a_22), (a_22, a_33), (a_33, a_t),
       (a_t, a_23), (a_23, a_32), (a_32, a_t), (a_t, a_24), (a_24, a_31), (a_31, a_t)] w"

text \<open>\<open>KECCAK_F_1600_\<close> for each value of \<open>SPH_KECCAK_UNROLL\<close>: the body of the loop over \<open>j\<close>.\<close>

definition keccak_f_body_1 :: "nat \<Rightarrow> u64 list \<Rightarrow> u64 list" where
  "keccak_f_body_1 j w =
     (let w = KF_ELT 0 1 (keccak_RC ! (j + 0)) w
      in P1_TO_P0 w)"

definition keccak_f_body_2 :: "nat \<Rightarrow> u64 list \<Rightarrow> u64 list" where
  "keccak_f_body_2 j w =
     (let w = KF_ELT 0 1 (keccak_RC ! (j + 0)) w;
          w = KF_ELT 1 2 (keccak_RC ! (j + 1)) w
      in P2_TO_P0 w)"

definition keccak_f_body_4 :: "nat \<Rightarrow> u64 list \<Rightarrow> u64 list" where
  "keccak_f_body_4 j w =
     (let w = KF_ELT 0 1 (keccak_RC ! (j + 0)) w;
          w = KF_ELT 1 2 (keccak_RC ! (j + 1)) w;
          w = KF_ELT 2 3 (keccak_RC ! (j + 2)) w;
          w = KF_ELT 3 4 (keccak_RC ! (j + 3)) w
      in P4_TO_P0 w)"

definition keccak_f_body_6 :: "nat \<Rightarrow> u64 list \<Rightarrow> u64 list" where
  "keccak_f_body_6 j w =
     (let w = KF_ELT 0 1 (keccak_RC ! (j + 0)) w;
          w = KF_ELT 1 2 (keccak_RC ! (j + 1)) w;
          w = KF_ELT 2 3 (keccak_RC ! (j + 2)) w;
          w = KF_ELT 3 4 (keccak_RC ! (j + 3)) w;
          w = KF_ELT 4 5 (keccak_RC ! (j + 4)) w;
          w = KF_ELT 5 6 (keccak_RC ! (j + 5)) w
      in P6_TO_P0 w)"

definition keccak_f_body_8 :: "nat \<Rightarrow> u64 list \<Rightarrow> u64 list" where
  "keccak_f_body_8 j w =
     (let w = KF_ELT 0 1 (keccak_RC ! (j + 0)) w;
          w = KF_ELT 1 2 (keccak_RC ! (j + 1)) w;
          w = KF_ELT 2 3 (keccak_RC ! (j + 2)) w;
          w = KF_ELT 3 4 (keccak_RC ! (j + 3)) w;
          w = KF_ELT 4 5 (keccak_RC ! (j + 4)) w;
          w = KF_ELT 5 6 (keccak_RC ! (j + 5)) w;
          w = KF_ELT 6 7 (keccak_RC ! (j + 6)) w;
          w = KF_ELT 7 8 (keccak_RC ! (j + 7)) w
      in P8_TO_P0 w)"

definition keccak_f_body_12 :: "nat \<Rightarrow> u64 list \<Rightarrow> u64 list" where
  "keccak_f_body_12 j w =
     (let w = KF_ELT 0 1 (keccak_RC ! (j + 0)) w;
          w = KF_ELT 1 2 (keccak_RC ! (j + 1)) w;
          w = KF_ELT 2 3 (keccak_RC ! (j + 2)) w;
          w = KF_ELT 3 4 (keccak_RC ! (j + 3)) w;
          w = KF_ELT 4 5 (keccak_RC ! (j + 4)) w;
          w = KF_ELT 5 6 (keccak_RC ! (j + 5)) w;
          w = KF_ELT 6 7 (keccak_RC ! (j + 6)) w;
          w = KF_ELT 7 8 (keccak_RC ! (j + 7)) w;
          w = KF_ELT 8 9 (keccak_RC ! (j + 8)) w;
          w = KF_ELT 9 10 (keccak_RC ! (j + 9)) w;
          w = KF_ELT 10 11 (keccak_RC ! (j + 10)) w;
          w = KF_ELT 11 12 (keccak_RC ! (j + 11)) w
      in P12_TO_P0 w)"

definition keccak_f_unroll_0 :: "u64 list \<Rightarrow> u64 list" where
  "keccak_f_unroll_0 w =
     (let w = KF_ELT 0 1 (keccak_RC ! 0) w;
          w = KF_ELT 1 2 (keccak_RC ! 1) w;
          w = KF_ELT 2 3 (keccak_RC ! 2) w;
          w = KF_ELT 3 4 (keccak_RC ! 3) w;
          w = KF_ELT 4 5 (keccak_RC ! 4) w;
          w = KF_ELT 5 6 (keccak_RC ! 5) w;
          w = KF_ELT 6 7 (keccak_RC ! 6) w;
          w = KF_ELT 7 8 (keccak_RC ! 7) w;
          w = KF_ELT 8 9 (keccak_RC ! 8) w;
          w = KF_ELT 9 10 (keccak_RC ! 9) w;
          w = KF_ELT 10 11 (keccak_RC ! 10) w;
          w = KF_ELT 11 12 (keccak_RC ! 11) w;
          w = KF_ELT 12 13 (keccak_RC ! 12) w;
          w = KF_ELT 13 14 (keccak_RC ! 13) w;
          w = KF_ELT 14 15 (keccak_RC ! 14) w;
          w = KF_ELT 15 16 (keccak_RC ! 15) w;
          w = KF_ELT 16 17 (keccak_RC ! 16) w;
          w = KF_ELT 17 18 (keccak_RC ! 17) w;
          w = KF_ELT 18 19 (keccak_RC ! 18) w;
          w = KF_ELT 19 20 (keccak_RC ! 19) w;
          w = KF_ELT 20 21 (keccak_RC ! 20) w;
          w = KF_ELT 21 22 (keccak_RC ! 21) w;
          w = KF_ELT 22 23 (keccak_RC ! 22) w;
          w = KF_ELT 23 0 (keccak_RC ! 23) w
      in w)"

definition keccak_f_body :: "nat \<Rightarrow> nat \<Rightarrow> u64 list \<Rightarrow> u64 list" where
  "keccak_f_body n =
     (if n = 1 then keccak_f_body_1 else if n = 2 then keccak_f_body_2 else if n = 4 then keccak_f_body_4
      else if n = 6 then keccak_f_body_6 else if n = 8 then keccak_f_body_8 else keccak_f_body_12)"

definition keccak_f_unroll :: "nat \<Rightarrow> u64 list \<Rightarrow> u64 list" where
  "keccak_f_unroll n w =
     (if n = 0 then keccak_f_unroll_0 w else fold (\<lambda>k. keccak_f_body n (n * k)) [0..<24 div n] w)"

definition KECCAK_F_1600 :: "u64 list \<Rightarrow> u64 list" where
  "KECCAK_F_1600 w = keccak_f_unroll 8 w"

section \<open>The context\<close>

record sph_keccak_context =
  kc_buf :: bytes
  kc_wide :: "u64 list"
  kc_ptr :: nat
  kc_lim :: nat

definition keccak_init :: "sph_keccak_context \<Rightarrow> nat \<Rightarrow> sph_keccak_context" where
  "keccak_init kc out_size =
     (let wide = (replicate 25 0)[1 := 0xFFFFFFFFFFFFFFFF, 2 := 0xFFFFFFFFFFFFFFFF, 8 := 0xFFFFFFFFFFFFFFFF,
        12 := 0xFFFFFFFFFFFFFFFF, 17 := 0xFFFFFFFFFFFFFFFF, 20 := 0xFFFFFFFFFFFFFFFF]
      in kc\<lparr>kc_wide := wide, kc_ptr := 0, kc_lim := 200 - out_size div 4\<rparr>)"

text \<open>\<open>INPUT_BUF(lim)\<close>; the limits are multiples of 8, \<open>k\<close> is \<open>j >> 3\<close>.\<close>

definition INPUT_BUF :: "nat \<Rightarrow> bytes \<Rightarrow> u64 list \<Rightarrow> u64 list" where
  "INPUT_BUF lim buf wide =
     fold (\<lambda>k wide. wide[k := wide ! k XOR le_word (take 8 (drop (8 * k) buf))]) [0..<lim div 8] wide"

text \<open>The loop \<open>while (len > 0)\<close> of \<open>keccak_core\<close>.\<close>

function keccak_core_loop :: "nat \<Rightarrow> bytes \<Rightarrow> nat \<Rightarrow> u64 list \<Rightarrow> bytes \<Rightarrow> bytes \<times> nat \<times> u64 list" where
  "keccak_core_loop lim buf ptr wide data =
     (if data \<noteq> [] \<and> ptr < lim then
        let clen = min (lim - ptr) (length data);
            buf = copy_at buf ptr (take clen data);
            ptr = ptr + clen;
            data = drop clen data
        in if ptr = lim then keccak_core_loop lim buf 0 (KECCAK_F_1600 (INPUT_BUF lim buf wide)) data
           else keccak_core_loop lim buf ptr wide data
      else (buf, ptr, wide))"
  by pat_completeness auto
termination
  by (relation "measure (\<lambda>(lim, buf, ptr, wide, data). length data)") auto

declare keccak_core_loop.simps [simp del]

definition keccak_core :: "sph_keccak_context \<Rightarrow> bytes \<Rightarrow> nat \<Rightarrow> sph_keccak_context" where
  "keccak_core kc data lim =
     (let buf = kc_buf kc; ptr = kc_ptr kc
      in if length data < lim - ptr
         then kc\<lparr>kc_buf := copy_at buf ptr data, kc_ptr := ptr + length data\<rparr>
         else
           let (buf, ptr, wide) = keccak_core_loop lim buf ptr (kc_wide kc) data
           in kc\<lparr>kc_buf := buf, kc_wide := wide, kc_ptr := ptr\<rparr>)"

text \<open>
  \<open>u.tmp\<close> up to \<open>j\<close>, which is what goes into \<open>keccak_core\<close> at the end.
\<close>

definition keccak_close_tmp :: "nat \<Rightarrow> nat \<Rightarrow> u8 \<Rightarrow> nat \<Rightarrow> bytes" where
  "keccak_close_tmp lim ptr eb n =
     (if ptr = lim - 1 then
        if n = 7 then eb # replicate (lim - 1) 0 @ [0x80] else [eb OR 0x80]
      else let j = lim - ptr in eb # replicate (j - 2) 0 @ [0x80])"

text \<open>
  The rest of \<open>DEFCLOSE(d, lim)\<close>, from the call of \<open>keccak_core\<close> on: the context after the call and the
  bytes written to \<open>dst\<close>.
\<close>

definition keccak_close_rest :: "nat \<Rightarrow> nat \<Rightarrow> sph_keccak_context \<Rightarrow> bytes \<Rightarrow> sph_keccak_context \<times> bytes" where
  "keccak_close_rest d lim kc tmp =
     (let kc = keccak_core kc tmp lim;
          w = kc_wide kc;
          w = w[1 := NOT (w ! 1)]; w = w[2 := NOT (w ! 2)]; w = w[8 := NOT (w ! 8)];
          w = w[12 := NOT (w ! 12)]; w = w[17 := NOT (w ! 17)]; w = w[20 := NOT (w ! 20)];
          dst = take d (concat (map (\<lambda>k. le_bytes 8 (w ! k)) [0..<(d + 7) div 8]))
      in (keccak_init (kc\<lparr>kc_wide := w\<rparr>) (8 * d), dst))"

text \<open>The bits of \<open>ub\<close> and the end mark.\<close>

definition keccak_eb :: "u32 \<Rightarrow> nat \<Rightarrow> u8" where
  "keccak_eb ub n = ucast (drop_bit (8 - n) (0x100 OR (ub AND 0xFF)))"

definition keccak_close :: "nat \<Rightarrow> nat \<Rightarrow> sph_keccak_context \<Rightarrow> u32 \<Rightarrow> nat \<Rightarrow> sph_keccak_context \<times> bytes" where
  "keccak_close d lim kc ub n =
     (let eb = keccak_eb ub n in keccak_close_rest d lim kc (keccak_close_tmp lim (kc_ptr kc) eb n))"

definition flex_keccak_close :: "nat \<Rightarrow> nat \<Rightarrow> sph_keccak_context \<Rightarrow> u32 \<Rightarrow> nat \<Rightarrow> sph_keccak_context \<times> bytes" where
  "flex_keccak_close d lim kc ub n =
     (let eb = 6 in keccak_close_rest d lim kc (keccak_close_tmp lim (kc_ptr kc) eb n))"

section \<open>The interface\<close>

definition sph_keccak224_init :: "sph_keccak_context \<Rightarrow> sph_keccak_context" where
  "sph_keccak224_init cc = keccak_init cc 224"

definition sph_keccak224 :: "sph_keccak_context \<Rightarrow> bytes \<Rightarrow> sph_keccak_context" where
  "sph_keccak224 cc data = keccak_core cc data 144"

definition sph_keccak224_addbits_and_close :: "sph_keccak_context \<Rightarrow> u32 \<Rightarrow> nat \<Rightarrow> sph_keccak_context \<times> bytes" where
  "sph_keccak224_addbits_and_close cc ub n = keccak_close 28 144 cc ub n"

definition sph_keccak224_close :: "sph_keccak_context \<Rightarrow> sph_keccak_context \<times> bytes" where
  "sph_keccak224_close cc = sph_keccak224_addbits_and_close cc 0 0"

definition sph_keccak256_init :: "sph_keccak_context \<Rightarrow> sph_keccak_context" where
  "sph_keccak256_init cc = keccak_init cc 256"

definition sph_keccak256 :: "sph_keccak_context \<Rightarrow> bytes \<Rightarrow> sph_keccak_context" where
  "sph_keccak256 cc data = keccak_core cc data 136"

definition sph_keccak256_addbits_and_close :: "sph_keccak_context \<Rightarrow> u32 \<Rightarrow> nat \<Rightarrow> sph_keccak_context \<times> bytes" where
  "sph_keccak256_addbits_and_close cc ub n = keccak_close 32 136 cc ub n"

definition sph_keccak256_close :: "sph_keccak_context \<Rightarrow> sph_keccak_context \<times> bytes" where
  "sph_keccak256_close cc = sph_keccak256_addbits_and_close cc 0 0"

definition sph_flex_keccak256_addbits_and_close :: "sph_keccak_context \<Rightarrow> u32 \<Rightarrow> nat \<Rightarrow> sph_keccak_context \<times> bytes" where
  "sph_flex_keccak256_addbits_and_close cc ub n = flex_keccak_close 32 136 cc ub n"

definition sph_flex_keccak256_close :: "sph_keccak_context \<Rightarrow> sph_keccak_context \<times> bytes" where
  "sph_flex_keccak256_close cc = sph_flex_keccak256_addbits_and_close cc 0 0"

definition sph_keccak384_init :: "sph_keccak_context \<Rightarrow> sph_keccak_context" where
  "sph_keccak384_init cc = keccak_init cc 384"

definition sph_keccak384 :: "sph_keccak_context \<Rightarrow> bytes \<Rightarrow> sph_keccak_context" where
  "sph_keccak384 cc data = keccak_core cc data 104"

definition sph_keccak384_addbits_and_close :: "sph_keccak_context \<Rightarrow> u32 \<Rightarrow> nat \<Rightarrow> sph_keccak_context \<times> bytes" where
  "sph_keccak384_addbits_and_close cc ub n = keccak_close 48 104 cc ub n"

definition sph_keccak384_close :: "sph_keccak_context \<Rightarrow> sph_keccak_context \<times> bytes" where
  "sph_keccak384_close cc = sph_keccak384_addbits_and_close cc 0 0"

definition sph_keccak512_init :: "sph_keccak_context \<Rightarrow> sph_keccak_context" where
  "sph_keccak512_init cc = keccak_init cc 512"

definition sph_keccak512 :: "sph_keccak_context \<Rightarrow> bytes \<Rightarrow> sph_keccak_context" where
  "sph_keccak512 cc data = keccak_core cc data 72"

definition sph_keccak512_addbits_and_close :: "sph_keccak_context \<Rightarrow> u32 \<Rightarrow> nat \<Rightarrow> sph_keccak_context \<times> bytes" where
  "sph_keccak512_addbits_and_close cc ub n = keccak_close 64 72 cc ub n"

definition sph_keccak512_close :: "sph_keccak_context \<Rightarrow> sph_keccak_context \<times> bytes" where
  "sph_keccak512_close cc = sph_keccak512_addbits_and_close cc 0 0"

definition sph_flex_keccak512_addbits_and_close :: "sph_keccak_context \<Rightarrow> u32 \<Rightarrow> nat \<Rightarrow> sph_keccak_context \<times> bytes" where
  "sph_flex_keccak512_addbits_and_close cc ub n = flex_keccak_close 64 72 cc ub n"

definition sph_flex_keccak512_close :: "sph_keccak_context \<Rightarrow> sph_keccak_context \<times> bytes" where
  "sph_flex_keccak512_close cc = sph_flex_keccak512_addbits_and_close cc 0 0"

section \<open>The round with complemented lanes\<close>

text \<open>The lanes \<open>m\<close> complemented; \<open>keccak_mask\<close> is the state between rounds.\<close>

definition complement :: "nat list \<Rightarrow> u64 list \<Rightarrow> u64 list" where
  "complement m w = fold (\<lambda>i w. w[i := NOT (w ! i)]) m w"

definition keccak_mask :: "nat list" where
  "keccak_mask = [1, 2, 8, 12, 17, 20]"

definition theta_mask :: "nat list" where
  "theta_mask = [0, 1, 2, 3, 5, 10, 12, 13, 15, 17, 18, 23]"

definition khi_mask :: "nat list" where
  "khi_mask = [a_00, a_01, a_02, a_04, a_13, a_20, a_21, a_22, a_30, a_33, a_34, a_43]"

abbreviation lanes :: "nat list \<Rightarrow> u64 list \<Rightarrow> u64 list" where
  "lanes p w \<equiv> map ((!) w) p"

text \<open>The lanes in the order of \<open>P0\<close>, and the step pi in that order.\<close>

definition P_order :: "nat list" where
  "P_order = [0, 5, 10, 15, 20, 1, 6, 11, 16, 21, 2, 7, 12, 17, 22, 3, 8, 13, 18, 23, 4, 9, 14, 19, 24]"

definition pi_order :: "nat list" where
  "pi_order = [0, 15, 5, 20, 10, 6, 21, 11, 1, 16, 12, 2, 17, 7, 22, 18, 8, 23, 13, 3, 24, 14, 4, 19, 9]"

lemma length_complement [simp]: "length (complement m w) = length w"
  unfolding complement_def by (rule length_fold_update) simp

lemma rol64_NOT: "s < 64 \<Longrightarrow> rol64 (NOT x) s = NOT (rol64 x s)"
  by (rule bit_word_eqI) (auto simp: rol64_def bit_simps dest: bit_imp_le_length)

lemma THETA_complement:
  assumes "length s = 25"
  shows "THETA (lanes P_order (complement keccak_mask s)) = lanes P_order (complement theta_mask (theta s))"
  using assms
  by (rule list_25_cases)
    (simp add: keccak_mask_def theta_mask_def THETA_def TH_ELT_def theta_def complement_def P_order_def Let_def rol64_NOT
      xor.assoc xor.commute xor.left_commute)

lemma RHO_complement:
  assumes "length s = 25"
  shows "lanes pi_order (RHO (lanes P_order (complement theta_mask s))) = lanes P_order (complement khi_mask (rho_pi s))"
  using assms
  by (rule list_25_cases)
    (simp add: theta_mask_def khi_mask_def RHO_def rho_pi_def rho_def pi_idx_def complement_def P_order_def pi_order_def Let_def rol64_NOT)

lemma KHI_complement:
  assumes "length s = 25"
  shows "KHI (lanes P_order (complement khi_mask s)) = lanes P_order (complement keccak_mask (chi s))"
  using assms
  by (rule list_25_cases)
    (simp add: khi_mask_def keccak_mask_def KHI_def KHI_XO_def KHI_XA_def chi_def complement_def P_order_def Let_def;
      intro conjI; rule bit_word_eqI; auto simp: bit_simps)

section \<open>The unrolled rounds\<close>

text \<open>A round on the lanes in the order of \<open>P0\<close>.\<close>

definition round_lanes :: "u64 \<Rightarrow> u64 list \<Rightarrow> u64 list" where
  "round_lanes k b = (let b = KHI (lanes pi_order (RHO (THETA b))) in b[0 := b ! 0 XOR k])"

lemma length_macros [simp]: "length (THETA b) = 25" "length (RHO b) = 25" "length (KHI b) = 25"
  by (simp_all add: THETA_def RHO_def KHI_def Let_def)

lemma fold_write:
  assumes "distinct p" and "length vs = length p" and "set p \<subseteq> {..<length w}"
  shows "map ((!) (fold (\<lambda>(i, v) w. w[i := v]) (zip p vs) w)) p = vs \<and>
    length (fold (\<lambda>(i, v) w. w[i := v]) (zip p vs) w) = length w \<and>
    (\<forall>j. j \<notin> set p \<longrightarrow> fold (\<lambda>(i, v) w. w[i := v]) (zip p vs) w ! j = w ! j)"
  using assms
proof (induction p arbitrary: vs w)
  case (Cons i p)
  then obtain v vs' where vs: "vs = v # vs'" by (cases vs) auto
  have "set p \<subseteq> {..<length (w[i := v])}" using Cons.prems(3) by simp
  with Cons vs show ?case by auto
qed simp

lemma on_lanes:
  assumes "distinct p" and "length (f (lanes p w)) = length p" and "set p \<subseteq> {..<length w}"
  shows "lanes p (on_lanes p f w) = f (lanes p w)" and "length (on_lanes p f w) = length w"
  using fold_write [OF assms] by (simp_all add: on_lanes_def)

lemma P_lanes:
  assumes "r < 24"
  shows "distinct (keccak_P ! r)" and "length (keccak_P ! r) = 25" and "set (keccak_P ! r) \<subseteq> {..<25}"
    and "keccak_P ! r ! 0 = 0"
proof -
  have "list_all (\<lambda>p. distinct p \<and> length p = 25 \<and> list_all (\<lambda>i. i < 25) p \<and> p ! 0 = 0) keccak_P"
    by (simp add: keccak_P_def)
  moreover have "length keccak_P = 24" by (simp add: keccak_P_def)
  ultimately show "distinct (keccak_P ! r)" "length (keccak_P ! r) = 25" "set (keccak_P ! r) \<subseteq> {..<25}"
    "keccak_P ! r ! 0 = 0"
    using assms by (auto simp: list_all_length in_set_conv_nth)
qed

text \<open>Each permutation of the names is the step pi after the one before, and \<open>P0\<close> after \<open>P23\<close>.\<close>

lemma P_next: "r < 24 \<Longrightarrow> keccak_P ! (Suc r mod 24) = map ((!) (keccak_P ! r)) pi_order"
proof -
  assume "r < 24"
  moreover have "\<forall>r \<in> set [0..<24]. keccak_P ! (Suc r mod 24) = map ((!) (keccak_P ! r)) pi_order"
    by code_simp
  ultimately show ?thesis by simp
qed

lemma P_0: "keccak_P ! 0 = P_order"
  by (simp add: keccak_P_def P_order_def)

lemma KF_ELT_lanes:
  assumes "r < 24" and "s = Suc r mod 24" and "length w = 25"
  shows "lanes (keccak_P ! s) (KF_ELT r s k w) = round_lanes k (lanes (keccak_P ! r) w)"
    and "length (KF_ELT r s k w) = 25"
proof -
  define w1 where "w1 = on_lanes (keccak_P ! r) THETA w"
  define w2 where "w2 = on_lanes (keccak_P ! r) RHO w1"
  define w3 where "w3 = on_lanes (keccak_P ! s) KHI w2"
  have s: "s < 24" using assms(2) by simp
  note P = P_lanes [OF assms(1)] P_lanes [OF s]
  have 1: "lanes (keccak_P ! r) w1 = THETA (lanes (keccak_P ! r) w)" "length w1 = 25"
    unfolding w1_def using on_lanes [of "keccak_P ! r" THETA w] P assms(3) by simp_all
  have 2: "lanes (keccak_P ! r) w2 = RHO (THETA (lanes (keccak_P ! r) w))" "length w2 = 25"
    unfolding w2_def using on_lanes [of "keccak_P ! r" RHO w1] P 1 by simp_all
  have "lanes (keccak_P ! s) w2 = lanes pi_order (lanes (keccak_P ! r) w2)"
    using P(2) by (simp add: P_next assms(1,2) pi_order_def)
  then have 3: "lanes (keccak_P ! s) w3 = KHI (lanes pi_order (RHO (THETA (lanes (keccak_P ! r) w))))" "length w3 = 25"
    unfolding w3_def using on_lanes [of "keccak_P ! s" KHI w2] P 2 by simp_all
  have KF: "KF_ELT r s k w = w3[0 := w3 ! 0 XOR k]"
    by (simp add: KF_ELT_def w3_def w2_def w1_def Let_def)
  then show "length (KF_ELT r s k w) = 25" using 3 by simp
  have "lanes (keccak_P ! s) (w3[0 := v]) = (lanes (keccak_P ! s) w3)[0 := v]" for v
  proof (rule nth_equalityI)
    fix i
    assume "i < length (lanes (keccak_P ! s) (w3[0 := v]))"
    then have i: "i < 25" using P by simp
    then have "keccak_P ! s ! i = 0 \<longleftrightarrow> i = 0"
      using P nth_eq_iff_index_eq [of "keccak_P ! s" i 0] by auto
    then show "lanes (keccak_P ! s) (w3[0 := v]) ! i = (lanes (keccak_P ! s) w3)[0 := v] ! i"
      using i P 3(2) by (auto simp: nth_list_update)
  qed simp
  moreover have "lanes (keccak_P ! s) w3 ! 0 = w3 ! 0" using P by simp
  ultimately show "lanes (keccak_P ! s) (KF_ELT r s k w) = round_lanes k (lanes (keccak_P ! r) w)"
    using 3(1) KF by (simp add: round_lanes_def Let_def)
qed

section \<open>All unrollings are Keccak-f\<close>

text \<open>The moves bring the lanes from their names after \<open>r\<close> rounds back to \<open>P0\<close>.\<close>

lemma TO_P0:
  assumes "length w = 25"
  shows "lanes P_order (P1_TO_P0 w) = lanes (keccak_P ! 1) w" "lanes P_order (P2_TO_P0 w) = lanes (keccak_P ! 2) w"
    "lanes P_order (P4_TO_P0 w) = lanes (keccak_P ! 4) w" "lanes P_order (P6_TO_P0 w) = lanes (keccak_P ! 6) w"
    "lanes P_order (P8_TO_P0 w) = lanes (keccak_P ! 8) w" "lanes P_order (P12_TO_P0 w) = lanes (keccak_P ! 12) w"
  using assms
  by (rule list_25_cases, simp add: movs_def P_order_def keccak_P_def P1_TO_P0_def P2_TO_P0_def P4_TO_P0_def
    P6_TO_P0_def P8_TO_P0_def P12_TO_P0_def)+

lemma length_TO_P0:
  assumes "length w = 25"
  shows "length (P1_TO_P0 w) = 25" "length (P2_TO_P0 w) = 25" "length (P4_TO_P0 w) = 25" "length (P6_TO_P0 w) = 25"
    "length (P8_TO_P0 w) = 25" "length (P12_TO_P0 w) = 25"
  using assms
  by (rule list_25_cases, simp add: movs_def P1_TO_P0_def P2_TO_P0_def P4_TO_P0_def
    P6_TO_P0_def P8_TO_P0_def P12_TO_P0_def)+

text \<open>A run of the unrolled rounds \<open>0, \<dots>, n - 1\<close> with the constants from \<open>j\<close> on.\<close>

definition kf_run :: "nat \<Rightarrow> nat \<Rightarrow> u64 list \<Rightarrow> u64 list" where
  "kf_run n j w = fold (\<lambda>i. KF_ELT i (Suc i mod 24) (keccak_RC ! (j + i))) [0..<n] w"

lemma kf_run_lanes:
  assumes "length w = 25"
  shows "n \<le> 24 \<Longrightarrow> length (kf_run n j w) = 25 \<and>
    lanes (keccak_P ! (n mod 24)) (kf_run n j w) = fold (\<lambda>i. round_lanes (keccak_RC ! i)) [j..<j + n] (lanes P_order w)"
proof (induction n)
  case 0
  then show ?case using assms by (simp add: kf_run_def P_0)
next
  case (Suc n)
  then show ?case using KF_ELT_lanes [of n "Suc n mod 24" "kf_run n j w"] by (simp add: kf_run_def)
qed

lemma upt_unroll:
  "[0..<2] = [0, 1 :: nat]" "[0..<4] = [0, 1, 2, 3 :: nat]" "[0..<6] = [0, 1, 2, 3, 4, 5 :: nat]"
  "[0..<8] = [0, 1, 2, 3, 4, 5, 6, 7 :: nat]" "[0..<12] = [0, 1, 2, 3, 4, 5, 6, 7, 8, 9, 10, 11 :: nat]"
  "[0..<24] = [0, 1, 2, 3, 4, 5, 6, 7, 8, 9, 10, 11, 12, 13, 14, 15, 16, 17, 18, 19, 20, 21, 22, 23 :: nat]"
  by (simp_all add: upt_rec numeral_eq_Suc)

lemma body_run:
  "keccak_f_body_1 j w = P1_TO_P0 (kf_run 1 j w)" "keccak_f_body_2 j w = P2_TO_P0 (kf_run 2 j w)"
  "keccak_f_body_4 j w = P4_TO_P0 (kf_run 4 j w)" "keccak_f_body_6 j w = P6_TO_P0 (kf_run 6 j w)"
  "keccak_f_body_8 j w = P8_TO_P0 (kf_run 8 j w)" "keccak_f_body_12 j w = P12_TO_P0 (kf_run 12 j w)"
  "keccak_f_unroll_0 w = kf_run 24 0 w"
  by (simp_all add: kf_run_def upt_unroll keccak_f_body_1_def keccak_f_body_2_def keccak_f_body_4_def
      keccak_f_body_6_def keccak_f_body_8_def keccak_f_body_12_def keccak_f_unroll_0_def Let_def
      flip: numeral_2_eq_2)

text \<open>What a loop body that runs \<open>n\<close> rounds does to the lanes.\<close>

definition runs :: "nat \<Rightarrow> (nat \<Rightarrow> u64 list \<Rightarrow> u64 list) \<Rightarrow> bool" where
  "runs n body \<longleftrightarrow> (\<forall>j w. length w = 25 \<longrightarrow> length (body j w) = 25 \<and>
     lanes P_order (body j w) = fold (\<lambda>i. round_lanes (keccak_RC ! i)) [j..<j + n] (lanes P_order w))"

lemma body_runs:
  "runs 1 keccak_f_body_1" "runs 2 keccak_f_body_2" "runs 4 keccak_f_body_4" "runs 6 keccak_f_body_6"
  "runs 8 keccak_f_body_8" "runs 12 keccak_f_body_12"
  using kf_run_lanes [of _ 1] kf_run_lanes [of _ 2] kf_run_lanes [of _ 4] kf_run_lanes [of _ 6]
    kf_run_lanes [of _ 8] kf_run_lanes [of _ 12]
  by (simp_all add: runs_def body_run TO_P0 length_TO_P0)

lemma loop_runs:
  assumes "runs n body" and "length w = 25"
  shows "length (fold (\<lambda>k. body (n * k)) [0..<m] w) = 25 \<and>
    lanes P_order (fold (\<lambda>k. body (n * k)) [0..<m] w) = fold (\<lambda>i. round_lanes (keccak_RC ! i)) [0..<n * m] (lanes P_order w)"
proof (induction m)
  case (Suc m)
  have "[0..<n * Suc m] = [0..<n * m] @ [n * m..<n * m + n]"
    using upt_add_eq_append [of 0 "n * m" n] by (simp add: add.commute)
  with Suc assms(1) show ?case by (simp add: runs_def)
qed (use assms(2) in simp)

lemma keccak_f_unroll_lanes:
  assumes "n \<in> {0, 1, 2, 4, 6, 8, 12}" and "length w = 25"
  shows "length (keccak_f_unroll n w) = 25 \<and>
    lanes P_order (keccak_f_unroll n w) = fold (\<lambda>i. round_lanes (keccak_RC ! i)) [0..<24] (lanes P_order w)"
proof (cases "n = 0")
  case True
  then show ?thesis using kf_run_lanes [of w 24 0] assms(2) by (simp add: keccak_f_unroll_def body_run P_0)
next
  case False
  then have "runs n (keccak_f_body n)" and "n * (24 div n) = 24"
    using assms(1) body_runs by (auto simp: keccak_f_body_def)
  with False show ?thesis
    using loop_runs [of n "keccak_f_body n" w "24 div n"] assms(2) by (simp add: keccak_f_unroll_def)
qed

lemma round_lanes_complement:
  assumes "length s = 25" and "i < 24"
  shows "round_lanes (keccak_RC ! i) (lanes P_order (complement keccak_mask s)) =
    lanes P_order (complement keccak_mask (iota i (chi (rho_pi (theta s)))))"
proof -
  have "keccak_RC = RC" by (simp add: keccak_RC_def RC_def)
  moreover have "(lanes P_order (complement keccak_mask t))[0 := lanes P_order (complement keccak_mask t) ! 0 XOR k] =
      lanes P_order (complement keccak_mask (t[0 := t ! 0 XOR k]))" if "length t = 25" for t k
    using that by (rule list_25_cases) (simp add: keccak_mask_def complement_def P_order_def)
  ultimately show ?thesis
    using assms by (simp add: round_lanes_def THETA_complement RHO_complement KHI_complement iota_def Let_def)
qed

lemma lanes_P_order: "length v = 25 \<Longrightarrow> lanes P_order (lanes P_order v) = v"
  by (erule list_25_cases) (simp add: P_order_def)

lemma lanes_inject: "length v = 25 \<Longrightarrow> length w = 25 \<Longrightarrow> lanes P_order v = lanes P_order w \<Longrightarrow> v = w"
  using lanes_P_order [of v] lanes_P_order [of w] by metis

theorem keccak_f_unroll_complement:
  assumes "n \<in> {0, 1, 2, 4, 6, 8, 12}" and "length s = 25"
  shows "keccak_f_unroll n (complement keccak_mask s) = complement keccak_mask (keccakf s)"
proof -
  have "m \<le> 24 \<Longrightarrow> fold (\<lambda>i. round_lanes (keccak_RC ! i)) [0..<m] (lanes P_order (complement keccak_mask s)) =
      lanes P_order (complement keccak_mask (fold (\<lambda>i a. iota i (chi (rho_pi (theta a)))) [0..<m] s)) \<and>
      length (fold (\<lambda>i a. iota i (chi (rho_pi (theta a)))) [0..<m] s) = 25" for m
    by (induction m) (simp_all add: assms(2) round_lanes_complement)
  from this [of 24] show ?thesis
    using keccak_f_unroll_lanes [OF assms(1), of "complement keccak_mask s"] assms(2)
    by - (rule lanes_inject, simp_all add: keccakf_def)
qed

section \<open>Absorbing\<close>

lemma INPUT_BUF_take: "8 * (lim div 8) = lim \<Longrightarrow> INPUT_BUF lim (take lim buf) wide = INPUT_BUF lim buf wide"
  unfolding INPUT_BUF_def
  by (rule fold_cong) (simp_all add: drop_take)

lemma fold_complement_nth:
  "distinct m \<Longrightarrow> i < length w \<Longrightarrow> complement m w ! i = (if i \<in> set m then NOT (w ! i) else w ! i)"
proof (induction m arbitrary: w)
  case (Cons j m)
  then show ?case by (cases "i = j") (auto simp: complement_def)
qed (simp add: complement_def)

lemma distinct_keccak_mask [simp]: "distinct keccak_mask"
  by (simp add: keccak_mask_def)

lemma nth_complement_mask:
  "i < length w \<Longrightarrow> complement keccak_mask w ! i = (if i \<in> set keccak_mask then NOT (w ! i) else w ! i)"
  by (rule fold_complement_nth) simp_all

lemma complement_twice [simp]: "complement keccak_mask (complement keccak_mask w) = w"
  by (rule nth_equalityI) (simp_all add: nth_complement_mask)

lemma INPUT_BUF_cn: "INPUT_BUF lim buf wide = cn_xor_block (lim div 8) wide buf"
  by (simp add: INPUT_BUF_def cn_xor_block_def)

lemma length_INPUT_BUF [simp]: "length (INPUT_BUF lim buf wide) = length wide"
  by (simp add: INPUT_BUF_cn cn_xor_block_words)

lemma INPUT_BUF_complement:
  assumes "length w = 25" and "lim div 8 \<le> 25"
  shows "INPUT_BUF lim buf (complement keccak_mask w) = complement keccak_mask (INPUT_BUF lim buf w)"
  by (rule nth_equalityI)
    (use assms in \<open>simp_all add: INPUT_BUF_cn cn_xor_block_words nth_xor_words nth_complement_mask\<close>)

text \<open>One block of the sponge on the complemented state.\<close>

definition keccak_block :: "nat \<Rightarrow> bytes \<Rightarrow> u64 list \<Rightarrow> u64 list" where
  "keccak_block lim buf wide = KECCAK_F_1600 (INPUT_BUF lim buf wide)"

definition keccak_zero :: "u64 list" where
  "keccak_zero = complement keccak_mask (replicate 25 0)"

lemma keccak_init_zero: "keccak_init kc n = kc\<lparr>kc_wide := keccak_zero, kc_ptr := 0, kc_lim := 200 - n div 4\<rparr>"
proof -
  have FF: "(0xFFFFFFFFFFFFFFFF :: u64) = - 1" by simp
  show ?thesis
    unfolding keccak_init_def FF by (simp add: keccak_zero_def complement_def keccak_mask_def Let_def)
qed

lemma KECCAK_F_complement:
  "length w = 25 \<Longrightarrow> KECCAK_F_1600 (complement keccak_mask w) = complement keccak_mask (keccakf w)"
  by (simp add: KECCAK_F_1600_def keccak_f_unroll_complement)

lemma keccak_block_xorin:
  assumes "length a = 200" and "length b = 8 * r" and "r \<le> 25"
  shows "keccak_block (8 * r) b (complement keccak_mask (words_of a)) =
    complement keccak_mask (words_of (keccakP (xorin a b (8 * r))))"
proof -
  have "INPUT_BUF (8 * r) b (words_of a) = words_of (xorin a b (8 * r))"
    using assms by (simp add: INPUT_BUF_cn cn_xor_block_xorin)
  then show ?thesis
    using assms by (simp add: keccak_block_def INPUT_BUF_complement length_words_of [of _ 25] KECCAK_F_complement keccakP_def)
qed

text \<open>The byte sponge as a loop over blocks.\<close>

lemma xorin_take: "n \<le> length d \<Longrightarrow> xorin a (take n d) n = xorin a d n"
  by (rule nth_equalityI) (simp_all add: nth_xorin)

lemma absorb_md_loop: "0 < rate \<Longrightarrow> absorb rate a m = md_loop rate (\<lambda>b a. keccakP (xorin a b rate)) a m"
proof (induction rate a m rule: absorb.induct)
  case (1 rate a m)
  then show ?case by (simp add: absorb.simps [of rate a m] md_loop.simps [of rate _ a m] xorin_take)
qed

lemma md_loop_complement:
  assumes "0 < r" and "r \<le> 25" and "length a = 200"
  shows "md_loop (8 * r) (keccak_block (8 * r)) (complement keccak_mask (words_of a)) m =
    (complement keccak_mask (words_of (fst (absorb (8 * r) a m))), snd (absorb (8 * r) a m))"
  using assms(3)
proof (induction "8 * r" a m rule: absorb.induct)
  case (1 a m)
  show ?case
  proof (cases "8 * r \<le> length m")
    case True
    have "keccak_block (8 * r) (take (8 * r) m) (complement keccak_mask (words_of a)) =
        complement keccak_mask (words_of (keccakP (xorin a m (8 * r))))"
      using keccak_block_xorin [of a "take (8 * r) m" r] 1(2) True assms
      by (simp add: xorin_take)
    then show ?thesis using 1 True assms by (simp add: absorb_step md_loop.simps [of "8 * r"])
  next
    case False
    then show ?thesis by (simp add: absorb_stop md_loop_stop)
  qed
qed

definition keccak_fed :: "nat \<Rightarrow> bytes \<Rightarrow> sph_keccak_context \<Rightarrow> bool" where
  "keccak_fed lim m kc \<longleftrightarrow>
     length (kc_buf kc) = 144 \<and> buffered lim (keccak_block lim) keccak_zero m (kc_buf kc) (kc_ptr kc) (kc_wide kc)"

lemma close_rest_complement:
  "keccak_close_rest d lim kc tmp =
     (let kc = keccak_core kc tmp lim; w = complement keccak_mask (kc_wide kc)
      in (keccak_init (kc\<lparr>kc_wide := w\<rparr>) (8 * d), take d (concat (map (\<lambda>k. le_bytes 8 (w ! k)) [0..<(d + 7) div 8]))))"
  by (simp add: keccak_close_rest_def complement_def keccak_mask_def Let_def)

lemma take_words:
  assumes "d \<le> 8 * k" and "k \<le> length w"
  shows "take d (concat (map (\<lambda>i. le_bytes 8 (w ! i)) [0..<k])) = take d (bytes_of w)"
proof -
  have "map (\<lambda>i. le_bytes 8 (w ! i)) [0..<k] = map (le_bytes 8) (take k w)"
    using assms(2) by (intro nth_equalityI) simp_all
  moreover have "bytes_of w = bytes_of (take k w) @ bytes_of (drop k w)"
    by (simp add: bytes_of_def flip: concat_append map_append)
  moreover have "length (bytes_of (take k w)) = 8 * k" using assms(2) by simp
  ultimately show ?thesis using assms(1) by (simp add: bytes_of_def)
qed

text \<open>What the code relies on of a limit: a positive multiple of 8 that leaves room in the buffer.\<close>

locale keccak_limit =
  fixes lim r :: nat
  assumes lim: "lim = 8 * r" and r: "0 < r" "lim \<le> 144"
begin

lemma lim_bounds [simp]: "0 < lim" "lim < 200" "r \<le> 25"
  using lim r by simp_all

end

sublocale keccak_limit \<subseteq> block_buffer lim "keccak_block lim"
  by unfold_locales simp

context keccak_limit
begin

lemma fed_ptr: "keccak_fed lim m kc \<Longrightarrow> kc_ptr kc = length m mod lim"
  by (simp add: keccak_fed_def buffered_def)

lemma core_loop_buffered:
  assumes "buffered lim (keccak_block lim) keccak_zero m buf ptr wide"
    and "keccak_core_loop lim buf ptr wide data = (buf', ptr', wide')"
  shows "buffered lim (keccak_block lim) keccak_zero (m @ data) buf' ptr' wide' \<and> length buf' = length buf"
  using assms
proof (induction "length data" arbitrary: data m buf ptr wide rule: less_induct)
  case less
  have ptr: "ptr < lim" "lim \<le> length buf" using less.prems(1) by (simp_all add: buffered_def)
  show ?case
  proof (cases "data = []")
    case True
    then show ?thesis using less.prems by (simp add: keccak_core_loop.simps)
  next
    case False
    define clen where "clen = min (lim - ptr) (length data)"
    define b where "b = copy_at buf ptr (take clen data)"
    define full where "full \<longleftrightarrow> ptr + clen = lim"
    define p where "p = (if full then 0 else ptr + clen)"
    define w where "w = (if full then keccak_block lim (take lim b) wide else wide)"
    have clen: "0 < clen" "clen \<le> length data" "ptr + clen \<le> lim"
      using ptr False by (auto simp: clen_def)
    have d: "length (take clen data) = clen" "take clen data \<noteq> []" using clen False by auto
    have "buffered lim (keccak_block lim) keccak_zero (m @ take clen data) b p w"
      unfolding p_def w_def using put_buffered [OF less.prems(1) _ d(2) b_def, of full] clen(3) d(1)
      by (simp only: full_def)
    moreover have "keccak_core_loop lim b p w (drop clen data) = (buf', ptr', wide')"
    proof -
      have "w = (if full then KECCAK_F_1600 (INPUT_BUF lim b wide) else wide)"
        using INPUT_BUF_take [of lim b wide] lim by (simp add: w_def keccak_block_def)
      then show ?thesis
        using less.prems(2) False ptr(1)
        by (subst (asm) keccak_core_loop.simps)
          (simp add: Let_def b_def full_def p_def flip: clen_def split: if_splits)
    qed
    moreover have "length (drop clen data) < length data" using clen False by simp
    moreover have "length b = length buf" using clen ptr by (simp add: b_def)
    ultimately show ?thesis using less.hyps [of "drop clen data" "m @ take clen data" b p w] by simp
  qed
qed

lemma core_fed:
  assumes "keccak_fed lim m kc"
  shows "keccak_fed lim (m @ data) (keccak_core kc data lim)"
proof (cases "length data < lim - kc_ptr kc")
  case True
  let ?buf = "copy_at (kc_buf kc) (kc_ptr kc) data"
  have m: "buffered lim (keccak_block lim) keccak_zero m (kc_buf kc) (kc_ptr kc) (kc_wide kc)"
    "length (kc_buf kc) = 144"
    using assms by (simp_all add: keccak_fed_def)
  show ?thesis
  proof (cases "data = []")
    case False
    have "buffered lim (keccak_block lim) keccak_zero (m @ data) ?buf (kc_ptr kc + length data) (kc_wide kc)"
      using put_buffered [OF m(1) _ False refl, of False] True by simp
    then show ?thesis using True m(2) r(2) by (simp add: keccak_fed_def keccak_core_def Let_def)
  qed (use assms True in \<open>simp add: keccak_core_def copy_at_def Let_def\<close>)
next
  case False
  obtain buf ptr wide where
    "keccak_core_loop lim (kc_buf kc) (kc_ptr kc) (kc_wide kc) data = (buf, ptr, wide)" by (metis prod_cases3)
  with False show ?thesis
    using core_loop_buffered assms by (fastforce simp: keccak_fed_def keccak_core_def Let_def)
qed

lemma cores_fed: "keccak_fed lim m kc \<Longrightarrow> keccak_fed lim (m @ concat pieces) (fold (\<lambda>p kc. keccak_core kc p lim) pieces kc)"
proof (induction pieces arbitrary: m kc)
  case (Cons p pieces)
  then show ?case using Cons.IH [OF core_fed [OF Cons.prems, of p]] by simp
qed simp

lemma init_fed:
  "length (kc_buf kc) = 144 \<Longrightarrow> keccak_fed lim [] (keccak_init kc n)"
  using start_buffered [of "kc_buf kc" keccak_zero] r(2)
  by (simp add: keccak_fed_def keccak_init_zero)

lemma fed_state:
  assumes "keccak_fed lim m kc"
  shows "kc_wide kc = complement keccak_mask (words_of (fst (absorb lim (replicate 200 0) m)))"
  using md_loop_complement [of r "replicate 200 0" m] assms r(1) lim
  by (simp add: keccak_fed_def buffered_def keccak_zero_def words_of_zeros)

text \<open>The last bytes fill the block, so that all of the message is absorbed.\<close>

lemma close_tmp_length:
  assumes "ptr < lim" and "1 < lim"
  shows "(ptr + length (keccak_close_tmp lim ptr eb n)) mod lim = 0"
proof (cases "ptr = lim - 1")
  case True
  then have ptr: "ptr + 1 = lim" using assms by simp
  then have "ptr + (1 + lim) = lim + lim" by simp
  with ptr True assms(2) show ?thesis by (auto simp: keccak_close_tmp_def simp del: add_Suc_right)
next
  case False
  then have "ptr + length (keccak_close_tmp lim ptr eb n) = lim"
    using assms by (simp add: keccak_close_tmp_def Let_def)
  then show ?thesis by simp
qed

lemma length_absorb [simp]: "length (fst (absorb lim (replicate 200 0) m)) = 200"
  using absorb_lengths [of lim "replicate 200 0" m] by (cases "absorb lim (replicate 200 0) m") simp

lemma close_rest:
  assumes "keccak_fed lim m kc" and "d \<le> 193"
  shows "snd (keccak_close_rest d lim kc tmp) = take d (fst (absorb lim (replicate 200 0) (m @ tmp)))"
    and "keccak_fed lim [] (fst (keccak_close_rest d lim kc tmp))"
proof -
  let ?a = "fst (absorb lim (replicate 200 0) (m @ tmp))"
  have fed: "keccak_fed lim (m @ tmp) (keccak_core kc tmp lim)" by (rule core_fed [OF assms(1)])
  then have wide: "complement keccak_mask (kc_wide (keccak_core kc tmp lim)) = words_of ?a"
    using fed_state by simp
  have "take d (concat (map (\<lambda>k. le_bytes 8 (words_of ?a ! k)) [0..<(d + 7) div 8])) = take d (bytes_of (words_of ?a))"
    using assms(2) by (intro take_words) (simp_all add: length_words_of [of _ 25])
  then show "snd (keccak_close_rest d lim kc tmp) = take d ?a"
    by (simp add: close_rest_complement wide bytes_of_words_of [of _ 25] Let_def)
  show "keccak_fed lim [] (fst (keccak_close_rest d lim kc tmp))"
    using fed by (simp add: close_rest_complement Let_def) (rule init_fed, simp add: keccak_fed_def)
qed

end

text \<open>The padded message in the sponge of \<open>sha3.c\<close>.\<close>

lemma nth_close_tmp:
  assumes "length rest < lim" and "i < lim" and "\<not> bit eb 7" and "n \<noteq> 7"
  shows "(rest @ keccak_close_tmp lim (length rest) eb n) ! i =
    (if i < length rest then rest ! i else 0) XOR (if i = length rest then eb else 0) XOR (if i = lim - 1 then 0x80 else 0)"
proof -
  have "eb OR 0x80 = eb XOR 0x80"
    using assms(3) by (intro bit_word_eqI) (auto simp only: bit_or_iff bit_xor_iff bit_frame_byte)
  then show ?thesis
    using assms(1,2,4) by (auto simp: keccak_close_tmp_def Let_def nth_append nth_Cons')
qed

lemma length_close_tmp:
  "length rest < lim \<Longrightarrow> n \<noteq> 7 \<Longrightarrow> length (rest @ keccak_close_tmp lim (length rest) eb n) = lim"
  by (auto simp: keccak_close_tmp_def Let_def)

text \<open>The end mark and the frame bit in the state, as \<open>hash\<close> puts them there.\<close>

definition pad_state :: "nat \<Rightarrow> u8 \<Rightarrow> bytes \<Rightarrow> nat \<Rightarrow> bytes" where
  "pad_state lim eb a k = (let a = a[k := a ! k XOR eb] in a[lim - 1 := a ! (lim - 1) XOR 0x80])"

lemma length_pad_state [simp]: "length (pad_state lim eb a k) = length a"
  by (simp add: pad_state_def Let_def)

lemma nth_pad_state:
  "i < length a \<Longrightarrow> k < lim \<Longrightarrow> lim \<le> length a \<Longrightarrow>
     pad_state lim eb a k ! i = (a ! i XOR (if i = k then eb else 0)) XOR (if i = lim - 1 then 0x80 else 0)"
  by (simp add: pad_state_def Let_def nth_list_update)

lemma xorin_close_tmp:
  assumes "length a = 200" and "length rest < lim" and "lim < 200" and "\<not> bit eb 7" and "n \<noteq> 7"
  shows "xorin a (rest @ keccak_close_tmp lim (length rest) eb n) lim =
    xorin (pad_state lim eb a (length rest)) rest (length rest)"
proof (rule nth_equalityI)
  fix i
  assume "i < length (xorin a (rest @ keccak_close_tmp lim (length rest) eb n) lim)"
  then have i: "i < length a" by simp
  let ?t = "rest @ keccak_close_tmp lim (length rest) eb n" and ?b = "pad_state lim eb a (length rest)"
  have A: "?b ! i = (a ! i XOR (if i = length rest then eb else 0)) XOR (if i = lim - 1 then 0x80 else 0)"
    by (rule nth_pad_state) (use i assms in simp_all)
  have "xorin a ?t lim ! i = (if i < lim then a ! i XOR ?t ! i else a ! i)"
    using nth_xorin [of lim ?t i a] length_close_tmp [OF assms(2,5), of eb] i by (simp only: order_refl)
  moreover have "xorin ?b rest (length rest) ! i = (if i < length rest then ?b ! i XOR rest ! i else ?b ! i)"
    using nth_xorin [of "length rest" rest i ?b] i by simp
  moreover have "i < lim \<Longrightarrow> ?t ! i =
      (if i < length rest then rest ! i else 0) XOR (if i = length rest then eb else 0) XOR (if i = lim - 1 then 0x80 else 0)"
    by (rule nth_close_tmp [OF assms(2) _ assms(4,5)])
  moreover have "\<not> i < lim \<Longrightarrow> i \<noteq> lim - 1" using assms(2) by linarith
  ultimately show "xorin a ?t lim ! i = xorin ?b rest (length rest) ! i"
    using assms(2) by (cases "i < lim"; cases "i < length rest") (simp_all add: A ac_simps)
qed simp

lemma hash_close_tmp:
  assumes "1 < lim" "lim < 200" and "d < lim" and "\<not> bit eb 7" and "n \<noteq> 7"
  shows "hash d m lim eb =
    Some (take d (fst (absorb lim (replicate 200 0) (m @ keccak_close_tmp lim (length m mod lim) eb n))))"
proof -
  let ?f = "\<lambda>b a. keccakP (xorin a b lim)"
  obtain a rest where ar: "absorb lim (replicate 200 0) m = (a, rest)" by fastforce
  let ?tmp = "keccak_close_tmp lim (length rest) eb n"
  have len: "length a = 200" "length rest = length m mod lim" "length rest < lim"
    using absorb_lengths [OF ar] assms(1) by simp_all
  have "absorb lim (replicate 200 0) (m @ ?tmp) = md_loop lim ?f a (rest @ ?tmp)"
    using md_loop_append [of lim ?f "replicate 200 0" m ?tmp] ar assms(1) by (simp add: absorb_md_loop)
  also have "\<dots> = (keccakP (xorin a (rest @ ?tmp) lim), [])"
    using md_loop_block [of "rest @ ?tmp" lim ?f a "[]"] length_close_tmp [OF len(3) assms(5), of eb] assms(1)
    by (simp add: md_loop_stop)
  finally have "fst (absorb lim (replicate 200 0) (m @ ?tmp)) = keccakP (xorin (pad_state lim eb a (length rest)) rest (length rest))"
    using xorin_close_tmp [OF len(1,3) assms(2,4,5)] by simp
  moreover have "hash d m lim eb = Some (take d (keccakP (xorin (pad_state lim eb a (length rest)) rest (length rest))))"
    using assms(2,3) ar by (simp add: hash_def Plen_def Let_def squeeze_short pad_state_def)
  ultimately show ?thesis using len(2) by simp
qed

section \<open>Digests\<close>

lemma bit_keccak_eb: "n \<le> 8 \<Longrightarrow> bit (keccak_eb ub n) i \<longleftrightarrow> i = n \<and> n < 8 \<or> i < n \<and> bit ub (8 - n + i)"
proof -
  assume "n \<le> 8"
  have c: "(0x100 :: u32) = push_bit 8 1" "(0xFF :: u32) = mask 8" by (simp_all add: mask_eq_exp_minus_1)
  have "bit (0x100 OR (ub AND 0xFF)) j \<longleftrightarrow> j = 8 \<or> j < 8 \<and> bit ub j" for j
    unfolding c by (simp only: bit_or_iff bit_and_iff bit_push_bit_iff bit_mask_iff) (auto simp: bit_1_iff)
  then have "bit (keccak_eb ub n) i \<longleftrightarrow> i < 8 \<and> (8 - n + i = 8 \<or> 8 - n + i < 8 \<and> bit ub (8 - n + i))"
    by (simp only: keccak_eb_def bit_unsigned_iff bit_drop_bit_eq o_apply possible_bit_word) simp
  with \<open>n \<le> 8\<close> show ?thesis by auto
qed

lemma keccak_eb_7: "n < 7 \<Longrightarrow> \<not> bit (keccak_eb ub n) 7"
  by (simp add: bit_keccak_eb)

lemma keccak_eb_0: "keccak_eb ub 0 = 1"
  by (rule bit_word_eqI) (auto simp: bit_keccak_eb bit_1_iff)

section \<open>The padding as a string of bits\<close>

text \<open>
  The message of Keccak is a string of bits, lowest bit of a byte first; the padding \<open>pad10*1\<close> fills the last
  block of \<open>r\<close> bits, or a further one when a single bit is left in it.
\<close>

definition bits_of :: "bytes \<Rightarrow> bool list" where
  "bits_of bs = concat (map (\<lambda>b. map (bit b) [0..<8]) bs)"

definition pack_bits :: "bool list \<Rightarrow> bytes" where
  "pack_bits bits = map (horner_sum of_bool 2) (chunks 8 bits)"

definition pad101 :: "nat \<Rightarrow> bool list \<Rightarrow> bool list" where
  "pad101 r m = m @ True # replicate ((2 * r - 2 - length m mod r) mod r) False @ [True]"

definition extra_bits :: "u32 \<Rightarrow> nat \<Rightarrow> bool list" where
  "extra_bits ub n = map (\<lambda>i. bit ub (8 - n + i)) [0..<n]"

text \<open>The digest of \<open>m\<close> and \<open>n\<close> further bits, the upper ones of the byte \<open>ub\<close>.\<close>

definition keccak_bits :: "nat \<Rightarrow> nat \<Rightarrow> bytes \<Rightarrow> u32 \<Rightarrow> nat \<Rightarrow> bytes" where
  "keccak_bits d lim m ub n =
     take d (fst (absorb lim (replicate 200 0) (pack_bits (pad101 (8 * lim) (bits_of m @ extra_bits ub n)))))"

lemma length_bits_of [simp]: "length (bits_of bs) = 8 * length bs"
  by (induction bs) (simp_all add: bits_of_def)

lemma bits_of_append: "bits_of (xs @ ys) = bits_of xs @ bits_of ys"
  by (simp add: bits_of_def)

lemma bits_of_Cons: "bits_of (b # bs) = map (bit b) [0..<8] @ bits_of bs"
  by (simp add: bits_of_def)

lemma bits_of_zeros: "bits_of (replicate k 0) = replicate (8 * k) False"
  by (induction k) (simp_all add: bits_of_def numeral_eq_Suc)

lemma pack_bits_of: "pack_bits (bits_of bs) = bs"
proof (induction bs)
  case (Cons b bs)
  have "horner_sum of_bool 2 (map (bit b) [0..<8]) = b"
    using horner_sum_bit_eq_take_bit [of b 8] by (simp add: take_bit_word_eq_self)
  then show ?case using Cons by (simp add: pack_bits_def bits_of_Cons chunks_append)
qed (simp add: pack_bits_def bits_of_def)

lemma upt_split: "i \<le> j \<Longrightarrow> j \<le> k \<Longrightarrow> [i..<k] = [i..<j] @ [j..<k]"
  by (metis le_Suc_ex upt_add_eq_append)

text \<open>The bits of the last bytes.\<close>

lemma bits_of_mark:
  assumes "n < 8"
  shows "map (bit (keccak_eb ub n)) [0..<8] = extra_bits ub n @ True # replicate (7 - n) False"
proof -
  have "map (bit (keccak_eb ub n)) [0..<8] = map (bit (keccak_eb ub n)) ([0..<n] @ n # [Suc n..<8])"
    using assms upt_split [of 0 n 8] by (simp add: upt_conv_Cons)
  also have "\<dots> = extra_bits ub n @ True # map (\<lambda>i. False) [Suc n..<8]"
    using assms by (simp add: extra_bits_def bit_keccak_eb)
  finally show ?thesis by (simp add: map_replicate_const)
qed

lemma bits_of_frame: "map (bit (0x80 :: u8)) [0..<8] = replicate 7 False @ [True]"
  by (simp add: numeral_eq_Suc)

lemma bits_of_mark_frame:
  assumes "n < 7"
  shows "map (bit (keccak_eb ub n OR 0x80)) [0..<8] = extra_bits ub n @ True # replicate (6 - n) False @ [True]"
proof -
  have "[0..<8] = [0..<n] @ [n..<8]" "[n..<8] = n # [Suc n..<8]" "[Suc n..<8] = [Suc n..<7] @ [7..<8]"
    using assms by (intro upt_split upt_conv_Cons; simp)+
  moreover have "[7..<8] = [7 :: nat]" by simp
  ultimately have "map (bit (keccak_eb ub n OR 0x80)) [0..<8] = map (bit (keccak_eb ub n OR 0x80)) ([0..<n] @ n # [Suc n..<7] @ [7])"
    by (simp only: )
  also have "\<dots> = extra_bits ub n @ True # map (\<lambda>i. False) [Suc n..<7] @ [True]"
  proof -
    have "bit (keccak_eb ub n OR 0x80) = (\<lambda>i. bit (keccak_eb ub n) i \<or> i = 7)"
      by (intro ext) (simp only: bit_or_iff bit_frame_byte)
    then show ?thesis using assms by (simp only:) (auto simp: extra_bits_def bit_keccak_eb)
  qed
  finally show ?thesis by (simp add: map_replicate_const)
qed

lemma pad101_eqI:
  assumes "(length m + 2 + z) mod r = 0" and "z < r"
  shows "pad101 r m = m @ True # replicate z False @ [True]"
proof -
  have r: "length m mod r < r" using assms(2) by simp
  have "(length m mod r + 2 + z) mod r = 0" using assms(1) by (simp only: mod_add_left_eq add.assoc)
  then obtain q where q: "length m mod r + 2 + z = q * r" by (metis mod_0_imp_dvd dvdE mult.commute)
  have "0 < q" using q by (cases q) auto
  have "q * r < 3 * r" if "2 \<le> r" using q r assms(2) that by linarith
  then have "q \<le> 2" if "2 \<le> r" using that by simp
  have "(2 * r - 2 - length m mod r) mod r = z"
  proof (cases "2 \<le> r")
    case True
    then have "q = 1 \<or> q = 2" using \<open>0 < q\<close> \<open>2 \<le> r \<Longrightarrow> q \<le> 2\<close> by linarith
    then show ?thesis
    proof
      assume "q = 1"
      then have "2 * r - 2 - length m mod r = r + z" using q by simp
      then show ?thesis using assms(2) by simp
    next
      assume "q = 2"
      then have "2 * r - 2 - length m mod r = z" using q by simp
      then show ?thesis using assms(2) by simp
    qed
  next
    case False
    then show ?thesis using assms(2) by (cases r) auto
  qed
  then show ?thesis by (simp add: pad101_def)
qed

text \<open>The bytes that closing appends are this padding, also when seven bits come at the end of a block.\<close>

lemma pad101_close_tmp:
  assumes "1 < lim" and "n < 8"
  shows "pad101 (8 * lim) (bits_of m @ extra_bits ub n) =
    bits_of (m @ keccak_close_tmp lim (length m mod lim) (keccak_eb ub n) n)"
proof -
  let ?p = "length m mod lim" and ?e = "extra_bits ub n"
  have p: "?p < lim" using assms(1) by simp
  have e: "length (extra_bits ub k) = k" for k by (simp add: extra_bits_def)
  define q where "q = length m div lim"
  have "lim * q + ?p = length m" by (simp add: q_def)
  then have m: "8 * length m = 8 * lim * q + 8 * ?p" by (metis add_mult_distrib2 mult.assoc)
  have fill: "pad101 (8 * lim) (bits_of m @ ?e) = (bits_of m @ ?e) @ True # replicate z False @ [True]"
    if "8 * ?p + n + 2 + z = 8 * lim \<or> 8 * ?p + n + 2 + z = 8 * lim * 2" and "z < 8 * lim" for z
  proof (rule pad101_eqI [OF _ that(2)])
    have "8 * length m + n + 2 + z = 8 * lim * (q + 1) \<or> 8 * length m + n + 2 + z = 8 * lim * (q + 2)"
      using that(1) m by (simp add: algebra_simps)
    then have "(8 * length m + n + 2 + z) mod (8 * lim) = 0" by (elim disjE) (simp_all only: mod_mult_self1_is_0)
    then show "(length (bits_of m @ ?e) + 2 + z) mod (8 * lim) = 0" by (simp only: length_append length_bits_of e)
  qed
  consider "?p = lim - 1" "n = 7" | "?p = lim - 1" "n < 7" | "?p < lim - 1" using p assms(2) by linarith
  then show ?thesis
  proof cases
    case 1
    let ?z = "8 * (lim - 1) + 7"
    have "8 * ?p + n + 2 + ?z = 8 * lim * 2" "?z < 8 * lim" using 1 assms(1) by simp_all
    moreover have "keccak_close_tmp lim ?p (keccak_eb ub n) n = keccak_eb ub n # replicate (lim - 1) 0 @ [0x80]"
      using 1 by (simp add: keccak_close_tmp_def)
    ultimately show ?thesis
      using 1(2) fill [of ?z] assms(2)
      by (simp only: bits_of_append bits_of_Cons bits_of_mark bits_of_frame bits_of_zeros replicate_add)
        (simp add: bits_of_def)
  next
    case 2
    have "8 * ?p + n + 2 + (6 - n) = 8 * lim" "6 - n < 8 * lim" using 2 assms(1) by simp_all
    moreover have "keccak_close_tmp lim ?p (keccak_eb ub n) n = [keccak_eb ub n OR 0x80]"
      using 2 by (simp add: keccak_close_tmp_def)
    ultimately show ?thesis
      using fill [of "6 - n"] by (simp only: bits_of_append bits_of_Cons bits_of_mark_frame [OF 2(2)]) (simp add: bits_of_def)
  next
    case 3
    let ?k = "lim - ?p - 2"
    let ?z = "(7 - n) + (8 * ?k + 7)"
    have "8 * ?p + n + 2 + ?z = 8 * lim" "?z < 8 * lim" using 3 assms(2) by simp_all
    moreover have "keccak_close_tmp lim ?p (keccak_eb ub n) n = keccak_eb ub n # replicate ?k 0 @ [0x80]"
      using 3 by (simp add: keccak_close_tmp_def Let_def)
    ultimately show ?thesis
      using fill [of ?z] assms(2)
      by (simp only: bits_of_append bits_of_Cons bits_of_mark bits_of_frame bits_of_zeros replicate_add)
        (simp add: bits_of_def)
  qed
qed

context keccak_limit
begin

lemma close_bits:
  assumes "length (kc_buf kc) = 144" and "d \<le> 193" and "1 < lim" and "n < 8"
    and kc': "kc' = fold (\<lambda>p kc. keccak_core kc p lim) pieces (keccak_init kc k)"
  shows "snd (keccak_close d lim kc' ub n) = keccak_bits d lim (concat pieces) ub n"
proof -
  have fed: "keccak_fed lim (concat pieces) kc'"
    using cores_fed [OF init_fed [OF assms(1)], of pieces k] by (simp add: kc')
  then have ptr: "kc_ptr kc' = length (concat pieces) mod lim" by (rule fed_ptr)
  show ?thesis
    unfolding keccak_close_def Let_def close_rest(1) [OF fed assms(2)] keccak_bits_def
      pad101_close_tmp [OF assms(3,4)] pack_bits_of ptr ..
qed

lemma close_digest:
  assumes "length (kc_buf kc) = 144" and "d < lim" and "d \<le> 193" and "1 < lim"
    and kc': "kc' = fold (\<lambda>p kc. keccak_core kc p lim) pieces (keccak_init kc k)"
  shows "n < 7 \<Longrightarrow> hash d (concat pieces) lim (keccak_eb ub n) = Some (snd (keccak_close d lim kc' ub n))"
    and "n \<noteq> 7 \<Longrightarrow> hash d (concat pieces) lim 6 = Some (snd (flex_keccak_close d lim kc' ub n))"
proof -
  have fed: "keccak_fed lim (concat pieces) kc'"
    using cores_fed [OF init_fed [OF assms(1)], of pieces k] by (simp add: kc')
  then have ptr: "kc_ptr kc' = length (concat pieces) mod lim" by (rule fed_ptr)
  show "hash d (concat pieces) lim (keccak_eb ub n) = Some (snd (keccak_close d lim kc' ub n))" if "n < 7"
    using that hash_close_tmp [of lim d "keccak_eb ub n" n "concat pieces"] close_rest(1) [OF fed assms(3)] assms(2,4)
    by (simp add: keccak_close_def keccak_eb_7 ptr Let_def)
  have "\<not> bit (6 :: u8) 7" by simp
  then show "hash d (concat pieces) lim 6 = Some (snd (flex_keccak_close d lim kc' ub n))" if "n \<noteq> 7"
    using that hash_close_tmp [of lim d 6 n "concat pieces"] close_rest(1) [OF fed assms(3)] assms(2,4)
    by (simp add: flex_keccak_close_def ptr Let_def)
qed

lemma close_buf:
  assumes "length (kc_buf kc) = 144" and "d \<le> 193"
    and kc': "kc' = fold (\<lambda>p kc. keccak_core kc p lim) pieces (keccak_init kc k)"
  shows "length (kc_buf (fst (keccak_close d lim kc' ub n))) = 144"
    and "length (kc_buf (fst (flex_keccak_close d lim kc' ub n))) = 144"
  using close_rest(2) [OF cores_fed [OF init_fed [OF assms(1)], of pieces k] assms(2)]
  by (simp_all add: kc' keccak_close_def flex_keccak_close_def Let_def keccak_fed_def)

end

text \<open>Closing leaves a context that is initialised for the same digest.\<close>

lemma close_init: "keccak_init (fst (keccak_close d lim kc ub n)) (8 * d) = fst (keccak_close d lim kc ub n)"
    and flex_close_init: "keccak_init (fst (flex_keccak_close d lim kc ub n)) (8 * d) = fst (flex_keccak_close d lim kc ub n)"
  by (simp_all add: keccak_close_def flex_keccak_close_def close_rest_complement keccak_init_zero Let_def)

interpretation keccak224: keccak_limit 144 18 by unfold_locales simp_all
interpretation keccak256: keccak_limit 136 17 by unfold_locales simp_all
interpretation keccak384: keccak_limit 104 13 by unfold_locales simp_all
interpretation keccak512: keccak_limit 72 9 by unfold_locales simp_all

end
