(* ===== verification/Sph_Wrappers.thy ===== *)
theory Sph_Wrappers
  imports Sph_Keccak Sha2
begin

text \<open>
  The hashes of \<open>libmultihash\<close> that are one or two calls of a digest of sphlib: \<open>keccak.c\<close>, \<open>keccak512.c\<close> and
  \<open>sha256csm.c\<close>. The context is a local variable, so its first content is arbitrary: it is a parameter.
  A read behind the input is \<open>None\<close>.
\<close>

definition keccak_hash :: "sph_keccak_context \<Rightarrow> bytes \<Rightarrow> bytes" where
  "keccak_hash ctx_keccak input =
     (let ctx_keccak = sph_keccak256_init ctx_keccak;
          ctx_keccak = sph_keccak256 ctx_keccak input
      in snd (sph_keccak256_close ctx_keccak))"

definition keccak512_hash :: "sph_keccak_context \<Rightarrow> bytes \<Rightarrow> bytes" where
  "keccak512_hash ctx_keccak input =
     (let ctx_keccak = sph_keccak512_init ctx_keccak;
          ctx_keccak = sph_keccak512 ctx_keccak input
      in snd (sph_keccak512_close ctx_keccak))"

text \<open>\<open>len\<close> is not used: always 80 bytes are read.\<close>

definition sha256csm_hash :: "sha224_context \<Rightarrow> bytes \<Rightarrow> bytes option" where
  "sha256csm_hash ctx_sha2 input =
     (if length input < 80 then None
      else
        let emptybuffer = copy_at (replicate 112 0) 0 (take 80 input);
            ctx_sha2 = sph_sha256_init ctx_sha2;
            ctx_sha2 = sph_sha224 ctx_sha2 emptybuffer;
            (ctx_sha2, output) = sph_sha256_close ctx_sha2;
            ctx_sha2 = sph_sha256_init ctx_sha2;
            ctx_sha2 = sph_sha224 ctx_sha2 output;
            (ctx_sha2, output) = sph_sha256_close ctx_sha2
        in Some output)"

lemma keccak_hash_value:
  assumes "length (kc_buf ctx) = 144"
  shows "hash 32 input 136 1 = Some (keccak_hash ctx input)"
    and "hash 64 input 72 1 = Some (keccak512_hash ctx input)"
  using keccak256.close_digest(1) [OF assms, of 32 _ "[input]" 256 0 0]
    keccak512.close_digest(1) [OF assms, of 64 _ "[input]" 512 0 0]
  by (simp_all add: keccak_hash_def keccak512_hash_def Let_def keccak_eb_0 sph_keccak256_init_def sph_keccak256_def
      sph_keccak256_close_def sph_keccak256_addbits_and_close_def sph_keccak512_init_def sph_keccak512_def
      sph_keccak512_close_def sph_keccak512_addbits_and_close_def)

text \<open>One call of the digest, with the context that it leaves.\<close>

lemma sha256_once:
  assumes "length (md_buf sc) = 64"
  shows "\<exists>sc'. sph_sha256_close (sph_sha224 (sph_sha256_init sc) m) = (sc', fips_sha256 H256 m 0 0) \<and>
    length (md_buf sc') = 64"
proof -
  let ?fed = "sph_sha224 (sph_sha256_init sc) m"
  have "length (md_buf ?fed) = 64"
    using absorbed_buf [OF fed_256 [OF assms, of H256 "[m]"]] by (simp add: sph_sha256_init_def)
  from closed_256(2) [OF this] digest_256(2) [OF assms, of 0 "[m]" 0] show ?thesis
    by (simp add: close_addbits prod_eq_iff)
qed

lemma sha256csm_hash_value:
  assumes "length (md_buf ctx) = 64"
  shows "sha256csm_hash ctx input =
    (if length input < 80 then None
     else Some (fips_sha256 H256 (fips_sha256 H256 (take 80 input @ replicate 32 0) 0 0) 0 0))"
proof (cases "length input < 80")
  case False
  let ?b = "copy_at (replicate 112 0) 0 (take 80 input)"
  have b: "?b = take 80 input @ replicate 32 0" using False by (simp add: copy_at_def)
  obtain sc where 1: "sph_sha256_close (sph_sha224 (sph_sha256_init ctx) ?b) = (sc, fips_sha256 H256 ?b 0 0)"
      and sc: "length (md_buf sc) = 64"
    using sha256_once [OF assms] by blast
  obtain sc' where 2: "sph_sha256_close (sph_sha224 (sph_sha256_init sc) (fips_sha256 H256 ?b 0 0)) =
      (sc', fips_sha256 H256 (fips_sha256 H256 ?b 0 0) 0 0)"
    using sha256_once [OF sc] by blast
  show ?thesis using False by (simp add: sha256csm_hash_def Let_def 1 2 b [symmetric])
qed (simp add: sha256csm_hash_def)

end
