(* ===== verification/Sha512_256.thy ===== *)
theory Sha512_256
  imports Sha2
begin

unbundle bit_operations_syntax

text \<open>
  SHA-512/256 of Radiant: \<open>src/src/Native/libmultihash/sha512_256.c\<close>, another implementation of the
  compression function of \<open>Sha2\<close> with its own buffering. \<open>UNROLL_LOOPS\<close> is not set, so the loops are the
  code that is compiled. All counters are \<open>unsigned int\<close>: the length field has 32 bits, and sums of
  lengths are taken modulo \<open>2 ^ 32\<close>.

  The lemmas show that the digest is the one of the standard for messages below \<open>2 ^ 29\<close> bytes, where
  the 32-bit count of bits is exact, however the message is cut.
\<close>

section \<open>The code\<close>

definition sha512_CH :: "u64 \<Rightarrow> u64 \<Rightarrow> u64 \<Rightarrow> u64" where
  "sha512_CH x y z = (x AND y) XOR (NOT x AND z)"

definition sha512_MAJ :: "u64 \<Rightarrow> u64 \<Rightarrow> u64 \<Rightarrow> u64" where
  "sha512_MAJ x y z = (x AND y) XOR (x AND z) XOR (y AND z)"

definition SHA512_F1 :: "u64 \<Rightarrow> u64" where
  "SHA512_F1 x = ror64 x 28 XOR ror64 x 34 XOR ror64 x 39"

definition SHA512_F2 :: "u64 \<Rightarrow> u64" where
  "SHA512_F2 x = ror64 x 14 XOR ror64 x 18 XOR ror64 x 41"

definition SHA512_F3 :: "u64 \<Rightarrow> u64" where
  "SHA512_F3 x = ror64 x 1 XOR ror64 x 8 XOR drop_bit 7 x"

definition SHA512_F4 :: "u64 \<Rightarrow> u64" where
  "SHA512_F4 x = ror64 x 19 XOR ror64 x 61 XOR drop_bit 6 x"

definition sha512_256_h0 :: "u64 list" where
  "sha512_256_h0 =
     [0x22312194FC2BF72C, 0x9F555FA3C84C64C2, 0x2393B86B6F53B151, 0x963877195940EABD,
      0x96283EE2A88EFFE3, 0xBE5E1E2553863992, 0x2B0199FC2C85B8AA, 0x0EB72DDC81C52CA2]"

definition sha512_k :: "u64 list" where
  "sha512_k =
     [0x428A2F98D728AE22, 0x7137449123EF65CD, 0xB5C0FBCFEC4D3B2F, 0xE9B5DBA58189DBBC,
      0x3956C25BF348B538, 0x59F111F1B605D019, 0x923F82A4AF194F9B, 0xAB1C5ED5DA6D8118,
      0xD807AA98A3030242, 0x12835B0145706FBE, 0x243185BE4EE4B28C, 0x550C7DC3D5FFB4E2,
      0x72BE5D74F27B896F, 0x80DEB1FE3B1696B1, 0x9BDC06A725C71235, 0xC19BF174CF692694,
      0xE49B69C19EF14AD2, 0xEFBE4786384F25E3, 0x0FC19DC68B8CD5B5, 0x240CA1CC77AC9C65,
      0x2DE92C6F592B0275, 0x4A7484AA6EA6E483, 0x5CB0A9DCBD41FBD4, 0x76F988DA831153B5,
      0x983E5152EE66DFAB, 0xA831C66D2DB43210, 0xB00327C898FB213F, 0xBF597FC7BEEF0EE4,
      0xC6E00BF33DA88FC2, 0xD5A79147930AA725, 0x06CA6351E003826F, 0x142929670A0E6E70,
      0x27B70A8546D22FFC, 0x2E1B21385C26C926, 0x4D2C6DFC5AC42AED, 0x53380D139D95B3DF,
      0x650A73548BAF63DE, 0x766A0ABB3C77B2A8, 0x81C2C92E47EDAEE6, 0x92722C851482353B,
      0xA2BFE8A14CF10364, 0xA81A664BBC423001, 0xC24B8B70D0F89791, 0xC76C51A30654BE30,
      0xD192E819D6EF5218, 0xD69906245565A910, 0xF40E35855771202A, 0x106AA07032BBD1B8,
      0x19A4C116B8D2D0C8, 0x1E376C085141AB53, 0x2748774CDF8EEB99, 0x34B0BCB5E19B48A8,
      0x391C0CB3C5C95A63, 0x4ED8AA4AE3418ACB, 0x5B9CCA4F7763E373, 0x682E6FF3D6B2B8A3,
      0x748F82EE5DEFB2FC, 0x78A5636F43172F60, 0x84C87814A1F0AB72, 0x8CC702081A6439EC,
      0x90BEFFFA23631E28, 0xA4506CEBDE82BDE9, 0xBEF9A3F7B2C67915, 0xC67178F2E372532B,
      0xCA273ECEEA26619C, 0xD186B8C721C0C207, 0xEADA7DD6CDE0EB1E, 0xF57D4F7FEE6ED178,
      0x06F067AA72176FBA, 0x0A637DC5A2C898A6, 0x113F9804BEF90DAE, 0x1B710B35131C471B,
      0x28DB77F523047D84, 0x32CAAB7B40C72493, 0x3C9EBE0A15C9BEBC, 0x431D67C49C100D4C,
      0x4CC5D4BECB3E42B6, 0x597F299CFC657E2A, 0x5FCB6FAB3AD6FAEC, 0x6C44198C4A475817]"

definition SHA512_SCR :: "u64 list \<Rightarrow> nat \<Rightarrow> u64" where
  "SHA512_SCR w i = SHA512_F4 (w ! (i - 2)) + w ! (i - 7) + SHA512_F3 (w ! (i - 15)) + w ! (i - 16)"

text \<open>The body of the loop over the 80 steps.\<close>

definition sha512_step :: "u64 list \<Rightarrow> nat \<Rightarrow> u64 list \<Rightarrow> u64 list" where
  "sha512_step w j wv =
     (let t1 = wv ! 7 + SHA512_F2 (wv ! 4) + sha512_CH (wv ! 4) (wv ! 5) (wv ! 6) + sha512_k ! j + w ! j;
          t2 = SHA512_F1 (wv ! 0) + sha512_MAJ (wv ! 0) (wv ! 1) (wv ! 2);
          wv = wv[7 := wv ! 6]; wv = wv[6 := wv ! 5]; wv = wv[5 := wv ! 4];
          wv = wv[4 := wv ! 3 + t1];
          wv = wv[3 := wv ! 2]; wv = wv[2 := wv ! 1]; wv = wv[1 := wv ! 0]
      in wv[0 := t1 + t2])"

text \<open>One pass of the loop of \<open>sha512_transf\<close>; \<open>w\<close> is the local array \<open>w[80]\<close> before it.\<close>

definition sha512_transf_block :: "u64 list \<Rightarrow> u64 list \<Rightarrow> bytes \<Rightarrow> u64 list" where
  "sha512_transf_block w h sub_block =
     (let w = fold (\<lambda>j w. w[j := be_word (take 8 (drop (8 * j) sub_block))]) [0..<16] w;
          w = fold (\<lambda>j w. w[j := SHA512_SCR w j]) [16..<80] w;
          wv = take 8 h;
          wv = fold (sha512_step w) [0..<80] wv
      in map2 (+) h wv)"

definition sha512_transf :: "u64 list \<Rightarrow> u64 list \<Rightarrow> bytes \<Rightarrow> nat \<Rightarrow> u64 list" where
  "sha512_transf w h message block_nb =
     fold (\<lambda>i h. sha512_transf_block w h (drop (128 * i) message)) [0..<block_nb] h"

record sha512_ctx =
  ctx_tot_len :: u32
  ctx_len :: nat
  ctx_block :: bytes
  ctx_h :: "u64 list"

definition sha512_256_init :: "sha512_ctx \<Rightarrow> sha512_ctx" where
  "sha512_256_init ctx = ctx\<lparr>ctx_h := sha512_256_h0, ctx_len := 0, ctx_tot_len := 0\<rparr>"

definition sha512_256_update :: "u64 list \<Rightarrow> sha512_ctx \<Rightarrow> bytes \<Rightarrow> sha512_ctx" where
  "sha512_256_update w ctx message =
     (let len = length message;
          tmp_len = 128 - ctx_len ctx;
          rem_len = (if len < tmp_len then len else tmp_len);
          block = copy_at (ctx_block ctx) (ctx_len ctx) (take rem_len message)
      in if (ctx_len ctx + len) mod 2 ^ 32 < 128
         then ctx\<lparr>ctx_block := block, ctx_len := (ctx_len ctx + len) mod 2 ^ 32\<rparr>
         else
           let new_len = len - rem_len;
               block_nb = new_len div 128;
               shifted_message = drop rem_len message;
               h = sha512_transf w (ctx_h ctx) block 1;
               h = sha512_transf w h shifted_message block_nb;
               rem_len = new_len mod 128;
               block = copy_at block 0 (take rem_len (drop (128 * block_nb) shifted_message))
           in ctx\<lparr>ctx_block := block, ctx_h := h, ctx_len := rem_len,
                  ctx_tot_len := ctx_tot_len ctx + of_nat ((block_nb + 1) * 128)\<rparr>)"

definition sha512_256_final :: "u64 list \<Rightarrow> sha512_ctx \<Rightarrow> sha512_ctx \<times> bytes" where
  "sha512_256_final w ctx =
     (let block_nb = 1 + (if 128 - 17 < ctx_len ctx mod 128 then 1 else 0);
          len_b = push_bit 3 (ctx_tot_len ctx + of_nat (ctx_len ctx));
          pm_len = 128 * block_nb;
          block = copy_at (ctx_block ctx) (ctx_len ctx) (replicate (pm_len - ctx_len ctx) 0);
          block = block[ctx_len ctx := 0x80];
          block = copy_at block (pm_len - 4) (be_bytes 4 len_b);
          h = sha512_transf w (ctx_h ctx) block block_nb
      in (ctx\<lparr>ctx_block := block, ctx_h := h\<rparr>, concat (map (\<lambda>i. be_bytes 8 (h ! i)) [0..<4])))"

text \<open>\<open>ctx\<close> is the local context and \<open>w\<close> the local array before the call.\<close>

definition sha512_256 :: "u64 list \<Rightarrow> sha512_ctx \<Rightarrow> bytes \<Rightarrow> bytes" where
  "sha512_256 w ctx message =
     (let ctx = sha512_256_init ctx; ctx = sha512_256_update w ctx message in snd (sha512_256_final w ctx))"

section \<open>The compression function\<close>

lemma sha512_functions:
  "SHA512_F1 = BSG5_0" "SHA512_F2 = BSG5_1" "SHA512_F3 = SSG5_0" "SHA512_F4 = SSG5_1" "sha512_k = K512"
  "sha512_CH = fips_Ch" "sha512_MAJ = fips_Maj"
  by (auto simp: fun_eq_iff SHA512_F1_def BSG5_0_def SHA512_F2_def BSG5_1_def SHA512_F3_def SSG5_0_def
      SHA512_F4_def SSG5_1_def sha512_k_def K512_def sha512_CH_def fips_Ch_def sha512_MAJ_def fips_Maj_def)

lemma sha512_step_fips:
  assumes "length wv = 8"
  shows "sha512_step w j wv = list_of_regs (fips_step BSG5_0 BSG5_1 (K512 ! j, w ! j) (regs_of wv))"
proof -
  obtain a b c d e f g h where "wv = [a, b, c, d, e, f, g, h]"
    using assms by (auto simp: length_Suc_conv eval_nat_numeral)
  then show ?thesis
    by (simp add: sha512_step_def fips_step_def regs_of_def list_of_regs_def sha512_functions Let_def)
qed

lemma sha512_steps_fips:
  assumes "length wv = 8"
  shows "fold (sha512_step w) [0..<n] wv =
    list_of_regs (fold (fips_step BSG5_0 BSG5_1) (map (\<lambda>t. (K512 ! t, w ! t)) [0..<n]) (regs_of wv))"
  by (induction n) (simp_all add: assms sha512_step_fips list_of_regs_of)

lemma transf_block_fips:
  assumes "length w = 80" and "length h = 8"
  shows "sha512_transf_block w h b = fips512_compress (\<lambda>t. sph_dec64be b (8 * t)) h"
proof -
  let ?M = "\<lambda>t. sph_dec64be b (8 * t)"
  have h: "take 8 h = h" using assms(2) by simp
  have "fold (\<lambda>j w. w[j := SHA512_SCR w j]) [16..<80]
      (fold (\<lambda>j w. w[j := be_word (take 8 (drop (8 * j) b))]) [0..<16] w) = sha3_schedule w ?M"
    by (simp only: sha3_schedule_def SHA512_SCR_def sha512_functions sph_dec64be_def Let_def)
  then have "sha512_transf_block w h b =
      map2 (+) h (fold (sha512_step (map (W512 ?M) [0..<80])) [0..<80] h)"
    using assms(1) h by (simp only: sha512_transf_block_def Let_def schedule_W512)
  moreover have "map (\<lambda>t. (K512 ! t, map (W512 ?M) [0..<80] ! t)) [0..<80] = map (\<lambda>t. (K512 ! t, W512 ?M t)) [0..<80]"
    by (rule map_cong) (simp_all del: upt_rec_numeral)
  ultimately show ?thesis
    using assms(2) by (simp only: fips512_compress_def sha512_steps_fips)
qed

section \<open>Feeding a context\<close>

definition sha512_256_block :: "u64 list \<Rightarrow> bytes \<Rightarrow> u64 list \<Rightarrow> u64 list" where
  "sha512_256_block w b h = sha512_transf_block w h b"

interpretation blocks512: block_buffer 128 "sha512_256_block w" for w
  by unfold_locales simp

text \<open>The loop of \<open>sha512_transf\<close> is the loop over the full blocks.\<close>

lemma sha512_transf_Suc:
  "sha512_transf w h m (Suc n) = sha512_transf w (sha512_transf_block w h m) (drop 128 m) n"
proof -
  have "[0..<Suc n] = 0 # map Suc [0..<n]" by (simp add: map_Suc_upt upt_conv_Cons del: upt_Suc)
  then show ?thesis by (simp add: sha512_transf_def fold_map comp_def drop_drop add.commute del: upt_Suc)
qed

lemma take_block: "sha512_transf_block w h (take 128 b) = sha512_transf_block w h b"
proof -
  have "take 8 (drop (8 * j) (take 128 b)) = take 8 (drop (8 * j) b)" if "j \<in> set [0..<16]" for j
    using that by (simp add: drop_take min_def)
  then have "fold (\<lambda>j w. w[j := be_word (take 8 (drop (8 * j) (take 128 b)))]) [0..<16] w =
      fold (\<lambda>j w. w[j := be_word (take 8 (drop (8 * j) b))]) [0..<16] w"
    by (intro fold_cong) simp_all
  then show ?thesis by (simp only: sha512_transf_block_def)
qed

lemma md_loop_transf:
  "md_loop 128 (sha512_256_block w) h m = (sha512_transf w h m (length m div 128), drop (128 * (length m div 128)) m)"
proof (induction "128 :: nat" "sha512_256_block w" h m rule: md_loop.induct)
  case (1 h m)
  show ?case
  proof (cases "128 \<le> length m")
    case True
    then have "length m div 128 = Suc (length (drop 128 m) div 128)" by (simp add: le_div_geq)
    with 1 True show ?thesis
      by (simp add: md_loop.simps [of 128 _ h m] sha512_transf_Suc sha512_256_block_def take_block add.commute)
  next
    case False
    then show ?thesis by (simp add: md_loop_stop sha512_transf_def)
  qed
qed

definition sha512_256_fed :: "u64 list \<Rightarrow> u64 list \<Rightarrow> bytes \<Rightarrow> sha512_ctx \<Rightarrow> bool" where
  "sha512_256_fed w iv m ctx \<longleftrightarrow>
     length (ctx_block ctx) = 256 \<and>
     buffered 128 (sha512_256_block w) iv m (ctx_block ctx) (ctx_len ctx) (ctx_h ctx) \<and>
     ctx_tot_len ctx = of_nat (length m - length m mod 128)"

lemma init_fed_512_256:
  "length (ctx_block ctx) = 256 \<Longrightarrow> sha512_256_fed w sha512_256_h0 [] (sha512_256_init ctx)"
  using blocks512.start_buffered [of "ctx_block ctx" w sha512_256_h0]
  by (simp add: sha512_256_fed_def sha512_256_init_def)

lemma update_fed_512_256:
  assumes "sha512_256_fed w iv m ctx" and "length d < 2 ^ 32 - 128"
  shows "sha512_256_fed w iv (m @ d) (sha512_256_update w ctx d)"
proof -
  let ?B = "sha512_256_block w"
  have fed: "length (ctx_block ctx) = 256" "buffered 128 ?B iv m (ctx_block ctx) (ctx_len ctx) (ctx_h ctx)"
    "ctx_tot_len ctx = of_nat (length m - length m mod 128)"
    using assms(1) by (simp_all add: sha512_256_fed_def)
  have cur: "ctx_len ctx = length m mod 128" using fed(2) by (simp add: buffered_def)
  then have small: "ctx_len ctx < 128" "(ctx_len ctx + length d) mod 2 ^ 32 = ctx_len ctx + length d"
    using assms(2) by simp_all
  define rem where "rem = min (length d) (128 - ctx_len ctx)"
  define blk where "blk = copy_at (ctx_block ctx) (ctx_len ctx) (take rem d)"
  have blk: "length blk = 256" using fed(1) small(1) by (simp add: blk_def rem_def)
  show ?thesis
  proof (cases "ctx_len ctx + length d < 128")
    case True
    have "buffered 128 ?B iv (m @ d) blk (ctx_len ctx + length d) (ctx_h ctx)"
    proof (cases "d = []")
      case False
      then show ?thesis
        using blocks512.put_buffered [OF fed(2), of d blk False] True by (simp add: blk_def rem_def)
    qed (use fed(2) in \<open>simp add: blk_def copy_at_def\<close>)
    moreover have "length (m @ d) mod 128 = ctx_len ctx + length d" using calculation by (simp add: buffered_def)
    then have "length (m @ d) - length (m @ d) mod 128 = length m - length m mod 128" using cur by simp
    moreover have "sha512_256_update w ctx d = ctx\<lparr>ctx_block := blk, ctx_len := ctx_len ctx + length d\<rparr>"
      using True small by (simp add: sha512_256_update_def Let_def blk_def rem_def min_def)
    ultimately show ?thesis using blk fed(3) by (simp add: sha512_256_fed_def)
  next
    case False
    then have rem: "rem = 128 - ctx_len ctx" "rem \<le> length d" "0 < rem" "d \<noteq> []" using small(1) by (auto simp: rem_def)
    define h1 where "h1 = sha512_transf w (ctx_h ctx) blk 1"
    define d' where "d' = drop rem d"
    define h2 where "h2 = sha512_transf w h1 d' (length d' div 128)"
    define rest where "rest = drop (128 * (length d' div 128)) d'"
    have "buffered 128 ?B iv (m @ take rem d) blk 0 (?B (take 128 blk) (ctx_h ctx))"
      using blocks512.put_buffered [OF fed(2), of "take rem d" blk True] rem small(1) by (simp add: blk_def)
    then have 1: "buffered 128 ?B iv (m @ take rem d) blk 0 h1"
      by (simp add: h1_def sha512_transf_def sha512_256_block_def take_block)
    have "buffered 128 ?B iv ((m @ take rem d) @ d') (copy_at blk 0 rest) (length rest) h2"
      by (rule blocks512.loop_buffered [OF 1]) (simp add: md_loop_transf h2_def rest_def)
    then have 2: "buffered 128 ?B iv (m @ d) (copy_at blk 0 rest) (length rest) h2" by (simp add: d'_def)
    have rest: "length rest = length d' mod 128" "length rest < 128"
      by (simp_all add: rest_def minus_mult_div_eq_mod)
    have "sha512_256_update w ctx d = ctx\<lparr>ctx_block := copy_at blk 0 rest, ctx_h := h2, ctx_len := length rest,
        ctx_tot_len := ctx_tot_len ctx + of_nat ((length d' div 128 + 1) * 128)\<rparr>"
    proof -
      have eqs: "(if length d < 128 - ctx_len ctx then length d else 128 - ctx_len ctx) = rem"
        "length d - rem = length d'" "take (length d' mod 128) rest = rest"
        using rest(1) by (simp_all add: rem_def d'_def)
      show ?thesis
        unfolding sha512_256_update_def Let_def eqs(1) small(2)
        using False by (simp add: eqs h1_def h2_def rest(1) flip: blk_def d'_def rest_def)
    qed
    moreover have "length m - length m mod 128 + (length d' div 128 + 1) * 128 =
        length (m @ d) - length (m @ d) mod 128"
    proof -
      have "length m = 128 * (length m div 128) + ctx_len ctx" by (simp add: cur)
      moreover have "length d = rem + (128 * (length d' div 128) + length rest)" using rem(2) by (simp add: rest(1) d'_def)
      ultimately have len: "length (m @ d) = 128 * (length m div 128 + length d' div 128 + 1) + length rest"
        using rem(1) small(1) by simp
      then have "length (m @ d) mod 128 = length rest" using rest(2) by (simp only: mod_mult_self4 mod_less)
      moreover have "length m - length m mod 128 = 128 * (length m div 128)" by (simp add: minus_mod_eq_mult_div)
      ultimately show ?thesis using len by simp
    qed
    then have "ctx_tot_len ctx + of_nat ((length d' div 128 + 1) * 128) = of_nat (length (m @ d) - length (m @ d) mod 128)"
      by (simp only: fed(3) flip: of_nat_add)
    ultimately show ?thesis
      using 2 blk rest(2) by (simp add: sha512_256_fed_def)
  qed
qed

section \<open>Digests\<close>

lemma transf_take: "sha512_transf w h (take (128 * n) m) n = sha512_transf w h m n"
proof (induction n arbitrary: h m)
  case 0
  then show ?case by (simp add: sha512_transf_def)
next
  case (Suc n)
  have "sha512_transf_block w h (take (128 * Suc n) m) = sha512_transf_block w h m"
    using take_block [of w h "take (128 * Suc n) m"] take_block [of w h m] by (simp add: min_def)
  moreover have "drop 128 (take (128 * Suc n) m) = take (128 * n) (drop 128 m)" by (simp add: drop_take)
  ultimately show ?case using Suc by (simp add: sha512_transf_Suc)
qed

lemma length_transf: "length w = 80 \<Longrightarrow> length h = 8 \<Longrightarrow> length (sha512_transf w h m n) = 8"
  by (induction n arbitrary: h m) (simp_all add: sha512_transf_def transf_block_fips)

lemma be_of_nat_16:
  assumes "x < 2 ^ 32"
  shows "be_of_nat 16 x = replicate 12 0 @ be_bytes 4 (of_nat x :: u32)"
proof -
  have "x div 256 ^ 4 = 0" using assms by simp
  then have "be_of_nat 16 x = be_of_nat 12 0 @ be_of_nat 4 x" using be_of_nat_add [of 12 4 x] by simp
  moreover have "be_of_nat 12 0 = replicate 12 0" by (simp add: be_of_nat_def map_replicate_const)
  moreover have "be_bytes 4 (of_nat x :: u32) = be_of_nat 4 x" by (rule be_bytes_of_nat) simp
  ultimately show ?thesis by simp
qed

text \<open>The last block or blocks: how many, and what follows the message in them.\<close>

definition final_nb :: "nat \<Rightarrow> nat" where
  "final_nb cur = 1 + (if 111 < cur then 1 else 0)"

definition final_tail :: "nat \<Rightarrow> bytes \<Rightarrow> bytes" where
  "final_tail cur lenb = 0x80 # replicate (128 * final_nb cur - 5 - cur) 0 @ lenb"

lemma final_nb_bounds: "cur < 128 \<Longrightarrow> cur + 5 \<le> 128 * final_nb cur" "128 * final_nb cur \<le> 256"
  by (auto simp: final_nb_def)

lemma pad_tail:
  assumes "8 * length m < 2 ^ 32"
  shows "fips_pad 128 16 m 0 0 = m @ final_tail (length m mod 128) (be_bytes 4 (of_nat (8 * length m) :: u32))"
proof -
  let ?cur = "length m mod 128"
  have "128 * final_nb ?cur - 5 - ?cur = (2 * 128 - 16 - 1 - ?cur) mod 128 + 12"
  proof (cases "111 < ?cur")
    case True
    then have "239 - ?cur < 128" by simp
    with True show ?thesis using mod_less_divisor [of 128 "length m"] by (simp add: final_nb_def)
  next
    case False
    then have "239 - ?cur = 111 - ?cur + 128" by simp
    then have "(239 - ?cur) mod 128 = 111 - ?cur" by (simp only: mod_add_self2) simp
    with False show ?thesis by (simp add: final_nb_def)
  qed
  moreover have "fips_mark 0 0 = 0x80" by (simp add: fips_mark_def)
  ultimately show ?thesis
    using be_of_nat_16 [OF assms] by (simp add: fips_pad_def final_tail_def replicate_add)
qed

lemma copy_at_append:
  "length xs = off \<Longrightarrow> length bs = length zs \<Longrightarrow> copy_at (xs @ zs @ ys) off bs = xs @ bs @ ys"
  by (simp add: copy_at_def)

lemma final_block_bytes:
  assumes "length b = 256" and "cur < 128" and "length lenb = 4" and nb: "nb = final_nb cur"
  shows "take (128 * nb) (copy_at ((copy_at b cur (replicate (128 * nb - cur) 0))[cur := 0x80]) (128 * nb - 4) lenb) =
    take cur b @ final_tail cur lenb"
proof -
  let ?rest = "take cur b" and ?k = "128 * nb - 5 - cur"
  let ?pre = "?rest @ 0x80 # replicate ?k 0"
  have bounds: "cur + 5 \<le> 128 * nb" "128 * nb \<le> 256" using final_nb_bounds assms(2) nb by simp_all
  have rest: "length ?rest = cur" using assms(1,2) by simp
  have "128 * nb - cur = Suc (?k + 4)" using bounds(1) by simp
  then have "replicate (128 * nb - cur) (0 :: u8) = 0 # replicate ?k 0 @ replicate 4 0"
    by (simp only: replicate_Suc replicate_add)
  moreover have "length (replicate (128 * nb - cur) (0 :: u8)) = 128 * nb - cur" by simp
  ultimately have "copy_at b cur (replicate (128 * nb - cur) 0) = ?rest @ 0 # (replicate ?k 0 @ replicate 4 0 @ drop (128 * nb) b)"
    using bounds(1) by (simp only: copy_at_def) simp
  then have "(copy_at b cur (replicate (128 * nb - cur) 0))[cur := 0x80] = ?pre @ replicate 4 0 @ drop (128 * nb) b"
    using list_update_length [of ?rest 0 "replicate ?k 0 @ replicate 4 0 @ drop (128 * nb) b" "0x80"] rest by simp
  moreover have "length ?pre = 128 * nb - 4" using rest bounds(1) by simp
  ultimately have "copy_at ((copy_at b cur (replicate (128 * nb - cur) 0))[cur := 0x80]) (128 * nb - 4) lenb =
      (?pre @ lenb) @ drop (128 * nb) b"
    using copy_at_append [of ?pre "128 * nb - 4" lenb "replicate 4 0" "drop (128 * nb) b"] assms(3)
    by (simp only: length_replicate append_assoc)
  moreover have "length (?pre @ lenb) = 128 * nb" using rest bounds(1) assms(3) by simp
  moreover have "?pre @ lenb = ?rest @ final_tail cur lenb" by (simp add: final_tail_def nb)
  ultimately show ?thesis by (metis append_eq_conv_conj)
qed

lemma final_blocks:
  assumes "sha512_256_fed w iv m ctx" and "8 * length m < 2 ^ 32"
  shows "ctx_h (fst (sha512_256_final w ctx)) = md_value 128 (sha512_256_block w) iv (fips_pad 128 16 m 0 0)"
proof -
  let ?B = "sha512_256_block w"
  define cur where "cur = length m mod 128"
  define nb where "nb = final_nb cur"
  define lenb where "lenb = be_bytes 4 (of_nat (8 * length m) :: u32)"
  define tail where "tail = final_tail cur lenb"
  define block where "block = copy_at ((copy_at (ctx_block ctx) cur (replicate (128 * nb - cur) 0))[cur := 0x80]) (128 * nb - 4) lenb"
  have fed: "length (ctx_block ctx) = 256" "ctx_len ctx = cur" "ctx_tot_len ctx = of_nat (length m - cur)"
    "take cur (ctx_block ctx) = snd (md_loop 128 ?B iv m)" "ctx_h ctx = md_value 128 ?B iv m" "cur < 128"
    using assms(1) by (auto simp: sha512_256_fed_def buffered_def cur_def)
  have block: "take (128 * nb) block = take cur (ctx_block ctx) @ tail"
    unfolding block_def tail_def by (rule final_block_bytes) (simp_all add: fed lenb_def nb_def)
  moreover have "length (take cur (ctx_block ctx) @ tail) = 128 * nb"
    using final_nb_bounds [of cur] fed(1,6) by (simp add: tail_def final_tail_def lenb_def nb_def)
  moreover have "md_loop 128 ?B iv (m @ tail) = md_loop 128 ?B (ctx_h ctx) (take cur (ctx_block ctx) @ tail)"
    using md_loop_append [of 128 ?B iv m tail] by (simp add: fed(4,5))
  ultimately have "md_value 128 ?B iv (m @ tail) = sha512_transf w (ctx_h ctx) block nb"
    using transf_take [of w "ctx_h ctx" nb block] by (simp add: md_loop_transf)
  moreover have "fips_pad 128 16 m 0 0 = m @ tail"
    using pad_tail [OF assms(2)] by (simp add: tail_def cur_def lenb_def)
  moreover have "ctx_h (fst (sha512_256_final w ctx)) = sha512_transf w (ctx_h ctx) block nb"
  proof -
    have "push_bit 3 (of_nat (length m - cur) + of_nat cur :: u32) = of_nat (8 * length m)"
      by (simp add: push_bit_eq_mult mult.commute cur_def flip: of_nat_add)
    then show ?thesis
      unfolding sha512_256_final_def Let_def fed(2,3) using fed(6)
      by (simp add: block_def lenb_def nb_def final_nb_def)
  qed
  ultimately show ?thesis by simp
qed

text \<open>The digest of a context that has been fed \<open>m\<close>.\<close>

lemma final_digest:
  assumes "sha512_256_fed w iv m ctx" and "length m < 2 ^ 29" and "length w = 80" and "length iv = 8"
  shows "snd (sha512_256_final w ctx) = take 32 (fips_sha512 iv m 0 0)"
proof -
  let ?f = "\<lambda>b. fips512_compress (\<lambda>t. sph_dec64be b (8 * t))"
  have pad: "length (fips_pad 128 16 m 0 0) mod 128 = 0"
    using md512.length_padded [of m 0 0] padded_512 [of 0 m 0] assms(2) by simp
  have h: "ctx_h (fst (sha512_256_final w ctx)) = fold (sha512_256_block w) (chunks 128 (fips_pad 128 16 m 0 0)) iv"
    using final_blocks [OF assms(1)] assms(2) pad by (simp add: md_value_chunks)
  have "fold (sha512_256_block w) bs iv = fold ?f bs iv \<and> length (fold ?f bs iv) = 8" for bs
    using assms(4)
    by (induction bs arbitrary: iv) (simp_all add: sha512_256_block_def transf_block_fips assms(3))
  with h have h: "ctx_h (fst (sha512_256_final w ctx)) = fold ?f (chunks 128 (fips_pad 128 16 m 0 0)) iv"
    "length (ctx_h (fst (sha512_256_final w ctx))) = 8" by simp_all
  have "snd (sha512_256_final w ctx) = concat (map (\<lambda>i. be_bytes 8 (ctx_h (fst (sha512_256_final w ctx)) ! i)) [0..<4])"
    by (simp add: sha512_256_final_def Let_def)
  also have "\<dots> = concat (map (be_bytes 8) (take 4 (ctx_h (fst (sha512_256_final w ctx)))))"
    using h(2) by (simp only: take_map_nth [of 4]) (simp add: comp_def)
  also have "\<dots> = take 32 (concat (map (be_bytes 8) (ctx_h (fst (sha512_256_final w ctx)))))"
    using take_concat_words [of 4 "ctx_h (fst (sha512_256_final w ctx))" 8] h(2) by simp
  finally show ?thesis by (simp only: h fips_sha512_def)
qed

lemma updates_fed_512_256:
  assumes "sha512_256_fed w iv m ctx" and "\<forall>p \<in> set pieces. length p < 2 ^ 32 - 128"
  shows "sha512_256_fed w iv (m @ concat pieces) (fold (\<lambda>p ctx. sha512_256_update w ctx p) pieces ctx)"
  using assms
proof (induction pieces arbitrary: m ctx)
  case (Cons p pieces)
  then show ?case using Cons.IH [OF update_fed_512_256 [OF Cons.prems(1), of p]] by simp
qed simp

end
