(* ===== verification/Dcrypt.thy ===== *)
theory Dcrypt
  imports Sha2
begin

unbundle bit_operations_syntax

text \<open>
  dcrypt: \<open>src/src/Native/libmultihash/dcrypt.c\<close>. A SHA-256 of its own, which pads in the buffer it is given
  and writes the digest as 64 bytes of four bits, and a loop that walks over such a digest and hashes
  until a position is hit. Buffers are lists of the size that is allocated; a write behind the end of a
  buffer is \<open>None\<close>. \<open>mem\<close> stands for the allocator: \<open>mem n\<close> are the bytes that may be written to in a
  fresh block of \<open>malloc(n)\<close>, of which the C standard only promises \<open>n\<close>. Lengths and positions are the 32-bit
  numbers of the code, so the block count, the positions of the padding and the size of \<open>finalToHash\<close> wrap
  where the code lets them wrap; a read outside the buffer is \<open>None\<close> as well.

  The lemmas compare the padding with the one of the standard, show that the walk stays inside its
  tables and ends, and say what the hash is when the writes behind the blocks go well.
\<close>

section \<open>SHA-256\<close>

definition dc_Ch :: "u32 \<Rightarrow> u32 \<Rightarrow> u32 \<Rightarrow> u32" where
  "dc_Ch x y z = (x AND (y XOR z)) XOR z"

definition dc_Maj :: "u32 \<Rightarrow> u32 \<Rightarrow> u32 \<Rightarrow> u32" where
  "dc_Maj x y z = (x AND (y OR z)) OR (y AND z)"

definition dc_S0 :: "u32 \<Rightarrow> u32" where
  "dc_S0 x = ror32 x 2 XOR ror32 x 13 XOR ror32 x 22"

definition dc_S1 :: "u32 \<Rightarrow> u32" where
  "dc_S1 x = ror32 x 6 XOR ror32 x 11 XOR ror32 x 25"

definition dc_s0 :: "u32 \<Rightarrow> u32" where
  "dc_s0 x = ror32 x 7 XOR ror32 x 18 XOR drop_bit 3 x"

definition dc_s1 :: "u32 \<Rightarrow> u32" where
  "dc_s1 x = ror32 x 17 XOR ror32 x 19 XOR drop_bit 10 x"

definition hexmap :: bytes where
  "hexmap = [0x30, 0x31, 0x32, 0x33, 0x34, 0x35, 0x36, 0x37, 0x38, 0x39, 0x61, 0x62, 0x63, 0x64, 0x65, 0x66]"

definition dc_K :: "u32 list" where
  "dc_K =
     [0x428A2F98, 0x71374491, 0xB5C0FBCF, 0xE9B5DBA5, 0x3956C25B, 0x59F111F1, 0x923F82A4, 0xAB1C5ED5,
      0xD807AA98, 0x12835B01, 0x243185BE, 0x550C7DC3, 0x72BE5D74, 0x80DEB1FE, 0x9BDC06A7, 0xC19BF174,
      0xE49B69C1, 0xEFBE4786, 0x0FC19DC6, 0x240CA1CC, 0x2DE92C6F, 0x4A7484AA, 0x5CB0A9DC, 0x76F988DA,
      0x983E5152, 0xA831C66D, 0xB00327C8, 0xBF597FC7, 0xC6E00BF3, 0xD5A79147, 0x06CA6351, 0x14292967,
      0x27B70A85, 0x2E1B2138, 0x4D2C6DFC, 0x53380D13, 0x650A7354, 0x766A0ABB, 0x81C2C92E, 0x92722C85,
      0xA2BFE8A1, 0xA81A664B, 0xC24B8B70, 0xC76C51A3, 0xD192E819, 0xD6990624, 0xF40E3585, 0x106AA070,
      0x19A4C116, 0x1E376C08, 0x2748774C, 0x34B0BCB5, 0x391C0CB3, 0x4ED8AA4A, 0x5B9CCA4F, 0x682E6FF3,
      0x748F82EE, 0x78A5636F, 0x84C87814, 0x8CC70208, 0x90BEFFFA, 0xA4506CEB, 0xBEF9A3F7, 0xC67178F2]"

definition dc_H :: "u32 list" where
  "dc_H = [0x6A09E667, 0xBB67AE85, 0x3C6EF372, 0xA54FF53A, 0x510E527F, 0x9B05688C, 0x1F83D9AB, 0x5BE0CD19]"

text \<open>\<open>N\<close>: the number of blocks.\<close>

definition dc_N :: "u32 \<Rightarrow> u32" where
  "dc_N len = (let l = (len + 1) div 4 + 2 in (l + 15) div 16)"

text \<open>The end mark and the zeros, written to \<open>instr[len] \<dots> instr[N * 64 - 1]\<close>.\<close>

definition dc_pad :: "bytes \<Rightarrow> u32 \<Rightarrow> bytes option" where
  "dc_pad instr len =
     (if unat len < length instr \<and> (\<forall>t \<in> set [unat (len + 1)..<unat (dc_N len * 64)]. t < length instr)
      then Some (fold (\<lambda>t instr. instr[t := 0]) [unat (len + 1)..<unat (dc_N len * 64)] (instr[unat len := 128]))
      else None)"

text \<open>The word at \<open>p\<close>; \<open>dc_reads\<close> says that all the bytes the loop over the blocks reads are in the buffer.\<close>

definition dc_word :: "bytes \<Rightarrow> u32 \<Rightarrow> u32" where
  "dc_word instr p =
     push_bit 24 (ucast (instr ! unat (p + 0))) + push_bit 16 (ucast (instr ! unat (p + 1)))
     + push_bit 8 (ucast (instr ! unat (p + 2))) + ucast (instr ! unat (p + 3))"

definition dc_reads :: "bytes \<Rightarrow> u32 \<Rightarrow> bool" where
  "dc_reads instr len \<longleftrightarrow>
     (\<forall>curBlock \<in> set [0..<unat (dc_N len)]. \<forall>t \<in> set [0..<16]. \<forall>k \<in> set [0..<4].
        unat (of_nat curBlock * 64 + of_nat t * 4 + of_nat k :: u32) < length instr)"

text \<open>The array \<open>W\<close> of one pass of the loop over the blocks.\<close>

definition dc_W :: "bytes \<Rightarrow> u32 \<Rightarrow> nat \<Rightarrow> u32 list \<Rightarrow> u32 list" where
  "dc_W instr len curBlock W =
     (let W = fold (\<lambda>t W. W[t := dc_word instr (of_nat curBlock * 64 + of_nat t * 4)]) [0..<16] W;
          W = (if of_nat curBlock = dc_N len - 1 then W[15 := len * 8] else W)
      in fold (\<lambda>t W. W[t := dc_s1 (W ! (t - 2)) + W ! (t - 7) + dc_s0 (W ! (t - 15)) + W ! (t - 16)]) [16..<64] W)"

definition dc_step :: "u32 list \<Rightarrow> nat \<Rightarrow> u32 list \<Rightarrow> u32 list" where
  "dc_step W t r =
     (let a = r ! 0; b = r ! 1; c = r ! 2; d = r ! 3; e = r ! 4; f = r ! 5; g = r ! 6; h = r ! 7;
          T1 = h + dc_S1 e + dc_Ch e f g + dc_K ! t + W ! t;
          T2 = dc_S0 a + dc_Maj a b c;
          h = g; g = f; f = e; e = d + T1; d = c; c = b; b = a; a = T1 + T2
      in [a, b, c, d, e, f, g, h])"

definition dc_block :: "bytes \<Rightarrow> u32 \<Rightarrow> nat \<Rightarrow> u32 list \<times> u32 list \<Rightarrow> u32 list \<times> u32 list" where
  "dc_block instr len curBlock s =
     (let H = fst s; W = dc_W instr len curBlock (snd s);
          r = fold (dc_step W) [0..<64] H
      in (map2 (+) H r, W))"

text \<open>The 64 stores to \<open>hash\<close>.\<close>

definition dc_out :: "u32 list \<Rightarrow> bytes" where
  "dc_out H = concat (map (\<lambda>t. let i = H ! t in
     map (\<lambda>k. ucast (drop_bit (28 - 4 * k) i AND 0xF)) [0..<8]) [0..<8])"

text \<open>The buffer after the call and what is written to \<open>hash\<close>; it is written after all of \<open>instr\<close> is read.\<close>

definition dc_sha256 :: "bytes \<Rightarrow> u32 \<Rightarrow> (bytes \<times> bytes) option" where
  "dc_sha256 instr len =
     (case dc_pad instr len of
        None \<Rightarrow> None
      | Some instr \<Rightarrow>
          if dc_reads instr len then
            let (H, W) = fold (dc_block instr len) [0..<unat (dc_N len)] (dc_H, replicate 64 0)
            in Some (instr, dc_out H)
          else None)"

section \<open>The walk\<close>

text \<open>\<open>hexToAsc(tmp_list, len)\<close>; a value of 16 or more is a read behind \<open>hexmap\<close>.\<close>

definition hexToAsc :: "bytes \<Rightarrow> nat \<Rightarrow> bytes option" where
  "hexToAsc tmp_list len =
     (if \<forall>i \<in> set [0..<len]. i < length tmp_list \<and> unat (tmp_list ! i) < 16
      then Some (fold (\<lambda>i l. l[i := hexmap ! unat (l ! i)]) [0..<len] tmp_list) else None)"

text \<open>A hash in place: the digest overwrites the start of the buffer.\<close>

definition dc_sha256_in_place :: "bytes \<Rightarrow> u32 \<Rightarrow> bytes option" where
  "dc_sha256_in_place buf len =
     (case dc_sha256 buf len of
        None \<Rightarrow> None
      | Some (buf, digest) \<Rightarrow> if length digest \<le> length buf then Some (copy_at buf 0 digest) else None)"

text \<open>
  The body of the loop of \<open>mix_hashed_num\<close> up to the copy to \<open>ret_list\<close>: the next position, with new digits
  when the end is passed, and the hash of \<open>tmp_list\<close> with the character at that position.
\<close>

definition mix_next :: "bytes \<Rightarrow> nat \<Rightarrow> (bytes \<times> nat) option" where
  "mix_next hashedData index =
     (if length hashedData \<le> index then None
      else
        let index = index + unat (hashedData ! index) + 1
        in if index \<ge> 64
           then map_option (\<lambda>d. (d, index mod 64))
                  (Option.bind (hexToAsc hashedData 64) (\<lambda>d. dc_sha256_in_place d 64))
           else Some (hashedData, index))"

definition mix_rehash :: "bytes \<Rightarrow> bytes \<Rightarrow> nat \<Rightarrow> (bytes \<times> bool) option" where
  "mix_rehash hashedData tmp_list index =
     (if length hashedData \<le> index \<or> 16 \<le> unat (hashedData ! index) \<or> length tmp_list \<le> 64 then None
      else
        let tmp_val = hexmap ! unat (hashedData ! index)
        in case Option.bind (dc_sha256_in_place (tmp_list[64 := tmp_val]) 65) (\<lambda>l. hexToAsc l 64) of
             None \<Rightarrow> None
           | Some tmp_list \<Rightarrow> Some (tmp_list, index = 63 \<and> tmp_val = tmp_list ! 63))"

definition mix_step :: "bytes \<Rightarrow> bytes \<Rightarrow> nat \<Rightarrow> (bytes \<times> bytes \<times> nat \<times> bool) option" where
  "mix_step hashedData tmp_list index =
     (case mix_next hashedData index of
        None \<Rightarrow> None
      | Some (hashedData, index) \<Rightarrow>
          (case mix_rehash hashedData tmp_list index of
             None \<Rightarrow> None
           | Some (tmp_list, hashed_end) \<Rightarrow> Some (hashedData, tmp_list, index, hashed_end)))"

text \<open>The loop; the result is the returned flag with the bytes and the length of \<open>ret_list\<close>.\<close>

function dc_mix_loop :: "bytes \<Rightarrow> bytes \<Rightarrow> nat \<Rightarrow> bytes \<Rightarrow> nat \<Rightarrow> (bool \<times> bytes \<times> nat) option" where
  "dc_mix_loop hashedData tmp_list index ret_list ret_list_len =
     (if 1048576 < ret_list_len then None
      else
        case mix_step hashedData tmp_list index of
          None \<Rightarrow> None
        | Some (hashedData, tmp_list, index, hashed_end) \<Rightarrow>
            let ret_list = ret_list @ take 64 tmp_list; ret_list_len = ret_list_len + 64
            in if ret_list_len > 1048576 then Some (False, ret_list, ret_list_len)
               else if hashed_end then Some (True, ret_list, ret_list_len)
               else dc_mix_loop hashedData tmp_list index ret_list ret_list_len)"
  by pat_completeness auto
termination
  by (relation "measure (\<lambda>(h, t, i, r, n). 1048577 - n)") auto

declare dc_mix_loop.simps [simp del]

text \<open>\<open>tmp_list\<close> is the fresh block of \<open>malloc(128)\<close>.\<close>

definition mix_hashed_num :: "bytes \<Rightarrow> bytes \<Rightarrow> (bool \<times> bytes \<times> nat) option" where
  "mix_hashed_num tmp_list hashedData =
     dc_mix_loop hashedData (fold (\<lambda>i l. l[i := 255]) [0..<64] tmp_list) 0 [] 0"

section \<open>The hash\<close>

text \<open>
  The blocks come from \<open>malloc\<close>: \<open>mem n\<close> is the content of a fresh block of \<open>malloc(n)\<close>, all the bytes that
  may be written to. \<open>len\<close> is the length of \<open>input\<close>, a 32-bit number, and so are the sums with it: a block
  \<open>finalToHash\<close> that is too small for the two copies, because its size has wrapped, is \<open>None\<close>. \<open>Some None\<close> is
  the run that prints a message and leaves \<open>hash\<close> as it is.
\<close>

definition dcrypt_hash :: "(nat \<Rightarrow> bytes) \<Rightarrow> bytes \<Rightarrow> bytes option option" where
  "dcrypt_hash mem input =
     (let len = of_nat (length input) :: u32;
          instr = copy_at (mem (unat len)) 0 input
      in case dc_sha256 instr len of
           None \<Rightarrow> None
         | Some (instr, digest) \<Rightarrow>
             (case mix_hashed_num (mem 128) (copy_at (mem 128) 0 digest) of
                None \<Rightarrow> None
              | Some (ok, mixedHash, lenMixedHash) \<Rightarrow>
                  if ok then
                    let finalToHash = mem (unat (of_nat lenMixedHash + len + 64))
                    in if length finalToHash < lenMixedHash + unat len then None
                       else
                         let finalToHash = copy_at finalToHash 0 mixedHash;
                             finalToHash = copy_at finalToHash lenMixedHash (take (unat len) instr)
                         in map_option (\<lambda>(b, digest). Some digest)
                              (dc_sha256 finalToHash (len + of_nat lenMixedHash))
                  else Some None))"

section \<open>The padding\<close>

text \<open>The number of blocks without wrap-around, and the lengths for which no position wraps.\<close>

definition dc_blocks :: "nat \<Rightarrow> nat" where
  "dc_blocks len = ((len + 1) div 4 + 17) div 16"

definition dc_small :: "nat \<Rightarrow> bool" where
  "dc_small len \<longleftrightarrow> len + 69 < 2 ^ 32"

lemma dc_blocks_bounds: "len + 5 \<le> 64 * dc_blocks len" "64 * dc_blocks len \<le> len + 69"
  unfolding dc_blocks_def Let_def by linarith+

lemma dc_blocks_add: "dc_blocks (64 * k + len) = k + dc_blocks len"
  unfolding dc_blocks_def Let_def by linarith

lemma dc_blocks_mod: "dc_blocks len = len div 64 + (if len mod 64 < 59 then 1 else 2)"
proof -
  have "len mod 64 < 64" by simp
  then have "dc_blocks (len mod 64) = (if len mod 64 < 59 then 1 else 2)"
    unfolding dc_blocks_def Let_def by (simp split: if_splits) linarith
  moreover have "dc_blocks len = len div 64 + dc_blocks (len mod 64)" using dc_blocks_add [of "len div 64" "len mod 64"] by simp
  ultimately show ?thesis by simp
qed

lemma dc_blocks_times: "64 * dc_blocks len = len - len mod 64 + (if len mod 64 < 59 then 64 else 128)"
  by (simp add: dc_blocks_mod minus_mod_eq_mult_div)

definition dc_padded :: "bytes \<Rightarrow> bytes" where
  "dc_padded m = m @ 128 # replicate (64 * dc_blocks (length m) - length m - 5) 0 @ be_bytes 4 (of_nat (8 * length m) :: u32)"

lemma length_dc_padded: "length (dc_padded m) = 64 * dc_blocks (length m)"
  using dc_blocks_bounds [of "length m"] by (simp add: dc_padded_def)

lemma unat_of_small: "dc_small len \<Longrightarrow> unat (of_nat len :: u32) = len"
  by (rule unat_of_nat_small) (simp add: dc_small_def)

lemma unat_dc_N:
  assumes "dc_small len"
  shows "unat (dc_N (of_nat len)) = dc_blocks len" "unat (dc_N (of_nat len) * 64) = 64 * dc_blocks len"
    "unat (of_nat len + 1 :: u32) = len + 1"
proof -
  have "unat (of_nat (len + 1) :: u32) = len + 1" by (rule unat_of_nat_small) (use assms in \<open>simp add: dc_small_def\<close>)
  then show one: "unat (of_nat len + 1 :: u32) = len + 1" by (simp only: of_nat_add of_nat_1)
  have "unat ((of_nat len + 1 :: u32) div 4) = (len + 1) div 4" by (simp only: unat_div one unat_numeral) simp
  then have l: "(of_nat len + 1 :: u32) div 4 = of_nat ((len + 1) div 4)" by (metis of_nat_unat ucast_id)
  have "unat (of_nat ((len + 1) div 4 + 2 + 15) :: u32) = (len + 1) div 4 + 17"
    by (subst unat_of_nat_small) (use assms in \<open>simp_all add: dc_small_def\<close>)
  then have "unat (of_nat ((len + 1) div 4) + 2 + 15 :: u32) = (len + 1) div 4 + 17"
    by (simp only: of_nat_add of_nat_numeral)
  then show N: "unat (dc_N (of_nat len)) = dc_blocks len"
    by (simp only: dc_N_def dc_blocks_def Let_def l unat_div unat_numeral) simp
  have "64 * dc_blocks len < 2 ^ 32" using assms dc_blocks_bounds(2) [of len] by (simp add: dc_small_def)
  then have "unat (of_nat (dc_blocks len * 64) :: u32) = 64 * dc_blocks len"
    by (subst unat_of_nat_small) (simp_all add: mult.commute)
  moreover have "dc_N (of_nat len) = of_nat (dc_blocks len)" using N by (metis of_nat_unat ucast_id)
  ultimately show "unat (dc_N (of_nat len) * 64) = 64 * dc_blocks len" by simp
qed

lemma dc_pad_eq:
  assumes "dc_small len" and "64 * dc_blocks len \<le> length instr"
  shows "dc_pad instr (of_nat len) =
    Some (take len instr @ 128 # replicate (64 * dc_blocks len - len - 1) 0 @ drop (64 * dc_blocks len) instr)"
proof -
  have "len < 64 * dc_blocks len" using dc_blocks_bounds(1) [of len] by simp
  then show ?thesis
    using assms
    by (simp add: dc_pad_def unat_dc_N unat_of_small fold_store take_Suc_conv_app_nth map_replicate_const)
qed

lemma dc_pad_None:
  assumes "dc_small len" and "length instr < 64 * dc_blocks len"
  shows "dc_pad instr (of_nat len) = None"
proof (cases "len < length instr")
  case True
  then have "length instr \<in> set [len + 1..<64 * dc_blocks len]" using assms(2) by simp
  then have "\<not> (\<forall>t \<in> set [len + 1..<64 * dc_blocks len]. t < length instr)" by blast
  then show ?thesis using assms(1) by (simp only: dc_pad_def unat_dc_N unat_of_small) simp
qed (use assms(1) in \<open>simp add: dc_pad_def unat_of_small\<close>)

text \<open>Only for a length of 56, 57 or 58 above a multiple of 64 is this not the padding of the standard.\<close>

lemma dc_padded_fips:
  assumes "length m mod 64 \<notin> {56, 57, 58}" and "8 * length m < 2 ^ 32"
  shows "dc_padded m = fips_pad 64 8 m 0 0"
proof -
  have "be_of_nat 8 (8 * length m) = be_of_nat 4 0 @ be_of_nat 4 (8 * length m)"
    using be_of_nat_add [of 4 4 "8 * length m"] assms(2) by simp
  moreover have "be_of_nat 4 0 = replicate 4 0" by (simp add: be_of_nat_def map_replicate_const)
  moreover have "be_bytes 4 (of_nat (8 * length m) :: u32) = be_of_nat 4 (8 * length m)" by (rule be_bytes_of_nat) simp
  moreover have "64 * dc_blocks (length m) - length m - 5 = (119 - length m mod 64) mod 64 + 4"
  proof -
    have "64 * dc_blocks (length m) = length m + (119 - length m mod 64) mod 64 + 9"
      using assms(1) dc_blocks_times [of "length m"] mod_less_eq_dividend [of "length m" 64]
      by (auto simp: fips_zeros add.commute split: if_splits)
    then show ?thesis by simp
  qed
  moreover have "fips_mark 0 0 = 128" by (simp add: fips_mark_def)
  ultimately show ?thesis by (simp add: dc_padded_def fips_pad_def replicate_add)
qed

lemma dc_padded_short:
  assumes "length m mod 64 \<in> {56, 57, 58}"
  shows "length (dc_padded m) + 64 = length (fips_pad 64 8 m 0 0)"
proof -
  have "64 * dc_blocks (length m) + 64 = length m + (119 - length m mod 64) mod 64 + 9"
    using assms dc_blocks_times [of "length m"] mod_less_eq_dividend [of "length m" 64]
    by (auto simp: fips_zeros split: if_splits)
  then show ?thesis
    by (simp add: length_dc_padded) (simp add: fips_pad_def be_of_nat_def)
qed

section \<open>The compression\<close>

lemma dc_macros: "dc_Ch = fips_Ch" "dc_Maj = fips_Maj" "dc_S0 = BSG2_0" "dc_S1 = BSG2_1" "dc_s0 = SSG2_0" "dc_s1 = SSG2_1"
  by (intro ext; rule bit_word_eqI;
      auto simp: dc_Ch_def fips_Ch_def dc_Maj_def fips_Maj_def dc_S0_def BSG2_0_def dc_S1_def BSG2_1_def
        dc_s0_def SSG2_0_def dc_s1_def SSG2_1_def bit_simps)+

lemma dc_tables: "dc_K = sha2_K" "dc_H = H256"
  by (simp_all add: dc_K_def sha2_K_def dc_H_def H256_def)

text \<open>The words of a block: the bytes of the buffer, and the length in the last word of the last block.\<close>

definition dc_M :: "bytes \<Rightarrow> nat \<Rightarrow> nat \<Rightarrow> nat \<Rightarrow> u32" where
  "dc_M instr len b t =
     (if t = 15 \<and> b = dc_blocks len - 1 then of_nat len * 8 else be_word (take 4 (drop (64 * b + 4 * t) instr)))"

text \<open>The positions of the words do not wrap.\<close>

lemma unat_dc_pos:
  assumes "dc_small len" and "b < dc_blocks len" and "t < 16" and "k < 4"
  shows "unat (of_nat b * 64 + of_nat t * 4 + of_nat k :: u32) = 64 * b + 4 * t + k"
    and "64 * b + 4 * t + k < 64 * dc_blocks len"
proof -
  show lt: "64 * b + 4 * t + k < 64 * dc_blocks len" using assms(2-4) by linarith
  moreover have "64 * dc_blocks len < 2 ^ 32" using assms(1) dc_blocks_bounds(2) [of len] by (simp add: dc_small_def)
  ultimately have "unat (of_nat (64 * b + 4 * t + k) :: u32) = 64 * b + 4 * t + k" by (intro unat_of_nat_small) simp
  then show "unat (of_nat b * 64 + of_nat t * 4 + of_nat k :: u32) = 64 * b + 4 * t + k" by (simp add: mult.commute)
qed

lemma dc_reads_small:
  assumes "dc_small len" and "64 * dc_blocks len \<le> length instr"
  shows "dc_reads instr (of_nat len)"
  using assms unat_dc_pos [OF assms(1)] by (fastforce simp: dc_reads_def unat_dc_N)

lemma dc_word_be:
  assumes "dc_small len" and "64 * dc_blocks len \<le> length instr" and "b < dc_blocks len" and "t < 16"
  shows "dc_word instr (of_nat b * 64 + of_nat t * 4) = be_word (take 4 (drop (64 * b + 4 * t) instr))"
proof -
  let ?p = "64 * b + 4 * t"
  have "?p + 4 \<le> length instr" using assms by linarith
  then have "take 4 (drop ?p instr) = [instr ! (?p + 0), instr ! (?p + 1), instr ! (?p + 2), instr ! (?p + 3)]"
    by (auto simp: list_eq_iff_nth_eq less_Suc_eq_0_disj numeral_eq_Suc)
  moreover note pos = unat_dc_pos(1) [OF assms(1,3,4)]
  have "unat (of_nat b * 64 + of_nat t * 4 + 0 :: u32) = ?p + 0" "unat (of_nat b * 64 + of_nat t * 4 + 1 :: u32) = ?p + 1"
    "unat (of_nat b * 64 + of_nat t * 4 + 2 :: u32) = ?p + 2" "unat (of_nat b * 64 + of_nat t * 4 + 3 :: u32) = ?p + 3"
    using pos [of 0] pos [of 1] pos [of 2] pos [of 3] by (simp_all del: unat_add_lem)
  ultimately show ?thesis by (simp only: dc_word_def be_word_sum)
qed

lemma dc_W_eq:
  assumes "dc_small len" and "64 * dc_blocks len \<le> length instr" and "b < dc_blocks len" and "length W = 64"
  shows "dc_W instr (of_nat len) b W = map (W256 (dc_M instr len b)) [0..<64]"
proof -
  let ?M = "dc_M instr len b"
  let ?V = "fold (\<lambda>t W. W[t := dc_word instr (of_nat b * 64 + of_nat t * 4)]) [0..<16] W"
  have last: "of_nat b = dc_N (of_nat len) - 1 \<longleftrightarrow> b = dc_blocks len - 1"
  proof -
    have "dc_blocks len < 2 ^ 32" using assms(1) dc_blocks_bounds(2) [of len] by (simp add: dc_small_def)
    then have "unat (of_nat (b + 1) :: u32) = b + 1" using assms(3) by (intro unat_of_nat_small) simp
    then have "unat (of_nat b + 1 :: u32) = b + 1" by (simp only: of_nat_add of_nat_1)
    then have "of_nat b + 1 = dc_N (of_nat len) \<longleftrightarrow> b + 1 = dc_blocks len"
      using unat_dc_N(1) [OF assms(1)] by (metis word_unat_eq_iff)
    then show ?thesis using assms(3) by (auto simp: eq_diff_eq)
  qed
  have V: "?V = map (\<lambda>t. dc_word instr (of_nat b * 64 + of_nat t * 4)) [0..<16] @ drop 16 W"
    by (subst fold_store) (simp_all add: assms(4))
  have words: "map (\<lambda>t. dc_word instr (of_nat b * 64 + of_nat t * 4)) [0..<16] =
      map (\<lambda>t. be_word (take 4 (drop (64 * b + 4 * t) instr))) [0..<16]"
    using dc_word_be [OF assms(1-3)] by (intro map_cong) simp_all
  have "take 16 (if b = dc_blocks len - 1 then ?V[15 := of_nat len * 8] else ?V) = map ?M [0..<16]"
    unfolding V words by (simp add: dc_M_def upt_0_16)
  moreover have "length (if b = dc_blocks len - 1 then ?V[15 := of_nat len * 8] else ?V) = 64"
    unfolding V by (simp add: assms(4))
  ultimately show ?thesis
    by (simp only: dc_W_def Let_def last dc_macros)
      (simp only: schedule_fill [of _ ?M 64] numeral_le_iff semiring_norm)
qed

lemma dc_step_fips:
  "dc_step W t (list_of_regs s) = list_of_regs (fips_step BSG2_0 BSG2_1 (sha2_K ! t, W ! t) s)"
  by (simp add: dc_step_def fips_step_def list_of_regs_def split_beta Let_def dc_macros dc_tables numeral_eq_Suc)

lemma dc_steps_fips:
  "fold (dc_step W) ts (list_of_regs s) =
     list_of_regs (fold (fips_step BSG2_0 BSG2_1) (map (\<lambda>t. (sha2_K ! t, W ! t)) ts) s)"
  by (induction ts arbitrary: s) (simp_all add: dc_step_fips)

lemma dc_block_fips:
  assumes "dc_small len" and "64 * dc_blocks len \<le> length instr" and "b < dc_blocks len"
    and "length H = 8" and "length W = 64"
  shows "dc_block instr (of_nat len) b (H, W) = (fips256_compress (dc_M instr len b) H, map (W256 (dc_M instr len b)) [0..<64])"
proof -
  let ?W = "map (W256 (dc_M instr len b)) [0..<64]"
  have "fold (dc_step ?W) [0..<64] H =
      list_of_regs (fold (fips_step BSG2_0 BSG2_1) (map (\<lambda>t. (sha2_K ! t, ?W ! t)) [0..<64]) (regs_of H))"
    using dc_steps_fips [of ?W "[0..<64]" "regs_of H"] assms(4) by (simp only: list_of_regs_of)
  moreover have "map (\<lambda>t. (sha2_K ! t, ?W ! t)) [0..<64] = map (\<lambda>t. (sha2_K ! t, W256 (dc_M instr len b) t)) [0..<64]"
    by (rule map_cong) (simp_all del: upt_rec_numeral)
  ultimately show ?thesis
    using assms(5) by (simp only: dc_block_def Let_def fst_conv snd_conv dc_W_eq [OF assms(1-3)] fips256_compress_def)
qed

section \<open>The digest\<close>

definition nibbles :: "bytes \<Rightarrow> bytes" where
  "nibbles bs = concat (map (\<lambda>b. [drop_bit 4 b, b AND 0xF]) bs)"

text \<open>What the code computes of a message.\<close>

definition dc_digest :: "bytes \<Rightarrow> bytes" where
  "dc_digest m = nibbles (concat (map (be_bytes 4)
     (fold (\<lambda>b. fips256_compress (\<lambda>t. sph_dec32be b (4 * t))) (chunks 64 (dc_padded m)) H256)))"

lemma nibbles_be_bytes:
  "nibbles (be_bytes 4 (i :: u32)) = map (\<lambda>k. ucast (drop_bit (28 - 4 * k) i AND 0xF)) [0..<8]"
proof -
  have m: "(0xF :: u32) = mask 4" "(0xF :: u8) = mask 4" by (simp_all add: mask_eq_exp_minus_1)
  have "[0..<8] = [0, 1, 2, 3, 4, 5, 6, 7 :: nat]" by (simp add: upt_rec numeral_eq_Suc)
  moreover have "be_bytes 4 i = [ucast (drop_bit 24 i), ucast (drop_bit 16 i), ucast (drop_bit 8 i), ucast i]"
    by (simp add: be_bytes_def numeral_eq_Suc drop_bit_drop_bit)
  ultimately show ?thesis
    unfolding nibbles_def m by (auto intro!: bit_word_eqI) (auto simp: bit_simps)
qed

lemma nibbles_concat: "nibbles (concat bss) = concat (map nibbles bss)"
  by (induction bss) (simp_all add: nibbles_def)

lemma dc_out_nibbles: "length H = 8 \<Longrightarrow> dc_out H = nibbles (concat (map (be_bytes 4) H))"
proof -
  assume "length H = 8"
  then have "map (\<lambda>t. nibbles (be_bytes 4 (H ! t))) [0..<8] = map (\<lambda>i. nibbles (be_bytes 4 i)) H"
    using map_nth [of H] by (metis (no_types, lifting) comp_apply map_eq_conv map_map)
  then show ?thesis
    by (simp add: dc_out_def Let_def nibbles_concat comp_def nibbles_be_bytes [symmetric] del: upt_rec_numeral)
qed

lemma length_nibbles [simp]: "length (nibbles bs) = 2 * length bs"
  by (induction bs) (simp_all add: nibbles_def)

lemma nibbles_digits: "x \<in> set (nibbles bs) \<Longrightarrow> unat x < 16"
proof -
  assume "x \<in> set (nibbles bs)"
  then obtain b where "x = drop_bit 4 b \<or> x = b AND 0xF" by (auto simp: nibbles_def)
  moreover have "(0xF :: u8) = mask 4" by (simp add: mask_eq_exp_minus_1)
  ultimately have "take_bit 4 x = x"
    by (auto simp flip: take_bit_eq_mask intro!: bit_word_eqI) (auto simp: bit_simps dest: bit_imp_le_length)
  then have "unat x = take_bit 4 (unat x)" by (metis unsigned_take_bit_eq)
  then show ?thesis using take_bit_nat_less_exp [of 4 "unat x"] by simp
qed

text \<open>The words that the code reads are the words of its padded message.\<close>

lemma window_append: "q + n \<le> length z \<Longrightarrow> take n (drop q (z @ a)) = take n (drop q z)"
  by simp

lemma dc_M_padded:
  assumes "length m = len" and "b < dc_blocks len" and "t < 16"
  shows "dc_M (m @ 128 # replicate (64 * dc_blocks len - len - 1) 0 @ r) len b t =
    sph_dec32be (take 64 (drop (64 * b) (dc_padded m))) (4 * t)"
proof -
  let ?z = "m @ 128 # replicate (64 * dc_blocks len - len - 5) 0" and ?N = "64 * dc_blocks len"
  have N: "len + 5 \<le> ?N" by (rule dc_blocks_bounds)
  have z: "length ?z = ?N - 4" using N assms(1) by simp
  have "replicate (?N - len - 1) 0 = replicate (?N - len - 5) 0 @ replicate 4 (0 :: u8)"
    using N by (simp flip: replicate_add)
  then have i: "m @ 128 # replicate (?N - len - 1) 0 @ r = ?z @ replicate 4 0 @ r" by simp
  have p: "dc_padded m = ?z @ be_bytes 4 (of_nat (8 * len) :: u32)" by (simp add: dc_padded_def assms(1))
  have q: "64 * b + 4 * t + 4 \<le> ?N" using assms(2,3) by linarith
  have dec: "sph_dec32be (take 64 (drop (64 * b) xs)) (4 * t) = be_word (take 4 (drop (64 * b + 4 * t) xs))" for xs
    using assms(3) by (simp add: sph_dec32be_def drop_take add.commute)
  show ?thesis
  proof (cases "t = 15 \<and> b = dc_blocks len - 1")
    case True
    then have "64 * b + 4 * t = ?N - 4" using N by auto
    then have "drop (64 * b + 4 * t) (dc_padded m) = be_bytes 4 (of_nat (8 * len) :: u32)"
      using z unfolding p by (simp only: drop_append) simp
    then have "sph_dec32be (take 64 (drop (64 * b) (dc_padded m))) (4 * t) = of_nat (8 * len)"
      unfolding dec by simp
    then show ?thesis
      using True by (simp add: dc_M_def mult.commute)
  next
    case False
    then have w: "64 * b + 4 * t + 4 \<le> length ?z"
      using assms(2,3) z by auto
    have "dc_M (?z @ replicate 4 0 @ r) len b t = be_word (take 4 (drop (64 * b + 4 * t) (?z @ replicate 4 0 @ r)))"
      using False by (auto simp: dc_M_def)
    also have "\<dots> = sph_dec32be (take 64 (drop (64 * b) (dc_padded m))) (4 * t)"
      unfolding dec p by (simp only: window_append [OF w])
    finally show ?thesis unfolding i .
  qed
qed

lemma dc_blocks_fips:
  assumes "dc_small len" and "64 * dc_blocks len \<le> length instr" and "\<forall>b \<in> set bs. b < dc_blocks len"
    and "length H = 8" and "length W = 64"
  shows "fst (fold (dc_block instr (of_nat len)) bs (H, W)) = fold (\<lambda>b. fips256_compress (dc_M instr len b)) bs H"
  using assms(3-) by (induction bs arbitrary: H W) (simp_all add: dc_block_fips [OF assms(1,2)] del: upt_rec_numeral)

text \<open>A call on a buffer that holds the padded message: the buffer that it leaves and the digest.\<close>

definition dc_left :: "bytes \<Rightarrow> nat \<Rightarrow> bytes" where
  "dc_left instr len =
     take len instr @ 128 # replicate (64 * dc_blocks len - len - 1) 0 @ drop (64 * dc_blocks len) instr"

lemma length_dc_left: "64 * dc_blocks len \<le> length instr \<Longrightarrow> length (dc_left instr len) = length instr"
  using dc_blocks_bounds(1) [of len] by (simp add: dc_left_def)

lemma dc_sha256_eq:
  assumes "dc_small len" and "64 * dc_blocks len \<le> length instr"
  shows "dc_sha256 instr (of_nat len) = Some (dc_left instr len, dc_digest (take len instr))"
proof -
  let ?m = "take len instr" and ?z = "dc_left instr len" and ?P = "chunks 64 (dc_padded (take len instr))"
  have m: "length ?m = len" using assms(2) dc_blocks_bounds(1) [of len] by simp
  have z: "64 * dc_blocks len \<le> length ?z" using assms(2) by (simp add: length_dc_left)
  have P: "length (dc_padded ?m) = 64 * dc_blocks len" by (simp only: length_dc_padded m)
  have M: "dc_M ?z len b t = sph_dec32be (?P ! b) (4 * t)" if "b < dc_blocks len" "t < 16" for b t
    using dc_M_padded [OF m that] that(1) P by (simp add: dc_left_def nth_chunks)
  have "map (\<lambda>b. ?P ! b) [0..<dc_blocks len] = ?P" using P by (metis length_chunks map_nth zero_less_numeral)
  then have "fold (\<lambda>b. fips256_compress (\<lambda>t. sph_dec32be b (4 * t))) ?P H256 =
      fold (\<lambda>b. fips256_compress (\<lambda>t. sph_dec32be (?P ! b) (4 * t))) [0..<dc_blocks len] H256"
    using fold_map [of "\<lambda>b. fips256_compress (\<lambda>t. sph_dec32be b (4 * t))" "(!) ?P" "[0..<dc_blocks len]"]
    by (simp add: comp_def)
  also have "\<dots> = fold (\<lambda>b. fips256_compress (dc_M ?z len b)) [0..<dc_blocks len] H256"
    by (rule fold_cong) (auto intro!: fips256_compress_cong simp: M)
  finally have "fst (fold (dc_block ?z (of_nat len)) [0..<dc_blocks len] (H256, replicate 64 0)) =
      fold (\<lambda>b. fips256_compress (\<lambda>t. sph_dec32be b (4 * t))) ?P H256"
    by (simp add: dc_blocks_fips [OF assms(1) z] H256_def)
  moreover have "dc_pad instr (of_nat len) = Some ?z" using assms by (simp add: dc_pad_eq dc_left_def)
  moreover have "length (fold (\<lambda>b. fips256_compress (\<lambda>t. sph_dec32be b (4 * t))) ?P H256) = 8"
    by (simp add: length_fold_fips256 H256_def)
  ultimately show ?thesis
    by (simp add: dc_sha256_def split_beta dc_tables dc_digest_def dc_out_nibbles dc_reads_small [OF assms(1) z]
      unat_dc_N [OF assms(1)])
qed

lemma dc_sha256_None: "dc_small len \<Longrightarrow> length instr < 64 * dc_blocks len \<Longrightarrow> dc_sha256 instr (of_nat len) = None"
  by (simp add: dc_sha256_def dc_pad_None)

theorem dc_digest_fips:
  "length m mod 64 \<notin> {56, 57, 58} \<Longrightarrow> 8 * length m < 2 ^ 32 \<Longrightarrow> dc_digest m = nibbles (fips_sha256 H256 m 0 0)"
  by (simp add: dc_digest_def fips_sha256_def dc_padded_fips)

lemma length_dc_digest [simp]: "length (dc_digest m) = 64"
  using length_fold_fips256 [of H256]
  by (simp add: dc_digest_def length_concat comp_def sum_list_triv H256_def)

lemma dc_digest_digits: "x \<in> set (dc_digest m) \<Longrightarrow> unat x < 16"
  unfolding dc_digest_def by (rule nibbles_digits)

section \<open>The walk without buffers\<close>

definition asc :: "bytes \<Rightarrow> bytes" where
  "asc d = map (\<lambda>x. hexmap ! unat x) d"

type_synonym walk = "bytes \<times> bytes \<times> nat"

text \<open>The 64 digits that are walked over, the 64 characters of the last hash, and the position.\<close>

definition walk_step :: "walk \<Rightarrow> walk" where
  "walk_step s =
     (case s of (d, t, i) \<Rightarrow>
        let j = i + unat (d ! i) + 1;
            d = (if j < 64 then d else dc_digest (asc d));
            i = j mod 64
        in (d, asc (dc_digest (t @ [hexmap ! unat (d ! i)])), i))"

definition walk_end :: "walk \<Rightarrow> bool" where
  "walk_end s = (case s of (d, t, i) \<Rightarrow> i = 63 \<and> hexmap ! unat (d ! 63) = t ! 63)"

definition walk_ok :: "walk \<Rightarrow> bool" where
  "walk_ok s = (case s of (d, t, i) \<Rightarrow>
     length d = 64 \<and> (\<forall>x \<in> set d. unat x < 16) \<and> length t = 64 \<and> i < 64)"

definition walk :: "bytes \<Rightarrow> nat \<Rightarrow> walk" where
  "walk d k = (walk_step ^^ k) (d, replicate 64 255, 0)"

definition walk_text :: "walk \<Rightarrow> bytes" where
  "walk_text s = fst (snd s)"

lemma length_asc [simp]: "length (asc d) = length d"
  by (simp add: asc_def)

lemma walk_step_ok: "walk_ok s \<Longrightarrow> walk_ok (walk_step s)"
  using dc_digest_digits by (auto simp: walk_ok_def walk_step_def Let_def split: if_splits)

lemma walk_ok_start: "length d = 64 \<Longrightarrow> (\<And>x. x \<in> set d \<Longrightarrow> unat x < 16) \<Longrightarrow> walk_ok (walk d k)"
  by (induction k) (simp_all add: walk_def walk_step_ok, simp add: walk_ok_def)

text \<open>The buffers of the code: 128 bytes each, the state in the first 64 of them.\<close>

definition walk_bufs :: "walk \<Rightarrow> bytes \<Rightarrow> bytes \<Rightarrow> bool" where
  "walk_bufs s hb tb \<longleftrightarrow>
     128 \<le> length hb \<and> 128 \<le> length tb \<and> take 64 hb = fst s \<and> take 64 tb = walk_text s"

lemma hexToAsc_eq:
  assumes "n \<le> length l" and "\<And>x. x \<in> set (take n l) \<Longrightarrow> unat x < 16"
  shows "hexToAsc l n = Some (asc (take n l) @ drop n l)"
proof -
  have "unat (l ! i) < 16" if "i < n" for i
    using assms(2) [of "l ! i"] that assms(1) by (metis in_set_conv_nth length_take min.absorb2 nth_take)
  then have "\<forall>i \<in> set [0..<n]. i < length l \<and> unat (l ! i) < 16" using assms(1) by simp
  moreover have "fold (\<lambda>i l. l[i := hexmap ! unat (l ! i)]) [0..<n] l = asc (take n l) @ drop n l"
    unfolding asc_def by (rule fold_rewrite [OF assms(1)])
  ultimately show ?thesis by (simp add: hexToAsc_def)
qed

lemma in_place_eq:
  assumes "dc_small n" and "64 * dc_blocks n \<le> length buf"
  shows "dc_sha256_in_place buf (of_nat n) = Some (dc_digest (take n buf) @ drop 64 (dc_left buf n))"
    and "length (dc_digest (take n buf) @ drop 64 (dc_left buf n)) = length buf"
proof -
  have "64 \<le> 64 * dc_blocks n" using dc_blocks_bounds(1) [of n] by (cases "dc_blocks n") auto
  then have "64 \<le> length buf" using assms(2) by simp
  then show "dc_sha256_in_place buf (of_nat n) = Some (dc_digest (take n buf) @ drop 64 (dc_left buf n))"
    and "length (dc_digest (take n buf) @ drop 64 (dc_left buf n)) = length buf"
    by (simp_all add: dc_sha256_in_place_def dc_sha256_eq assms length_dc_left copy_at_def)
qed

lemma dc_blocks_64: "dc_blocks 64 = 2" "dc_blocks 65 = 2" "dc_small 64" "dc_small 65"
  by (simp_all add: dc_blocks_def dc_small_def)

text \<open>The digits are rehashed: the buffer holds the digest of their characters.\<close>

lemma rehash_eq:
  assumes "128 \<le> length hb" and "\<And>x. x \<in> set (take 64 hb) \<Longrightarrow> unat x < 16"
  shows "\<exists>hb'. Option.bind (hexToAsc hb 64) (\<lambda>d. dc_sha256_in_place d 64) = Some hb' \<and>
    128 \<le> length hb' \<and> take 64 hb' = dc_digest (asc (take 64 hb))"
  using in_place_eq [of 64 "asc (take 64 hb) @ drop 64 hb"] assms
  by (simp add: hexToAsc_eq dc_blocks_64)

lemma retext_eq:
  assumes "128 \<le> length tb"
  shows "\<exists>tb'. Option.bind (dc_sha256_in_place (tb[64 := v]) 65) (\<lambda>l. hexToAsc l 64) = Some tb' \<and>
    128 \<le> length tb' \<and> take 64 tb' = asc (dc_digest (take 64 tb @ [v]))"
proof -
  have "take 65 (tb[64 := v]) = take 64 tb @ [v]"
    using assms take_Suc_conv_app_nth [of 64 "tb[64 := v]"] by simp
  then obtain r where "dc_sha256_in_place (tb[64 := v]) 65 = Some (dc_digest (take 64 tb @ [v]) @ r)" and "64 \<le> length r"
    using in_place_eq [of 65 "tb[64 := v]"] assms by (simp add: dc_blocks_64)
  moreover have "hexToAsc (dc_digest m @ r) 64 = Some (asc (dc_digest m) @ r)" for m
    using hexToAsc_eq [of 64 "dc_digest m @ r"] dc_digest_digits [of _ m] by simp
  ultimately show ?thesis by simp
qed

text \<open>The two halves of a step, for digits \<open>d\<close> and text \<open>t\<close> at the start of the buffers.\<close>

lemma mix_next_walk:
  assumes "128 \<le> length hb" and "\<And>x. x \<in> set (take 64 hb) \<Longrightarrow> unat x < 16" and "i < 64"
    and "j = i + unat (take 64 hb ! i) + 1"
  shows "\<exists>hb'. mix_next hb i = Some (hb', j mod 64) \<and> 128 \<le> length hb' \<and>
    take 64 hb' = (if j < 64 then take 64 hb else dc_digest (asc (take 64 hb)))"
proof -
  have "mix_next hb i =
      (if 64 \<le> j then map_option (\<lambda>d. (d, j mod 64)) (Option.bind (hexToAsc hb 64) (\<lambda>d. dc_sha256_in_place d 64))
       else Some (hb, j))"
    using assms by (simp only: mix_next_def Let_def nth_take) simp
  then show ?thesis
    using rehash_eq [OF assms(1,2)] assms(1) by (cases "64 \<le> j") auto
qed

lemma mix_rehash_walk:
  assumes "128 \<le> length hb" and "128 \<le> length tb" and "i < 64" and "unat (take 64 hb ! i) < 16"
    and "v = hexmap ! unat (take 64 hb ! i)" and "t = asc (dc_digest (take 64 tb @ [v]))"
  shows "\<exists>tb'. mix_rehash hb tb i = Some (tb', i = 63 \<and> v = t ! 63) \<and> 128 \<le> length tb' \<and> take 64 tb' = t"
proof -
  obtain tb' where tb': "Option.bind (dc_sha256_in_place (tb[64 := v]) 65) (\<lambda>l. hexToAsc l 64) = Some tb'"
      "128 \<le> length tb'" "take 64 tb' = t"
    using retext_eq [OF assms(2), of v] assms(6) by blast
  then have "tb' ! 63 = t ! 63" using nth_take [of 63 64 tb'] by simp
  then show ?thesis
    using assms tb' by (simp add: mix_rehash_def Let_def)
qed

lemma mix_step_walk:
  assumes "walk_ok s" and "walk_bufs s hb tb"
  shows "\<exists>hb' tb'. mix_step hb tb (snd (snd s)) =
      Some (hb', tb', snd (snd (walk_step s)), walk_end (walk_step s)) \<and> walk_bufs (walk_step s) hb' tb'"
proof -
  obtain d t i where s: "s = (d, t, i)" by (cases s)
  have ok: "128 \<le> length hb" "128 \<le> length tb" "take 64 hb = d" "take 64 tb = t" "i < 64"
    "\<And>x. x \<in> set (take 64 hb) \<Longrightarrow> unat x < 16"
    using assms by (auto simp: s walk_ok_def walk_bufs_def walk_text_def)
  define j where "j = i + unat (d ! i) + 1"
  define d' where "d' = (if j < 64 then d else dc_digest (asc d))"
  define v where "v = hexmap ! unat (d' ! (j mod 64))"
  define t' where "t' = asc (dc_digest (t @ [v]))"
  have w: "walk_step s = (d', t', j mod 64)"
    by (simp only: s walk_step_def Let_def split j_def d'_def v_def t'_def)
  have "walk_ok (walk_step s)" using assms(1) by (rule walk_step_ok)
  then have digit: "unat (d' ! (j mod 64)) < 16" by (simp add: w walk_ok_def)
  obtain hb' where h: "mix_next hb i = Some (hb', j mod 64)" "128 \<le> length hb'" "take 64 hb' = d'"
    using mix_next_walk [OF ok(1,6,5)] ok(3) by (auto simp: j_def d'_def)
  obtain tb' where t: "mix_rehash hb' tb (j mod 64) = Some (tb', j mod 64 = 63 \<and> v = t' ! 63)" "128 \<le> length tb'" "take 64 tb' = t'"
    using mix_rehash_walk [OF h(2) ok(2), of "j mod 64" v t'] digit h(3) ok(4) by (auto simp: v_def t'_def)
  have "walk_end (walk_step s) = (j mod 64 = 63 \<and> v = t' ! 63)" by (auto simp: w walk_end_def v_def)
  moreover have "snd (snd s) = i" by (simp add: s)
  ultimately show ?thesis
    using h t by (simp add: mix_step_def w walk_bufs_def walk_text_def)
qed

section \<open>The loop\<close>

definition walk_out :: "bytes \<Rightarrow> nat \<Rightarrow> bytes" where
  "walk_out d n = concat (map (\<lambda>j. walk_text (walk d j)) [1..<Suc n])"

lemma walk_Suc: "walk d (Suc k) = walk_step (walk d k)"
  by (simp add: walk_def)

lemma walk_out_Suc: "walk_out d (Suc k) = walk_out d k @ walk_text (walk d (Suc k))"
  by (simp add: walk_out_def)

lemma length_walk_out:
  assumes "length d = 64" and "\<And>x. x \<in> set d \<Longrightarrow> unat x < 16"
  shows "length (walk_out d n) = 64 * n"
proof (induction n)
  case (Suc n)
  then show ?case
    using walk_ok_start [OF assms, of "Suc n"] by (auto simp: walk_out_Suc walk_ok_def walk_text_def)
qed (simp add: walk_out_def)

text \<open>The step at which the loop ends: the first one at the end, unless there is none up to the limit.\<close>

definition walk_length :: "bytes \<Rightarrow> nat \<Rightarrow> bool" where
  "walk_length d n \<longleftrightarrow>
     0 < n \<and> n \<le> 16385 \<and> (\<forall>j \<in> {0<..<n}. \<not> walk_end (walk d j)) \<and> (n \<le> 16384 \<longrightarrow> walk_end (walk d n))"

lemma dc_mix_loop_walk:
  assumes "length d = 64" and "\<And>x. x \<in> set d \<Longrightarrow> unat x < 16"
  shows "k \<le> 16384 \<Longrightarrow> walk_bufs (walk d k) hb tb \<Longrightarrow> \<forall>j \<in> {0<..k}. \<not> walk_end (walk d j) \<Longrightarrow>
    \<exists>n. walk_length d n \<and>
      dc_mix_loop hb tb (snd (snd (walk d k))) (walk_out d k) (64 * k) = Some (n \<le> 16384, walk_out d n, 64 * n)"
proof (induction "16384 - k" arbitrary: k hb tb rule: less_induct)
  case less
  obtain hb' tb' where step: "mix_step hb tb (snd (snd (walk d k))) =
        Some (hb', tb', snd (snd (walk d (Suc k))), walk_end (walk d (Suc k)))"
      and bufs: "walk_bufs (walk d (Suc k)) hb' tb'"
    using mix_step_walk [OF walk_ok_start [OF assms] less.prems(2)] by (auto simp: walk_Suc)
  have out: "walk_out d k @ take 64 tb' = walk_out d (Suc k)"
    using bufs by (simp add: walk_out_Suc walk_bufs_def)
  have loop: "dc_mix_loop hb tb (snd (snd (walk d k))) (walk_out d k) (64 * k) =
      (if k = 16384 then Some (False, walk_out d (Suc k), 64 * Suc k)
       else if walk_end (walk d (Suc k)) then Some (True, walk_out d (Suc k), 64 * Suc k)
       else dc_mix_loop hb' tb' (snd (snd (walk d (Suc k)))) (walk_out d (Suc k)) (64 * Suc k))"
    using less.prems(1) out by (subst dc_mix_loop.simps) (auto simp: step Let_def add.commute)
  consider "k = 16384" | "k < 16384" "walk_end (walk d (Suc k))" | "k < 16384" "\<not> walk_end (walk d (Suc k))"
    using less.prems(1) by linarith
  then show ?case
  proof cases
    case 1
    then show ?thesis using loop less.prems(3) by (intro exI [of _ "Suc k"]) (auto simp: walk_length_def)
  next
    case 2
    then show ?thesis using loop less.prems(3) by (intro exI [of _ "Suc k"]) (auto simp: walk_length_def)
  next
    case 3
    then have "16384 - Suc k < 16384 - k" and "Suc k \<le> 16384" and "\<forall>j \<in> {0<..Suc k}. \<not> walk_end (walk d j)"
      using less.prems(3) by (auto simp: le_Suc_eq)
    then show ?thesis using less.hyps [OF _ _ bufs] loop 3 by simp
  qed
qed

lemma mix_hashed_num_walk:
  assumes "128 \<le> length tb" and "128 \<le> length hb" and "\<And>x. x \<in> set (take 64 hb) \<Longrightarrow> unat x < 16"
  shows "\<exists>n. walk_length (take 64 hb) n \<and>
    mix_hashed_num tb hb = Some (n \<le> 16384, walk_out (take 64 hb) n, 64 * n)"
proof -
  let ?tb = "fold (\<lambda>i l. l[i := 255]) [0..<64] tb"
  have "?tb = replicate 64 255 @ drop 64 tb"
    using fold_store [of 0 64 tb "\<lambda>_. 255"] assms(1) by (simp add: map_replicate_const)
  then have "walk_bufs (walk (take 64 hb) 0) hb ?tb"
    using assms(1,2) by (simp add: walk_bufs_def walk_def walk_text_def)
  from dc_mix_loop_walk [OF _ assms(3) _ this] show ?thesis
    using assms(2) by (simp add: mix_hashed_num_def walk_def walk_out_def)
qed

lemma walk_length_unique: "walk_length d n \<Longrightarrow> walk_length d n' \<Longrightarrow> n = n'"
  using less_linear [of n n'] by (auto simp: walk_length_def)

section \<open>The hash\<close>

lemma take_dc_left: "64 * dc_blocks len \<le> length instr \<Longrightarrow> take len (dc_left instr len) = take len instr"
  using dc_blocks_bounds(1) [of len] by (simp add: dc_left_def)

text \<open>
  Whether the writes of the two outer hashes fit into their blocks decides between \<open>None\<close> and a run. The
  text of the walk has at most \<open>1048576 + 64\<close> bytes, so it fits into \<open>mixedHash\<close>, and below \<open>2 ^ 31\<close> bytes of
  input no sum with its length wraps.
\<close>

lemma dcrypt_hash_eq:
  fixes input :: bytes
  assumes "\<And>n. n \<le> length (mem n)" and "length input < 2 ^ 31"
  defines "d \<equiv> dc_digest input" and "len \<equiv> length input"
  shows "\<exists>n. walk_length d n \<and> dcrypt_hash mem input =
    (if length (mem len) < 64 * dc_blocks len then None
     else if 16384 < n then Some None
     else if length (mem (64 * n + len + 64)) < 64 * dc_blocks (len + 64 * n) then None
     else Some (Some (dc_digest (walk_out d n @ input))))"
proof -
  let ?hb = "copy_at (mem 128) 0 d"
  have d: "length d = 64" "\<And>x. x \<in> set d \<Longrightarrow> unat x < 16"
    by (auto simp: d_def dc_digest_digits)
  then have hb: "128 \<le> length ?hb" "take 64 ?hb = d" using assms(1) [of 128] by (simp_all add: copy_at_def)
  obtain n where n: "walk_length d n" and mix: "mix_hashed_num (mem 128) ?hb = Some (n \<le> 16384, walk_out d n, 64 * n)"
    using mix_hashed_num_walk [of "mem 128" ?hb] hb d(2) assms(1) [of 128] by auto
  have N: "n \<le> 16385" using n by (simp add: walk_length_def)
  have small: "dc_small len" "dc_small (len + 64 * n)" "len < 2 ^ 32"
    using assms(2) N by (simp_all add: dc_small_def len_def)
  have size: "unat (of_nat (64 * n) + of_nat len + 64 :: u32) = 64 * n + len + 64"
    using unat_of_nat_small [where 'a = 32, of "64 * n + len + 64"] assms(2) N by (simp add: len_def)
  have sum: "of_nat len + of_nat (64 * n) = (of_nat (len + 64 * n) :: u32)" by simp
  let ?i = "copy_at (mem len) 0 input" and ?f = "copy_at (copy_at (mem (64 * n + len + 64)) 0 (walk_out d n)) (64 * n) input"
  have i: "length ?i = length (mem len)" "take len ?i = input"
    using assms(1) [of len] by (simp_all add: copy_at_def len_def)
  have f: "length ?f = length (mem (64 * n + len + 64))" "take (len + 64 * n) ?f = walk_out d n @ input"
    using assms(1) [of "64 * n + len + 64"] by (simp_all add: copy_at_def length_walk_out [OF d] len_def)
  show ?thesis
  proof (intro exI conjI)
    show "dcrypt_hash mem input =
        (if length (mem len) < 64 * dc_blocks len then None
         else if 16384 < n then Some None
         else if length (mem (64 * n + len + 64)) < 64 * dc_blocks (len + 64 * n) then None
         else Some (Some (dc_digest (walk_out d n @ input))))"
      using i f mix small assms(1) [of "64 * n + len + 64"] unat_of_small [OF small(1)]
      by (auto simp: dcrypt_hash_def Let_def dc_sha256_None dc_sha256_eq take_dc_left size sum
          simp flip: len_def d_def simp del: of_nat_add of_nat_mult)
  qed (rule n)
qed

end
