(* ===== verification/Scrypt.thy ===== *)
theory Scrypt
  imports Sha256_Ctx "HOL-Library.Monad_Syntax"
begin

unbundle bit_operations_syntax

text \<open>
  scrypt: \<open>src/src/Native/libmultihash/scryptn.c\<close>. The scratchpad is one block of memory; \<open>B\<close>, \<open>X\<close>, \<open>Y\<close>, \<open>Z\<close> and
  \<open>V\<close> are its parts, each a list of the size that it has there, and an access behind the end of a part is
  \<open>None\<close>. Sizes and addresses are computed in the types of the code, so that a size that does not fit wraps.

  The specification is that of RFC 7914. The lemmas show that the code computes it for every cost that is a power
  of two and whose memory fits into 32 bits, and that other costs write behind the block.
\<close>

section \<open>Salsa20/8\<close>

text \<open>\<open>x[c] ^= R(x[a] + x[b], n)\<close>, and the operations of one pass of the loop, on columns and on rows.\<close>

definition salsa_op :: "nat \<times> nat \<times> nat \<times> nat \<Rightarrow> u32 list \<Rightarrow> u32 list" where
  "salsa_op op x = (case op of (c, a, b, n) \<Rightarrow> x[c := x ! c XOR rol32 (x ! a + x ! b) n])"

definition salsa_columns :: "(nat \<times> nat \<times> nat \<times> nat) list" where
  "salsa_columns =
     [(4, 0, 12, 7), (8, 4, 0, 9), (12, 8, 4, 13), (0, 12, 8, 18),
      (9, 5, 1, 7), (13, 9, 5, 9), (1, 13, 9, 13), (5, 1, 13, 18),
      (14, 10, 6, 7), (2, 14, 10, 9), (6, 2, 14, 13), (10, 6, 2, 18),
      (3, 15, 11, 7), (7, 3, 15, 9), (11, 7, 3, 13), (15, 11, 7, 18)]"

definition salsa_rows :: "(nat \<times> nat \<times> nat \<times> nat) list" where
  "salsa_rows =
     [(1, 0, 3, 7), (2, 1, 0, 9), (3, 2, 1, 13), (0, 3, 2, 18),
      (6, 5, 4, 7), (7, 6, 5, 9), (4, 7, 6, 13), (5, 4, 7, 18),
      (11, 10, 9, 7), (8, 11, 10, 9), (9, 8, 11, 13), (10, 9, 8, 18),
      (12, 15, 14, 7), (13, 12, 15, 9), (14, 13, 12, 13), (15, 14, 13, 18)]"

definition salsa20_8 :: "u32 list \<Rightarrow> u32 list" where
  "salsa20_8 B =
     (let x = take 16 B;
          x = fold (\<lambda>i x. fold salsa_op salsa_rows (fold salsa_op salsa_columns x)) [0..<4] x
      in fold (\<lambda>i B. B[i := B ! i + x ! i]) [0..<16] B)"

section \<open>Blocks\<close>

text \<open>\<open>blkcpy(&dest[d], &src[s], len)\<close> and \<open>blkxor\<close>: both work on \<open>len / 8\<close> pairs of 32-bit words.\<close>

definition blkcpy :: "u32 list \<Rightarrow> nat \<Rightarrow> u32 list \<Rightarrow> nat \<Rightarrow> nat \<Rightarrow> u32 list option" where
  "blkcpy dest d src s len =
     (let n = 2 * (len div 8)
      in if d + n \<le> length dest \<and> s + n \<le> length src
         then Some (fold (\<lambda>i dest. dest[d + i := src ! (s + i)]) [0..<n] dest) else None)"

definition blkxor :: "u32 list \<Rightarrow> nat \<Rightarrow> u32 list \<Rightarrow> nat \<Rightarrow> nat \<Rightarrow> u32 list option" where
  "blkxor dest d src s len =
     (let n = 2 * (len div 8)
      in if d + n \<le> length dest \<and> s + n \<le> length src
         then Some (fold (\<lambda>i dest. dest[d + i := dest ! (d + i) XOR src ! (s + i)]) [0..<n] dest) else None)"

definition blockmix_step :: "u32 list \<Rightarrow> nat \<Rightarrow> nat \<Rightarrow> u32 list \<times> u32 list \<Rightarrow> (u32 list \<times> u32 list) option" where
  "blockmix_step Bin r i s =
     (case s of (Bout, X) \<Rightarrow>
        do {
          X \<leftarrow> blkxor X 0 Bin (i * 16) 64;
          let X = salsa20_8 X;
          Bout \<leftarrow> blkcpy Bout (i * 8) X 0 64;
          X \<leftarrow> blkxor X 0 Bin (i * 16 + 16) 64;
          let X = salsa20_8 X;
          Bout \<leftarrow> blkcpy Bout (i * 8 + r * 16) X 0 64;
          Some (Bout, X)
        })"

text \<open>The indices \<open>0, 2, \<dots>\<close> below \<open>n\<close>.\<close>

definition by_two :: "nat \<Rightarrow> nat list" where
  "by_two n = map (\<lambda>t. 2 * t) [0..<(n + 1) div 2]"

definition blockmix_salsa8 :: "u32 list \<Rightarrow> u32 list \<Rightarrow> u32 list \<Rightarrow> nat \<Rightarrow> (u32 list \<times> u32 list) option" where
  "blockmix_salsa8 Bin Bout X r =
     (if r = 0 then None
      else Option.bind (blkcpy X 0 Bin ((2 * r - 1) * 16) 64)
        (\<lambda>X. loop_opt (blockmix_step Bin r) (by_two (2 * r)) (Bout, X)))"

definition integerify :: "u32 list \<Rightarrow> nat \<Rightarrow> u64 option" where
  "integerify B r =
     (let k = (2 * r - 1) * 16
      in if r = 0 \<or> length B \<le> k + 1 then None else Some (push_bit 32 (ucast (B ! (k + 1))) + ucast (B ! k)))"

section \<open>smix\<close>

type_synonym pads = "u32 list \<times> u32 list \<times> u32 list"

text \<open>The first loop, which fills \<open>V\<close>, and the second, which reads it.\<close>

definition smix_fill :: "nat \<Rightarrow> nat \<Rightarrow> u32 list \<times> pads \<Rightarrow> (u32 list \<times> pads) option" where
  "smix_fill r i s =
     (case s of (V, X, Y, Z) \<Rightarrow>
        do {
          V \<leftarrow> blkcpy V (i * (32 * r)) X 0 (128 * r);
          (Y, Z) \<leftarrow> blockmix_salsa8 X Y Z r;
          V \<leftarrow> blkcpy V ((i + 1) * (32 * r)) Y 0 (128 * r);
          (X, Z) \<leftarrow> blockmix_salsa8 Y X Z r;
          Some (V, X, Y, Z)
        })"

definition smix_mix :: "u32 list \<Rightarrow> nat \<Rightarrow> nat \<Rightarrow> nat \<Rightarrow> pads \<Rightarrow> pads option" where
  "smix_mix V r N i s =
     (case s of (X, Y, Z) \<Rightarrow>
        do {
          j \<leftarrow> integerify X r;
          let j = unat (j AND (of_nat N - 1));
          X \<leftarrow> blkxor X 0 V (j * (32 * r)) (128 * r);
          (Y, Z) \<leftarrow> blockmix_salsa8 X Y Z r;
          j \<leftarrow> integerify Y r;
          let j = unat (j AND (of_nat N - 1));
          Y \<leftarrow> blkxor Y 0 V (j * (32 * r)) (128 * r);
          (X, Z) \<leftarrow> blockmix_salsa8 Y X Z r;
          Some (X, Y, Z)
        })"

definition smix :: "bytes \<Rightarrow> nat \<Rightarrow> nat \<Rightarrow> u32 list \<Rightarrow> u32 list \<Rightarrow> bytes option" where
  "smix B r N V XY =
     (if length B < 128 * r \<or> length XY < 64 * r + 16 then None
      else
        let X = take (32 * r) XY; Y = take (32 * r) (drop (32 * r) XY); Z = take 16 (drop (64 * r) XY);
            X = fold (\<lambda>k X. X[k := le32dec B (4 * k)]) [0..<32 * r] X
        in do {
             (V, X, Y, Z) \<leftarrow> loop_opt (smix_fill r) (by_two N) (V, X, Y, Z);
             (X, Y, Z) \<leftarrow> loop_opt (smix_mix V r N) (by_two N) (X, Y, Z);
             Some (fold (\<lambda>k B. copy_at B (4 * k) (le32enc (X ! k))) [0..<32 * r] B)
           })"

section \<open>scrypt\<close>

text \<open>
  The sizes of the parts of the scratchpad at the address \<open>base\<close>, of which \<open>room\<close> bytes may be used: first the
  alignment, then \<open>B\<close>, \<open>XY\<close> and \<open>V\<close>. \<open>128 * r * p\<close> and \<open>256 * r + 64\<close> are computed with 32 bits. The parts are
  lists of their own, so an access that runs from one part into the next is \<open>None\<close>; \<open>B\<close> and \<open>XY\<close> are only left when
  their sizes have wrapped, and then the last row of \<open>V\<close> ends behind the block as well
  (\<open>scrypt_last_row\<close> below).
\<close>

definition scrypt_align :: "u64 \<Rightarrow> nat" where
  "scrypt_align base = unat (((base + 63) AND NOT 63) - base)"

definition scrypt_parts :: "u64 \<Rightarrow> nat \<Rightarrow> u32 \<Rightarrow> nat \<times> nat \<times> nat" where
  "scrypt_parts base room r =
     (let B = scrypt_align base;
          XY = B + unat (128 * r);
          V = XY + unat (256 * r + 64)
      in (min XY room - B, min V room - XY, room - V))"

text \<open>
  \<open>ctx\<close> is the local HMAC context of \<open>PBKDF2_SHA256\<close>; \<open>mem\<close> and \<open>memw\<close> are the bytes and words that the scratchpad
  holds before.
\<close>

definition scrypt_N_R_1_256_sp ::
  "HMAC_SHA256_CTX \<Rightarrow> (nat \<Rightarrow> u8) \<Rightarrow> (nat \<Rightarrow> u32) \<Rightarrow> bytes \<Rightarrow> u64 \<Rightarrow> nat \<Rightarrow> u32 \<Rightarrow> u32 \<Rightarrow> bytes option" where
  "scrypt_N_R_1_256_sp ctx mem memw input base room N R =
     (let (nB, nXY, nV) = scrypt_parts base room R;
          B = map mem [0..<nB]; XY = map memw [0..<nXY div 4]; V = map memw [0..<nV div 4];
          dkLen = unat (1 * 128 * R)
      in Option.bind (PBKDF2_SHA256 ctx input input 1 B dkLen) (\<lambda>B.
           Option.bind (smix B (unat R) (unat N) V XY) (\<lambda>B.
             PBKDF2_SHA256 ctx input (take dkLen B) 1 (replicate 32 0) 32)))"

definition scrypt_N_R_1_256 ::
  "HMAC_SHA256_CTX \<Rightarrow> (nat \<Rightarrow> u8) \<Rightarrow> (nat \<Rightarrow> u32) \<Rightarrow> u64 \<Rightarrow> bytes \<Rightarrow> u32 \<Rightarrow> u32 \<Rightarrow> bytes option" where
  "scrypt_N_R_1_256 ctx mem memw base input N R =
     scrypt_N_R_1_256_sp ctx mem memw input base (unat (128 * N * R + 128 * R + 256 * R + 64 + 64)) N R"

section \<open>Salsa20/8 of the specification\<close>

text \<open>The core of RFC 7914 as quarter rounds on the columns and the rows of a square of words.\<close>

definition salsa_quarter :: "u32 \<times> u32 \<times> u32 \<times> u32 \<Rightarrow> u32 \<times> u32 \<times> u32 \<times> u32" where
  "salsa_quarter y =
     (case y of (y0, y1, y2, y3) \<Rightarrow>
        let z1 = y1 XOR rol32 (y0 + y3) 7; z2 = y2 XOR rol32 (z1 + y0) 9;
            z3 = y3 XOR rol32 (z2 + z1) 13; z0 = y0 XOR rol32 (z3 + z2) 18
        in (z0, z1, z2, z3))"

definition quarter_at :: "nat \<times> nat \<times> nat \<times> nat \<Rightarrow> u32 list \<Rightarrow> u32 list" where
  "quarter_at p x =
     (case p of (i0, i1, i2, i3) \<Rightarrow>
        case salsa_quarter (x ! i0, x ! i1, x ! i2, x ! i3) of (z0, z1, z2, z3) \<Rightarrow> x[i0 := z0, i1 := z1, i2 := z2, i3 := z3])"

definition salsa_double :: "u32 list \<Rightarrow> u32 list" where
  "salsa_double x =
     fold quarter_at [(0, 1, 2, 3), (5, 6, 7, 4), (10, 11, 8, 9), (15, 12, 13, 14)]
       (fold quarter_at [(0, 4, 8, 12), (5, 9, 13, 1), (10, 14, 2, 6), (15, 3, 7, 11)] x)"

definition salsa_spec :: "u32 list \<Rightarrow> u32 list" where
  "salsa_spec B = map2 (+) B ((salsa_double ^^ 4) B)"

lemma four_ops:
  assumes "distinct [i0, i1, i2, i3]" and "i0 < length x" "i1 < length x" "i2 < length x" "i3 < length x"
  shows "fold salsa_op [(i1, i0, i3, 7), (i2, i1, i0, 9), (i3, i2, i1, 13), (i0, i3, i2, 18)] x = quarter_at (i0, i1, i2, i3) x"
  using assms
  by (simp add: salsa_op_def quarter_at_def salsa_quarter_def Let_def nth_list_update) (auto simp: list_update_swap)

lemma length_quarter_at [simp]: "length (quarter_at p x) = length x"
  by (simp add: quarter_at_def split_beta)

definition four_at :: "nat \<times> nat \<times> nat \<times> nat \<Rightarrow> (nat \<times> nat \<times> nat \<times> nat) list" where
  "four_at p = (case p of (i0, i1, i2, i3) \<Rightarrow> [(i1, i0, i3, 7), (i2, i1, i0, 9), (i3, i2, i1, 13), (i0, i3, i2, 18)])"

definition quarter_ok :: "nat \<times> nat \<times> nat \<times> nat \<Rightarrow> bool" where
  "quarter_ok p = (case p of (i0, i1, i2, i3) \<Rightarrow> distinct [i0, i1, i2, i3] \<and> i0 < 16 \<and> i1 < 16 \<and> i2 < 16 \<and> i3 < 16)"

lemma quarters:
  "list_all quarter_ok ps \<Longrightarrow> length x = 16 \<Longrightarrow> fold salsa_op (concat (map four_at ps)) x = fold quarter_at ps x"
proof (induction ps arbitrary: x)
  case (Cons p ps)
  obtain i0 i1 i2 i3 where p: "p = (i0, i1, i2, i3)" by (cases p)
  have "fold salsa_op (four_at p) x = quarter_at p x"
    unfolding p four_at_def prod.case by (rule four_ops) (use Cons.prems in \<open>simp_all add: p quarter_ok_def\<close>)
  with Cons show ?case by simp
qed simp

lemma double_ops:
  assumes "length x = 16"
  shows "fold salsa_op salsa_rows (fold salsa_op salsa_columns x) = salsa_double x"
proof -
  let ?c = "[(0, 4, 8, 12), (5, 9, 13, 1), (10, 14, 2, 6), (15, 3, 7, 11)]"
  let ?r = "[(0, 1, 2, 3), (5, 6, 7, 4), (10, 11, 8, 9), (15, 12, 13, 14)]"
  have ops: "salsa_columns = concat (map four_at ?c)" "salsa_rows = concat (map four_at ?r)"
    by (simp_all add: salsa_columns_def salsa_rows_def four_at_def)
  have ok: "list_all quarter_ok ?c" "list_all quarter_ok ?r" by (simp_all add: quarter_ok_def)
  have len: "length (fold quarter_at ?c x) = 16" using assms by simp
  show ?thesis
    unfolding ops salsa_double_def quarters [OF ok(1) assms] quarters [OF ok(2) len] by (rule refl)
qed

lemma length_salsa_double [simp]: "length (salsa_double x) = length x"
  by (simp add: salsa_double_def)

lemma length_doubles [simp]: "length ((salsa_double ^^ n) x) = length x"
  by (induction n) simp_all

lemma length_salsa_spec [simp]: "length (salsa_spec B) = length B"
  by (simp add: salsa_spec_def)

lemma salsa20_8_spec:
  assumes "length B = 16"
  shows "salsa20_8 B = salsa_spec B"
proof -
  have "fold (\<lambda>i x. fold salsa_op salsa_rows (fold salsa_op salsa_columns x)) [0..<n] B = (salsa_double ^^ n) B" for n
    using assms by (induction n) (simp_all add: double_ops)
  then show ?thesis
    using fold_rewrite_map2 [of "(salsa_double ^^ 4) B" B "(+)"] assms
    by (simp add: salsa20_8_def salsa_spec_def)
qed

section \<open>Copies\<close>

lemma fold_store_at:
  "d + n \<le> length l \<Longrightarrow>
    fold (\<lambda>i l. l[d + i := f i (l ! (d + i))]) [0..<n] l = copy_at l d (map (\<lambda>i. f i (l ! (d + i))) [0..<n])"
  by (simp add: fold_store_from)

lemma blkcpy_eq:
  assumes "d + 2 * (len div 8) \<le> length dest" and "s + 2 * (len div 8) \<le> length src"
  shows "blkcpy dest d src s len = Some (copy_at dest d (take (2 * (len div 8)) (drop s src)))"
  using fold_store_at [OF assms(1), of "\<lambda>i x. src ! (s + i)"] map_nth_slice [OF assms(2)] assms
  by (simp add: blkcpy_def Let_def)

lemma blkxor_eq:
  assumes "d + 2 * (len div 8) \<le> length dest" and "s + 2 * (len div 8) \<le> length src"
  shows "blkxor dest d src s len =
    Some (copy_at dest d (map2 (XOR) (take (2 * (len div 8)) (drop d dest)) (take (2 * (len div 8)) (drop s src))))"
proof -
  have "map (\<lambda>i. dest ! (d + i) XOR src ! (s + i)) [0..<2 * (len div 8)] =
      map2 (XOR) (take (2 * (len div 8)) (drop d dest)) (take (2 * (len div 8)) (drop s src))"
    using assms by (auto intro!: nth_equalityI)
  then show ?thesis
    using fold_store_at [OF assms(1), of "\<lambda>i x. x XOR src ! (s + i)"] assms by (simp add: blkxor_def Let_def)
qed

section \<open>BlockMix\<close>

definition blk :: "u32 list \<Rightarrow> nat \<Rightarrow> u32 list" where
  "blk B i = take 16 (drop (16 * i) B)"

text \<open>\<open>X\<close> after \<open>i\<close> blocks, which is the block \<open>Y\<^sub>i\<close> with index \<open>i - 1\<close>.\<close>

primrec blockmix_X :: "u32 list \<Rightarrow> nat \<Rightarrow> nat \<Rightarrow> u32 list" where
  "blockmix_X B r 0 = blk B (2 * r - 1)"
| "blockmix_X B r (Suc i) = salsa_spec (map2 (XOR) (blockmix_X B r i) (blk B i))"

definition blockmix_spec :: "nat \<Rightarrow> u32 list \<Rightarrow> u32 list" where
  "blockmix_spec r B =
     concat (map (\<lambda>i. blockmix_X B r (2 * i + 1)) [0..<r]) @ concat (map (\<lambda>i. blockmix_X B r (2 * i + 2)) [0..<r])"

lemma by_two_double: "by_two (2 * n) = map (\<lambda>t. 2 * t) [0..<n]"
  by (simp add: by_two_def)

lemma length_blk: "length B = 32 * r \<Longrightarrow> i < 2 * r \<Longrightarrow> length (blk B i) = 16"
  by (simp add: blk_def)

lemma length_blockmix_X: "length B = 32 * r \<Longrightarrow> 0 < r \<Longrightarrow> i \<le> 2 * r \<Longrightarrow> length (blockmix_X B r i) = 16"
  by (induction i) (simp_all add: length_blk)

lemma copy_at_left: "d + length b \<le> length E \<Longrightarrow> copy_at (E @ Q) d b = copy_at E d b @ Q"
  by (simp add: copy_at_def)

lemma copy_at_right: "copy_at (E @ Q) (length E + d) b = E @ copy_at Q d b"
  by (simp add: copy_at_def)

text \<open>One more block behind those that are there.\<close>

lemma copy_block:
  assumes "take (16 * t) E = concat (map f [0..<t])" and "16 * Suc t \<le> length E" and "length (f t) = 16"
  shows "take (16 * Suc t) (copy_at E (16 * t) (f t)) = concat (map f [0..<Suc t])"
  using assms take_copy_at [of "16 * t" "f t" E] by (simp add: add.commute)

definition mixed :: "u32 list \<Rightarrow> nat \<Rightarrow> nat \<Rightarrow> u32 list \<times> u32 list \<Rightarrow> bool" where
  "mixed B r t s \<longleftrightarrow>
     (\<exists>E Q. s = (E @ Q, blockmix_X B r (2 * t)) \<and> length E = 16 * r \<and> length Q = 16 * r \<and>
       take (16 * t) E = concat (map (\<lambda>i. blockmix_X B r (2 * i + 1)) [0..<t]) \<and>
       take (16 * t) Q = concat (map (\<lambda>i. blockmix_X B r (2 * i + 2)) [0..<t]))"

lemma blkxor_blk:
  assumes "length X = 16" and "16 * i + 16 \<le> length B"
  shows "blkxor X 0 B (16 * i) 64 = Some (map2 (XOR) X (blk B i))"
  using assms by (subst blkxor_eq) (simp_all add: blk_def copy_at_def)

lemma mixed_step:
  assumes "length B = 32 * r" and "t < r" and "mixed B r t s"
  shows "\<exists>s'. blockmix_step B r (2 * t) s = Some s' \<and> mixed B r (Suc t) s'"
proof -
  obtain E Q where s: "s = (E @ Q, blockmix_X B r (2 * t))" and E: "length E = 16 * r" "length Q = 16 * r"
      "take (16 * t) E = concat (map (\<lambda>i. blockmix_X B r (2 * i + 1)) [0..<t])"
      "take (16 * t) Q = concat (map (\<lambda>i. blockmix_X B r (2 * i + 2)) [0..<t])"
    using assms(3) by (auto simp: mixed_def)
  let ?X = "blockmix_X B r (2 * t)" and ?X1 = "blockmix_X B r (2 * t + 1)" and ?X2 = "blockmix_X B r (2 * t + 2)"
  have X: "length ?X = 16" "length ?X1 = 16" "length ?X2 = 16"
    using assms(1,2) by (simp_all only: length_blockmix_X)
  have 1: "blkxor ?X 0 B (2 * t * 16) 64 = Some (map2 (XOR) ?X (blk B (2 * t)))"
    using blkxor_blk [OF X(1), of "2 * t" B] assms(1,2) by (simp add: mult.commute)
  have 2: "blkxor ?X1 0 B (2 * t * 16 + 16) 64 = Some (map2 (XOR) ?X1 (blk B (2 * t + 1)))"
    using blkxor_blk [OF X(2), of "2 * t + 1" B] assms(1,2) by (simp add: mult.commute add.commute)
  have b: "length (blk B (2 * t)) = 16" "length (blk B (2 * t + 1)) = 16" using assms(1,2) by (simp_all add: length_blk)
  have s1: "salsa20_8 (map2 (XOR) ?X (blk B (2 * t))) = ?X1" using X(1) b(1) by (simp add: salsa20_8_spec)
  have s2: "salsa20_8 (map2 (XOR) ?X1 (blk B (2 * t + 1))) = ?X2" using X(2) b(2) by (simp add: salsa20_8_spec)
  have 3: "blkcpy (E @ Q) (2 * t * 8) ?X1 0 64 = Some (copy_at E (16 * t) ?X1 @ Q)"
    using E(1,2) X(2) assms(2) by (subst blkcpy_eq) (simp_all add: copy_at_left mult.commute)
  have E': "length (copy_at E (16 * t) ?X1) = 16 * r" using E(1) X(2) assms(2) by simp
  have 4: "blkcpy (copy_at E (16 * t) ?X1 @ Q) (2 * t * 8 + r * 16) ?X2 0 64 = Some (copy_at E (16 * t) ?X1 @ copy_at Q (16 * t) ?X2)"
    using E'(1) E(2) X(3) assms(2) copy_at_right [of "copy_at E (16 * t) ?X1" Q "16 * t" ?X2]
    by (subst blkcpy_eq) (simp_all add: mult.commute add.commute)
  have "blockmix_step B r (2 * t) s = Some (copy_at E (16 * t) ?X1 @ copy_at Q (16 * t) ?X2, ?X2)"
    by (simp only: blockmix_step_def s prod.case 1 2 3 4 s1 s2 Let_def Option.bind.simps)
  moreover have "mixed B r (Suc t) (copy_at E (16 * t) ?X1 @ copy_at Q (16 * t) ?X2, ?X2)"
    unfolding mixed_def
  proof (intro exI conjI)
    show "take (16 * Suc t) (copy_at E (16 * t) ?X1) = concat (map (\<lambda>i. blockmix_X B r (2 * i + 1)) [0..<Suc t])"
      by (rule copy_block) (use E X(2) assms(2) in simp_all)
    show "take (16 * Suc t) (copy_at Q (16 * t) ?X2) = concat (map (\<lambda>i. blockmix_X B r (2 * i + 2)) [0..<Suc t])"
      by (rule copy_block) (use E X(3) assms(2) in simp_all)
  qed (use E E' X(3) assms(2) in simp_all)
  ultimately show ?thesis by blast
qed

theorem blockmix_value:
  assumes "length Bin = 32 * r" and "length Bout = 32 * r" and "length X = 16" and "0 < r"
  shows "\<exists>X'. blockmix_salsa8 Bin Bout X r = Some (blockmix_spec r Bin, X') \<and> length X' = 16"
proof -
  have "mixed Bin r 0 (Bout, blockmix_X Bin r 0)"
    unfolding mixed_def by (intro exI [of _ "take (16 * r) Bout"] exI [of _ "drop (16 * r) Bout"]) (use assms(2) in simp)
  then obtain s where s: "loop_opt (blockmix_step Bin r) (map (\<lambda>t. 2 * t) [0..<r]) (Bout, blockmix_X Bin r 0) = Some s"
      "mixed Bin r r s"
    using loop_opt_invariant [of "mixed Bin r" _ r "blockmix_step Bin r" "\<lambda>t. 2 * t"] mixed_step [OF assms(1)] by blast
  then have "s = (blockmix_spec r Bin, blockmix_X Bin r (2 * r))" by (auto simp: mixed_def blockmix_spec_def)
  moreover have "blkcpy X 0 Bin ((2 * r - 1) * 16) 64 = Some (blockmix_X Bin r 0)"
    using assms by (subst blkcpy_eq) (auto simp: blk_def copy_at_def mult.commute)
  ultimately show ?thesis
    using s(1) assms(1,4) length_blockmix_X [OF assms(1,4), of "2 * r"] by (simp add: blockmix_salsa8_def by_two_double)
qed

lemma length_concat_upt: "(\<And>i. i < n \<Longrightarrow> length (f i) = k) \<Longrightarrow> length (concat (map f [0..<n])) = k * n"
  by (induction n) simp_all

lemma length_blockmix_spec:
  assumes "length B = 32 * r" and "0 < r"
  shows "length (blockmix_spec r B) = 32 * r"
proof -
  have "length (concat (map (\<lambda>i. blockmix_X B r (2 * i + k)) [0..<r])) = 16 * r" if "k \<le> 2" for k
    by (rule length_concat_upt, rule length_blockmix_X) (use assms that in auto)
  from this [of 1] this [of 2] show ?thesis by (simp add: blockmix_spec_def)
qed

section \<open>ROMix\<close>

text \<open>The last block as a little-endian number, and the two loops of RFC 7914.\<close>

definition int_of_words :: "u32 list \<Rightarrow> nat" where
  "int_of_words ws = foldr (\<lambda>w n. unat w + 2 ^ 32 * n) ws 0"

definition romix_V :: "nat \<Rightarrow> u32 list \<Rightarrow> nat \<Rightarrow> u32 list" where
  "romix_V r X i = (blockmix_spec r ^^ i) X"

definition romix_j :: "nat \<Rightarrow> nat \<Rightarrow> u32 list \<Rightarrow> nat" where
  "romix_j r N X = int_of_words (blk X (2 * r - 1)) mod N"

definition romix_step :: "nat \<Rightarrow> nat \<Rightarrow> u32 list \<Rightarrow> u32 list \<Rightarrow> u32 list" where
  "romix_step r N X0 X = blockmix_spec r (map2 (XOR) X (romix_V r X0 (romix_j r N X)))"

definition romix_spec :: "nat \<Rightarrow> nat \<Rightarrow> u32 list \<Rightarrow> u32 list" where
  "romix_spec r N X = (romix_step r N X ^^ N) (romix_V r X N)"

lemma length_romix_V: "length X = 32 * r \<Longrightarrow> 0 < r \<Longrightarrow> length (romix_V r X i) = 32 * r"
  by (induction i) (simp_all add: romix_V_def length_blockmix_spec)

lemma romix_V_Suc: "romix_V r X (Suc i) = blockmix_spec r (romix_V r X i)"
  by (simp add: romix_V_def)

definition pads_ok :: "nat \<Rightarrow> u32 list \<Rightarrow> pads \<Rightarrow> bool" where
  "pads_ok r X s \<longleftrightarrow> (\<exists>Y Z. s = (X, Y, Z) \<and> length X = 32 * r \<and> length Y = 32 * r \<and> length Z = 16)"

definition filled :: "nat \<Rightarrow> u32 list \<Rightarrow> nat \<Rightarrow> nat \<Rightarrow> u32 list \<times> pads \<Rightarrow> bool" where
  "filled r X n t s \<longleftrightarrow>
     (\<exists>V. fst s = V \<and> length V = n \<and> take (32 * r * (2 * t)) V = concat (map (romix_V r X) [0..<2 * t]) \<and>
       pads_ok r (romix_V r X (2 * t)) (snd s))"

text \<open>One more row.\<close>

lemma copy_row:
  assumes "take (k * i) V = concat (map f [0..<i])" and "k * Suc i \<le> length V" and "length (f i) = k"
  shows "take (k * Suc i) (copy_at V (k * i) (f i)) = concat (map f [0..<Suc i])"
  using assms take_copy_at [of "k * i" "f i" V] by (simp add: add.commute)

lemma blkcpy_row:
  assumes "length X = 32 * r" and "32 * r * Suc i \<le> length V"
  shows "blkcpy V (i * (32 * r)) X 0 (128 * r) = Some (copy_at V (32 * r * i) X)"
  using assms by (subst blkcpy_eq) (simp_all add: algebra_simps)

lemma filled_step:
  assumes "length X = 32 * r" and "0 < r" and "32 * r * (2 * Suc t) \<le> n" and "filled r X n t s"
  shows "\<exists>s'. smix_fill r (2 * t) s = Some s' \<and> filled r X n (Suc t) s'"
proof -
  let ?V = "romix_V r X"
  obtain V Y Z where s: "s = (V, ?V (2 * t), Y, Z)" and V: "length V = n" "take (32 * r * (2 * t)) V = concat (map ?V [0..<2 * t])"
      and Y: "length Y = 32 * r" "length Z = 16"
    using assms(4) by (cases s) (auto simp: filled_def pads_ok_def)
  have len: "length (?V i) = 32 * r" for i by (rule length_romix_V [OF assms(1,2)])
  define V1 where "V1 = copy_at V (32 * r * (2 * t)) (?V (2 * t))"
  define V2 where "V2 = copy_at V1 (32 * r * Suc (2 * t)) (?V (Suc (2 * t)))"
  have n: "32 * r * Suc (2 * t) \<le> n" "32 * r * Suc (Suc (2 * t)) \<le> n" using assms(3) by (simp_all add: algebra_simps)
  have V1: "length V1 = n" "take (32 * r * Suc (2 * t)) V1 = concat (map ?V [0..<Suc (2 * t)])"
    using copy_row [OF V(2)] n(1) V(1) len by (simp_all add: V1_def algebra_simps)
  have V2: "length V2 = n" "take (32 * r * Suc (Suc (2 * t))) V2 = concat (map ?V [0..<Suc (Suc (2 * t))])"
    using copy_row [OF V1(2)] n(2) V1(1) len by (simp_all add: V2_def algebra_simps)
  have c1: "blkcpy V (2 * t * (32 * r)) (?V (2 * t)) 0 (128 * r) = Some V1"
    unfolding V1_def by (rule blkcpy_row) (use n V(1) len in simp_all)
  have c2: "blkcpy V1 ((2 * t + 1) * (32 * r)) (?V (Suc (2 * t))) 0 (128 * r) = Some V2"
    unfolding V2_def by (simp only: Suc_eq_plus1 [symmetric], rule blkcpy_row) (use n V1(1) len in simp_all)
  obtain Z1 where z1: "blockmix_salsa8 (?V (2 * t)) Y Z r = Some (?V (Suc (2 * t)), Z1)" "length Z1 = 16"
    using blockmix_value [OF len Y assms(2)] by (auto simp: romix_V_Suc)
  obtain Z2 where z2: "blockmix_salsa8 (?V (Suc (2 * t))) (?V (2 * t)) Z1 r = Some (?V (2 * Suc t), Z2)" "length Z2 = 16"
    using blockmix_value [OF len len z1(2) assms(2), of "Suc (2 * t)" "2 * t"] by (auto simp: romix_V_Suc)
  have "smix_fill r (2 * t) s = Some (V2, ?V (2 * Suc t), ?V (Suc (2 * t)), Z2)"
    by (simp only: s smix_fill_def prod.case c1 c2 z1 z2 Option.bind.simps)
  then show ?thesis
    using V2 z2(2) len by (auto simp: filled_def pads_ok_def)
qed

section \<open>The second loop\<close>

lemma mask_u64: "k \<le> 64 \<Longrightarrow> unat ((x :: u64) AND (of_nat (2 ^ k) - 1)) = unat x mod 2 ^ k"
proof -
  have "x AND (of_nat (2 ^ k) - 1) = take_bit k x" by (simp add: take_bit_eq_mask mask_eq_exp_minus_1)
  then show ?thesis by (simp only: unsigned_take_bit_eq) (simp only: take_bit_eq_mod)
qed

lemma unat_pair: "unat (push_bit 32 (ucast (w1 :: u32)) + ucast (w0 :: u32) :: u64) = unat w0 + 2 ^ 32 * unat w1"
proof -
  have b: "unat w0 < 2 ^ 32" "unat w1 < 2 ^ 32" using unsigned_less [of w0] unsigned_less [of w1] by simp_all
  have "unat (push_bit 32 (ucast w1) :: u64) = 2 ^ 32 * unat w1"
    using b(2) by (simp add: push_bit_eq_mult unsigned_ucast_eq unat_word_ariths)
  then show ?thesis
    using b by (simp add: unat_word_ariths unsigned_ucast_eq)
qed

lemma nth_blk: "k < 16 \<Longrightarrow> 16 * i + 16 \<le> length B \<Longrightarrow> blk B i ! k = B ! (16 * i + k)"
  by (simp add: blk_def)

lemma int_of_words_mod:
  assumes "k \<le> 64"
  shows "int_of_words (w0 # w1 # ws) mod 2 ^ k = (unat w0 + 2 ^ 32 * unat w1) mod 2 ^ k"
proof -
  have "int_of_words (w0 # w1 # ws) = unat w0 + 2 ^ 32 * unat w1 + 2 ^ k * (2 ^ (64 - k) * int_of_words ws)"
    using power_add [of "2 :: nat" k "64 - k"] assms by (simp add: int_of_words_def mult.assoc [symmetric] distrib_left)
  then show ?thesis by (simp only: mod_mult_self2)
qed

lemma integerify_mod:
  assumes "length X = 32 * r" and "0 < r" and "k \<le> 64"
  shows "\<exists>j. integerify X r = Some j \<and> unat (j AND (of_nat (2 ^ k) - 1)) = romix_j r (2 ^ k) X"
proof -
  let ?i = "(2 * r - 1) * 16"
  obtain w0 w1 ws where w: "blk X (2 * r - 1) = w0 # w1 # ws"
    using length_blk [OF assms(1), of "2 * r - 1"] assms(2) by (cases "blk X (2 * r - 1)"; cases "tl (blk X (2 * r - 1))") auto
  have "X ! ?i = w0" "X ! (?i + 1) = w1"
    using nth_blk [of 0 "2 * r - 1" X] nth_blk [of 1 "2 * r - 1" X] assms(1,2) w by (simp_all add: mult.commute)
  then have "integerify X r = Some (push_bit 32 (ucast w1) + ucast w0)"
    using assms(1,2) by (simp add: integerify_def Let_def)
  then show ?thesis
    by (simp only: option.inject romix_j_def w int_of_words_mod [OF assms(3)] mask_u64 [OF assms(3)] unat_pair ex_simps simp_thms)
qed

lemma row_of_concat:
  assumes "\<And>i. length (f i) = k" and "j < n"
  shows "take k (drop (k * j) (concat (map f [0..<n]))) = f j"
proof -
  have "[0..<n] = [0..<j] @ j # [Suc j..<n]" using assms(2) upt_add_eq_append [of 0 j "n - j"] upt_conv_Cons [of j n] by simp
  then show ?thesis using length_concat_upt [of j f k] assms(1) by simp
qed

lemma blkxor_row:
  assumes "length X = 32 * r" and "32 * r * N \<le> length V" and "take (32 * r * N) V = concat (map f [0..<N])"
    and "\<And>i. length (f i) = 32 * r" and "j < N"
  shows "blkxor X 0 V (j * (32 * r)) (128 * r) = Some (map2 (XOR) X (f j))"
proof -
  have row: "32 * r * Suc j \<le> 32 * r * N" using assms(5) by (simp only: mult_le_mono2 Suc_leI)
  have "take (32 * r) (drop (j * (32 * r)) V) = take (32 * r) (drop (32 * r * j) (take (32 * r * N) V))"
    using row by (simp add: drop_take min_def algebra_simps)
  also have "\<dots> = f j" unfolding assms(3) by (rule row_of_concat) (rule assms)+
  finally show ?thesis
    using assms(1,2) assms(4) [of j] row by (subst blkxor_eq) (simp_all add: copy_at_def algebra_simps)
qed

lemma romix_j_less: "0 < N \<Longrightarrow> romix_j r N X < N"
  by (simp add: romix_j_def)

text \<open>Half a pass of the loop.\<close>

lemma mix_half:
  assumes "length X0 = 32 * r" and "0 < r" and "N = 2 ^ k" and "k \<le> 64"
    and "32 * r * N \<le> length V" and "take (32 * r * N) V = concat (map (romix_V r X0) [0..<N])"
    and "length X = 32 * r" and "length Y = 32 * r" and "length Z = 16"
  shows "\<exists>j X' Z'. integerify X r = Some j \<and> blkxor X 0 V (unat (j AND (of_nat N - 1)) * (32 * r)) (128 * r) = Some X' \<and>
    length X' = 32 * r \<and> blockmix_salsa8 X' Y Z r = Some (romix_step r N X0 X, Z') \<and>
    length (romix_step r N X0 X) = 32 * r \<and> length Z' = 16"
proof -
  have len: "length (romix_V r X0 i) = 32 * r" for i by (rule length_romix_V [OF assms(1,2)])
  obtain j where j: "integerify X r = Some j" "unat (j AND (of_nat N - 1)) = romix_j r N X"
    using integerify_mod [OF assms(7,2,4)] unfolding assms(3) by blast
  define X' where "X' = map2 (XOR) X (romix_V r X0 (romix_j r N X))"
  have X': "length X' = 32 * r" by (simp add: X'_def assms(7) len)
  have "blkxor X 0 V (romix_j r N X * (32 * r)) (128 * r) = Some X'"
    unfolding X'_def by (rule blkxor_row [OF assms(7,5,6) len]) (simp add: romix_j_less assms(3))
  moreover obtain Z' where "blockmix_salsa8 X' Y Z r = Some (romix_step r N X0 X, Z')" "length Z' = 16"
    using blockmix_value [OF X' assms(8,9,2)] by (auto simp: romix_step_def X'_def)
  moreover have "length (romix_step r N X0 X) = 32 * r"
    using length_blockmix_spec [OF X' assms(2)] by (simp add: romix_step_def X'_def)
  ultimately show ?thesis using j X' by auto
qed

lemma mix_step:
  assumes "length X0 = 32 * r" and "0 < r" and "N = 2 ^ k" and "k \<le> 64"
    and "32 * r * N \<le> length V" and "take (32 * r * N) V = concat (map (romix_V r X0) [0..<N])"
    and "pads_ok r ((romix_step r N X0 ^^ (2 * t)) X) s"
  shows "\<exists>s'. smix_mix V r N (2 * t) s = Some s' \<and> pads_ok r ((romix_step r N X0 ^^ (2 * Suc t)) X) s'"
proof -
  let ?f = "romix_step r N X0"
  let ?X = "(?f ^^ (2 * t)) X"
  obtain Y Z where s: "s = (?X, Y, Z)" and len: "length ?X = 32 * r" "length Y = 32 * r" "length Z = 16"
    using assms(7) by (auto simp: pads_ok_def)
  obtain j X' Z1 where 1: "integerify ?X r = Some j" "blkxor ?X 0 V (unat (j AND (of_nat N - 1)) * (32 * r)) (128 * r) = Some X'"
      "length X' = 32 * r" "blockmix_salsa8 X' Y Z r = Some (?f ?X, Z1)" "length (?f ?X) = 32 * r" "length Z1 = 16"
    using mix_half [OF assms(1-6) len] by blast
  obtain j' Y' Z2 where 2: "integerify (?f ?X) r = Some j'"
      "blkxor (?f ?X) 0 V (unat (j' AND (of_nat N - 1)) * (32 * r)) (128 * r) = Some Y'"
      "length Y' = 32 * r" "blockmix_salsa8 Y' X' Z1 r = Some (?f (?f ?X), Z2)" "length (?f (?f ?X)) = 32 * r" "length Z2 = 16"
    using mix_half [OF assms(1-6) 1(5,3,6)] by blast
  have "smix_mix V r N (2 * t) s = Some (?f (?f ?X), Y', Z2)"
    by (simp only: s smix_mix_def prod.case Let_def 1 2 Option.bind.simps)
  then show ?thesis using 2 by (simp add: pads_ok_def)
qed

section \<open>smix\<close>

lemma le32dec_le_word:
  assumes "i + 4 \<le> length p"
  shows "le32dec p i = le_word (take 4 (drop i p))"
proof -
  have "take 4 (drop i p) = rev [p ! (i + 3), p ! (i + 2), p ! (i + 1), p ! i]"
    using assms by (auto simp: list_eq_iff_nth_eq less_Suc_eq_0_disj numeral_eq_Suc)
  then show ?thesis
    using be_word_sum [of "p ! (i + 3)" "p ! (i + 2)" "p ! (i + 1)" "p ! i"] by (simp add: le32dec_def be_word_def ac_simps)
qed

lemma le32enc_le_bytes: "le32enc x = le_bytes 4 x"
  using be32enc_be_bytes [of x] by (simp add: le32enc_def be32enc_def be_bytes_def numeral_eq_Suc)

lemma words_in:
  assumes "4 * n \<le> length B"
  shows "map (\<lambda>k. le32dec B (4 * k)) [0..<n] = words32_of (take (4 * n) B)"
proof (rule nth_equalityI)
  show "length (map (\<lambda>k. le32dec B (4 * k)) [0..<n]) = length (words32_of (take (4 * n) B))"
    using assms by (simp add: length_words32_of)
next
  fix i
  assume "i < length (map (\<lambda>k. le32dec B (4 * k)) [0..<n])"
  then have i: "i < n" by simp
  have "take 4 (drop (4 * i) (take (4 * n) B)) = take 4 (drop (4 * i) B)"
    using i by (simp add: drop_take min_def)
  then show "map (\<lambda>k. le32dec B (4 * k)) [0..<n] ! i = words32_of (take (4 * n) B) ! i"
    using i assms by (simp add: words32_of_def length_chunks nth_chunks le32dec_le_word)
qed

lemma words_out:
  assumes "4 * n \<le> length B" and "n \<le> length X"
  shows "fold (\<lambda>k B. copy_at B (4 * k) (le32enc (X ! k))) [0..<n] B = bytes32_of (take n X) @ drop (4 * n) B"
  using assms
proof (induction n)
  case (Suc n)
  have "bytes32_of (take (Suc n) X) = bytes32_of (take n X) @ le_bytes 4 (X ! n)"
    using Suc.prems by (simp add: bytes32_of_def take_Suc_conv_app_nth)
  with Suc show ?case by (simp add: copy_at_def le32enc_le_bytes add.commute)
qed (simp add: bytes32_of_def)

theorem smix_value:
  assumes "128 * r \<le> length B" and "64 * r + 16 \<le> length XY" and "0 < r" and "N = 2 ^ k" and "0 < k" and "k \<le> 64"
    and "32 * r * N \<le> length V"
  shows "smix B r N V XY = Some (bytes32_of (romix_spec r N (words32_of (take (128 * r) B))) @ drop (128 * r) B)"
proof -
  obtain h where h: "N = 2 * h" using assms(4,5) by (cases k) auto
  define X0 where "X0 = words32_of (take (128 * r) B)"
  define Y where "Y = take (32 * r) (drop (32 * r) XY)"
  define Z where "Z = take 16 (drop (64 * r) XY)"
  have X0: "fold (\<lambda>k X. X[k := le32dec B (4 * k)]) [0..<32 * r] (take (32 * r) XY) = X0"
    using fold_store [of 0 "32 * r" "take (32 * r) XY" "\<lambda>k. le32dec B (4 * k)"] words_in [of "32 * r" B] assms(1,2)
    by (simp add: X0_def)
  have len: "length X0 = 32 * r" using assms(1) by (simp add: X0_def length_words32_of)
  have "filled r X0 (length V) 0 (V, X0, Y, Z)"
    using len assms(2) by (simp add: filled_def pads_ok_def romix_V_def Y_def Z_def)
  moreover have "\<exists>s'. smix_fill r (2 * t) s = Some s' \<and> filled r X0 (length V) (Suc t) s'"
    if "t < h" "filled r X0 (length V) t s" for t s
  proof (rule filled_step [OF len assms(3) _ that(2)])
    have "32 * r * (2 * Suc t) \<le> 32 * r * N" using that(1) h by (simp only: mult_le_mono2 Suc_leI)
    then show "32 * r * (2 * Suc t) \<le> length V" using assms(7) by simp
  qed
  ultimately obtain s where s: "loop_opt (smix_fill r) (by_two N) (V, X0, Y, Z) = Some s" "filled r X0 (length V) h s"
    using loop_opt_invariant [of "filled r X0 (length V)" _ h "smix_fill r" "\<lambda>t. 2 * t"] unfolding h by_two_double by blast
  obtain V' p where p: "s = (V', p)" "length V' = length V" "take (32 * r * N) V' = concat (map (romix_V r X0) [0..<N])"
      "pads_ok r (romix_V r X0 N) p"
    using s(2) h by (cases s) (auto simp: filled_def)
  let ?I = "\<lambda>t. pads_ok r ((romix_step r N X0 ^^ (2 * t)) (romix_V r X0 N))"
  have "\<exists>s'. smix_mix V' r N (2 * t) s = Some s' \<and> ?I (Suc t) s'" if "?I t s" for t s
    using mix_step [OF len assms(3,4,6) _ p(3) that] assms(7) p(2) by simp
  then obtain s' where s': "loop_opt (smix_mix V' r N) (by_two N) p = Some s'" "?I h s'"
    using loop_opt_invariant [of ?I p h "smix_mix V' r N" "\<lambda>t. 2 * t"] p(4) unfolding h by_two_double by auto
  obtain Y' Z' where "s' = (romix_spec r N X0, Y', Z')" "length (romix_spec r N X0) = 32 * r"
    using s'(2) h by (auto simp: pads_ok_def romix_spec_def)
  then show ?thesis
    using s(1) s'(1) assms(1,2) words_out [of "32 * r" B "romix_spec r N X0"]
    by (cases p) (simp add: smix_def X0 Let_def p(1) Y_def [symmetric] Z_def [symmetric] X0_def [symmetric])
qed

section \<open>scrypt\<close>

definition scrypt_spec :: "bytes \<Rightarrow> nat \<Rightarrow> nat \<Rightarrow> bytes" where
  "scrypt_spec P N r =
     pbkdf2_spec P (bytes32_of (romix_spec r N (words32_of (pbkdf2_spec P P 1 (128 * r))))) 1 32"

lemma scrypt_align_less: "scrypt_align base < 64"
proof -
  have 63: "(63 :: u64) = mask 6" by (simp add: mask_eq_exp_minus_1)
  have "x AND NOT (mask 6) = push_bit 6 (drop_bit 6 x)" for x :: u64
    by (rule bit_word_eqI) (auto simp: bit_simps)
  then have "((base + 63) AND NOT 63) + take_bit 6 (base + 63) = base + 63"
    by (simp only: 63 bits_ident)
  then have "((base + 63) AND NOT 63) - base = 63 - take_bit 6 (base + 63)"
    by (simp add: algebra_simps)
  moreover have "unat (take_bit 6 (base + 63)) < 2 ^ 6"
    unfolding unsigned_take_bit_eq by (rule take_bit_nat_less_exp)
  then have "take_bit 6 (base + 63) \<le> (63 :: u64)" by (simp add: word_le_nat_alt)
  ultimately have "((base + 63) AND NOT 63) - base \<le> 63" by (simp add: word_le_nat_alt unat_sub)
  then show ?thesis by (simp add: scrypt_align_def word_le_nat_alt)
qed

definition scrypt_total :: "u32 \<Rightarrow> u32 \<Rightarrow> nat" where
  "scrypt_total N R = 128 * (unat N * unat R) + 384 * unat R + 128"

lemma u32_of_nat: "w = of_nat n \<Longrightarrow> unat (w :: u32) = n mod 2 ^ 32"
  by (simp only: unsigned_of_nat take_bit_eq_mod) simp

lemma scrypt_room: "unat (128 * N * R + 128 * R + 256 * R + 64 + 64) = scrypt_total N R mod 2 ^ 32"
  by (rule u32_of_nat) (simp add: scrypt_total_def algebra_simps)

lemma scrypt_B: "unat (128 * R :: u32) = 128 * unat R mod 2 ^ 32"
  and scrypt_XY: "unat (256 * R + 64 :: u32) = (256 * unat R + 64) mod 2 ^ 32"
  by (rule u32_of_nat, simp)+

lemma scrypt_sizes:
  assumes "scrypt_total N R < 2 ^ 32"
  shows "unat (128 * N * R + 128 * R + 256 * R + 64 + 64) = scrypt_total N R"
    and "unat (128 * R) = 128 * unat R" and "unat (256 * R + 64) = 256 * unat R + 64"
  using assms unfolding scrypt_room scrypt_B scrypt_XY by (simp_all add: scrypt_total_def)

lemma scrypt_parts_ok:
  assumes "room = scrypt_total N R" and "scrypt_total N R < 2 ^ 32"
  obtains nV where "scrypt_parts base room R = (128 * unat R, 256 * unat R + 64, nV)" and "128 * (unat N * unat R) \<le> nV"
proof
  let ?r = "unat R"
  show "scrypt_parts base room R = (128 * ?r, 256 * ?r + 64, room - (scrypt_align base + 128 * ?r + (256 * ?r + 64)))"
    using scrypt_align_less [of base] by (simp add: scrypt_parts_def Let_def assms(1) scrypt_sizes [OF assms(2)] scrypt_total_def)
  show "128 * (unat N * ?r) \<le> room - (scrypt_align base + 128 * ?r + (256 * ?r + 64))"
    using scrypt_align_less [of base] by (simp add: assms(1) scrypt_total_def)
qed

lemma length_romix_step:
  assumes "length X0 = 32 * r" and "0 < r" and "length X = 32 * r"
  shows "length ((romix_step r N X0 ^^ n) X) = 32 * r"
  by (induction n) (simp_all add: assms romix_step_def length_blockmix_spec length_romix_V)

lemma length_romix_spec: "length X = 32 * r \<Longrightarrow> 0 < r \<Longrightarrow> length (romix_spec r N X) = 32 * r"
  by (simp add: romix_spec_def length_romix_step length_romix_V)

theorem scrypt_value:
  assumes "hmac_bufs ctx" and "unat N = 2 ^ k" and "0 < k" and "0 < R" and "scrypt_total N R < 2 ^ 32"
  shows "scrypt_N_R_1_256 ctx mem memw base input N R = Some (scrypt_spec input (unat N) (unat R))"
proof -
  let ?r = "unat R"
  have r: "0 < ?r" using assms(4) by (simp add: word_gt_0 unat_gt_0)
  obtain nV where parts: "scrypt_parts base (scrypt_total N R) R = (128 * ?r, 256 * ?r + 64, nV)"
      and nV: "128 * (unat N * ?r) \<le> nV"
    using scrypt_parts_ok [OF refl assms(5)] by blast
  let ?B = "map mem [0..<128 * ?r]"
  let ?P = "pbkdf2_spec input input 1 (128 * ?r)"
  let ?M = "romix_spec ?r (unat N) (words32_of ?P)"
  have B: "PBKDF2_SHA256 ctx input input 1 ?B (128 * ?r) = Some ?P"
    using PBKDF2_value [OF assms(1), of 1 "128 * ?r" ?B input input] by simp
  have "(2 :: nat) ^ k < 2 ^ 32"
    unfolding assms(2) [symmetric] using unsigned_less [of N] by simp
  then have k: "k \<le> 64" using power_less_imp_less_exp [of "2 :: nat" k 32] by simp
  have V: "32 * ?r * unat N \<le> nV div 4" using nV by (simp add: less_eq_div_iff_mult_less_eq algebra_simps)
  have "smix ?P ?r (unat N) (map memw [0..<nV div 4]) (map memw [0..<(256 * ?r + 64) div 4]) = Some (bytes32_of ?M)"
    by (subst smix_value [OF _ _ r assms(2,3) k]) (use V in simp_all)
  moreover have "length (bytes32_of ?M) = 128 * ?r"
    by (simp add: length_romix_spec [OF _ r] length_words32_of)
  moreover have "PBKDF2_SHA256 ctx input (bytes32_of ?M) 1 (replicate 32 0) 32 = Some (scrypt_spec input (unat N) ?r)"
    using PBKDF2_value [OF assms(1), of 1 32 "replicate 32 0" input "bytes32_of ?M"]
    by (simp add: scrypt_spec_def)
  ultimately show ?thesis
    unfolding scrypt_N_R_1_256_def scrypt_sizes [OF assms(5)] scrypt_N_R_1_256_sp_def parts
    by (simp add: scrypt_sizes [OF assms(5)] B [simplified])
qed

section \<open>Costs for which the memory is too small\<close>

lemma blkcpy_inside:
  assumes "blkcpy dest d src s len = Some dest'"
  shows "d + 2 * (len div 8) \<le> length dest" and "length dest' = length dest"
proof -
  show le: "d + 2 * (len div 8) \<le> length dest" using assms by (simp add: blkcpy_def Let_def split: if_splits)
  have "s + 2 * (len div 8) \<le> length src" using assms by (simp add: blkcpy_def Let_def split: if_splits)
  with assms le have "dest' = copy_at dest d (take (2 * (len div 8)) (drop s src))" by (simp add: blkcpy_eq)
  with le \<open>s + _ \<le> _\<close> show "length dest' = length dest" by simp
qed

lemma fill_inside:
  assumes "smix_fill r i s = Some s'"
  shows "32 * r * (i + 2) \<le> length (fst s)" and "length (fst s') = length (fst s)"
proof -
  obtain V X Y Z where s: "s = (V, X, Y, Z)" by (cases s)
  obtain V1 V2 Y' where v: "blkcpy V (i * (32 * r)) X 0 (128 * r) = Some V1"
      "blkcpy V1 ((i + 1) * (32 * r)) Y' 0 (128 * r) = Some V2" "fst s' = V2"
    using assms by (auto simp: s smix_fill_def bind_eq_Some_conv)
  from blkcpy_inside [OF v(1)] blkcpy_inside [OF v(2)] show "32 * r * (i + 2) \<le> length (fst s)" "length (fst s') = length (fst s)"
    using v(3) by (simp_all add: s algebra_simps)
qed

lemma loop_inside:
  "loop_opt (smix_fill r) is s = Some s' \<Longrightarrow> i \<in> set is \<Longrightarrow> 32 * r * (i + 2) \<le> length (fst s)"
proof (induction "is" arbitrary: s)
  case (Cons k "is")
  then obtain s1 where s1: "smix_fill r k s = Some s1" "loop_opt (smix_fill r) is s1 = Some s'"
    by (auto simp: bind_eq_Some_conv)
  show ?case using Cons.IH [OF s1(2)] Cons.prems(2) fill_inside [OF s1(1)] by auto
qed simp

lemma smix_inside:
  assumes "smix B r N V XY = Some B'" and "0 < N"
  shows "128 * r \<le> length B" and "64 * r + 16 \<le> length XY" and "32 * r * (N + N mod 2) \<le> length V"
proof -
  show "128 * r \<le> length B" "64 * r + 16 \<le> length XY" using assms(1) by (simp_all add: smix_def split: if_splits)
  obtain X Y Z s' where l: "loop_opt (smix_fill r) (by_two N) (V, X, Y, Z) = Some s'"
    using assms(1) by (auto simp: smix_def Let_def bind_eq_Some_conv split: if_splits)
  let ?i = "2 * ((N + 1) div 2 - 1)"
  have "(N + 1) div 2 \<noteq> 0" using assms(2) by simp
  then have "?i \<in> set (by_two N)" by (simp add: by_two_def)
  moreover have "?i + 2 = N + N mod 2" using assms(2) by (cases "even N") (auto elim!: evenE oddE)
  ultimately show "32 * r * (N + N mod 2) \<le> length V" using loop_inside [OF l] by fastforce
qed

lemma scrypt_parts_le:
  assumes "scrypt_parts base room R = (nB, nXY, nV)"
  shows "nB \<le> unat (128 * R)" and "nXY \<le> unat (256 * R + 64)"
    and "nV = room - (scrypt_align base + unat (128 * R) + unat (256 * R + 64))"
proof -
  have "min (a + b) c - a \<le> b" for a b c :: nat by (auto simp: min_def)
  from this [of "scrypt_align base" "unat (128 * R)"] this [of "scrypt_align base + unat (128 * R)" "unat (256 * R + 64)"]
  show "nB \<le> unat (128 * R)" "nXY \<le> unat (256 * R + 64)" using assms by (auto simp: scrypt_parts_def Let_def)
  show "nV = room - (scrypt_align base + unat (128 * R) + unat (256 * R + 64))"
    using assms by (simp add: scrypt_parts_def Let_def)
qed

text \<open>
  For these costs the last row of \<open>V\<close> that the filling loop stores ends behind the block, wherever the parts
  are: \<open>None\<close> is a write outside the memory of the process, not only outside a part.
\<close>

lemma scrypt_last_row:
  assumes "0 < R" and "0 < N" and "odd (unat N) \<or> 2 ^ 32 \<le> scrypt_total N R"
  shows "unat (128 * N * R + 128 * R + 256 * R + 64 + 64) <
    scrypt_align base + unat (128 * R) + unat (256 * R + 64) + 128 * unat R * (unat N + unat N mod 2)"
proof -
  let ?r = "unat R" and ?n = "unat N" and ?room = "scrypt_total N R mod 2 ^ 32"
  have pos: "0 < ?r" "0 < ?n" using assms(1,2) by (simp_all add: word_gt_0 unat_gt_0)
  have room: "?room < 2 ^ 32" by simp
  show ?thesis
  proof (cases "2 ^ 32 \<le> 128 * ?r * (?n + ?n mod 2)")
    case True
    then show ?thesis using room unfolding scrypt_room by linarith
  next
    case False
    have two: "2 \<le> ?n + ?n mod 2" using pos(2) by (cases "?n = 1") auto
    have "?r * 2 \<le> ?r * (?n + ?n mod 2)" using two by (rule mult_le_mono2)
    moreover have "128 * (?r * (?n + ?n mod 2)) < 2 ^ 32" using False by (simp only: mult.assoc not_le)
    ultimately have "128 * (?r * 2) < 2 ^ 32" by linarith
    then have "?r < 2 ^ 24" by simp
    then have sizes: "unat (128 * R) = 128 * ?r" "unat (256 * R + 64) = 256 * ?r + 64"
      unfolding scrypt_B scrypt_XY by simp_all
    show ?thesis
    proof (cases "2 ^ 32 \<le> scrypt_total N R")
      case True
      then have "?room \<le> scrypt_total N R - 2 ^ 32" by (metis le_mod_geq mod_less_eq_dividend)
      with True show ?thesis unfolding scrypt_room sizes by (simp add: scrypt_total_def algebra_simps)
    next
      case False
      with assms(3) have "?n mod 2 = 1" by (simp add: odd_iff_mod_2_eq_one)
      with pos(1) False show ?thesis unfolding scrypt_room sizes by (simp add: scrypt_total_def algebra_simps)
    qed
  qed
qed

theorem scrypt_outside:
  assumes "hmac_bufs ctx" and "0 < R" and "0 < N" and "odd (unat N) \<or> 2 ^ 32 \<le> scrypt_total N R"
  shows "scrypt_N_R_1_256 ctx mem memw base input N R = None"
proof (rule ccontr)
  let ?r = "unat R" and ?n = "unat N" and ?room = "scrypt_total N R mod 2 ^ 32"
  have pos: "0 < ?r" "0 < ?n" using assms(2,3) by (simp_all add: word_gt_0 unat_gt_0)
  obtain nB nXY nV where parts: "scrypt_parts base ?room R = (nB, nXY, nV)" by (cases "scrypt_parts base ?room R")
  assume "scrypt_N_R_1_256 ctx mem memw base input N R \<noteq> None"
  then obtain B B' where P: "PBKDF2_SHA256 ctx input input 1 (map mem [0..<nB]) (unat (128 * R)) = Some B"
      and m: "smix B ?r ?n (map memw [0..<nV div 4]) (map memw [0..<nXY div 4]) = Some B'"
    unfolding scrypt_N_R_1_256_def scrypt_room scrypt_N_R_1_256_sp_def parts
    by (auto simp: Let_def bind_eq_Some_conv split: if_splits)
  then have nB: "unat (128 * R) \<le> nB" by (auto simp: PBKDF2_SHA256_def split: if_splits)
  then have "length B = nB" using P by (simp add: PBKDF2_value [OF assms(1)]) auto
  with smix_inside [OF m pos(2)] have le: "128 * ?r \<le> nB" "64 * ?r + 16 \<le> nXY div 4" "32 * ?r * (?n + ?n mod 2) \<le> nV div 4"
    by simp_all
  note eq = scrypt_parts_le [OF parts]
  have fits: "a + b + c \<le> m" if "a \<le> a'" "b \<le> b'" "c \<le> m - (l + a' + b')" "0 < c" for a a' b b' c l m :: nat
    using that by linarith
  have quarter: "x \<le> y div 4 \<Longrightarrow> 4 * x \<le> y" for x y :: nat by simp
  have room: "128 * ?r + (256 * ?r + 64) + 4 * (32 * ?r * (?n + ?n mod 2)) \<le> ?room"
  proof (rule fits)
    show "128 * ?r \<le> unat (128 * R)" using le(1) eq(1) by (rule le_trans)
    show "256 * ?r + 64 \<le> unat (256 * R + 64)" using quarter [OF le(2)] eq(2) by simp
    show "4 * (32 * ?r * (?n + ?n mod 2)) \<le> ?room - (scrypt_align base + unat (128 * R) + unat (256 * R + 64))"
      using quarter [OF le(3)] unfolding eq(3) .
    show "0 < 4 * (32 * ?r * (?n + ?n mod 2))" using pos by simp
  qed
  show False
  proof (cases "2 ^ 32 \<le> scrypt_total N R")
    case True
    then have "?room \<le> scrypt_total N R - 2 ^ 32" by (metis le_mod_geq mod_less_eq_dividend)
    with room True show ?thesis by (simp add: scrypt_total_def algebra_simps)
  next
    case False
    with assms(4) have "?n mod 2 = 1" by (simp add: odd_iff_mod_2_eq_one)
    with room pos(1) False show ?thesis by (simp add: scrypt_total_def algebra_simps)
  qed
qed

end
