(* ===== verification/Lyra_Sponge.thy ===== *)
theory Lyra_Sponge
  imports Prelude "HOL-Library.Monad_Syntax"
begin

unbundle bit_operations_syntax

text \<open>
  The sponge of Lyra2: \<open>src/src/Native/libmultihash/Sponge.c\<close> and \<open>Sponge.h\<close>. The matrix is one block of memory, a list
  of 64-bit words, and a row is an offset in it, as in the code, because the rows that a step reads and writes may be
  the same. An access outside of the matrix is \<open>None\<close>.

  The specification works on a matrix of blocks. The lemmas show that each function on rows simulates the
  function of the specification (\<open>lyra_sim\<close>), for rows that are equal and for rows that are not.
\<close>

section \<open>The permutation\<close>

definition lyra_IV :: "u64 list" where
  "lyra_IV = [0x6A09E667F3BCC908, 0xBB67AE8584CAA73B, 0x3C6EF372FE94F82B, 0xA54FF53A5F1D36F1,
     0x510E527FADE682D1, 0x9B05688C2B3E6C1F, 0x1F83D9ABFB41BD6B, 0x5BE0CD19137E2179]"

definition lyra_G :: "nat \<Rightarrow> nat \<Rightarrow> nat \<Rightarrow> nat \<Rightarrow> u64 list \<Rightarrow> u64 list" where
  "lyra_G a b c d v =
     (let v = v[a := v ! a + v ! b];
          v = v[d := ror64 (v ! d XOR v ! a) 32];
          v = v[c := v ! c + v ! d];
          v = v[b := ror64 (v ! b XOR v ! c) 24];
          v = v[a := v ! a + v ! b];
          v = v[d := ror64 (v ! d XOR v ! a) 16];
          v = v[c := v ! c + v ! d]
      in v[b := ror64 (v ! b XOR v ! c) 63])"

definition ROUND_LYRA :: "u64 list \<Rightarrow> u64 list" where
  "ROUND_LYRA v =
     (let v = lyra_G 0 4 8 12 v;
          v = lyra_G 1 5 9 13 v;
          v = lyra_G 2 6 10 14 v;
          v = lyra_G 3 7 11 15 v;
          v = lyra_G 0 5 10 15 v;
          v = lyra_G 1 6 11 12 v;
          v = lyra_G 2 7 8 13 v
      in lyra_G 3 4 9 14 v)"

definition initState :: "u64 list \<Rightarrow> u64 list" where
  "initState state =
     (let state = copy_at state 0 (replicate 8 0)
      in fold (\<lambda>k state. state[8 + k := lyra_IV ! k]) [0..<8] state)"

definition blake2bLyra :: "u64 list \<Rightarrow> u64 list" where
  "blake2bLyra v = fold (\<lambda>r. ROUND_LYRA) [0..<12] v"

definition reducedBlake2bLyra :: "u64 list \<Rightarrow> u64 list" where
  "reducedBlake2bLyra v = ROUND_LYRA v"

section \<open>The sponge\<close>

text \<open>\<open>state[k] ^= f k\<close> for the first \<open>n\<close> words, and stores of \<open>n\<close> words from \<open>p\<close> on, one after the other.\<close>

definition state_xor :: "nat \<Rightarrow> (nat \<Rightarrow> u64) \<Rightarrow> u64 list \<Rightarrow> u64 list" where
  "state_xor n f state = fold (\<lambda>k state. state[k := state ! k XOR f k]) [0..<n] state"

definition lyra_store :: "nat \<Rightarrow> (nat \<Rightarrow> u64 list \<Rightarrow> u64) \<Rightarrow> u64 list \<Rightarrow> u64 list" where
  "lyra_store p f mem = fold (\<lambda>k mem. mem[p + k := f k mem]) [0..<12] mem"

text \<open>\<open>squeeze(state, out, len)\<close>: \<open>len\<close> is an \<open>unsigned int\<close>.\<close>

definition lyra_squeeze :: "u64 list \<Rightarrow> bytes \<Rightarrow> u32 \<Rightarrow> (u64 list \<times> bytes) option" where
  "lyra_squeeze state out len =
     (if length out < unat len then None
      else
        let fullBlocks = unat len div 96;
            (state, out) = fold (\<lambda>i (state, out). (blake2bLyra state, copy_at out (96 * i) (take 96 (bytes_of state))))
              [0..<fullBlocks] (state, out)
        in Some (state, copy_at out (96 * fullBlocks) (take (unat len mod 96) (bytes_of state))))"

definition absorbBlock :: "u64 list \<Rightarrow> u64 list \<Rightarrow> nat \<Rightarrow> u64 list option" where
  "absorbBlock state mem p =
     (if p + 12 \<le> length mem then Some (blake2bLyra (state_xor 12 (\<lambda>k. mem ! (p + k)) state)) else None)"

definition absorbBlockBlake2Safe :: "u64 list \<Rightarrow> u64 list \<Rightarrow> nat \<Rightarrow> u64 list option" where
  "absorbBlockBlake2Safe state mem p =
     (if p + 8 \<le> length mem then Some (blake2bLyra (state_xor 8 (\<lambda>k. mem ! (p + k)) state)) else None)"

text \<open>The loop over the columns; its counter is an \<open>int\<close>.\<close>

definition lyra_columns :: "nat \<Rightarrow> (nat \<Rightarrow> u64 list \<times> u64 list \<Rightarrow> (u64 list \<times> u64 list) option) \<Rightarrow>
    u64 list \<times> u64 list \<Rightarrow> (u64 list \<times> u64 list) option" where
  "lyra_columns nCols body s = (if 2 ^ 31 \<le> nCols then None else loop_opt body [0..<nCols] s)"

definition squeezeRow0_body :: "nat \<Rightarrow> nat \<Rightarrow> nat \<Rightarrow> u64 list \<times> u64 list \<Rightarrow> (u64 list \<times> u64 list) option" where
  "squeezeRow0_body rowOut nCols i s =
     (case s of (state, mem) \<Rightarrow>
        let p = rowOut + (nCols - 1 - i) * 12
        in if p + 12 \<le> length mem
           then Some (reducedBlake2bLyra state, lyra_store p (\<lambda>k mem. state ! k) mem) else None)"

definition reducedSqueezeRow0 :: "nat \<Rightarrow> nat \<Rightarrow> u64 list \<times> u64 list \<Rightarrow> (u64 list \<times> u64 list) option" where
  "reducedSqueezeRow0 rowOut nCols = lyra_columns nCols (squeezeRow0_body rowOut nCols)"

definition duplexRow1_body :: "nat \<Rightarrow> nat \<Rightarrow> nat \<Rightarrow> nat \<Rightarrow> u64 list \<times> u64 list \<Rightarrow> (u64 list \<times> u64 list) option" where
  "duplexRow1_body rowIn rowOut nCols i s =
     (case s of (state, mem) \<Rightarrow>
        let pin = rowIn + i * 12; pout = rowOut + (nCols - 1 - i) * 12
        in if pin + 12 \<le> length mem \<and> pout + 12 \<le> length mem
           then
             let state = reducedBlake2bLyra (state_xor 12 (\<lambda>k. mem ! (pin + k)) state)
             in Some (state, lyra_store pout (\<lambda>k mem. mem ! (pin + k) XOR state ! k) mem)
           else None)"

definition reducedDuplexRow1 :: "nat \<Rightarrow> nat \<Rightarrow> nat \<Rightarrow> u64 list \<times> u64 list \<Rightarrow> (u64 list \<times> u64 list) option" where
  "reducedDuplexRow1 rowIn rowOut nCols = lyra_columns nCols (duplexRow1_body rowIn rowOut nCols)"

definition duplexRowSetup_body ::
    "nat \<Rightarrow> nat \<Rightarrow> nat \<Rightarrow> nat \<Rightarrow> nat \<Rightarrow> u64 list \<times> u64 list \<Rightarrow> (u64 list \<times> u64 list) option" where
  "duplexRowSetup_body rowIn rowInOut rowOut nCols i s =
     (case s of (state, mem) \<Rightarrow>
        let pin = rowIn + i * 12; pio = rowInOut + i * 12; pout = rowOut + (nCols - 1 - i) * 12
        in if pin + 12 \<le> length mem \<and> pio + 12 \<le> length mem \<and> pout + 12 \<le> length mem
           then
             let state = reducedBlake2bLyra (state_xor 12 (\<lambda>k. mem ! (pin + k) + mem ! (pio + k)) state);
                 mem = lyra_store pout (\<lambda>k mem. mem ! (pin + k) XOR state ! k) mem;
                 mem = lyra_store pio (\<lambda>k mem. mem ! (pio + k) XOR state ! ((k + 11) mod 12)) mem
             in Some (state, mem)
           else None)"

definition reducedDuplexRowSetup ::
    "nat \<Rightarrow> nat \<Rightarrow> nat \<Rightarrow> nat \<Rightarrow> u64 list \<times> u64 list \<Rightarrow> (u64 list \<times> u64 list) option" where
  "reducedDuplexRowSetup rowIn rowInOut rowOut nCols =
     lyra_columns nCols (duplexRowSetup_body rowIn rowInOut rowOut nCols)"

definition duplexRow_body ::
    "nat \<Rightarrow> nat \<Rightarrow> nat \<Rightarrow> nat \<Rightarrow> u64 list \<times> u64 list \<Rightarrow> (u64 list \<times> u64 list) option" where
  "duplexRow_body rowIn rowInOut rowOut i s =
     (case s of (state, mem) \<Rightarrow>
        let pin = rowIn + i * 12; pio = rowInOut + i * 12; pout = rowOut + i * 12
        in if pin + 12 \<le> length mem \<and> pio + 12 \<le> length mem \<and> pout + 12 \<le> length mem
           then
             let state = reducedBlake2bLyra (state_xor 12 (\<lambda>k. mem ! (pin + k) + mem ! (pio + k)) state);
                 mem = lyra_store pout (\<lambda>k mem. mem ! (pout + k) XOR state ! k) mem;
                 mem = lyra_store pio (\<lambda>k mem. mem ! (pio + k) XOR state ! ((k + 11) mod 12)) mem
             in Some (state, mem)
           else None)"

definition reducedDuplexRow ::
    "nat \<Rightarrow> nat \<Rightarrow> nat \<Rightarrow> nat \<Rightarrow> u64 list \<times> u64 list \<Rightarrow> (u64 list \<times> u64 list) option" where
  "reducedDuplexRow rowIn rowInOut rowOut nCols = lyra_columns nCols (duplexRow_body rowIn rowInOut rowOut)"

section \<open>The specification\<close>

text \<open>
  A matrix gives the block of twelve words at a row and a column. \<open>absorb_block\<close> adds a block to the state, \<open>rotW\<close>
  rotates a block by one word.
\<close>

type_synonym lyra_matrix = "nat \<Rightarrow> nat \<Rightarrow> u64 list"

definition set_cell :: "lyra_matrix \<Rightarrow> nat \<Rightarrow> nat \<Rightarrow> u64 list \<Rightarrow> lyra_matrix" where
  "set_cell M r c b = M(r := (M r)(c := b))"

definition absorb_block :: "u64 list \<Rightarrow> u64 list \<Rightarrow> u64 list" where
  "absorb_block b S = map2 (XOR) (take (length b) S) b @ drop (length b) S"

definition rotW :: "u64 list \<Rightarrow> u64 list" where
  "rotW b = last b # butlast b"

definition squeeze_col :: "nat \<Rightarrow> nat \<Rightarrow> u64 list \<times> lyra_matrix \<Rightarrow> u64 list \<times> lyra_matrix" where
  "squeeze_col C i s = (case s of (S, M) \<Rightarrow> (ROUND_LYRA S, set_cell M 0 (C - 1 - i) (take 12 S)))"

definition row1_col :: "nat \<Rightarrow> nat \<Rightarrow> u64 list \<times> lyra_matrix \<Rightarrow> u64 list \<times> lyra_matrix" where
  "row1_col C i s =
     (case s of (S, M) \<Rightarrow>
        let S = ROUND_LYRA (absorb_block (M 0 i) S) in (S, set_cell M 1 (C - 1 - i) (map2 (XOR) (M 0 i) (take 12 S))))"

definition setup_col :: "nat \<Rightarrow> nat \<Rightarrow> nat \<Rightarrow> nat \<Rightarrow> nat \<Rightarrow> u64 list \<times> lyra_matrix \<Rightarrow> u64 list \<times> lyra_matrix" where
  "setup_col C prev rowa row i s =
     (case s of (S, M) \<Rightarrow>
        let S = ROUND_LYRA (absorb_block (map2 (+) (M prev i) (M rowa i)) S);
            M = set_cell M row (C - 1 - i) (map2 (XOR) (M prev i) (take 12 S))
        in (S, set_cell M rowa i (map2 (XOR) (M rowa i) (rotW (take 12 S)))))"

definition wander_col :: "nat \<Rightarrow> nat \<Rightarrow> nat \<Rightarrow> nat \<Rightarrow> u64 list \<times> lyra_matrix \<Rightarrow> u64 list \<times> lyra_matrix" where
  "wander_col prev rowa row i s =
     (case s of (S, M) \<Rightarrow>
        let S = ROUND_LYRA (absorb_block (map2 (+) (M prev i) (M rowa i)) S);
            M = set_cell M row i (map2 (XOR) (M row i) (take 12 S))
        in (S, set_cell M rowa i (map2 (XOR) (M rowa i) (rotW (take 12 S)))))"

section \<open>Cells of the memory\<close>

definition cell :: "nat \<Rightarrow> u64 list \<Rightarrow> nat \<Rightarrow> nat \<Rightarrow> u64 list" where
  "cell C mem r c = take 12 (drop (12 * (r * C + c)) mem)"

lemma cell_index:
  fixes r R c C :: nat
  assumes "r < R" and "c < C"
  shows "12 * (r * C + c) + 12 \<le> 12 * (R * C)"
proof -
  have "r * C + c + 1 \<le> r * C + C" using assms(2) by simp
  also have "\<dots> = Suc r * C" by simp
  also have "\<dots> \<le> R * C" using assms(1) by (intro mult_le_mono1) simp
  finally show ?thesis by simp
qed

lemma cell_inj:
  fixes r c C :: nat
  assumes "c < C" and "c' < C" and "r * C + c = r' * C + c'"
  shows "r = r' \<and> c = c'"
proof -
  have "(r * C + c) div C = r" "(r' * C + c') div C = r'" using assms(1,2) by simp_all
  with assms(3) show ?thesis by simp
qed

lemma block_copy_at:
  assumes "12 * j + 12 \<le> length mem" and "12 * i + 12 \<le> length mem" and "length b = 12"
  shows "take 12 (drop (12 * i) (copy_at mem (12 * j) b)) = (if i = j then b else take 12 (drop (12 * i) mem))"
proof (cases "i = j")
  case True
  then show ?thesis using assms by (simp add: copy_at_def)
next
  case False
  then have "i < j \<or> j < i" by linarith
  then show ?thesis
  proof
    assume "i < j"
    then have "12 * i + 12 \<le> 12 * j" by simp
    then show ?thesis using False assms by (auto simp: copy_at_def intro!: nth_equalityI simp: nth_append)
  next
    assume "j < i"
    then have "12 * j + 12 \<le> 12 * i" by simp
    then show ?thesis using False assms by (auto simp: copy_at_def intro!: nth_equalityI simp: nth_append)
  qed
qed

text \<open>The memory holds the blocks of the matrix at the places \<open>A\<close>.\<close>

definition lyra_repr :: "nat \<Rightarrow> nat \<Rightarrow> (nat \<times> nat) set \<Rightarrow> lyra_matrix \<Rightarrow> u64 list \<Rightarrow> bool" where
  "lyra_repr R C A M mem \<longleftrightarrow>
     length mem = 12 * (R * C) \<and> A \<subseteq> {..<R} \<times> {..<C} \<and> (\<forall>(r, c) \<in> A. M r c = cell C mem r c)"

lemma repr_cell:
  assumes "lyra_repr R C A M mem" and "(r, c) \<in> A"
  shows "M r c = cell C mem r c" and "length (M r c) = 12" and "12 * (r * C + c) + 12 \<le> length mem"
proof -
  have rc: "r < R" "c < C" "length mem = 12 * (R * C)" and M: "M r c = cell C mem r c"
    using assms by (auto simp: lyra_repr_def)
  show "M r c = cell C mem r c" by (rule M)
  show "12 * (r * C + c) + 12 \<le> length mem" using cell_index [OF rc(1,2)] rc(3) by simp
  then show "length (M r c) = 12" by (simp add: M cell_def)
qed

lemma repr_update:
  assumes "lyra_repr R C A M mem" and "r < R" and "c < C" and "length b = 12"
  shows "lyra_repr R C (insert (r, c) A) (set_cell M r c b) (copy_at mem (12 * (r * C + c)) b)"
proof -
  have len: "length mem = 12 * (R * C)" and A: "A \<subseteq> {..<R} \<times> {..<C}" using assms(1) by (simp_all add: lyra_repr_def)
  have "set_cell M r c b r' c' = cell C (copy_at mem (12 * (r * C + c)) b) r' c'" if "(r', c') \<in> insert (r, c) A" for r' c'
  proof -
    have rc': "r' < R" "c' < C" using that A assms(2,3) by auto
    have "cell C (copy_at mem (12 * (r * C + c)) b) r' c' = (if r' * C + c' = r * C + c then b else cell C mem r' c')"
      unfolding cell_def using cell_index [OF assms(2,3)] cell_index [OF rc'] len assms(4) by (simp only: block_copy_at)
    moreover have "r' * C + c' = r * C + c \<longleftrightarrow> r' = r \<and> c' = c"
      using cell_inj [OF rc'(2) assms(3)] by blast
    moreover have "M r' c' = cell C mem r' c'" if "(r', c') \<noteq> (r, c)"
      using \<open>(r', c') \<in> insert (r, c) A\<close> that assms(1) by (auto simp: lyra_repr_def)
    ultimately show ?thesis by (auto simp: set_cell_def)
  qed
  then show ?thesis
    using A assms(2-4) len cell_index [OF assms(2,3)] by (auto simp: lyra_repr_def)
qed

lemma repr_mono: "lyra_repr R C A M mem \<Longrightarrow> A' \<subseteq> A \<Longrightarrow> lyra_repr R C A' M mem"
  by (auto simp: lyra_repr_def)

lemma blocks_apart: "12 * x = 12 * y \<or> 12 * x + 12 \<le> 12 * y \<or> 12 * y + 12 \<le> 12 * x" for x y :: nat
  by arith

section \<open>One column\<close>

definition lyra_sim :: "nat \<Rightarrow> nat \<Rightarrow> (nat \<times> nat) set \<Rightarrow> u64 list \<times> lyra_matrix \<Rightarrow> u64 list \<times> u64 list \<Rightarrow> bool" where
  "lyra_sim R C A t s \<longleftrightarrow> fst s = fst t \<and> length (fst t) = 16 \<and> lyra_repr R C A (snd t) (snd s)"

lemma length_lyra_G [simp]: "length (lyra_G a b c d v) = length v"
  by (simp add: lyra_G_def Let_def)

lemma length_ROUND_LYRA [simp]: "length (ROUND_LYRA v) = length v"
  by (simp add: ROUND_LYRA_def Let_def)

lemma length_absorb_block [simp]: "length b \<le> length S \<Longrightarrow> length (absorb_block b S) = length S"
  by (simp add: absorb_block_def)

lemma state_xor_absorb:
  assumes "n \<le> length S"
  shows "state_xor n f S = absorb_block (map f [0..<n]) S"
proof -
  have "state_xor n f S = copy_at S 0 (map (\<lambda>k. S ! k XOR f k) [0..<n])"
    using fold_store_from [of 0 n S 0 "\<lambda>k x. x XOR f k"] assms by (simp add: state_xor_def)
  also have "map (\<lambda>k. S ! k XOR f k) [0..<n] = map2 (XOR) (take n S) (map f [0..<n])"
    using assms by (auto intro!: nth_equalityI)
  finally show ?thesis using assms by (simp add: copy_at_def absorb_block_def min_def)
qed

lemma map2_slices:
  assumes "p + 12 \<le> length a" and "q + 12 \<le> length b"
  shows "map (\<lambda>k. f (a ! (p + k)) (b ! (q + k))) [0..<12] = map2 f (take 12 (drop p a)) (take 12 (drop q b))"
  using assms by (auto intro!: nth_equalityI)

lemma map_rotW:
  assumes "12 \<le> length S"
  shows "map (\<lambda>k. S ! ((k + 11) mod 12)) [0..<12] = rotW (take 12 S)"
proof -
  have l: "length (take 12 S) = 12" "take 12 S \<noteq> []" using assms by auto
  have "rotW (take 12 S) ! k = S ! ((k + 11) mod 12)" if "k < 12" for k
  proof (cases k)
    case 0
    then show ?thesis using assms l by (simp add: rotW_def last_conv_nth)
  next
    case (Suc j)
    then have "(k + 11) mod 12 = j" using that by (simp add: mod_if)
    then show ?thesis using assms that Suc by (simp add: rotW_def nth_butlast)
  qed
  then show ?thesis using assms l by (auto intro!: nth_equalityI simp: rotW_def)
qed

lemma length_rotW [simp]: "b \<noteq> [] \<Longrightarrow> length (rotW b) = length b"
  by (simp add: rotW_def)

lemma store_cells:
  assumes "p + 12 \<le> length mem" and "q = p \<or> q + 12 \<le> p \<or> p + 12 \<le> q" and "q + 12 \<le> length mem" and "length ws = 12"
  shows "lyra_store p (\<lambda>k mem. mem ! (q + k) XOR ws ! k) mem = copy_at mem p (map2 (XOR) (take 12 (drop q mem)) ws)"
proof -
  have "lyra_store p (\<lambda>k mem. mem ! (q + k) XOR ws ! k) mem = copy_at mem p (map (\<lambda>k. mem ! (q + k) XOR ws ! k) [0..<12])"
    unfolding lyra_store_def using fold_store_from [OF assms(1,2), of "\<lambda>k x. x XOR ws ! k"] by simp
  then show ?thesis using map2_slices [of q mem 0 ws "(XOR)"] assms(3,4) by simp
qed

lemma lyra_store_cong: "(\<And>k mem. k < 12 \<Longrightarrow> f k mem = g k mem) \<Longrightarrow> lyra_store p f mem = lyra_store p g mem"
  unfolding lyra_store_def by (rule fold_cong) simp_all

text \<open>The offset of a cell in the form of the code.\<close>

lemma cell_offset: "r * (12 * C) + c * 12 = 12 * (r * C + c)" for r c C :: nat
  by (simp add: algebra_simps)

lemma squeeze_col_sim:
  assumes "lyra_sim R C A t s" and "i < C" and "0 < R"
  shows "\<exists>s'. squeezeRow0_body (0 * (12 * C)) C i s = Some s' \<and> lyra_sim R C (insert (0, C - 1 - i) A) (squeeze_col C i t) s'"
proof -
  obtain S M where t: "t = (S, M)" by (cases t)
  obtain mem where s: "s = (S, mem)" and S: "length S = 16" and r: "lyra_repr R C A M mem"
    using assms(1) by (cases s) (auto simp: lyra_sim_def t)
  let ?p = "12 * (0 * C + (C - 1 - i))"
  have p: "?p + 12 \<le> length mem" using cell_index [of 0 R "C - 1 - i" C] assms(2,3) r by (simp add: lyra_repr_def)
  have "lyra_store ?p (\<lambda>k mem. S ! k) mem = copy_at mem ?p (take 12 S)"
    using fold_store_from [OF p, of ?p "\<lambda>k x. S ! k"] map_nth_slice [of 0 12 S] S by (simp add: lyra_store_def)
  then have "squeezeRow0_body (0 * (12 * C)) C i s = Some (ROUND_LYRA S, copy_at mem ?p (take 12 S))"
    using p by (simp add: squeezeRow0_body_def s reducedBlake2bLyra_def Let_def mult.commute)
  moreover have "lyra_repr R C (insert (0, C - 1 - i) A) (set_cell M 0 (C - 1 - i) (take 12 S)) (copy_at mem ?p (take 12 S))"
    using repr_update [OF r assms(3), of "C - 1 - i" "take 12 S"] assms(2) S by simp
  ultimately show ?thesis using S by (simp add: lyra_sim_def squeeze_col_def t)
qed

lemma row1_col_sim:
  assumes "lyra_sim R C A t s" and "i < C" and "1 < R" and "(0, i) \<in> A"
  shows "\<exists>s'. duplexRow1_body (0 * (12 * C)) (1 * (12 * C)) C i s = Some s' \<and>
    lyra_sim R C (insert (1, C - 1 - i) A) (row1_col C i t) s'"
proof -
  obtain S M where t: "t = (S, M)" by (cases t)
  obtain mem where s: "s = (S, mem)" and S: "length S = 16" and r: "lyra_repr R C A M mem"
    using assms(1) by (cases s) (auto simp: lyra_sim_def t)
  let ?pin = "12 * (0 * C + i)" and ?p = "12 * (1 * C + (C - 1 - i))"
  note cin = repr_cell [OF r assms(4)]
  have p: "?p + 12 \<le> length mem" using cell_index [of 1 R "C - 1 - i" C] assms(2,3) r by (simp add: lyra_repr_def)
  define S' where "S' = ROUND_LYRA (absorb_block (M 0 i) S)"
  have S': "length S' = 16" using S cin(2) by (simp add: S'_def)
  have "ROUND_LYRA (state_xor 12 (\<lambda>k. mem ! (?pin + k)) S) = S'"
    using S cin map_nth_slice [of ?pin 12 mem] by (simp add: S'_def state_xor_absorb cell_def)
  moreover have "lyra_store ?p (\<lambda>k mem. mem ! (?pin + k) XOR S' ! k) mem = copy_at mem ?p (map2 (XOR) (M 0 i) (take 12 S'))"
    using store_cells [OF p, of ?pin "take 12 S'"] cin(1,3) S' blocks_apart [of "0 * C + i" "1 * C + (C - 1 - i)"]
    by (simp add: cell_def cong: lyra_store_cong)
  ultimately have "duplexRow1_body (0 * (12 * C)) (1 * (12 * C)) C i s = Some (S', copy_at mem ?p (map2 (XOR) (M 0 i) (take 12 S')))"
    using p cin(3) unfolding duplexRow1_body_def s cell_offset by (simp add: reducedBlake2bLyra_def Let_def)
  moreover have "lyra_repr R C (insert (1, C - 1 - i) A) (set_cell M 1 (C - 1 - i) (map2 (XOR) (M 0 i) (take 12 S')))
      (copy_at mem ?p (map2 (XOR) (M 0 i) (take 12 S')))"
    using repr_update [OF r assms(3), of "C - 1 - i" "map2 (XOR) (M 0 i) (take 12 S')"] assms(2) S' cin(2) by simp
  ultimately show ?thesis using S' by (simp add: lyra_sim_def row1_col_def t Let_def flip: S'_def)
qed

text \<open>The second store of a column, into \<open>row*\<close>, and the state after the absorption.\<close>

lemma revisit_sim:
  assumes "lyra_repr R C A M mem" and "(rowa, i) \<in> A" and "length S = 16"
  shows "lyra_repr R C A (set_cell M rowa i (map2 (XOR) (M rowa i) (rotW (take 12 S))))
    (lyra_store (12 * (rowa * C + i)) (\<lambda>k mem. mem ! (12 * (rowa * C + i) + k) XOR S ! ((k + 11) mod 12)) mem)"
proof -
  let ?p = "12 * (rowa * C + i)"
  let ?w = "rotW (take 12 S)"
  note c = repr_cell [OF assms(1,2)]
  have rc: "rowa < R" "i < C" using assms(1,2) by (auto simp: lyra_repr_def)
  have w: "length ?w = 12" "\<And>k. k < 12 \<Longrightarrow> S ! ((k + 11) mod 12) = ?w ! k"
    using length_rotW [of "take 12 S"] assms(3) by (auto simp flip: map_rotW)
  have "lyra_store ?p (\<lambda>k mem. mem ! (?p + k) XOR S ! ((k + 11) mod 12)) mem = lyra_store ?p (\<lambda>k mem. mem ! (?p + k) XOR ?w ! k) mem"
    using w(2) by (intro lyra_store_cong) simp
  also have "\<dots> = copy_at mem ?p (map2 (XOR) (M rowa i) ?w)"
    using store_cells [OF c(3) _ c(3) w(1)] c(1) by (simp add: cell_def)
  finally show ?thesis
    using repr_update [OF assms(1) rc, of "map2 (XOR) (M rowa i) ?w"] c(2) w(1) assms(2) by (simp add: insert_absorb)
qed

lemma absorb_sum:
  assumes "lyra_repr R C A M mem" and "(prev, i) \<in> A" and "(rowa, i) \<in> A" and "length S = 16"
  shows "state_xor 12 (\<lambda>k. mem ! (12 * (prev * C + i) + k) + mem ! (12 * (rowa * C + i) + k)) S =
    absorb_block (map2 (+) (M prev i) (M rowa i)) S"
  using repr_cell [OF assms(1,2)] repr_cell [OF assms(1,3)] assms(4)
    map2_slices [of "12 * (prev * C + i)" mem "12 * (rowa * C + i)" mem "(+)"]
  by (simp add: state_xor_absorb cell_def)

lemma store_sim:
  assumes "lyra_repr R C A M mem" and "(r', c') \<in> A" and "r < R" and "c < C" and "length S = 16"
  shows "lyra_repr R C (insert (r, c) A) (set_cell M r c (map2 (XOR) (M r' c') (take 12 S)))
    (lyra_store (12 * (r * C + c)) (\<lambda>k mem. mem ! (12 * (r' * C + c') + k) XOR S ! k) mem)"
proof -
  note c = repr_cell [OF assms(1,2)]
  have p: "12 * (r * C + c) + 12 \<le> length mem"
    using cell_index [OF assms(3,4)] assms(1) by (simp add: lyra_repr_def)
  have "lyra_store (12 * (r * C + c)) (\<lambda>k mem. mem ! (12 * (r' * C + c') + k) XOR S ! k) mem =
      lyra_store (12 * (r * C + c)) (\<lambda>k mem. mem ! (12 * (r' * C + c') + k) XOR take 12 S ! k) mem"
    by (intro lyra_store_cong) simp
  also have "\<dots> = copy_at mem (12 * (r * C + c)) (map2 (XOR) (M r' c') (take 12 S))"
    using store_cells [OF p blocks_apart c(3)] c(1) assms(5) by (simp add: cell_def)
  finally show ?thesis
    using repr_update [OF assms(1,3,4), of "map2 (XOR) (M r' c') (take 12 S)"] c(2) assms(5) by simp
qed

lemma setup_col_sim:
  assumes "lyra_sim R C A t s" and "i < C" and "row < R" and "(prev, i) \<in> A" and "(rowa, i) \<in> A"
  shows "\<exists>s'. duplexRowSetup_body (prev * (12 * C)) (rowa * (12 * C)) (row * (12 * C)) C i s = Some s' \<and>
    lyra_sim R C (insert (row, C - 1 - i) A) (setup_col C prev rowa row i t) s'"
proof -
  obtain S M where t: "t = (S, M)" by (cases t)
  obtain mem where s: "s = (S, mem)" and S: "length S = 16" and r: "lyra_repr R C A M mem"
    using assms(1) by (cases s) (auto simp: lyra_sim_def t)
  let ?p = "12 * (row * C + (C - 1 - i))" and ?pin = "12 * (prev * C + i)" and ?pio = "12 * (rowa * C + i)"
  have p: "?p + 12 \<le> length mem" using cell_index [of row R "C - 1 - i" C] assms(2,3) r by (simp add: lyra_repr_def)
  define S' where "S' = ROUND_LYRA (absorb_block (map2 (+) (M prev i) (M rowa i)) S)"
  have S': "length S' = 16" using S repr_cell(2) [OF r assms(4)] by (simp add: S'_def)
  let ?M1 = "set_cell M row (C - 1 - i) (map2 (XOR) (M prev i) (take 12 S'))"
  let ?mem1 = "lyra_store ?p (\<lambda>k mem. mem ! (?pin + k) XOR S' ! k) mem"
  have 1: "lyra_repr R C (insert (row, C - 1 - i) A) ?M1 ?mem1"
    by (rule store_sim [OF r assms(4,3)]) (use assms(2) S' in simp_all)
  have 2: "lyra_repr R C (insert (row, C - 1 - i) A) (set_cell ?M1 rowa i (map2 (XOR) (?M1 rowa i) (rotW (take 12 S'))))
      (lyra_store ?pio (\<lambda>k mem. mem ! (?pio + k) XOR S' ! ((k + 11) mod 12)) ?mem1)"
    by (rule revisit_sim [OF 1 _ S']) (use assms(5) in simp)
  have "duplexRowSetup_body (prev * (12 * C)) (rowa * (12 * C)) (row * (12 * C)) C i s =
      Some (S', lyra_store ?pio (\<lambda>k mem. mem ! (?pio + k) XOR S' ! ((k + 11) mod 12)) ?mem1)"
    using p repr_cell(3) [OF r assms(4)] repr_cell(3) [OF r assms(5)]
    by (simp only: duplexRowSetup_body_def s prod.case cell_offset Let_def reducedBlake2bLyra_def absorb_sum [OF r assms(4,5) S]
        S'_def [symmetric] simp_thms if_True)
  then show ?thesis
    using 2 S' by (simp only: lyra_sim_def setup_col_def t prod.case Let_def S'_def [symmetric] prod.sel simp_thms option.inject)
qed

lemma wander_col_sim:
  assumes "lyra_sim R C A t s" and "(row, i) \<in> A" and "(prev, i) \<in> A" and "(rowa, i) \<in> A"
  shows "\<exists>s'. duplexRow_body (prev * (12 * C)) (rowa * (12 * C)) (row * (12 * C)) i s = Some s' \<and>
    lyra_sim R C A (wander_col prev rowa row i t) s'"
proof -
  obtain S M where t: "t = (S, M)" by (cases t)
  obtain mem where s: "s = (S, mem)" and S: "length S = 16" and r: "lyra_repr R C A M mem"
    using assms(1) by (cases s) (auto simp: lyra_sim_def t)
  let ?p = "12 * (row * C + i)" and ?pin = "12 * (prev * C + i)" and ?pio = "12 * (rowa * C + i)"
  define S' where "S' = ROUND_LYRA (absorb_block (map2 (+) (M prev i) (M rowa i)) S)"
  have S': "length S' = 16" using S repr_cell(2) [OF r assms(3)] by (simp add: S'_def)
  have rc: "row < R" "i < C" using r assms(2) by (auto simp: lyra_repr_def)
  let ?M1 = "set_cell M row i (map2 (XOR) (M row i) (take 12 S'))"
  let ?mem1 = "lyra_store ?p (\<lambda>k mem. mem ! (?p + k) XOR S' ! k) mem"
  have 1: "lyra_repr R C A ?M1 ?mem1"
    using store_sim [OF r assms(2) rc S'] assms(2) by (simp add: insert_absorb)
  have 2: "lyra_repr R C A (set_cell ?M1 rowa i (map2 (XOR) (?M1 rowa i) (rotW (take 12 S'))))
      (lyra_store ?pio (\<lambda>k mem. mem ! (?pio + k) XOR S' ! ((k + 11) mod 12)) ?mem1)"
    by (rule revisit_sim [OF 1 assms(4) S'])
  have "duplexRow_body (prev * (12 * C)) (rowa * (12 * C)) (row * (12 * C)) i s =
      Some (S', lyra_store ?pio (\<lambda>k mem. mem ! (?pio + k) XOR S' ! ((k + 11) mod 12)) ?mem1)"
    using repr_cell(3) [OF r assms(2)] repr_cell(3) [OF r assms(3)] repr_cell(3) [OF r assms(4)]
    by (simp only: duplexRow_body_def s prod.case cell_offset Let_def reducedBlake2bLyra_def absorb_sum [OF r assms(3,4) S]
        S'_def [symmetric] simp_thms if_True)
  then show ?thesis
    using 2 S' by (simp only: lyra_sim_def wander_col_def t prod.case Let_def S'_def [symmetric] prod.sel simp_thms option.inject)
qed

section \<open>Rows\<close>

definition squeeze_row :: "nat \<Rightarrow> u64 list \<times> lyra_matrix \<Rightarrow> u64 list \<times> lyra_matrix" where
  "squeeze_row C = fold (squeeze_col C) [0..<C]"

definition row1_row :: "nat \<Rightarrow> u64 list \<times> lyra_matrix \<Rightarrow> u64 list \<times> lyra_matrix" where
  "row1_row C = fold (row1_col C) [0..<C]"

definition setup_row :: "nat \<Rightarrow> nat \<Rightarrow> nat \<Rightarrow> nat \<Rightarrow> u64 list \<times> lyra_matrix \<Rightarrow> u64 list \<times> lyra_matrix" where
  "setup_row C prev rowa row = fold (setup_col C prev rowa row) [0..<C]"

definition wander_row :: "nat \<Rightarrow> nat \<Rightarrow> nat \<Rightarrow> nat \<Rightarrow> u64 list \<times> lyra_matrix \<Rightarrow> u64 list \<times> lyra_matrix" where
  "wander_row C prev rowa row = fold (wander_col prev rowa row) [0..<C]"

lemma columns_sim:
  assumes "C < 2 ^ 31" and "lyra_sim R C (A \<union> B 0) t s"
    and "\<And>i t s. i < C \<Longrightarrow> lyra_sim R C (A \<union> B i) t s \<Longrightarrow> \<exists>s'. body i s = Some s' \<and> lyra_sim R C (A \<union> B (Suc i)) (col i t) s'"
  shows "\<exists>s'. lyra_columns C body s = Some s' \<and> lyra_sim R C (A \<union> B C) (fold col [0..<C] t) s'"
  using loop_opt_invariant [of "\<lambda>i. lyra_sim R C (A \<union> B i) (fold col [0..<i] t)" s C body "\<lambda>i. i"] assms
  by (simp add: lyra_columns_def)

text \<open>The columns of a row that are written from the last one on, and the rows that are complete.\<close>

definition cols_done :: "nat \<Rightarrow> nat \<Rightarrow> nat \<Rightarrow> (nat \<times> nat) set" where
  "cols_done C row i = {row} \<times> {C - i..<C}"

definition rows_done :: "nat \<Rightarrow> nat \<Rightarrow> (nat \<times> nat) set" where
  "rows_done C n = {..<n} \<times> {..<C}"

lemma cols_done_0 [simp]: "cols_done C row 0 = {}"
  by (simp add: cols_done_def)

lemma cols_done_Suc: "i < C \<Longrightarrow> insert (row, C - 1 - i) (A \<union> cols_done C row i) = A \<union> cols_done C row (Suc i)"
  by (auto simp: cols_done_def)

lemma rows_done_Suc: "rows_done C n \<union> cols_done C n C = rows_done C (Suc n)"
  by (auto simp: rows_done_def cols_done_def)

lemma rows_done_0 [simp]: "rows_done C 0 = {}"
  by (simp add: rows_done_def)

lemma in_rows_done: "r < n \<Longrightarrow> i < C \<Longrightarrow> (r, i) \<in> rows_done C n \<union> B"
  by (simp add: rows_done_def)

lemma squeezeRow0_sim:
  assumes "lyra_sim R C {} t s" and "0 < R" and "C < 2 ^ 31"
  shows "\<exists>s'. reducedSqueezeRow0 (0 * (12 * C)) C s = Some s' \<and> lyra_sim R C (rows_done C 1) (squeeze_row C t) s'"
proof -
  have "\<exists>s'. lyra_columns C (squeezeRow0_body (0 * (12 * C)) C) s = Some s' \<and>
      lyra_sim R C (rows_done C 0 \<union> cols_done C 0 C) (fold (squeeze_col C) [0..<C] t) s'"
  proof (rule columns_sim [OF assms(3), where B = "cols_done C 0"])
    fix i t s
    assume "i < C" and "lyra_sim R C (rows_done C 0 \<union> cols_done C 0 i) t s"
    from squeeze_col_sim [OF this(2,1) assms(2)] cols_done_Suc [OF this(1), of 0 "rows_done C 0"]
    show "\<exists>s'. squeezeRow0_body (0 * (12 * C)) C i s = Some s' \<and>
        lyra_sim R C (rows_done C 0 \<union> cols_done C 0 (Suc i)) (squeeze_col C i t) s'" by simp
  qed (use assms(1) in simp)
  then show ?thesis by (simp only: rows_done_Suc reducedSqueezeRow0_def squeeze_row_def One_nat_def)
qed

lemma duplexRow1_sim:
  assumes "lyra_sim R C (rows_done C 1) t s" and "1 < R" and "C < 2 ^ 31"
  shows "\<exists>s'. reducedDuplexRow1 (0 * (12 * C)) (1 * (12 * C)) C s = Some s' \<and> lyra_sim R C (rows_done C 2) (row1_row C t) s'"
proof -
  have "\<exists>s'. lyra_columns C (duplexRow1_body (0 * (12 * C)) (1 * (12 * C)) C) s = Some s' \<and>
      lyra_sim R C (rows_done C 1 \<union> cols_done C 1 C) (fold (row1_col C) [0..<C] t) s'"
  proof (rule columns_sim [OF assms(3), where B = "cols_done C 1"])
    fix i t s
    assume i: "i < C" and "lyra_sim R C (rows_done C 1 \<union> cols_done C 1 i) t s"
    from row1_col_sim [OF this(2,1) assms(2) in_rows_done [OF _ i]] cols_done_Suc [OF i, of 1 "rows_done C 1"]
    show "\<exists>s'. duplexRow1_body (0 * (12 * C)) (1 * (12 * C)) C i s = Some s' \<and>
        lyra_sim R C (rows_done C 1 \<union> cols_done C 1 (Suc i)) (row1_col C i t) s'" by simp
  qed (use assms(1) in simp)
  then show ?thesis by (simp only: rows_done_Suc reducedDuplexRow1_def row1_row_def Suc_1)
qed

lemma duplexRowSetup_sim:
  assumes "lyra_sim R C (rows_done C row) t s" and "prev < row" and "rowa < row" and "row < R" and "C < 2 ^ 31"
  shows "\<exists>s'. reducedDuplexRowSetup (prev * (12 * C)) (rowa * (12 * C)) (row * (12 * C)) C s = Some s' \<and>
    lyra_sim R C (rows_done C (Suc row)) (setup_row C prev rowa row t) s'"
proof -
  let ?b = "duplexRowSetup_body (prev * (12 * C)) (rowa * (12 * C)) (row * (12 * C)) C"
  have "\<exists>s'. lyra_columns C ?b s = Some s' \<and>
      lyra_sim R C (rows_done C row \<union> cols_done C row C) (fold (setup_col C prev rowa row) [0..<C] t) s'"
  proof (rule columns_sim [OF assms(5), where B = "cols_done C row"])
    fix i t s
    assume i: "i < C" and "lyra_sim R C (rows_done C row \<union> cols_done C row i) t s"
    from setup_col_sim [OF this(2,1) assms(4) in_rows_done [OF assms(2) i] in_rows_done [OF assms(3) i]]
      cols_done_Suc [OF i, of row "rows_done C row"]
    show "\<exists>s'. ?b i s = Some s' \<and> lyra_sim R C (rows_done C row \<union> cols_done C row (Suc i)) (setup_col C prev rowa row i t) s'"
      by simp
  qed (use assms(1) in simp)
  then show ?thesis by (simp only: rows_done_Suc reducedDuplexRowSetup_def setup_row_def)
qed

lemma duplexRow_sim:
  assumes "lyra_sim R C (rows_done C R) t s" and "prev < R" and "rowa < R" and "row < R" and "C < 2 ^ 31"
  shows "\<exists>s'. reducedDuplexRow (prev * (12 * C)) (rowa * (12 * C)) (row * (12 * C)) C s = Some s' \<and>
    lyra_sim R C (rows_done C R) (wander_row C prev rowa row t) s'"
proof -
  let ?b = "duplexRow_body (prev * (12 * C)) (rowa * (12 * C)) (row * (12 * C))"
  have "\<exists>s'. lyra_columns C ?b s = Some s' \<and>
      lyra_sim R C (rows_done C R \<union> {}) (fold (wander_col prev rowa row) [0..<C] t) s'"
  proof (rule columns_sim [OF assms(5), where B = "\<lambda>_. {}"])
    fix i t s
    assume i: "i < C" and "lyra_sim R C (rows_done C R \<union> {}) t s"
    from wander_col_sim [OF this(2) in_rows_done [OF assms(4) i] in_rows_done [OF assms(2) i] in_rows_done [OF assms(3) i]]
    show "\<exists>s'. ?b i s = Some s' \<and> lyra_sim R C (rows_done C R \<union> {}) (wander_col prev rowa row i t) s'" .
  qed (use assms(1) in simp)
  then show ?thesis by (simp only: Un_empty_right reducedDuplexRow_def wander_row_def)
qed

section \<open>Input and output\<close>

definition lyra_H :: "u64 list \<Rightarrow> u64 list" where
  "lyra_H = ROUND_LYRA ^^ 12"

lemma blake2bLyra_H: "blake2bLyra = lyra_H"
  by (simp add: blake2bLyra_def lyra_H_def fun_eq_iff numeral_eq_Suc)

lemma length_lyra_H [simp]: "length (lyra_H v) = length v"
proof -
  have "length ((ROUND_LYRA ^^ n) v) = length v" for n by (induction n) simp_all
  then show ?thesis by (simp add: lyra_H_def)
qed

lemma length_H_iter [simp]: "length ((lyra_H ^^ n) v) = length v"
  by (induction n) simp_all

lemma initState_eq:
  assumes "length state = 16"
  shows "initState state = replicate 8 0 @ lyra_IV"
proof -
  have "length lyra_IV = 8" by (simp add: lyra_IV_def)
  then show ?thesis
    using fold_store_from [of 8 8 "copy_at state 0 (replicate 8 0)" 8 "\<lambda>k x. lyra_IV ! k"] map_nth [of lyra_IV] assms
    by (simp add: initState_def copy_at_def)
qed

lemma absorb_input:
  assumes "\<And>i. i < n \<Longrightarrow> i * stride + 8 \<le> length mem" and "length S = 16"
  shows "loop_opt (\<lambda>i state. absorbBlockBlake2Safe state mem (i * stride)) [0..<n] S =
    Some (fold (\<lambda>b S. lyra_H (absorb_block b S)) (map (\<lambda>i. take 8 (drop (i * stride) mem)) [0..<n]) S)"
proof -
  let ?f = "fold (\<lambda>b S. lyra_H (absorb_block b S))" and ?b = "\<lambda>i. take 8 (drop (i * stride) mem)"
  let ?I = "\<lambda>n s. s = ?f (map ?b [0..<n]) S \<and> length s = 16"
  have step: "absorbBlockBlake2Safe s mem (t * stride) = Some (lyra_H (absorb_block (?b t) s))" if "t < n" "length s = 16" for t s
    using that assms(1) [OF that(1)] map_nth_slice [of "t * stride" 8 mem]
    by (simp add: absorbBlockBlake2Safe_def blake2bLyra_H state_xor_absorb)
  have "\<exists>s'. absorbBlockBlake2Safe s mem (t * stride) = Some s' \<and> ?I (Suc t) s'" if "t < n" "?I t s" for t s
  proof (intro exI conjI)
    show "absorbBlockBlake2Safe s mem (t * stride) = Some (lyra_H (absorb_block (?b t) s))" by (rule step [OF that(1) conjunct2 [OF that(2)]])
    show "lyra_H (absorb_block (?b t) s) = ?f (map ?b [0..<Suc t]) S" using that(2) by simp
    have "length s = 16" using that(2) by (rule conjunct2)
    then show "length (lyra_H (absorb_block (?b t) s)) = 16" by simp
  qed
  then obtain s where "loop_opt (\<lambda>i s. absorbBlockBlake2Safe s mem (i * stride)) (map (\<lambda>i. i) [0..<n]) S = Some s" "?I n s"
    using loop_opt_invariant [of ?I S n "\<lambda>i s. absorbBlockBlake2Safe s mem (i * stride)" "\<lambda>i. i"] assms(2) by force
  then show ?thesis by simp
qed

definition squeeze_spec :: "u64 list \<Rightarrow> nat \<Rightarrow> bytes" where
  "squeeze_spec S k = take k (concat (map (\<lambda>i. bytes_of (take 12 ((lyra_H ^^ i) S))) [0..<k div 96 + 1]))"

lemma squeeze_loop:
  assumes "96 * n \<le> length out" and "length S = 16"
  shows "fold (\<lambda>i (state, out). (blake2bLyra state, copy_at out (96 * i) (take 96 (bytes_of state)))) [0..<n] (S, out) =
    ((lyra_H ^^ n) S, concat (map (\<lambda>i. bytes_of (take 12 ((lyra_H ^^ i) S))) [0..<n]) @ drop (96 * n) out)"
  using assms
proof (induction n)
  case (Suc n)
  have "length (concat (map (\<lambda>i. bytes_of (take 12 ((lyra_H ^^ i) S))) [0..<n])) = 96 * n"
    using Suc.prems(2) by (simp add: length_concat comp_def sum_list_triv)
  then show ?case
    using Suc take_bytes_of [of 12 "(lyra_H ^^ n) S"] by (simp add: blake2bLyra_H copy_at_def add.commute)
qed simp

lemma lyra_squeeze_eq:
  assumes "unat len \<le> length out" and "length S = 16"
  shows "lyra_squeeze S out len = Some ((lyra_H ^^ (unat len div 96)) S, squeeze_spec S (unat len) @ drop (unat len) out)"
proof -
  let ?k = "unat len" and ?n = "unat len div 96"
  let ?c = "concat (map (\<lambda>i. bytes_of (take 12 ((lyra_H ^^ i) S))) [0..<?n])"
  have k: "?k = 96 * ?n + ?k mod 96" by simp
  have n: "96 * ?n \<le> length out" using assms(1) k by linarith
  have c: "length ?c = 96 * ?n" using assms(2) by (simp add: length_concat comp_def sum_list_triv)
  have "take (?k mod 96) (bytes_of ((lyra_H ^^ ?n) S)) = take (?k mod 96) (bytes_of (take 12 ((lyra_H ^^ ?n) S)))"
    using take_bytes_of [of 12 "(lyra_H ^^ ?n) S", symmetric] by (simp add: min_def)
  moreover have "squeeze_spec S ?k = ?c @ take (?k mod 96) (bytes_of (take 12 ((lyra_H ^^ ?n) S)))"
  proof -
    have "length ?c \<le> ?k" "?k - length ?c = ?k mod 96" by (simp_all only: c minus_mult_div_eq_mod mult_div_mod_eq times_div_less_eq_dividend)
    then have "take ?k (?c @ b) = ?c @ take (?k mod 96) b" for b :: bytes by (simp only: take_append take_all)
    then show ?thesis by (simp add: squeeze_spec_def)
  qed
  moreover have "copy_at (?c @ drop (96 * ?n) out) (96 * ?n) b = ?c @ b @ drop ?k out" if "length b = ?k mod 96" for b
    using c that by (simp add: copy_at_def)
  ultimately show ?thesis
    using assms squeeze_loop [OF n assms(2)] by (simp add: lyra_squeeze_def Let_def)
qed

lemma length_lyra_squeeze:
  assumes "lyra_squeeze S out len = Some (S', out')"
  shows "length out' = length out"
proof -
  let ?f = "\<lambda>i (state, out). (blake2bLyra state, copy_at out (96 * i) (take 96 (bytes_of state)))"
  let ?n = "unat len div 96"
  have len: "unat len \<le> length out" using assms by (simp add: lyra_squeeze_def split: if_splits)
  have n: "96 * ?n + unat len mod 96 \<le> length out" using len by simp
  have "length (snd (fold ?f [0..<k] (S, out))) = length out" if "96 * k \<le> length out" for k
    using that by (induction k) (auto simp: split_beta)
  then have "length (snd (fold ?f [0..<?n] (S, out))) = length out" using n by simp
  moreover have "out' = copy_at (snd (fold ?f [0..<?n] (S, out))) (96 * ?n) (take (unat len mod 96) (bytes_of (fst (fold ?f [0..<?n] (S, out)))))"
    using assms len by (auto simp: lyra_squeeze_def Let_def split_beta)
  moreover have "96 * ?n + length (take (unat len mod 96) b) \<le> length out" for b :: bytes
    by (rule le_trans [OF add_left_mono n]) simp
  ultimately show ?thesis by (simp only: length_copy_at)
qed

end
