(* ===== verification/Lyra2.thy ===== *)
theory Lyra2
  imports Lyra_Sponge
begin

unbundle bit_operations_syntax

text \<open>
  Lyra2: \<open>src/src/Native/libmultihash/Lyra2.c\<close>. The rows of the matrix are offsets in one block of memory; an access
  outside of the matrix or of the table of rows is \<open>None\<close>, and so is a loop that does not end.

  The specification has the rows of the setup phase and of the wandering phase in closed form. The lemmas
  show that the code computes it, that the visits are the intended permutations of the rows, and where they
  are not.
\<close>

section \<open>LYRA2\<close>

text \<open>
  The variables of \<open>LYRA2\<close>. \<open>memMatrix\<close> is the list \<open>rows\<close> of the offsets of the rows. The \<open>int64_t\<close> variables stay
  below twice the number of rows, so that they are integers.
\<close>

record lyra_vars =
  ly_state :: "u64 list"
  ly_mem :: "u64 list"
  ly_row :: int
  ly_prev :: int
  ly_rowa :: int
  ly_step :: int
  ly_window :: int
  ly_gap :: int
  ly_index :: u64

definition row_at :: "nat list \<Rightarrow> int \<Rightarrow> nat option" where
  "row_at rows r = (if 0 \<le> r \<and> r < int (length rows) then Some (rows ! nat r) else None)"

text \<open>Password, salt and basil, padded, at the start of a matrix of \<open>bytes_n\<close> zeros.\<close>

definition lyra_blocks :: "bytes \<Rightarrow> bytes \<Rightarrow> nat" where
  "lyra_blocks pwd salt = (length salt + length pwd + 48) div 64 + 1"

definition lyra_copies :: "bytes \<Rightarrow> u64 \<Rightarrow> bytes \<Rightarrow> bytes \<Rightarrow> u64 \<Rightarrow> u64 \<Rightarrow> u64 \<Rightarrow> bytes" where
  "lyra_copies B kLen pwd salt timeCost nRows nCols =
     (let B = copy_at B 0 pwd;
          p = length pwd;
          B = copy_at B p salt;
          p = p + length salt;
          B = copy_at B p (le_bytes 8 kLen);
          B = copy_at B (p + 8) (le_bytes 8 (of_nat (length pwd) :: u64));
          B = copy_at B (p + 16) (le_bytes 8 (of_nat (length salt) :: u64));
          B = copy_at B (p + 24) (le_bytes 8 timeCost);
          B = copy_at B (p + 32) (le_bytes 8 nRows)
      in copy_at B (p + 40) (le_bytes 8 nCols))"

definition lyra_input :: "nat \<Rightarrow> u64 \<Rightarrow> bytes \<Rightarrow> bytes \<Rightarrow> u64 \<Rightarrow> u64 \<Rightarrow> u64 \<Rightarrow> bytes option" where
  "lyra_input bytes_n kLen pwd salt timeCost nRows nCols =
     (let nBlocksInput = lyra_blocks pwd salt
      in if bytes_n < nBlocksInput * 64 then None
         else
           let B = copy_at (replicate bytes_n 0) 0 (replicate (nBlocksInput * 64) 0);
               B = lyra_copies B kLen pwd salt timeCost nRows nCols;
               B = B[length pwd + length salt + 48 := 0x80];
               q = nBlocksInput * 64 - 1
           in Some (B[q := B ! q XOR 0x01]))"

text \<open>The body of the setup loop, and the loop.\<close>

definition lyra_setup_body :: "nat list \<Rightarrow> nat \<Rightarrow> lyra_vars \<Rightarrow> lyra_vars option" where
  "lyra_setup_body rows nCols v =
     do {
       pin \<leftarrow> row_at rows (ly_prev v);
       pio \<leftarrow> row_at rows (ly_rowa v);
       pout \<leftarrow> row_at rows (ly_row v);
       (state, mem) \<leftarrow> reducedDuplexRowSetup pin pio pout nCols (ly_state v, ly_mem v);
       let rowa = (ly_rowa v + ly_step v) AND (ly_window v - 1);
       let v = v\<lparr>ly_state := state, ly_mem := mem, ly_rowa := rowa, ly_prev := ly_row v, ly_row := ly_row v + 1\<rparr>;
       Some (if rowa = 0
             then v\<lparr>ly_step := ly_window v + ly_gap v, ly_window := ly_window v * 2, ly_gap := - ly_gap v\<rparr> else v)
     }"

partial_function (option) lyra_setup :: "nat list \<Rightarrow> nat \<Rightarrow> lyra_vars \<Rightarrow> lyra_vars option" where
  "lyra_setup rows nCols v =
     Option.bind (lyra_setup_body rows nCols v)
       (\<lambda>v. if ly_row v < int (length rows) then lyra_setup rows nCols v else Some v)"

text \<open>
  The choice of \<open>row*\<close> in the wandering phase: \<open>state[0]\<close> in \<open>LYRA2\<close> and \<open>LYRA2_old\<close>, and a word that the state itself
  selects in \<open>LYRA2_3\<close>. The result is the new \<open>index\<close> and the word.
\<close>

definition pick_first :: "u64 list \<Rightarrow> u64 \<Rightarrow> u64 \<times> u64" where
  "pick_first state index = (index, state ! 0)"

definition pick_index :: "u64 list \<Rightarrow> u64 \<Rightarrow> u64 \<times> u64" where
  "pick_index state index = (let index = state ! unat (index mod 16) in (index, state ! unat (index mod 16)))"

definition lyra_wander_body :: "(u64 list \<Rightarrow> u64 \<Rightarrow> u64 \<times> u64) \<Rightarrow> nat list \<Rightarrow> nat \<Rightarrow> lyra_vars \<Rightarrow> lyra_vars option" where
  "lyra_wander_body pick rows nCols v =
     do {
       let (index, x) = pick (ly_state v) (ly_index v);
       let rowa = int (unat x mod length rows);
       pin \<leftarrow> row_at rows (ly_prev v);
       pio \<leftarrow> row_at rows rowa;
       pout \<leftarrow> row_at rows (ly_row v);
       (state, mem) \<leftarrow> reducedDuplexRow pin pio pout nCols (ly_state v, ly_mem v);
       Some (v\<lparr>ly_state := state, ly_mem := mem, ly_index := index, ly_rowa := rowa, ly_prev := ly_row v,
         ly_row := (ly_row v + ly_step v) mod 2 ^ 64 mod int (length rows)\<rparr>)
     }"

partial_function (option) lyra_pass ::
    "(u64 list \<Rightarrow> u64 \<Rightarrow> u64 \<times> u64) \<Rightarrow> nat list \<Rightarrow> nat \<Rightarrow> lyra_vars \<Rightarrow> lyra_vars option" where
  "lyra_pass pick rows nCols v =
     Option.bind (lyra_wander_body pick rows nCols v)
       (\<lambda>v. if ly_row v \<noteq> 0 then lyra_pass pick rows nCols v else Some v)"

definition lyra_time_step :: "u64 \<Rightarrow> nat \<Rightarrow> int" where
  "lyra_time_step nRows tau = (if tau mod 2 = 0 then -1 else sint (nRows div 2 - 1))"

text \<open>\<open>tau\<close> is an \<open>int64_t\<close> too: incrementing it behind \<open>2 ^ 63 - 1\<close> is an overflow.\<close>

definition lyra_wandering ::
    "(u64 list \<Rightarrow> u64 \<Rightarrow> u64 \<times> u64) \<Rightarrow> u64 \<Rightarrow> u64 \<Rightarrow> nat list \<Rightarrow> nat \<Rightarrow> lyra_vars \<Rightarrow> lyra_vars option" where
  "lyra_wandering pick timeCost nRows rows nCols v =
     (if 2 ^ 63 \<le> unat timeCost + 1 then None
      else loop_opt (\<lambda>tau v. lyra_pass pick rows nCols (v\<lparr>ly_step := lyra_time_step nRows tau\<rparr>)) [1..<unat timeCost + 1]
        (v\<lparr>ly_row := 0\<rparr>))"

definition fits_int64 :: "int \<Rightarrow> bool" where
  "fits_int64 x \<longleftrightarrow> - (2 ^ 63) \<le> x \<and> x < 2 ^ 63"

text \<open>
  The three functions are copies of one text but for the distance between the blocks of the input that are
  absorbed (\<open>stride\<close>, in words) and the choice of \<open>row*\<close>. The three Booleans tell which \<open>malloc\<close> succeeds, \<open>fresh\<close>
  is what the memory of the state holds. The result is the returned number and the buffer of the key.
\<close>

definition lyra2_phases ::
    "nat \<Rightarrow> (u64 list \<Rightarrow> u64 \<Rightarrow> u64 \<times> u64) \<Rightarrow> u64 list \<Rightarrow> u64 list \<Rightarrow> nat list \<Rightarrow> bytes \<Rightarrow> u64 \<Rightarrow> nat \<Rightarrow> u64 \<Rightarrow> u64 \<Rightarrow> nat \<Rightarrow>
      (u64 list \<times> bytes) option" where
  "lyra2_phases stride pick state mem rows K kLen nBlocksInput timeCost nRows nCols =
     do {
       state \<leftarrow> loop_opt (\<lambda>i state. absorbBlockBlake2Safe state mem (i * stride)) [0..<nBlocksInput] (initState state);
       row0 \<leftarrow> row_at rows 0;
       (state, mem) \<leftarrow> reducedSqueezeRow0 row0 nCols (state, mem);
       row1 \<leftarrow> row_at rows 1;
       (state, mem) \<leftarrow> reducedDuplexRow1 row0 row1 nCols (state, mem);
       v \<leftarrow> lyra_setup rows nCols \<lparr>ly_state = state, ly_mem = mem, ly_row = 2, ly_prev = 1, ly_rowa = 0, ly_step = 1,
         ly_window = 2, ly_gap = 1, ly_index = 0\<rparr>;
       v \<leftarrow> lyra_wandering pick timeCost nRows rows nCols v;
       p \<leftarrow> row_at rows (ly_rowa v);
       state \<leftarrow> absorbBlock (ly_state v) (ly_mem v) p;
       lyra_squeeze state K (ucast kLen)
     }"

definition lyra2_with ::
    "nat \<Rightarrow> (u64 list \<Rightarrow> u64 \<Rightarrow> u64 \<times> u64) \<Rightarrow> bool \<times> bool \<times> bool \<Rightarrow> u64 list \<Rightarrow> bytes \<Rightarrow> u64 \<Rightarrow> bytes \<Rightarrow> bytes \<Rightarrow>
      u64 \<Rightarrow> u64 \<Rightarrow> u64 \<Rightarrow> (int \<times> bytes) option" where
  "lyra2_with stride pick mallocs fresh K kLen pwd salt timeCost nRows nCols =
     (case mallocs of (matrix_ok, rows_ok, state_ok) \<Rightarrow>
        let ROW_LEN_INT64 = sint (12 * nCols); ROW_LEN_BYTES = ROW_LEN_INT64 * 8; i = sint nRows * ROW_LEN_BYTES
        in if \<not> fits_int64 ROW_LEN_BYTES \<or> \<not> fits_int64 i then None
           else if \<not> matrix_ok then Some (-1, K)
           else if i < 0 then None
           else if \<not> rows_ok then Some (-1, K)
           else if 2 ^ 61 \<le> unat nRows then None
           else
             let rows = map (\<lambda>r. r * nat ROW_LEN_INT64) [0..<unat nRows]
             in do {
                  B \<leftarrow> lyra_input (nat i) kLen pwd salt timeCost nRows nCols;
                  if \<not> state_ok then Some (-1, K)
                  else do {
                    (state, K) \<leftarrow> lyra2_phases stride pick fresh (words_of B) rows K kLen (lyra_blocks pwd salt)
                      timeCost nRows (unat nCols);
                    Some (0, K)
                  }
                })"

definition lyra2 ::
    "bool \<times> bool \<times> bool \<Rightarrow> u64 list \<Rightarrow> bytes \<Rightarrow> u64 \<Rightarrow> bytes \<Rightarrow> bytes \<Rightarrow> u64 \<Rightarrow> u64 \<Rightarrow> u64 \<Rightarrow> (int \<times> bytes) option" where
  "lyra2 = lyra2_with 8 pick_first"

definition lyra2_old ::
    "bool \<times> bool \<times> bool \<Rightarrow> u64 list \<Rightarrow> bytes \<Rightarrow> u64 \<Rightarrow> bytes \<Rightarrow> bytes \<Rightarrow> u64 \<Rightarrow> u64 \<Rightarrow> u64 \<Rightarrow> (int \<times> bytes) option" where
  "lyra2_old = lyra2_with 64 pick_first"

definition lyra2_3 ::
    "bool \<times> bool \<times> bool \<Rightarrow> u64 list \<Rightarrow> bytes \<Rightarrow> u64 \<Rightarrow> bytes \<Rightarrow> bytes \<Rightarrow> u64 \<Rightarrow> u64 \<Rightarrow> u64 \<Rightarrow> (int \<times> bytes) option" where
  "lyra2_3 = lyra2_with 8 pick_index"

section \<open>The setup phase\<close>

text \<open>
  The rows come in windows: \<open>row = 2 ^ k + t\<close> with \<open>t < 2 ^ k\<close> revisits row \<open>t * step mod 2 ^ k\<close>, where the step
  of window \<open>k\<close> is odd.
\<close>

fun setup_level :: "nat \<Rightarrow> nat" where
  "setup_level row = (if row < 2 then 0 else Suc (setup_level (row div 2)))"

declare setup_level.simps [simp del]

definition setup_stride :: "nat \<Rightarrow> nat" where
  "setup_stride k = (if k = 1 then 1 else if even k then 2 ^ (k - 1) + 1 else 2 ^ (k - 1) - 1)"

definition setup_rowa :: "nat \<Rightarrow> nat" where
  "setup_rowa row = (row - 2 ^ setup_level row) * setup_stride (setup_level row) mod 2 ^ setup_level row"

lemma setup_level_bounds:
  assumes "0 < row"
  shows "2 ^ setup_level row \<le> row" and "row < 2 ^ Suc (setup_level row)"
proof -
  have "2 ^ setup_level row \<le> row \<and> row < 2 ^ Suc (setup_level row)" using assms
  proof (induction row rule: setup_level.induct)
    case (1 row)
    show ?case
    proof (cases "row < 2")
      case True
      then show ?thesis using 1(2) by (simp add: setup_level.simps [of row])
    next
      case False
      then have "2 ^ setup_level (row div 2) \<le> row div 2" "row div 2 < 2 ^ Suc (setup_level (row div 2))" using 1(1) by simp_all
      then have "2 * 2 ^ setup_level (row div 2) \<le> row" "row < 2 * 2 ^ Suc (setup_level (row div 2))" by linarith+
      then show ?thesis using False by (simp add: setup_level.simps [of row])
    qed
  qed
  then show "2 ^ setup_level row \<le> row" and "row < 2 ^ Suc (setup_level row)" by simp_all
qed

lemma setup_level_eqI:
  assumes "2 ^ k \<le> row" and "row < 2 ^ Suc k"
  shows "setup_level row = k"
proof -
  have "0 < row" using assms(1) by (metis less_le_trans zero_less_numeral zero_less_power)
  note n = setup_level_bounds [OF this]
  have "(2::nat) ^ k < 2 ^ Suc (setup_level row)" "(2::nat) ^ setup_level row < 2 ^ Suc k" using n assms by linarith+
  then have "k < Suc (setup_level row)" "setup_level row < Suc k" by (simp_all only: power_strict_increasing_iff one_less_numeral_iff semiring_norm)
  then show ?thesis by simp
qed

lemma odd_setup_stride: "0 < k \<Longrightarrow> odd (setup_stride k)"
  by (cases "k = 1") (auto simp: setup_stride_def)

lemma setup_rowa_less:
  assumes "2 \<le> row"
  shows "setup_rowa row < 2 ^ setup_level row" and "setup_rowa row < row"
proof -
  show "setup_rowa row < 2 ^ setup_level row" by (simp add: setup_rowa_def)
  also have "\<dots> \<le> row" using setup_level_bounds(1) [of row] assms by simp
  finally show "setup_rowa row < row" .
qed

lemma setup_rowa_next:
  assumes "2 \<le> row" and "k = setup_level row"
  shows "if Suc row < 2 ^ Suc k
    then setup_level (Suc row) = k \<and> (setup_rowa row + setup_stride k) mod 2 ^ k = setup_rowa (Suc row) \<and> setup_rowa (Suc row) \<noteq> 0
    else setup_level (Suc row) = Suc k \<and> (setup_rowa row + setup_stride k) mod 2 ^ k = 0 \<and> setup_rowa (Suc row) = 0"
proof -
  have k: "2 ^ k \<le> row" "row < 2 ^ Suc k" using setup_level_bounds [of row] assms by simp_all
  have "0 < k" using k(2) assms(1) by (cases k) auto
  define t where "t = row - 2 ^ k"
  have t: "row = 2 ^ k + t" "t < 2 ^ k" using k by (simp_all add: t_def)
  have sum: "(setup_rowa row + setup_stride k) mod 2 ^ k = Suc t * setup_stride k mod 2 ^ k"
    by (simp add: setup_rowa_def assms(2) [symmetric] t_def [symmetric] mod_add_right_eq add.commute)
  show ?thesis
  proof (cases "Suc row < 2 ^ Suc k")
    case True
    then have l: "setup_level (Suc row) = k" using k(1) by (intro setup_level_eqI) simp_all
    have e: "setup_rowa (Suc row) = Suc t * setup_stride k mod 2 ^ k"
      using k(1) by (simp add: setup_rowa_def l t_def Suc_diff_le)
    have "\<not> 2 ^ k dvd Suc t * setup_stride k"
    proof
      assume "2 ^ k dvd Suc t * setup_stride k"
      moreover have "coprime (2 ^ k) (setup_stride k)" using odd_setup_stride [OF \<open>0 < k\<close>] by simp
      ultimately have "2 ^ k dvd Suc t" by (simp only: coprime_dvd_mult_left_iff)
      then have "2 ^ k \<le> Suc t" by (rule dvd_imp_le) simp
      then show False using True t by simp
    qed
    then show ?thesis using True l e sum by (simp add: mod_eq_0_iff_dvd)
  next
    case False
    then have r: "Suc row = 2 ^ Suc k" "Suc t = 2 ^ k" using k t by simp_all
    then have l: "setup_level (Suc row) = Suc k" by (intro setup_level_eqI) simp_all
    then have "setup_rowa (Suc row) = 0" using r(1) by (simp add: setup_rowa_def)
    then show ?thesis using False l sum r(2) by simp
  qed
qed

lemma stride_next: "0 < k \<Longrightarrow> int (setup_stride (Suc k)) = 2 ^ k + (if odd k then 1 else -1)"
  by (simp add: setup_stride_def of_nat_diff)

lemma and_window: "(int a + int b) AND (2 ^ k - 1) = int ((a + b) mod 2 ^ k)"
proof -
  have "(int a + int b) AND (2 ^ k - 1) = take_bit k (int a + int b)"
    by (simp add: take_bit_eq_mask mask_eq_exp_minus_1)
  then show ?thesis by (simp add: take_bit_eq_mod zmod_int)
qed

text \<open>Each row of a window is revisited once.\<close>

lemma setup_window_bij:
  assumes "0 < k"
  shows "bij_betw (\<lambda>t. setup_rowa (2 ^ k + t)) {..<2 ^ k} {..<2 ^ k}"
proof -
  have rowa: "setup_rowa (2 ^ k + t) = t * setup_stride k mod 2 ^ k" if "t < 2 ^ k" for t
  proof -
    have "setup_level (2 ^ k + t) = k" by (rule setup_level_eqI) (use that in simp_all)
    then show ?thesis by (simp add: setup_rowa_def)
  qed
  have eq: "t = u" if "t \<le> u" "u < 2 ^ k" "setup_rowa (2 ^ k + t) = setup_rowa (2 ^ k + u)" for t u
  proof -
    have "t * setup_stride k mod 2 ^ k = u * setup_stride k mod 2 ^ k" using that by (simp add: rowa)
    then have "2 ^ k dvd u * setup_stride k - t * setup_stride k"
      using that(1) by (subst mod_eq_dvd_iff_nat [symmetric]) simp_all
    then have "2 ^ k dvd (u - t) * setup_stride k" by (simp add: diff_mult_distrib)
    moreover have "coprime (2 ^ k) (setup_stride k)" using odd_setup_stride [OF assms] by simp
    ultimately have "2 ^ k dvd u - t" by (simp only: coprime_dvd_mult_left_iff)
    moreover have "u - t < 2 ^ k" using that(2) by simp
    ultimately have "u - t = 0" using nat_dvd_not_less by blast
    then show ?thesis using that(1) by simp
  qed
  have "inj_on (\<lambda>t. setup_rowa (2 ^ k + t)) {..<2 ^ k}"
  proof (rule inj_onI)
    fix t u :: nat
    assume "t \<in> {..<2 ^ k}" "u \<in> {..<2 ^ k}" "setup_rowa (2 ^ k + t) = setup_rowa (2 ^ k + u)"
    then show "t = u" using eq [of t u] eq [of u t] by (cases "t \<le> u") simp_all
  qed
  moreover have "(\<lambda>t. setup_rowa (2 ^ k + t)) ` {..<2 ^ k} \<subseteq> {..<2 ^ k}" using rowa by auto
  ultimately show ?thesis by (simp add: bij_betw_def endo_inj_surj)
qed

abbreviation lyra_rows :: "nat \<Rightarrow> nat \<Rightarrow> nat list" where
  "lyra_rows R C \<equiv> map (\<lambda>r. r * (12 * C)) [0..<R]"

lemma row_at_rows: "r < R \<Longrightarrow> row_at (lyra_rows R C) (int r) = Some (r * (12 * C))"
  by (simp add: row_at_def)

lemma row_at_outside: "r < 0 \<or> int R \<le> r \<Longrightarrow> row_at (lyra_rows R C) r = None"
  by (auto simp: row_at_def)

definition setup_inv :: "nat \<Rightarrow> nat \<Rightarrow> nat \<Rightarrow> u64 list \<times> lyra_matrix \<Rightarrow> lyra_vars \<Rightarrow> bool" where
  "setup_inv R C row t v \<longleftrightarrow>
     ly_row v = int row \<and> ly_prev v = int (row - 1) \<and> ly_rowa v = int (setup_rowa row) \<and>
     ly_window v = 2 ^ setup_level row \<and> ly_step v = int (setup_stride (setup_level row)) \<and>
     ly_gap v = (if odd (setup_level row) then 1 else -1) \<and> ly_index v = 0 \<and>
     lyra_sim R C (rows_done C row) t (ly_state v, ly_mem v)"

definition setup_spec_row :: "nat \<Rightarrow> nat \<Rightarrow> u64 list \<times> lyra_matrix \<Rightarrow> u64 list \<times> lyra_matrix" where
  "setup_spec_row C row = setup_row C (row - 1) (setup_rowa row) row"

lemma setup_body_inv:
  assumes "setup_inv R C row t v" and "2 \<le> row" and "row < R" and "C < 2 ^ 31"
  shows "\<exists>v'. lyra_setup_body (lyra_rows R C) C v = Some v' \<and> setup_inv R C (Suc row) (setup_spec_row C row t) v'"
proof -
  define k where "k = setup_level row"
  have v: "ly_row v = int row" "ly_prev v = int (row - 1)" "ly_rowa v = int (setup_rowa row)" "ly_window v = 2 ^ k"
      "ly_step v = int (setup_stride k)" "ly_gap v = (if odd k then 1 else -1)" "ly_index v = 0"
      and sim: "lyra_sim R C (rows_done C row) t (ly_state v, ly_mem v)"
    using assms(1) by (simp_all add: setup_inv_def k_def)
  have less: "setup_rowa row < row" "row - 1 < row" using setup_rowa_less(2) [OF assms(2)] assms(2) by simp_all
  obtain state mem where dup: "reducedDuplexRowSetup ((row - 1) * (12 * C)) (setup_rowa row * (12 * C)) (row * (12 * C)) C
      (ly_state v, ly_mem v) = Some (state, mem)"
      and sim': "lyra_sim R C (rows_done C (Suc row)) (setup_spec_row C row t) (state, mem)"
    using duplexRowSetup_sim [OF sim less(2,1) assms(3,4)] by (auto simp: setup_spec_row_def)
  have at: "row_at (lyra_rows R C) (int (row - 1)) = Some ((row - 1) * (12 * C))"
      "row_at (lyra_rows R C) (int (setup_rowa row)) = Some (setup_rowa row * (12 * C))"
      "row_at (lyra_rows R C) (int row) = Some (row * (12 * C))"
    by (rule row_at_rows, use less assms(3) in simp)+
  define v' where "v' = v\<lparr>ly_state := state, ly_mem := mem,
    ly_rowa := int ((setup_rowa row + setup_stride k) mod 2 ^ k), ly_prev := int row, ly_row := int row + 1\<rparr>"
  have body: "lyra_setup_body (lyra_rows R C) C v =
      Some (if (setup_rowa row + setup_stride k) mod 2 ^ k = 0
        then v'\<lparr>ly_step := 2 ^ k + ly_gap v, ly_window := 2 ^ k * 2, ly_gap := - ly_gap v\<rparr> else v')"
    unfolding lyra_setup_body_def v(1-5) at and_window by (simp add: dup [unfolded One_nat_def] v'_def v(4))
  have "0 < k" using setup_level_bounds(2) [of row] assms(2) by (cases k) (auto simp: k_def)
  have rest: "ly_row v' = int (Suc row)" "ly_prev v' = int (Suc row - 1)" "ly_index v' = 0"
      "ly_state v' = state" "ly_mem v' = mem" "ly_rowa v' = int ((setup_rowa row + setup_stride k) mod 2 ^ k)"
      "ly_window v' = 2 ^ k" "ly_step v' = int (setup_stride k)" "ly_gap v' = (if odd k then 1 else -1)"
    using v by (simp_all add: v'_def)
  show ?thesis
  proof (cases "Suc row < 2 ^ Suc k")
    case True
    with setup_rowa_next [OF assms(2) k_def] rest sim' show ?thesis by (simp add: body setup_inv_def)
  next
    case False
    with setup_rowa_next [OF assms(2) k_def] rest sim' stride_next [OF \<open>0 < k\<close>] v(6) show ?thesis
      by (simp add: body setup_inv_def)
  qed
qed

lemma setup_loop:
  assumes "setup_inv R C row t v" and "2 \<le> row" and "row < R" and "C < 2 ^ 31"
  shows "\<exists>v'. lyra_setup (lyra_rows R C) C v = Some v' \<and> setup_inv R C R (fold (setup_spec_row C) [row..<R] t) v'"
  using assms
proof (induction "R - row" arbitrary: row t v)
  case (Suc n)
  obtain v' where v': "lyra_setup_body (lyra_rows R C) C v = Some v'" "setup_inv R C (Suc row) (setup_spec_row C row t) v'"
    using setup_body_inv [OF Suc.prems] by blast
  have row: "ly_row v' = int (Suc row)" using v'(2) by (simp add: setup_inv_def)
  have fold: "fold (setup_spec_row C) [row..<R] t = fold (setup_spec_row C) [Suc row..<R] (setup_spec_row C row t)"
    using Suc.prems(3) by (simp add: upt_conv_Cons)
  show ?case
  proof (cases "Suc row < R")
    case True
    then have "\<exists>v''. lyra_setup (lyra_rows R C) C v' = Some v'' \<and>
        setup_inv R C R (fold (setup_spec_row C) [Suc row..<R] (setup_spec_row C row t)) v''"
      using Suc.hyps(2) Suc.prems(2,4) by (intro Suc.hyps(1) [OF _ v'(2)]) simp_all
    then show ?thesis using True row fold v'(1) by (subst lyra_setup.simps) simp
  next
    case False
    then have "R = Suc row" using Suc.prems(3) by simp
    then show ?thesis using row fold v' by (subst lyra_setup.simps) simp
  qed
qed simp

section \<open>The wandering phase\<close>

text \<open>
  The next row of the code, and the rows of one pass in closed form: multiples of the step for an odd pass, and for
  an even one row 0, then the rows downwards from \<open>-1\<close> as an unsigned number modulo \<open>R\<close>.
\<close>

definition lyra_next :: "nat \<Rightarrow> int \<Rightarrow> nat \<Rightarrow> nat" where
  "lyra_next R s r = nat ((int r + s) mod 2 ^ 64 mod int R)"

definition wander_rows :: "nat \<Rightarrow> nat \<Rightarrow> nat list" where
  "wander_rows R tau =
     (if even tau then let q = (2 ^ 64 - 1) mod R in map (\<lambda>t. if t = 0 then 0 else q + 1 - t) [0..<q + 1]
      else let s = R div 2 - 1 in map (\<lambda>t. t * s mod R) [0..<R div gcd R s])"

text \<open>The rows from \<open>r\<close> on, up to the first return to row 0.\<close>

fun lyra_visits :: "(nat \<Rightarrow> nat) \<Rightarrow> nat list \<Rightarrow> bool" where
  "lyra_visits nx [] \<longleftrightarrow> False"
| "lyra_visits nx [r] \<longleftrightarrow> nx r = 0"
| "lyra_visits nx (r # r' # rs) \<longleftrightarrow> nx r = r' \<and> r' \<noteq> 0 \<and> lyra_visits nx (r' # rs)"

lemma visits_map:
  assumes "a < n" and "\<And>t. a \<le> t \<Longrightarrow> t < n \<Longrightarrow> nx (f t) = f (Suc t)" and "\<And>t. a < t \<Longrightarrow> t < n \<Longrightarrow> f t \<noteq> 0" and "f n = 0"
  shows "lyra_visits nx (map f [a..<n])"
  using assms
proof (induction "n - a" arbitrary: a)
  case (Suc m)
  show ?case
  proof (cases "Suc a < n")
    case True
    then have "lyra_visits nx (map f [Suc a..<n])" using Suc by (intro Suc.hyps(1)) auto
    then show ?thesis using True Suc.prems by (simp add: upt_conv_Cons)
  next
    case False
    then have "n = Suc a" using Suc.prems(1) by simp
    then show ?thesis using Suc.prems(2) [of a] Suc.prems(4) by simp
  qed
qed simp

lemma dvd_stride:
  fixes R s t :: nat
  assumes "0 < R"
  shows "R dvd t * s \<longleftrightarrow> R div gcd R s dvd t"
proof -
  define g where "g = gcd R s"
  have g: "g dvd R" "g dvd s" "0 < g" using assms by (simp_all add: g_def)
  have "coprime (R div g) (s div g)" unfolding g_def by (rule div_gcd_coprime) (use assms in simp)
  moreover have "R dvd t * s \<longleftrightarrow> R div g dvd t * (s div g)"
  proof -
    have "R = g * (R div g)" "t * s = g * (t * (s div g))" using g by (simp_all add: dvd_div_mult_self mult.left_commute)
    then show ?thesis using g(3) by (metis nat_mult_dvd_cancel_disj not_less_zero)
  qed
  ultimately show ?thesis by (simp add: coprime_dvd_mult_left_iff flip: g_def)
qed

lemma length_wander_rows_odd: "0 < R \<Longrightarrow> 0 < R div gcd R s" for R s :: nat
  by (simp add: div_greater_zero_iff gcd_le1_nat)

lemma next_up:
  assumes "r < R" and "s < R" and "R < 2 ^ 63"
  shows "lyra_next R (int s) r = (r + s) mod R"
proof -
  have "(int r + int s) mod 2 ^ 64 = int (r + s)" using assms by (simp add: mod_pos_pos_trivial)
  then show ?thesis by (simp add: lyra_next_def nat_mod_distrib nat_int_add)
qed

lemma next_down:
  assumes "r < R" and "R < 2 ^ 63"
  shows "lyra_next R (-1) r = (if r = 0 then (2 ^ 64 - 1) mod R else r - 1)"
proof (cases r)
  case 0
  have "(-1 :: int) mod 2 ^ 64 = int (2 ^ 64 - 1)" by simp
  then show ?thesis by (simp add: lyra_next_def 0 nat_mod_distrib)
next
  case (Suc j)
  have "(int r + -1) mod 2 ^ 64 = int j" using assms Suc by (simp add: mod_pos_pos_trivial)
  then show ?thesis using assms Suc by (simp add: lyra_next_def)
qed

lemma sint_small:
  assumes "unat (x :: u64) < 2 ^ 63"
  shows "sint x = int (unat x)"
proof -
  have "- (2 ^ 63) \<le> int (unat x)" by (rule order_trans [of _ 0]) (simp, rule of_nat_0_le_iff)
  moreover have "int (unat x) < int (2 ^ 63)" using assms by (simp only: of_nat_less_iff)
  then have "int (unat x) < 2 ^ 63" by (simp only: of_nat_power of_nat_numeral)
  ultimately have "signed_take_bit 63 (int (unat x)) = int (unat x)" by (rule signed_take_bit_int_eq_self)
  then show ?thesis by (simp add: sint_uint)
qed

lemma time_step:
  assumes "2 \<le> unat nRows" and "unat nRows < 2 ^ 63"
  shows "lyra_time_step nRows tau = (if even tau then -1 else int (unat nRows div 2 - 1))"
proof -
  have "unat (nRows div 2 - 1) = unat nRows div 2 - 1"
    using assms(1) by (simp add: unat_sub word_le_nat_alt unat_div)
  moreover have "unat nRows div 2 - 1 < 2 ^ 63" using assms(2) by linarith
  ultimately have "sint (nRows div 2 - 1) = int (unat nRows div 2 - 1)"
    by (simp only: sint_small)
  then show ?thesis by (simp add: lyra_time_step_def even_iff_mod_2_eq_zero)
qed

lemma wander_rows_visits:
  assumes "3 \<le> unat nRows" and "unat nRows < 2 ^ 63"
  shows "lyra_visits (lyra_next (unat nRows) (lyra_time_step nRows tau)) (wander_rows (unat nRows) tau)"
    and "hd (wander_rows (unat nRows) tau) = 0" and "set (wander_rows (unat nRows) tau) \<subseteq> {..<unat nRows}"
proof -
  let ?R = "unat nRows"
  define s where "s = ?R div 2 - 1"
  define n where "n = ?R div gcd ?R s"
  define q where "q = (2 ^ 64 - 1 :: nat) mod ?R"
  have R: "0 < ?R" "s < ?R" "q < ?R" "0 < n" using assms(1) length_wander_rows_odd [of ?R s] by (auto simp: s_def q_def n_def)
  have st: "lyra_time_step nRows tau = (if even tau then -1 else int s)" using time_step [of nRows tau] assms by (simp add: s_def)
  have even: "wander_rows ?R tau = map (\<lambda>t. if t = 0 then 0 else q + 1 - t) [0..<q + 1]" if "even tau"
    using that by (simp add: wander_rows_def q_def Let_def)
  have odd: "wander_rows ?R tau = map (\<lambda>t. t * s mod ?R) [0..<n]" if "odd tau"
    using that by (simp add: wander_rows_def n_def s_def Let_def)
  show "lyra_visits (lyra_next ?R (lyra_time_step nRows tau)) (wander_rows ?R tau)"
  proof (cases "even tau")
    case True
    have "lyra_next ?R (-1) r = (if r = 0 then q else r - 1)" if "r < ?R" for r
      using next_down [OF that assms(2)] by (simp only: q_def)
    then show ?thesis
      unfolding even [OF True] st if_P [OF True] using R by (intro visits_map) auto
  next
    case False
    have "?R dvd n * s" using dvd_stride [OF R(1), of n s] by (simp add: n_def)
    moreover have "t * s mod ?R \<noteq> 0" if "0 < t" "t < n" for t
      using that dvd_stride [OF R(1), of t s] by (auto simp: n_def mod_eq_0_iff_dvd dest: dvd_imp_le)
    ultimately show ?thesis
      unfolding odd [OF False] st if_not_P [OF False]
      by (intro visits_map) (use next_up [OF _ R(2) assms(2)] R in \<open>auto simp: mod_simps add.commute\<close>)
  qed
  show "hd (wander_rows ?R tau) = 0" using R(4) even odd by (cases "even tau") (simp_all add: hd_map)
  show "set (wander_rows ?R tau) \<subseteq> {..<?R}" using R(1,3) even odd by (cases "even tau") auto
qed

text \<open>When a pass visits every row.\<close>

lemma distinct_wander_rows:
  assumes "3 \<le> R"
  shows "distinct (wander_rows R tau)"
proof (cases "even tau")
  case True
  then show ?thesis by (auto simp: wander_rows_def Let_def distinct_map inj_on_def)
next
  case False
  define s where "s = R div 2 - 1"
  have eq: "t = u" if "t \<le> u" "u < R div gcd R s" "t * s mod R = u * s mod R" for t u
  proof -
    have "R dvd u * s - t * s" using that(1,3) by (subst mod_eq_dvd_iff_nat [symmetric]) simp_all
    then have "R dvd (u - t) * s" by (simp add: diff_mult_distrib)
    then have "R div gcd R s dvd u - t" using dvd_stride [of R "u - t" s] assms by simp
    moreover have "u - t < R div gcd R s" using that(2) by simp
    ultimately have "u - t = 0" using nat_dvd_not_less by blast
    then show ?thesis using that(1) by simp
  qed
  have "inj_on (\<lambda>t. t * s mod R) {0..<R div gcd R s}"
  proof (rule inj_onI)
    fix t u
    assume "t \<in> {0..<R div gcd R s}" "u \<in> {0..<R div gcd R s}" "t * s mod R = u * s mod R"
    then show "t = u" using eq [of t u] eq [of u t] by (cases "t \<le> u") simp_all
  qed
  then show ?thesis using False by (simp add: wander_rows_def s_def Let_def distinct_map)
qed

lemma length_wander_rows:
  "length (wander_rows R tau) = (if even tau then (2 ^ 64 - 1) mod R + 1 else R div gcd R (R div 2 - 1))"
  by (simp add: wander_rows_def Let_def)

lemma odd_pass_all:
  fixes R :: nat
  assumes "4 dvd R" and "0 < R"
  shows "gcd R (R div 2 - 1) = 1"
proof -
  obtain m where m: "R = 4 * m" "0 < m" using assms by (auto elim!: dvdE)
  then have s: "R div 2 - 1 = 2 * m - 1" by simp
  define g where "g = gcd R (R div 2 - 1)"
  have "g dvd 4 * m" "g dvd 2 * m - 1" using m s by (simp_all add: g_def)
  then have "g dvd 4 * m - 2 * (2 * m - 1)" using dvd_diff_nat dvd_mult by blast
  then have "g dvd 2" using m(2) by (simp add: diff_mult_distrib2)
  moreover have "odd g"
  proof
    assume "even g"
    then have "even (2 * m - 1)" using \<open>g dvd 2 * m - 1\<close> by (rule dvd_trans)
    then show False using m(2) by simp
  qed
  moreover have "g \<le> 2" using \<open>g dvd 2\<close> by (rule dvd_imp_le) simp
  ultimately have "g = 1" by (cases "g = 0 \<or> g = 2") auto
  then show ?thesis by (simp add: g_def)
qed

lemma even_pass_all:
  assumes "R = 2 ^ j" and "j \<le> 64"
  shows "(2 ^ 64 - 1 :: nat) mod R + 1 = R"
proof -
  have "(2 ^ 64 :: nat) = 2 ^ j * 2 ^ (64 - j)" using assms(2) by (simp flip: power_add)
  moreover have "a * b - 1 = a * (b - 1) + (a - 1)" if "0 < a" "0 < b" for a b :: nat
    using that by (cases a; cases b) simp_all
  ultimately have "(2 ^ 64 - 1 :: nat) = 2 ^ j * (2 ^ (64 - j) - 1) + (2 ^ j - 1)"
    by (metis zero_less_numeral zero_less_power)
  then have "(2 ^ 64 - 1 :: nat) mod R = 2 ^ j - 1" by (simp only: assms(1) mod_mult_self4) simp
  then show ?thesis by (simp add: assms(1))
qed

section \<open>Passes\<close>

type_synonym wander_state = "(u64 list \<times> lyra_matrix) \<times> nat \<times> u64 \<times> nat"

definition wander_spec_row :: "(u64 list \<Rightarrow> u64 \<Rightarrow> u64 \<times> u64) \<Rightarrow> nat \<Rightarrow> nat \<Rightarrow> nat \<Rightarrow> wander_state \<Rightarrow> wander_state" where
  "wander_spec_row pick C R row st =
     (case st of (t, prev, index, rowa) \<Rightarrow>
        case pick (fst t) index of (index, x) \<Rightarrow>
          let rowa = unat x mod R in (wander_row C prev rowa row t, row, index, rowa))"

definition wander_inv :: "nat \<Rightarrow> nat \<Rightarrow> wander_state \<Rightarrow> lyra_vars \<Rightarrow> bool" where
  "wander_inv R C st v \<longleftrightarrow>
     (case st of (t, prev, index, rowa) \<Rightarrow>
        ly_prev v = int prev \<and> prev < R \<and> ly_index v = index \<and> ly_rowa v = int rowa \<and> rowa < R \<and>
        lyra_sim R C (rows_done C R) t (ly_state v, ly_mem v))"

lemma wander_body_inv:
  assumes "wander_inv R C st v" and "ly_row v = int row" and "row < R" and "C < 2 ^ 31"
  shows "\<exists>v'. lyra_wander_body pick (lyra_rows R C) C v = Some v' \<and> wander_inv R C (wander_spec_row pick C R row st) v' \<and>
    ly_row v' = int (lyra_next R (ly_step v) row) \<and> ly_step v' = ly_step v"
proof -
  obtain t prev index rowa where st: "st = (t, prev, index, rowa)" by (cases st)
  have v: "ly_prev v = int prev" "prev < R" "ly_index v = index" and sim: "lyra_sim R C (rows_done C R) t (ly_state v, ly_mem v)"
    using assms(1) by (simp_all add: wander_inv_def st)
  obtain index' x where p: "pick (fst t) index = (index', x)" by (cases "pick (fst t) index")
  let ?a = "unat x mod R"
  have a: "?a < R" using assms(3) by simp
  obtain state mem where dup: "reducedDuplexRow (prev * (12 * C)) (?a * (12 * C)) (row * (12 * C)) C (ly_state v, ly_mem v) =
      Some (state, mem)" and sim': "lyra_sim R C (rows_done C R) (wander_row C prev ?a row t) (state, mem)"
    using duplexRow_sim [OF sim v(2) a assms(3,4)] by auto
  have s: "ly_state v = fst t" using sim by (simp add: lyra_sim_def)
  have at: "row_at (lyra_rows R C) (int prev) = Some (prev * (12 * C))" "row_at (lyra_rows R C) (int ?a) = Some (?a * (12 * C))"
      "row_at (lyra_rows R C) (int row) = Some (row * (12 * C))"
    by (rule row_at_rows, use v(2) a assms(3) in simp)+
  have nx: "(int row + ly_step v) mod 2 ^ 64 mod int R = int (lyra_next R (ly_step v) row)"
    using assms(3) by (simp add: lyra_next_def)
  have len: "length (lyra_rows R C) = R" by simp
  have "lyra_wander_body pick (lyra_rows R C) C v = Some (v\<lparr>ly_state := state, ly_mem := mem, ly_index := index', ly_rowa := int ?a,
      ly_prev := int row, ly_row := int (lyra_next R (ly_step v) row)\<rparr>)"
    using dup [unfolded s]
    by (simp only: lyra_wander_body_def v(1,3) s p assms(2) prod.case Let_def at len nx Option.bind.simps)
  then show ?thesis using sim' assms(3) a by (simp add: wander_inv_def wander_spec_row_def st p Let_def)
qed

lemma pass_inv:
  assumes "wander_inv R C st v" and "ly_row v = int (hd rs)" and "lyra_visits (lyra_next R (ly_step v)) rs"
    and "set rs \<subseteq> {..<R}" and "C < 2 ^ 31"
  shows "\<exists>v'. lyra_pass pick (lyra_rows R C) C v = Some v' \<and> wander_inv R C (fold (wander_spec_row pick C R) rs st) v' \<and>
    ly_row v' = 0 \<and> ly_step v' = ly_step v"
  using assms
proof (induction rs arbitrary: st v)
  case (Cons r rs)
  obtain v1 where v1: "lyra_wander_body pick (lyra_rows R C) C v = Some v1" "wander_inv R C (wander_spec_row pick C R r st) v1"
      "ly_row v1 = int (lyra_next R (ly_step v) r)" "ly_step v1 = ly_step v"
    using wander_body_inv [OF Cons.prems(1), of r pick] Cons.prems(2,4,5) by auto
  show ?case
  proof (cases rs)
    case Nil
    then have "lyra_next R (ly_step v) r = 0" using Cons.prems(3) by simp
    then show ?thesis using v1 Nil by (subst lyra_pass.simps) simp
  next
    case (Cons r' rs')
    then have n: "lyra_next R (ly_step v) r = r'" "r' \<noteq> 0" "lyra_visits (lyra_next R (ly_step v1)) rs"
      using Cons.prems(3) v1(4) by simp_all
    have "\<exists>v'. lyra_pass pick (lyra_rows R C) C v1 = Some v' \<and>
        wander_inv R C (fold (wander_spec_row pick C R) rs (wander_spec_row pick C R r st)) v' \<and>
        ly_row v' = 0 \<and> ly_step v' = ly_step v1"
      using Cons.prems(4,5) n Cons v1 by (intro Cons.IH) simp_all
    then show ?thesis using v1 n(1,2) by (subst lyra_pass.simps) simp
  qed
qed simp

definition wander_spec :: "(u64 list \<Rightarrow> u64 \<Rightarrow> u64 \<times> u64) \<Rightarrow> nat \<Rightarrow> nat \<Rightarrow> nat \<Rightarrow> wander_state \<Rightarrow> wander_state" where
  "wander_spec pick C R T st = fold (\<lambda>tau. fold (wander_spec_row pick C R) (wander_rows R tau)) [1..<T + 1] st"

lemma wandering_inv:
  assumes "wander_inv R C st v" and "R = unat nRows" and "3 \<le> R" and "R < 2 ^ 63" and "C < 2 ^ 31"
    and "unat timeCost + 1 < 2 ^ 63"
  shows "\<exists>v'. lyra_wandering pick timeCost nRows (lyra_rows R C) C v = Some v' \<and>
    wander_inv R C (wander_spec pick C R (unat timeCost) st) v'"
proof -
  let ?I = "\<lambda>n v. wander_inv R C (fold (\<lambda>tau. fold (wander_spec_row pick C R) (wander_rows R tau)) (map Suc [0..<n]) st) v \<and> ly_row v = 0"
  let ?body = "\<lambda>tau v. lyra_pass pick (lyra_rows R C) C (v\<lparr>ly_step := lyra_time_step nRows tau\<rparr>)"
  have 0: "?I 0 (v\<lparr>ly_row := 0\<rparr>)" using assms(1) by (simp add: wander_inv_def split: prod.splits)
  have "\<exists>v'. ?body (Suc t) v = Some v' \<and> ?I (Suc t) v'" if "?I t v" for t v
  proof -
    let ?st = "fold (\<lambda>tau. fold (wander_spec_row pick C R) (wander_rows R tau)) (map Suc [0..<t]) st"
    let ?v = "v\<lparr>ly_step := lyra_time_step nRows (Suc t)\<rparr>"
    note w = wander_rows_visits [OF assms(3,4) [unfolded assms(2)], of "Suc t", folded assms(2)]
    have "wander_inv R C ?st ?v" using that by (simp add: wander_inv_def split: prod.splits)
    from pass_inv [OF this, of "wander_rows R (Suc t)" pick] w assms(5) that show ?thesis by auto
  qed
  then obtain v' where v': "loop_opt ?body (map Suc [0..<unat timeCost]) (v\<lparr>ly_row := 0\<rparr>) = Some v'" "?I (unat timeCost) v'"
    using loop_opt_invariant [of ?I "v\<lparr>ly_row := 0\<rparr>" "unat timeCost" ?body Suc] 0 by blast
  moreover have "map Suc [0..<unat timeCost] = [1..<unat timeCost + 1]" by (simp add: map_Suc_upt)
  moreover have "\<not> 2 ^ 63 \<le> unat timeCost + 1" using assms(6) by linarith
  ultimately show ?thesis by (simp only: lyra_wandering_def wander_spec_def if_False) blast
qed

section \<open>The padded input\<close>

text \<open>Password, salt and basil with the padding \<open>10*1\<close>.\<close>

definition lyra_message :: "u64 \<Rightarrow> bytes \<Rightarrow> bytes \<Rightarrow> u64 \<Rightarrow> u64 \<Rightarrow> u64 \<Rightarrow> bytes" where
  "lyra_message kLen pwd salt timeCost nRows nCols =
     pwd @ salt @ concat (map (le_bytes 8) [kLen, of_nat (length pwd), of_nat (length salt), timeCost, nRows, nCols])"

definition lyra_pad :: "bytes \<Rightarrow> bytes" where
  "lyra_pad m =
     (let z = 64 - length m mod 64 in m @ (if z = 1 then [0x81] else 0x80 # replicate (z - 2) 0 @ [0x01]))"

lemma length_lyra_message: "length (lyra_message kLen pwd salt timeCost nRows nCols) = length pwd + length salt + 48"
  by (simp add: lyra_message_def)

lemma length_lyra_pad: "length (lyra_pad m) = 64 * (length m div 64 + 1)"
proof -
  define a where "a = length m div 64"
  define b where "b = length m mod 64"
  have "length m = 64 * a + b" "b < 64" by (simp_all add: a_def b_def)
  then show ?thesis unfolding lyra_pad_def a_def [symmetric] b_def [symmetric] by (auto simp: Let_def)
qed

lemma copy_zeros:
  "length x = p \<Longrightarrow> length b = l \<Longrightarrow> l \<le> n \<Longrightarrow> copy_at (x @ replicate n 0) p b = (x @ b) @ replicate (n - l) 0"
  by (simp add: copy_at_def)

lemma lyra_copies_eq:
  assumes "length pwd + length salt + 48 \<le> n"
  shows "lyra_copies (replicate n 0) kLen pwd salt timeCost nRows nCols =
    lyra_message kLen pwd salt timeCost nRows nCols @ replicate (n - (length pwd + length salt + 48)) 0"
proof -
  have 1: "copy_at (replicate n 0) 0 pwd = pwd @ replicate (n - length pwd) 0"
    using copy_zeros [of "[]" 0 pwd "length pwd" n] assms by simp
  show ?thesis
    unfolding lyra_copies_def Let_def 1
    using assms by (simp add: copy_zeros del: append_assoc) (simp add: lyra_message_def)
qed

lemma lyra_input_eq:
  assumes "64 * lyra_blocks pwd salt \<le> n"
  shows "lyra_input n kLen pwd salt timeCost nRows nCols =
    Some (lyra_pad (lyra_message kLen pwd salt timeCost nRows nCols) @ replicate (n - 64 * lyra_blocks pwd salt) 0)"
proof -
  let ?m = "lyra_message kLen pwd salt timeCost nRows nCols"
  define l where "l = length pwd + length salt + 48"
  define z where "z = 64 - l mod 64"
  have m: "length ?m = l" by (simp add: l_def length_lyra_message)
  have z: "0 < z" "z \<le> 64" by (simp_all add: z_def)
  have "(a + 1) * 64 = l + (64 - b)" if "64 * a + b = l" "b < 64" for a b l :: nat using that by simp
  from this [OF mult_div_mod_eq] have "(l div 64 + 1) * 64 = l + (64 - l mod 64)" by simp
  moreover have "length salt + length pwd + 48 = l" by (simp add: l_def)
  ultimately have N: "lyra_blocks pwd salt * 64 = l + z" by (simp only: lyra_blocks_def z_def mod_less_divisor zero_less_numeral simp_thms)
  have n: "l + z \<le> n" using assms N by simp
  have zero: "copy_at (replicate n 0) 0 (replicate (l + z) 0) = (replicate n 0 :: bytes)"
    using n by (simp add: copy_at_def flip: replicate_add)
  have B: "(?m @ replicate (n - l) 0)[l := 0x80] = ?m @ 0x80 # replicate (z - 1) 0 @ replicate (n - (l + z)) (0 :: u8)"
  proof -
    have "replicate (n - l) (0 :: u8) = 0 # replicate (z - 1) 0 @ replicate (n - (l + z)) 0"
      using n z(1) by (simp flip: replicate_add replicate_Suc)
    then show ?thesis by (simp add: m list_update_append)
  qed
  have pad: "lyra_pad ?m = ?m @ (if z = 1 then [0x81] else 0x80 # replicate (z - 2) 0 @ [0x01])"
    by (simp add: lyra_pad_def m z_def Let_def)
  have "lyra_input n kLen pwd salt timeCost nRows nCols =
      Some (let B = ?m @ 0x80 # replicate (z - 1) 0 @ replicate (n - (l + z)) 0 in B[l + z - 1 := B ! (l + z - 1) XOR 1])"
    using n unfolding lyra_input_def N zero Let_def
    by (simp add: lyra_copies_eq [OF order_trans [OF _ n]] B [unfolded l_def] l_def)
  also have "\<dots> = Some (lyra_pad ?m @ replicate (n - (l + z)) 0)"
  proof (cases "z = 1")
    case True
    then show ?thesis by (simp add: pad Let_def m list_update_append nth_append)
  next
    case False
    then obtain y where y: "z = Suc (Suc y)" using z(1) by (cases z; cases "z - 1") auto
    have "replicate (Suc y) (0 :: u8) = replicate y 0 @ [0]" by (simp add: replicate_append_same)
    then show ?thesis by (simp add: pad Let_def m y list_update_append nth_append)
  qed
  finally show ?thesis using N by (simp add: mult.commute)
qed

lemma words_of_append: "length x = 8 * k \<Longrightarrow> words_of (x @ y) = words_of x @ words_of y"
  by (simp add: words_of_def chunks_append_blocks)

lemma zero_words: "words_of (replicate (8 * k) 0) = replicate k 0"
  by (rule words_of_eqI [where k = k]) simp_all

lemma words_of_slice:
  assumes "length B = 8 * k" and "8 * i + 64 \<le> length B"
  shows "take 8 (drop i (words_of B)) = words_of (take 64 (drop (8 * i) B))"
proof -
  let ?x = "take (8 * i) B" and ?y = "take 64 (drop (8 * i) B)" and ?z = "drop 64 (drop (8 * i) B)"
  have "B = ?x @ ?y @ ?z" by (metis append_take_drop_id)
  moreover have x: "length ?x = 8 * i" and y: "length ?y = 8 * 8" using assms(2) by simp_all
  ultimately have "words_of B = words_of ?x @ words_of ?y @ words_of ?z" by (metis words_of_append)
  then show ?thesis using length_words_of [OF x] length_words_of [OF y] by simp
qed

section \<open>The value of the functions\<close>

definition lyra_spec :: "(u64 list \<Rightarrow> u64 \<Rightarrow> u64 \<times> u64) \<Rightarrow> u64 list list \<Rightarrow> nat \<Rightarrow> nat \<Rightarrow> nat \<Rightarrow> nat \<Rightarrow> bytes" where
  "lyra_spec pick blocks T R C k =
     (let S = fold (\<lambda>b S. lyra_H (absorb_block b S)) blocks (replicate 8 0 @ lyra_IV);
          t = fold (setup_spec_row C) [2..<R] (row1_row C (squeeze_row C (S, \<lambda>r c. [])));
          ((S, M), prev, index, rowa) = wander_spec pick C R T (t, R - 1, 0, setup_rowa R)
      in squeeze_spec (lyra_H (absorb_block (M rowa 0) S)) k)"

lemma length_fold_absorb:
  assumes "\<And>b. b \<in> set bs \<Longrightarrow> length b \<le> 16" and "length S = 16"
  shows "length (fold (\<lambda>b S. lyra_H (absorb_block b S)) bs S) = 16"
  using assms by (induction bs arbitrary: S) auto

lemma absorbBlock_sim:
  assumes "lyra_sim R C (rows_done C R) (S, M) (state, mem)" and "rowa < R" and "0 < C"
  shows "absorbBlock state mem (rowa * (12 * C)) = Some (lyra_H (absorb_block (M rowa 0) S))"
    and "length (lyra_H (absorb_block (M rowa 0) S)) = 16"
proof -
  have r: "lyra_repr R C (rows_done C R) M mem" and S: "state = S" "length S = 16" using assms(1) by (simp_all add: lyra_sim_def)
  have "(rowa, 0) \<in> rows_done C R" using assms(2,3) by (simp add: rows_done_def)
  note c = repr_cell [OF r this]
  have "rowa * (12 * C) = 12 * (rowa * C + 0)" by simp
  then show "absorbBlock state mem (rowa * (12 * C)) = Some (lyra_H (absorb_block (M rowa 0) S))"
    using c(1,3) S map_nth_slice [of "12 * (rowa * C + 0)" 12 mem]
    by (simp only: absorbBlock_def blake2bLyra_H cell_def if_True) (simp add: state_xor_absorb)
  show "length (lyra_H (absorb_block (M rowa 0) S)) = 16" using c(2) S by simp
qed

lemma phases_value:
  assumes "length fresh = 16" and "length mem = 12 * (R * C)" and R: "R = unat nRows" "3 \<le> R" "R < 2 ^ 63"
    and C: "0 < C" "C < 2 ^ 31" and n: "\<And>i. i < n \<Longrightarrow> i * stride + 8 \<le> length mem"
    and k: "k = unat (ucast kLen :: u32)" "k \<le> length K" and T: "unat timeCost + 1 < 2 ^ 63"
  shows "\<exists>S. lyra2_phases stride pick fresh mem (lyra_rows R C) K kLen n timeCost nRows C =
    Some (S, lyra_spec pick (map (\<lambda>i. take 8 (drop (i * stride) mem)) [0..<n]) (unat timeCost) R C k @ drop k K)"
proof -
  let ?blocks = "map (\<lambda>i. take 8 (drop (i * stride) mem)) [0..<n]"
  define S where "S = fold (\<lambda>b S. lyra_H (absorb_block b S)) ?blocks (replicate 8 0 @ lyra_IV)"
  have IV: "length (replicate 8 0 @ lyra_IV) = 16" by (simp add: lyra_IV_def)
  have S: "length S = 16" unfolding S_def by (rule length_fold_absorb) (use IV in auto)
  have 1: "loop_opt (\<lambda>i state. absorbBlockBlake2Safe state mem (i * stride)) [0..<n] (initState fresh) = Some S"
    unfolding S_def initState_eq [OF assms(1)] using n IV by (rule absorb_input)
  have at: "row_at (lyra_rows R C) 0 = Some (0 * (12 * C))" "row_at (lyra_rows R C) 1 = Some (1 * (12 * C))"
    using row_at_rows [of 0 R C] row_at_rows [of 1 R C] R(2) by simp_all
  have sim0: "lyra_sim R C {} (S, \<lambda>r c. []) (S, mem)" using S assms(2) by (simp add: lyra_sim_def lyra_repr_def)
  obtain s1 m1 where 2: "reducedSqueezeRow0 (0 * (12 * C)) C (S, mem) = Some (s1, m1)"
      and sim1: "lyra_sim R C (rows_done C 1) (squeeze_row C (S, \<lambda>r c. [])) (s1, m1)"
    using squeezeRow0_sim [OF sim0 _ C(2)] R(2) by auto
  define t where "t = row1_row C (squeeze_row C (S, \<lambda>r c. []))"
  obtain s2 m2 where 3: "reducedDuplexRow1 (0 * (12 * C)) (1 * (12 * C)) C (s1, m1) = Some (s2, m2)"
      and sim2: "lyra_sim R C (rows_done C 2) t (s2, m2)"
    using duplexRow1_sim [OF sim1 _ C(2)] R(2) by (auto simp: t_def)
  let ?v = "\<lparr>ly_state = s2, ly_mem = m2, ly_row = 2, ly_prev = 1, ly_rowa = 0, ly_step = 1, ly_window = 2, ly_gap = 1, ly_index = 0\<rparr>"
  have "setup_level 2 = 1" by (rule setup_level_eqI) simp_all
  then have "setup_inv R C 2 t ?v" using sim2 by (simp add: setup_inv_def setup_rowa_def setup_stride_def)
  then obtain v3 where 4: "lyra_setup (lyra_rows R C) C ?v = Some v3" and v3: "setup_inv R C R (fold (setup_spec_row C) [2..<R] t) v3"
    using setup_loop [of R C 2 t ?v] R(2) C(2) by auto
  let ?st = "(fold (setup_spec_row C) [2..<R] t, R - 1, 0, setup_rowa R)"
  have "wander_inv R C ?st v3" using v3 setup_rowa_less(2) [of R] R(2) by (simp add: wander_inv_def setup_inv_def)
  then obtain v4 where 5: "lyra_wandering pick timeCost nRows (lyra_rows R C) C v3 = Some v4"
      and v4: "wander_inv R C (wander_spec pick C R (unat timeCost) ?st) v4"
    using wandering_inv [OF _ R C(2) T] by blast
  obtain S' M' prev index rowa where w: "wander_spec pick C R (unat timeCost) ?st = ((S', M'), prev, index, rowa)"
    by (metis surj_pair)
  have v: "ly_rowa v4 = int rowa" "rowa < R" "lyra_sim R C (rows_done C R) (S', M') (ly_state v4, ly_mem v4)"
    using v4 unfolding w by (simp_all add: wander_inv_def)
  note a = absorbBlock_sim [OF v(3,2) C(1)]
  have 6: "row_at (lyra_rows R C) (ly_rowa v4) = Some (rowa * (12 * C))" using v(1,2) by (simp only: row_at_rows)
  obtain S'' where 7: "lyra_squeeze (lyra_H (absorb_block (M' rowa 0) S')) K (ucast kLen) =
      Some (S'', squeeze_spec (lyra_H (absorb_block (M' rowa 0) S')) k @ drop k K)"
    using lyra_squeeze_eq [OF _ a(2), of "ucast kLen" K] k by auto
  have "lyra2_phases stride pick fresh mem (lyra_rows R C) K kLen n timeCost nRows C =
      Some (S'', squeeze_spec (lyra_H (absorb_block (M' rowa 0) S')) k @ drop k K)"
    by (simp only: lyra2_phases_def 1 at 2 3 4 5 6 7 a(1) prod.case Option.bind.simps)
  then show ?thesis
    using w by (simp add: lyra_spec_def S_def [symmetric] t_def [symmetric] Let_def)
qed

lemma lyra_sizes:
  fixes nRows nCols :: u64
  assumes "96 * (unat nRows * unat nCols) < 2 ^ 63" and "0 < unat nRows" and "0 < unat nCols"
  shows "sint (12 * nCols) = int (12 * unat nCols)" and "sint nRows = int (unat nRows)"
    and "fits_int64 (int (12 * unat nCols) * 8)" and "fits_int64 (int (unat nRows) * (int (12 * unat nCols) * 8))"
    and "unat nRows < 2 ^ 61"
proof -
  let ?R = "unat nRows" and ?C = "unat nCols"
  have C: "96 * ?C \<le> 96 * (?R * ?C)" and R: "96 * ?R \<le> 96 * (?R * ?C)" using assms(2,3) by simp_all
  have "unat (12 * nCols) = 12 * ?C mod 2 ^ 64"
    by (simp add: unat_word_ariths)
  moreover have C63: "12 * ?C < 2 ^ 63" using le_less_trans [OF C assms(1)] by linarith
  ultimately have u: "unat (12 * nCols) = 12 * ?C" by simp
  then have "sint (12 * nCols) = int (12 * ?C)" using sint_small [of "12 * nCols"] C63 by (simp only: u)
  then show "sint (12 * nCols) = int (12 * ?C)" .
  show "sint nRows = int ?R" using R assms(1) by (intro sint_small) linarith
  have nat: "int (12 * ?C) * 8 = int (96 * ?C)" "int ?R * (int (12 * ?C) * 8) = int (96 * (?R * ?C))" by simp_all
  have fits: "fits_int64 (int x)" if "x < 2 ^ 63" for x
  proof -
    have "int x < int (2 ^ 63)" using that by (simp only: of_nat_less_iff)
    then show ?thesis by (simp add: fits_int64_def)
  qed
  show "fits_int64 (int (12 * ?C) * 8)" unfolding nat by (rule fits) (use C assms(1) in linarith)
  show "fits_int64 (int ?R * (int (12 * ?C) * 8))" unfolding nat(2) by (rule fits) (use assms(1) in linarith)
  show "?R < 2 ^ 61" using le_less_trans [OF R assms(1)] by simp
qed

lemma lyra2_with_value:
  fixes nRows nCols :: u64
  defines "R \<equiv> unat nRows" and "C \<equiv> unat nCols"
  assumes "length fresh = 16" and R: "3 \<le> R" and C: "0 < C" "C < 2 ^ 31" and fit: "96 * (R * C) < 2 ^ 63"
    and n: "64 * lyra_blocks pwd salt \<le> 96 * (R * C)" "\<And>i. i < lyra_blocks pwd salt \<Longrightarrow> i * stride + 8 \<le> 12 * (R * C)"
    and k: "k = unat (ucast kLen :: u32)" "k \<le> length K" and T: "unat timeCost + 1 < 2 ^ 63"
  shows "lyra2_with stride pick (True, True, True) fresh K kLen pwd salt timeCost nRows nCols =
    Some (0, lyra_spec pick (map (\<lambda>i. take 8 (drop (i * stride)
        (words_of (lyra_pad (lyra_message kLen pwd salt timeCost nRows nCols) @ replicate (96 * (R * C) - 64 * lyra_blocks pwd salt) 0))))
        [0..<lyra_blocks pwd salt]) (unat timeCost) R C k @ drop k K)"
proof -
  let ?B = "lyra_pad (lyra_message kLen pwd salt timeCost nRows nCols) @ replicate (96 * (R * C) - 64 * lyra_blocks pwd salt) 0"
  have R0: "0 < R" using R by simp
  note sz = lyra_sizes [of nRows nCols, folded R_def C_def, OF fit R0 C(1)]
  have "length ?B = 8 * (12 * (R * C))"
    using n(1) by (simp add: length_lyra_pad length_lyra_message lyra_blocks_def ac_simps)
  then have len: "length (words_of ?B) = 12 * (R * C)" by (rule length_words_of)
  obtain S where ph: "lyra2_phases stride pick fresh (words_of ?B) (lyra_rows R C) K kLen (lyra_blocks pwd salt) timeCost nRows C =
      Some (S, lyra_spec pick (map (\<lambda>i. take 8 (drop (i * stride) (words_of ?B))) [0..<lyra_blocks pwd salt]) (unat timeCost) R C k @ drop k K)"
    using phases_value [OF assms(3) len R_def [THEN meta_eq_to_obj_eq] R _ C _ k T, of "lyra_blocks pwd salt" stride pick] sz(5) n(2) len
    by auto
  have i: "nat (int R * (int (12 * C) * 8)) = 96 * (R * C)" by (simp add: nat_mult_distrib nat_power_eq flip: of_nat_mult)
  have "int R * (int (12 * C) * 8) = int (96 * (R * C))" by simp
  then have "\<not> int R * (int (12 * C) * 8) < 0" by (simp only: of_nat_less_0_iff simp_thms)
  moreover have "\<not> 2 ^ 61 \<le> R" using sz(5) by simp
  moreover have "lyra_input (96 * (R * C)) kLen pwd salt timeCost nRows nCols = Some ?B" by (rule lyra_input_eq [OF n(1)])
  ultimately show ?thesis
    unfolding lyra2_with_def prod.case sz(1,2) Let_def
    using sz(3,4) ph by (simp only: i nat_int R_def [symmetric] C_def [symmetric] simp_thms if_False Option.bind.simps prod.case)
qed

text \<open>The blocks that are absorbed: all of the input, or every eighth block of the memory.\<close>

definition input_blocks :: "bytes \<Rightarrow> u64 list list" where
  "input_blocks m = map words_of (chunks 64 (lyra_pad m))"

lemma blocks_of_input:
  assumes "length m div 64 + 1 = n"
  shows "map (\<lambda>i. take 8 (drop (i * 8) (words_of (lyra_pad m @ replicate (8 * z) 0)))) [0..<n] = input_blocks m"
proof (rule nth_equalityI)
  let ?B = "lyra_pad m @ replicate (8 * z) 0"
  have len: "length (lyra_pad m) = 64 * n" using length_lyra_pad [of m] assms by simp
  then show "length (map (\<lambda>i. take 8 (drop (i * 8) (words_of ?B))) [0..<n]) = length (input_blocks m)"
    using length_chunks [of 64 "lyra_pad m" n] by (simp add: input_blocks_def)
  fix i
  assume "i < length (map (\<lambda>i. take 8 (drop (i * 8) (words_of ?B))) [0..<n])"
  then have i: "i < n" by simp
  have B: "length ?B = 8 * (8 * n + z)" using len by simp
  have "64 * i + 64 \<le> 64 * n" using i by simp
  then have fit: "8 * (i * 8) + 64 \<le> length ?B" "take 64 (drop (64 * i) ?B) = take 64 (drop (64 * i) (lyra_pad m))"
    using len by simp_all
  have "take 8 (drop (i * 8) (words_of ?B)) = words_of (take 64 (drop (8 * (i * 8)) ?B))"
    using words_of_slice [OF B, of "i * 8"] fit(1) by simp
  also have "8 * (i * 8) = 64 * i" by simp
  finally show "map (\<lambda>i. take 8 (drop (i * 8) (words_of ?B))) [0..<n] ! i = input_blocks m ! i"
    using i len fit(2) by (simp add: input_blocks_def length_chunks nth_chunks)
qed

lemma blocks_of_input_old:
  assumes "length m div 64 + 1 = n" and "n \<le> 8" and "64 * (n - 1) + 8 \<le> 8 * n + z"
  shows "map (\<lambda>i. take 8 (drop (i * 64) (words_of (lyra_pad m @ replicate (8 * z) 0)))) [0..<n] =
    hd (input_blocks m) # replicate (n - 1) (replicate 8 0)"
proof (rule nth_equalityI)
  let ?B = "lyra_pad m @ replicate (8 * z) 0"
  have len: "length (lyra_pad m) = 8 * (8 * n)" using length_lyra_pad [of m] assms(1) by simp
  show "length (map (\<lambda>i. take 8 (drop (i * 64) (words_of ?B))) [0..<n]) = length (hd (input_blocks m) # replicate (n - 1) (replicate 8 0))"
    using assms(1) by simp
  fix i
  assume "i < length (map (\<lambda>i. take 8 (drop (i * 64) (words_of ?B))) [0..<n])"
  then have i: "i < n" by simp
  show "map (\<lambda>i. take 8 (drop (i * 64) (words_of ?B))) [0..<n] ! i = (hd (input_blocks m) # replicate (n - 1) (replicate 8 0)) ! i"
  proof (cases i)
    case 0
    have "take 8 (words_of ?B) = hd (map (\<lambda>i. take 8 (drop (i * 8) (words_of ?B))) [0..<n])"
      using assms(1) by (simp add: hd_map)
    then show ?thesis using 0 i blocks_of_input [OF assms(1), of z] by simp
  next
    case (Suc j)
    have "words_of ?B = words_of (lyra_pad m) @ replicate z 0"
      using words_of_append [OF len] by (simp add: zero_words)
    moreover have "length (words_of (lyra_pad m)) = 8 * n" using len by (rule length_words_of)
    moreover have "8 * n \<le> i * 64" using assms(2) Suc by simp
    moreover have "i * 64 + 8 \<le> 8 * n + z" using assms(3) i by (simp add: mult.commute)
    ultimately have "take 8 (drop (i * 64) (words_of ?B)) = replicate 8 0" by simp
    then show ?thesis using i Suc by simp
  qed
qed

text \<open>The values of the three functions.\<close>

definition lyra_args_ok :: "nat \<Rightarrow> nat \<Rightarrow> bytes \<Rightarrow> bytes \<Rightarrow> bool" where
  "lyra_args_ok R C pwd salt \<longleftrightarrow>
     3 \<le> R \<and> 0 < C \<and> C < 2 ^ 31 \<and> 96 * (R * C) < 2 ^ 63 \<and> 64 * lyra_blocks pwd salt \<le> 96 * (R * C)"

lemma room_words:
  assumes "64 * n \<le> 96 * (x :: nat)"
  shows "96 * x - 64 * n = 8 * (12 * x - 8 * n)"
  using assms by simp

lemma lyra2_stride_8:
  assumes "length fresh = 16" and "lyra_args_ok (unat nRows) (unat nCols) pwd salt"
    and "k = unat (ucast kLen :: u32)" and "k \<le> length K" and "unat timeCost + 1 < 2 ^ 63"
  shows "lyra2_with 8 pick (True, True, True) fresh K kLen pwd salt timeCost nRows nCols =
    Some (0, lyra_spec pick (input_blocks (lyra_message kLen pwd salt timeCost nRows nCols)) (unat timeCost) (unat nRows) (unat nCols) k @ drop k K)"
proof -
  let ?R = "unat nRows" and ?C = "unat nCols" and ?n = "lyra_blocks pwd salt"
  let ?m = "lyra_message kLen pwd salt timeCost nRows nCols"
  have ok: "3 \<le> ?R" "0 < ?C" "?C < 2 ^ 31" "96 * (?R * ?C) < 2 ^ 63" "64 * ?n \<le> 96 * (?R * ?C)"
    using assms(2) by (simp_all add: lyra_args_ok_def)
  have n: "length ?m div 64 + 1 = ?n" by (simp add: length_lyra_message lyra_blocks_def ac_simps)
  have "i * 8 + 8 \<le> 12 * (?R * ?C)" if "i < ?n" for i using that ok(5) by linarith
  from lyra2_with_value [OF assms(1) ok this assms(3-5), of pick] show ?thesis
    unfolding room_words [OF ok(5)] blocks_of_input [OF n] .
qed

lemma lyra2_stride_64:
  assumes "length fresh = 16" and "lyra_args_ok (unat nRows) (unat nCols) pwd salt"
    and "lyra_blocks pwd salt \<le> 8" and "64 * (lyra_blocks pwd salt - 1) + 8 \<le> 12 * (unat nRows * unat nCols)"
    and "k = unat (ucast kLen :: u32)" and "k \<le> length K" and "unat timeCost + 1 < 2 ^ 63"
  shows "lyra2_with 64 pick (True, True, True) fresh K kLen pwd salt timeCost nRows nCols =
    Some (0, lyra_spec pick (hd (input_blocks (lyra_message kLen pwd salt timeCost nRows nCols)) #
      replicate (lyra_blocks pwd salt - 1) (replicate 8 0)) (unat timeCost) (unat nRows) (unat nCols) k @ drop k K)"
proof -
  let ?R = "unat nRows" and ?C = "unat nCols" and ?n = "lyra_blocks pwd salt"
  let ?m = "lyra_message kLen pwd salt timeCost nRows nCols"
  have ok: "3 \<le> ?R" "0 < ?C" "?C < 2 ^ 31" "96 * (?R * ?C) < 2 ^ 63" "64 * ?n \<le> 96 * (?R * ?C)"
    using assms(2) by (simp_all add: lyra_args_ok_def)
  have n: "length ?m div 64 + 1 = ?n" by (simp add: length_lyra_message lyra_blocks_def ac_simps)
  have i: "i * 64 + 8 \<le> 12 * (?R * ?C)" if "i < ?n" for i using that assms(4) by linarith
  have z: "64 * (?n - 1) + 8 \<le> 8 * ?n + (12 * (?R * ?C) - 8 * ?n)" using assms(4) by linarith
  from lyra2_with_value [OF assms(1) ok i assms(5-7), of pick] show ?thesis
    unfolding room_words [OF ok(5)] blocks_of_input_old [OF n assms(3) z] .
qed

section \<open>Failures\<close>

lemma setup_two_rows:
  assumes "length rows \<le> 2" and "ly_row v = 2"
  shows "lyra_setup rows nCols v = None"
proof -
  have "row_at rows (ly_row v) = None" using assms by (simp add: row_at_def)
  then have "lyra_setup_body rows nCols v = None" by (simp add: lyra_setup_body_def)
  then show ?thesis by (subst lyra_setup.simps) simp
qed

lemma phases_two_rows:
  assumes "length rows \<le> 2"
  shows "lyra2_phases stride pick state mem rows K kLen n timeCost nRows nCols = None"
  by (rule ccontr) (auto simp: lyra2_phases_def bind_eq_Some_conv setup_two_rows [OF assms])

lemma lyra2_few_rows:
  assumes "unat nRows \<le> 2"
  shows "lyra2_with stride pick (True, True, True) fresh K kLen pwd salt timeCost nRows nCols = None"
  using phases_two_rows [of "map _ [0..<unat nRows]"] assms
  by (simp add: lyra2_with_def Let_def split_beta)

lemma lyra2_long_input:
  assumes "96 * (unat nRows * unat nCols) < 2 ^ 63" and "96 * (unat nRows * unat nCols) < 64 * lyra_blocks pwd salt"
  shows "lyra2_with stride pick (True, True, True) fresh K kLen pwd salt timeCost nRows nCols = None"
proof (cases "0 < unat nRows \<and> 0 < unat nCols")
  case True
  note sz = lyra_sizes [OF assms(1) True [THEN conjunct1] True [THEN conjunct2]]
  have i: "nat (int (unat nRows) * (int (12 * unat nCols) * 8)) = 96 * (unat nRows * unat nCols)"
    by (simp add: nat_mult_distrib nat_power_eq flip: of_nat_mult)
  have "lyra_input (96 * (unat nRows * unat nCols)) kLen pwd salt timeCost nRows nCols = None"
    using assms(2) by (simp add: lyra_input_def mult.commute)
  then show ?thesis
    unfolding lyra2_with_def prod.case sz(1,2) Let_def i by simp
next
  case False
  then have "sint nRows * (sint (12 * nCols) * 8) = 0" by (auto simp: unat_eq_0)
  moreover have "lyra_input 0 kLen pwd salt timeCost nRows nCols = None" by (simp add: lyra_input_def lyra_blocks_def)
  ultimately show ?thesis by (simp add: lyra2_with_def Let_def)
qed

lemma lyra2_no_memory:
  assumes "lyra_args_ok (unat nRows) (unat nCols) pwd salt" and "mallocs \<noteq> (True, True, True)"
  shows "lyra2_with stride pick mallocs fresh K kLen pwd salt timeCost nRows nCols = Some (-1, K)"
proof -
  let ?R = "unat nRows" and ?C = "unat nCols"
  have ok: "3 \<le> ?R" "0 < ?C" "96 * (?R * ?C) < 2 ^ 63" "64 * lyra_blocks pwd salt \<le> 96 * (?R * ?C)"
    using assms(1) by (simp_all add: lyra_args_ok_def)
  have R: "0 < ?R" using ok(1) by simp
  note sz = lyra_sizes [OF ok(3) R ok(2)]
  have i: "nat (int ?R * (int (12 * ?C) * 8)) = 96 * (?R * ?C)" by (simp add: nat_mult_distrib nat_power_eq flip: of_nat_mult)
  have "int ?R * (int (12 * ?C) * 8) = int (96 * (?R * ?C))" by simp
  then have "\<not> int ?R * (int (12 * ?C) * 8) < 0" by (simp only: of_nat_less_0_iff simp_thms)
  moreover have "\<not> 2 ^ 61 \<le> ?R" using sz(5) by simp
  moreover obtain m1 m2 m3 where "mallocs = (m1, m2, m3)" by (cases mallocs)
  ultimately show ?thesis
    using assms(2) sz(3,4) unfolding lyra2_with_def prod.case sz(1,2) Let_def i lyra_input_eq [OF ok(4)]
    by (auto simp only: Option.bind.simps split: if_splits)
qed

lemma length_lyra2_with:
  assumes "lyra2_with stride pick mallocs fresh K kLen pwd salt timeCost nRows nCols = Some (ret, K')"
  shows "length K' = length K"
  using assms
  by (auto simp: lyra2_with_def lyra2_phases_def Let_def bind_eq_Some_conv split: prod.splits if_splits dest: length_lyra_squeeze)

section \<open>The rows of the phases\<close>

lemma setup_rowa_not_prev:
  assumes "2 \<le> row"
  shows "setup_rowa row \<noteq> row - 1"
proof (cases "row = 2 ^ setup_level row")
  case True
  then have "setup_rowa row = 0" by (simp add: setup_rowa_def)
  then show ?thesis using assms by simp
next
  case False
  then have "2 ^ setup_level row \<le> row - 1" using setup_level_bounds(1) [of row] assms by simp
  then show ?thesis using setup_rowa_less(1) [OF assms] by simp
qed

lemma wander_rows_bound:
  assumes "0 < R"
  shows "set (wander_rows R tau) \<subseteq> {..<R}"
proof -
  define q :: nat where "q = (2 ^ 64 - 1) mod R"
  have "q < R" using assms by (simp add: q_def)
  then show ?thesis using assms unfolding wander_rows_def q_def [symmetric] Let_def by auto
qed

lemma all_rows_visited:
  assumes "2 \<le> j" and "R = 2 ^ j" and "R < 2 ^ 63"
  shows "set (wander_rows R tau) = {..<R}"
proof -
  have j: "j \<le> 64" using assms(2,3) power_less_imp_less_exp [of "2 :: nat" j 63] by simp
  have R: "3 \<le> R" "4 dvd R" using assms(1,2) power_increasing [of 2 j "2 :: nat"] le_imp_power_dvd [of 2 j "2 :: nat"] by simp_all
  have "length (wander_rows R tau) = R"
    using even_pass_all [OF assms(2) j] odd_pass_all [OF R(2)] R(1) by (simp add: length_wander_rows)
  then have "card (set (wander_rows R tau)) = card {..<R}" using distinct_card [OF distinct_wander_rows [OF R(1)]] by simp
  moreover have "set (wander_rows R tau) \<subseteq> {..<R}" using R(1) by (intro wander_rows_bound) simp
  ultimately show ?thesis by (intro card_subset_eq) simp_all
qed

lemma six_rows: "set (wander_rows 6 1) = {0, 2, 4}" "wander_rows 6 2 = [0, 3, 2, 1]"
  by (auto simp: wander_rows_def upt_rec gcd_non_0_nat)

lemma first_input_block:
  assumes "64 \<le> length pwd + length salt"
  shows "hd (input_blocks (lyra_message kLen pwd salt timeCost nRows nCols)) = words_of (take 64 (pwd @ salt))"
proof -
  let ?p = "lyra_pad (lyra_message kLen pwd salt timeCost nRows nCols)"
  have "take 64 ?p = take 64 (pwd @ salt)" using assms by (simp add: lyra_pad_def lyra_message_def Let_def)
  moreover have "?p \<noteq> []" by (simp add: lyra_pad_def Let_def)
  ultimately show ?thesis unfolding input_blocks_def chunks.simps [of 64 ?p] by simp
qed

end
