(* ===== verification/Lyra_Chains.thy ===== *)
theory Lyra_Chains
  imports Sph_Chains Lyra2
begin

text \<open>
  The chains of \<open>Lyra2RE.c\<close> and \<open>allium.c\<close> with the Lyra2 of \<open>Lyra2.c\<close>: the parameter of \<open>Sph_Chains\<close> that stands for
  Lyra2 is instantiated by its model. The locale \<open>lyra_provider\<close> is what the chains rely on: the number of bytes
  that are stored, and that the calls they make return 0 and store those bytes when memory is available.
\<close>

section \<open>The calls\<close>

text \<open>A call \<open>LYRA2(K, k, pwd, pwdlen, salt, saltlen, t, r, c)\<close> of one of the three functions.\<close>

definition lyra_run ::
    "lyra \<Rightarrow> bool \<times> bool \<times> bool \<Rightarrow> u64 list \<Rightarrow> bytes \<Rightarrow> nat \<Rightarrow> bytes \<Rightarrow> bytes \<Rightarrow> nat \<Rightarrow> nat \<Rightarrow> nat \<Rightarrow>
      (int \<times> bytes) option" where
  "lyra_run v mallocs fresh K k pwd salt t r c =
     (case v of LYRA2 \<Rightarrow> lyra2 | LYRA2_OLD \<Rightarrow> lyra2_old | LYRA2_3 \<Rightarrow> lyra2_3)
       mallocs fresh K (of_nat k) pwd salt (of_nat t) (of_nat r) (of_nat c)"

text \<open>The calls of the chains: a square matrix of 4 or 8 rows, and 32 bytes as key, password and salt.\<close>

definition lyra_chain_call :: "nat \<Rightarrow> bytes \<Rightarrow> bytes \<Rightarrow> u64 list \<Rightarrow> bool" where
  "lyra_chain_call n x K fresh \<longleftrightarrow> (n = 4 \<or> n = 8) \<and> length x = 32 \<and> length K = 32 \<and> length fresh = 16"

section \<open>The interface\<close>

locale lyra_provider =
  fixes L :: lyra_fun
  assumes stores_key: "length (L v k pwd salt t r c) = k"
    and chain_call: "lyra_chain_call n x K fresh \<Longrightarrow>
      lyra_run v (True, True, True) fresh K 32 x x 1 n n = Some (0, L v 32 x x 1 n n)"
begin

lemma provider_step:
  "lyra_chain_call n x K fresh \<Longrightarrow> lyra_run v (True, True, True) fresh K 32 x x 1 n n = Some (0, lyra_step L v n x)"
  by (simp only: chain_call lyra_step_def)

lemma provider_ok: "lyra_ok L"
  by (simp add: lyra_ok_def stores_key)

lemma provider_chains:
  assumes "sph_ok H" and "length bufA = 32" and "length bufB = 32"
  shows "lyra2re_hash H L bufA bufB input =
      (H GROESTL256 \<circ> H SKEIN256 \<circ> lyra_step L LYRA2_OLD 8 \<circ> H KECCAK256 \<circ> H BLAKE256) (take 80 input)"
    and "lyra2re2_hash H L bufA bufB input =
      (H BMW256 \<circ> H CUBEHASH256 \<circ> H SKEIN256 \<circ> lyra_step L LYRA2 4 \<circ> H CUBEHASH256 \<circ> H KECCAK256 \<circ> H BLAKE256)
        (take 80 input)"
    and "lyra2re3_hash H L bufA bufB input =
      (H BMW256 \<circ> lyra_step L LYRA2_3 4 \<circ> H CUBEHASH256 \<circ> lyra_step L LYRA2_3 4 \<circ> H BLAKE256) (take 80 input)"
    and "allium_hash H L bufA bufB input len =
      (H GROESTL256 \<circ> H SKEIN256 \<circ> lyra_step L LYRA2 8 \<circ> H CUBEHASH256 \<circ> lyra_step L LYRA2 8 \<circ> H KECCAK256
       \<circ> H BLAKE256) (take len input)"
  by (rule lyra2re_chain lyra2re2_chain lyra2re3_chain allium_chain; rule assms provider_ok)+

end

section \<open>The model as a provider\<close>

definition lyra_call :: "lyra \<Rightarrow> nat \<Rightarrow> bytes \<Rightarrow> bytes" where
  "lyra_call v n x =
     (let m = lyra_message 32 x x 1 (of_nat n) (of_nat n) in
      case v of LYRA2 \<Rightarrow> lyra_spec pick_first (input_blocks m) 1 n n 32
      | LYRA2_OLD \<Rightarrow> lyra_spec pick_first [hd (input_blocks m), replicate 8 0] 1 n n 32
      | LYRA2_3 \<Rightarrow> lyra_spec pick_index (input_blocks m) 1 n n 32)"

text \<open>
  Every call of the chains returns 0 with the value of the specification when the three allocations succeed,
  whatever the key and the state held; when one of them fails, it returns -1 and leaves the key as it is.
\<close>

lemma lyra_run_chain:
  assumes "lyra_chain_call n x K fresh"
  shows "lyra_run v (True, True, True) fresh K 32 x x 1 n n = Some (0, lyra_call v n x)"
    and "mallocs \<noteq> (True, True, True) \<Longrightarrow> lyra_run v mallocs fresh K 32 x x 1 n n = Some (-1, K)"
proof -
  have c: "n = 4 \<or> n = 8" "length x = 32" "length K = 32" "length fresh = 16"
    using assms by (simp_all add: lyra_chain_call_def)
  have u: "unat (of_nat n :: u64) = n" using c(1) by auto
  have b: "lyra_blocks x x = 2" using c(2) by (simp add: lyra_blocks_def)
  have ok: "lyra_args_ok (unat (of_nat n :: u64)) (unat (of_nat n :: u64)) x x"
    using c(1) by (auto simp: u lyra_args_ok_def b)
  have k: "(32 :: nat) = unat (ucast (of_nat 32 :: u64) :: u32)" by simp
  note s8 = lyra2_stride_8 [OF c(4) ok k, of K "of_nat 1"]
  note s64 = lyra2_stride_64 [OF c(4) ok _ _ k, of K "of_nat 1" pick_first]
  have o: "64 * (lyra_blocks x x - 1) + 8 \<le> 12 * (unat (of_nat n :: u64) * unat (of_nat n :: u64))"
    using c(1) by (auto simp: u b)
  show "lyra_run v (True, True, True) fresh K 32 x x 1 n n = Some (0, lyra_call v n x)"
    using s8 s64 o c(3) by (cases v) (simp_all add: lyra_run_def lyra_call_def lyra2_def lyra2_old_def lyra2_3_def u b)
  show "lyra_run v mallocs fresh K 32 x x 1 n n = Some (-1, K)" if "mallocs \<noteq> (True, True, True)"
    by (cases v) (simp_all only: lyra_run_def lyra.case lyra2_def lyra2_old_def lyra2_3_def lyra2_no_memory [OF ok that])
qed

text \<open>
  What a call with memory stores at \<open>K\<close>, as a function of its arguments. The calls of the chains are defined
  (\<open>lyra_run_chain\<close>); for a call that is not, the value is of no meaning.
\<close>

definition lyra_native :: lyra_fun where
  "lyra_native v k pwd salt t r c =
     (case lyra_run v (True, True, True) (replicate 16 0) (replicate k 0) k pwd salt t r c of
        Some (ret, K) \<Rightarrow> K | None \<Rightarrow> replicate k 0)"

lemma native_value:
  assumes "length x = 32" and "n = 4 \<or> n = 8"
  shows "lyra_native v 32 x x 1 n n = lyra_call v n x"
proof -
  have "lyra_chain_call n x (replicate 32 0) (replicate 16 0)" using assms by (simp add: lyra_chain_call_def)
  from lyra_run_chain(1) [OF this, of v] show ?thesis by (simp add: lyra_native_def)
qed

interpretation native: lyra_provider lyra_native
proof
  fix v k pwd salt t r c
  show "length (lyra_native v k pwd salt t r c) = k"
    by (cases v) (auto simp: lyra_native_def lyra_run_def lyra2_def lyra2_old_def lyra2_3_def dest: length_lyra2_with split: option.split)
next
  fix n x K fresh v
  assume c: "lyra_chain_call n x K fresh"
  then have "lyra_native v 32 x x 1 n n = lyra_call v n x" by (intro native_value) (auto simp: lyra_chain_call_def)
  with lyra_run_chain(1) [OF c] show "lyra_run v (True, True, True) fresh K 32 x x 1 n n = Some (0, lyra_native v 32 x x 1 n n)"
    by simp
qed

lemma native_step: "length x = 32 \<Longrightarrow> n = 4 \<or> n = 8 \<Longrightarrow> lyra_step lyra_native v n x = lyra_call v n x"
  by (simp only: lyra_step_def native_value)

text \<open>The chains with the modelled Lyra2.\<close>

lemma native_chains:
  assumes "sph_ok H" and "length bufA = 32" and "length bufB = 32"
  shows "lyra2re_hash H lyra_native bufA bufB input =
      (H GROESTL256 \<circ> H SKEIN256 \<circ> lyra_call LYRA2_OLD 8 \<circ> H KECCAK256 \<circ> H BLAKE256) (take 80 input)"
    and "lyra2re2_hash H lyra_native bufA bufB input =
      (H BMW256 \<circ> H CUBEHASH256 \<circ> H SKEIN256 \<circ> lyra_call LYRA2 4 \<circ> H CUBEHASH256 \<circ> H KECCAK256 \<circ> H BLAKE256)
        (take 80 input)"
    and "lyra2re3_hash H lyra_native bufA bufB input =
      (H BMW256 \<circ> lyra_call LYRA2_3 4 \<circ> H CUBEHASH256 \<circ> lyra_call LYRA2_3 4 \<circ> H BLAKE256) (take 80 input)"
    and "allium_hash H lyra_native bufA bufB input len =
      (H GROESTL256 \<circ> H SKEIN256 \<circ> lyra_call LYRA2 8 \<circ> H CUBEHASH256 \<circ> lyra_call LYRA2 8 \<circ> H KECCAK256
       \<circ> H BLAKE256) (take len input)"
  by (simp_all add: native.provider_chains [OF assms] native_step sph_ok_length [OF assms(1)])

end
