(* ===== verification/Spec2Isabelle.thy ===== *)
theory Spec2Isabelle
  imports Keccak_Progpow Ethash_Variants Sph_Orders Sph_Branches Tree_Hash Chacha8 Keccak800 Primes Megabtx Sph_Wrappers Sha512_256 Dcrypt Scrypt Lyra_Chains
begin

text \<open>
  \<^bold>\<open>HashStormCore: the native hashing libraries.\<close>

  HashStormCore is a mining pool. The pool proper is C# (\<open>src/src/HashStormCore\<close>); it validates the
  shares of its miners by calling, through P/Invoke, the C and C++ libraries under
  \<open>src/src/Native\<close>. A share is accepted when the proof-of-work hash of its header is below a target,
  so the pool is right only if these libraries compute the hash that the coin's network computes, on
  every input and however the DAG files on disk came about. This development models the C code of
  those libraries that is the project's own logic and proves it correct.

  \<^bold>\<open>Parts and theories.\<close>

  \<^item> \<open>Prelude\<close>: bytes, words and their little-endian views (\<open>le_word\<close>, \<open>le_bytes\<close>,
    \<open>words_of\<close>, \<open>words32_of\<close>, \<open>chunks\<close>), \<open>memcpy\<close> into a buffer (\<open>copy_at\<close>), reads that may miss an array
    (\<open>read_at\<close>), loops whose body may fail (\<open>loop_opt\<close>), invariants of folds.
  \<^item> \<open>Keccak_Tiny\<close>: \<open>libethhash/sha3.c\<close>, \<open>sha3.h\<close>: the permutation, the sponge \<open>hash\<close>, \<open>sha3\<close>.
  \<^item> \<open>Keccak_Progpow\<close>: \<open>libfiropow/keccak/keccakf1600.c\<close> and \<open>keccak.c\<close> (also the Keccak of the
    other ProgPoW libraries): the unrolled permutation and the word-oriented sponge, with the proof
    that both agree with \<open>Keccak_Tiny\<close>.
  \<^item> \<open>Data_Sizes\<close>: the two tables of \<open>libethhash/data_sizes.h\<close> and what is used of them.
  \<^item> \<open>Ethash\<close>: \<open>libethhash/internal.c\<close>, \<open>internal.h\<close>, \<open>fnv.h\<close>: cache, dataset items,
    proof-of-work hash, quick check, seeds, difficulty. Every read of the cache and of the dataset is checked
    against the array. The cache and the dataset are specified by recursion (\<open>seq_memo\<close>, \<open>dag_value\<close>). The locale \<open>digest_pair\<close> is the contract of
    the two digests the algorithm calls; it is interpreted for Keccak (\<open>keccak_pair\<close>), for BLAKE2b
    (\<open>blake2b_pair\<close>) and for BLAKE3 (\<open>blake3_pair\<close>).
  \<^item> \<open>Ethash_Client\<close>: \<open>ethash_get_datasize\<close>, \<open>ethash_light_new\<close>, \<open>ethash_light_compute\<close>.
  \<^item> \<open>Ethash_IO\<close>: \<open>io.c\<close>, \<open>io.h\<close>, \<open>io_posix.c\<close> and \<open>ethash_full_new_internal\<close>: the DAG file. The
    file system is a map from paths to contents; every answer of the C library is a parameter. The
    step relation \<open>dag_step\<close> interleaves complete and killed runs of the pool on one file.
  \<^item> \<open>Ethash_Variants\<close>: the functions in which \<open>libetchash\<close>, \<open>libubqhash\<close> and \<open>libethhashb3\<close> differ
    from \<open>libethhash\<close>, and \<open>ethash_full_new\<close>.
  \<^item> \<open>Blake2b\<close>: \<open>libubqhash/blake2.c\<close>, with RFC 7693 as a function of the whole message and the
    refinement from the streaming code to it.
  \<^item> \<open>Blake3\<close>, \<open>Blake3_Tree\<close>: the BLAKE3 of \<open>libethhashb3/internal.c\<close>; the tree of chunks as a
    recursive function and the refinement from the stack of chaining values to it.
  \<^item> \<open>Sph_Chains\<close>, \<open>Sph_Orders\<close>, \<open>Sph_Branches\<close>: the hashes of \<open>libmultihash\<close> that compose digests
    of sphlib: in a fixed order, in an order taken from the previous block hash, and with branches
    (hefty1 with the SHA-256 of \<open>Sha256_Ctx\<close>).
  \<^item> \<open>Permutation\<close>, \<open>Megabtx\<close>: \<open>libmultihash/megabtx.c\<close>: the enumeration of permutations, with the
    place in the lexicographic order as its meaning, and the chain that the time stamp orders.
  \<^item> \<open>Keccak_Cn\<close>, \<open>Tree_Hash\<close>: \<open>keccak.c\<close>, \<open>hash.c\<close> and \<open>tree-hash.c\<close> of \<open>libcryptonote/crypto\<close> (and
    \<open>libzanonote/crypto\<close>): the fast hash, the Merkle tree of transactions and its branches. The
    specification is a tree (\<open>mtree\<close>) with its root (\<open>mroot\<close>) and the siblings on a path (\<open>mbranch\<close>).
  \<^item> \<open>Chacha8\<close>: \<open>chacha8.c\<close> and \<open>chacha8_stream.c\<close> of \<open>libzanonote/crypto\<close>.
  \<^item> \<open>Keccak800\<close>: \<open>libfiropow/keccak/keccakf800.c\<close> and \<open>libmultihash/KeccakP-800-reference.c\<close>.
  \<^item> \<open>Primes\<close>: \<open>ethash/primes.c\<close> of the ProgPoW libraries.
  \<^item> \<open>Md_Helper\<close>: \<open>libmultihash/sha3/md_helper.c\<close>, the buffering, padding and output that sphlib includes
    into each Merkle-Damgard digest. The locale \<open>block_buffer\<close> is the contract of a buffer in front of a
    block function, \<open>md_front\<close> (a sublocale) that of a configuration; they are interpreted for SHA-256,
    SHA-512, SHA-512/256 and, for the buffer alone, Keccak (\<open>keccak_limit\<close>).
  \<^item> \<open>Sha2\<close>: \<open>sph_sha2.c\<close>, \<open>sph_sha2big.c\<close>, with FIPS 180-4 as functions of the whole message.
  \<^item> \<open>Sph_Keccak\<close>: \<open>sph_keccak.c\<close>: the permutation on complemented lanes in its seven degrees of unrolling,
    the sponge and the interface; messages of any number of bits are specified by \<open>keccak_bits\<close>.
  \<^item> \<open>Sha512_256\<close>: \<open>libmultihash/sha512_256.c\<close>. \<open>Sph_Wrappers\<close>: \<open>keccak.c\<close>, \<open>keccak512.c\<close>, \<open>sha256csm.c\<close>.
  \<^item> \<open>Dcrypt\<close>: \<open>libmultihash/dcrypt.c\<close>: a SHA-256 that pads in place, the walk over a digest and the hash;
    lengths and positions are 32-bit numbers, the allocator is a parameter, and the sizes of the blocks are part
    of the model.
  \<^item> \<open>Sha256_Ctx\<close>: \<open>libmultihash/sha256.h\<close>, \<open>sha256t.h\<close>, \<open>sha256dt.c\<close>: a SHA-256 with its own contexts (the buffer
    is an instance of \<open>block_buffer\<close>), HMAC and PBKDF2, with RFC 2104 and RFC 8018 as functions.
  \<^item> \<open>Scrypt\<close>: \<open>libmultihash/scryptn.c\<close>: Salsa20/8, BlockMix, ROMix and the layout of the scratchpad, with
    RFC 7914 as functions.
  \<^item> \<open>Lyra_Sponge\<close>: \<open>libmultihash/Sponge.c\<close>, \<open>Sponge.h\<close>: the sponge of Lyra2 on a matrix that is one block of memory,
    whose rows may alias, with a matrix of blocks as specification and a simulation for each operation on rows.
  \<^item> \<open>Lyra2\<close>: \<open>libmultihash/Lyra2.c\<close>: input and padding, setup and wandering phase, the three versions; the
    rows of the two phases in closed form. \<open>Lyra_Chains\<close>: the locale \<open>lyra_provider\<close> is what the chains of
    \<open>Sph_Chains\<close> rely on of Lyra2; it is interpreted for the model of \<open>Lyra2\<close> (\<open>native\<close>).

  \<^bold>\<open>Modelling.\<close> Structs are records, enums datatypes, machine integers words of their width, so that
  wrap-around is that of C; a \<open>size_t\<close> that counts bytes of a buffer is a \<open>nat\<close>. Buffers are lists.
  A run that C leaves undefined, that aborts, or that never returns is \<open>Inl fault\<close> (or \<open>None\<close> of a
  partial function), so "returns" is part of what is proved. Loops with a bound are structural or have
  a termination proof; the five loops of the code that need not end (\<open>seedhash_loop\<close>, \<open>merge_cvs\<close>, \<open>pbkdf2_rounds\<close>,
  \<open>lyra_setup\<close>, \<open>lyra_pass\<close>) are partial functions, and that they return is proved where they do
  (C5, C6; C12, C13; C33; C36, C37). No fuel is used.
  Byte order is little-endian and the data model LP64, as on the platforms the pool is built for; the
  MSVC-only \<open>HAVE_SSE2\<close> branches are not modelled.

  The digests of sphlib (\<open>libmultihash/sha3\<close>), Lyra2, SWIFFTX and the hefty core are parameters of
  the chains (C40 puts the model of Lyra2 in place of its parameter); what the chains rely on is how many bytes each stores (\<open>sph_ok\<close>, \<open>lyra_ok\<close>), which is
  what the headers of those libraries promise. Limits under which a claim holds (lengths, sizes, available memory)
  are hypotheses of its theorem and are named in its text.

  \<^bold>\<open>What is proved.\<close> Full clients agree with light clients when the file that was found, if any, is the dataset (C1), and
  the files that complete and killed runs leave are (C2); what a full client is made of, with a file that is found
  used unchecked (C3, C4), and generated prefix by prefix (C9); light clients are total on all blocks of the
  tables, with no read outside an array, and what happens outside of them (C5, C6); the cache is the
  sequence that its recursion defines (C8); the share check decides the numeric comparison (C7); the Keccak
  implementations of five libraries agree (C10, C14, C19, C28, C29); BLAKE2b and BLAKE3 compute their
  specifications, streamed or not (C11 - C13); Merkle roots and branches (C15, C16); ChaCha8
  (C17, C18); the prime search (C20); the composed hashes (C21, C22) and megabtx, where a read of
  uninitialised memory shows (C23 - C25); SHA-2 in its implementations, streamed and reused
  (C26, C27); dcrypt, with the padding that deviates from the standard and the writes behind its
  blocks (C30 - C32); HMAC, PBKDF2 and scrypt, with the costs for which scrypt leaves its memory
  (C33 - C35); Lyra2, the rows its phases visit, the input that its old version leaves out, its
  failures, and the chains that call it (C36 - C40). The theorems without a number are further
  results on the same components.

  \<^bold>\<open>Not modelled.\<close> The C# pool (sharing, payouts, stratum), the C++ libraries (\<open>libcryptonight\<close>,
  RandomX, ProgPoW and Equihash verification), the digests of sphlib other than SHA-2 and Keccak, the
  Edwards-curve arithmetic of \<open>crypto-ops.c\<close>, the freeing
  functions (\<open>ethash_light_delete\<close>, \<open>ethash_full_delete\<close>), the Windows file functions, and the glue
  of \<open>exports.cpp\<close>.

  \<^bold>\<open>What could follow.\<close> The heavyhash core, neoscrypt and the remaining digests of sphlib, whose front ends
  would be further instances of \<open>md_front\<close> and \<open>block_buffer\<close>.
\<close>

unbundle bit_operations_syntax

section \<open>Ethash: light and full clients\<close>

text \<open>A light client with one node of zeros, small enough to be written down.\<close>

definition tiny_light :: ethash_light where
  "tiny_light = \<lparr>cache = [replicate 16 0], cache_size = 64, block_number = 0\<rparr>"

lemma tiny_light_simps:
  "num_parent_nodes tiny_light \<noteq> 0" "wf_light tiny_light"
  by (simp_all add: tiny_light_def num_parent_nodes_def wf_light_def wf_nodes_def)

lemma home_dirname:
  "ethash_get_default_dirname ''.ethash/'' (Some ''/home/pool'') None 256 = Some ''/home/pool/.ethash/''"
  by (simp add: ethash_get_default_dirname_def ethash_strncat_def)

text \<open>
  C1. A full client that \<open>ethash_full_new\<close> opened computes, for every header and nonce, the very
  value that the light client it was opened with computes, whether the DAG file was found or had to
  be generated, and whatever the operating system answered on the way. This is for a well-formed light client
  and under the condition that a file found on disk can be trusted (\<open>memo_sound\<close>): if it has the expected
  length and starts with the magic number, then it is the dataset of this light client. Files that only
  this code wrote are such files (C2); the code itself does not check the content.
\<close>

theorem full_client_equals_light:
  assumes "ethash_get_default_dirname ''.ethash/'' home_env home_pw 256 = Some dir"
    and "ethash_get_datasize (block_number light) = Inr sz"
    and "ethash_get_seedhash (block_number light) = Inr seed"
    and "memo_sound sz light (files (dag_path dir seed))" and "wf_light light"
    and "ethash_full_new home_env home_pw env files light callback = (Inr (Some full), files')"
  shows "ethash_full_compute full header nonce = ethash_light_compute light header nonce"
proof -
  have "ethash_full_new_internal env files dir seed sz light callback = (Inr (Some full), files')"
    using assms(1-3,6) by (simp add: ethash_full_new_def)
  from full_client_agrees [OF this assms(4) datasize_good [OF assms(2)] assms(5)] assms(2)
  show ?thesis by (simp add: ethash_light_compute_def)
qed

theorem full_client_equals_light_witness:
  "\<exists>light full files'. ethash_light_new True True 0 = Inr light \<and>
     ethash_full_new (Some ''/home/pool'') None calm_env Map.empty light None = (Inr (Some full), files') \<and>
     ethash_full_compute full (replicate 32 5) 7 = ethash_light_compute light (replicate 32 5) 7 \<and>
     (\<exists>found. ethash_full_new (Some ''/home/pool'') None calm_env files' light None = (Inr (Some found), files') \<and>
       ethash_full_compute found (replicate 32 6) 8 = ethash_light_compute light (replicate 32 6) 8)"
proof -
  obtain light where l: "ethash_light_new True True 0 = Inr light" "wf_light light" "block_number light = 0"
    using light_new_ok [of 0] by auto
  obtain sz where sz: "ethash_get_datasize (block_number light) = Inr sz" "good_datasize sz"
    using datasize_ok [of "block_number light"] l(3) by auto
  obtain seed where seed: "ethash_get_seedhash (block_number light) = Inr seed"
    using seedhash_ok [of "block_number light"] l(3) by auto
  obtain full files' where new: "ethash_full_new_internal calm_env Map.empty ''/home/pool/.ethash/'' seed sz light None =
      (Inr (Some full), files')"
    using full_new_succeeds [OF calm_ok(3), of sz light None Map.empty "''/home/pool/.ethash/''" seed] l(2) sz(2)
    by (auto simp: good_datasize_def wf_light_def quiet_callback_def)
  then have full: "ethash_full_new (Some ''/home/pool'') None calm_env Map.empty light None = (Inr (Some full), files')"
    using sz(1) seed by (simp add: ethash_full_new_def home_dirname)
  have sound: "memo_sound sz light (Map.empty (dag_path ''/home/pool/.ethash/'' seed))" by (simp add: memo_sound_def)
  have size: "unat (sz div 64) < 2 ^ 32" using sz(2) by (simp add: good_datasize_def)
  have found: "ethash_full_new (Some ''/home/pool'') None calm_env files' light None = (Inr (Some full), files')"
    using full_new_reopen [OF new size, of calm_env light None] sz(1) seed
    by (simp add: ethash_full_new_def home_dirname calm_env_def calm_ok)
  have "ethash_full_compute full (replicate 32 5) 7 = ethash_light_compute light (replicate 32 5) 7"
    by (rule full_client_equals_light [OF home_dirname sz(1) seed sound l(2) full])
  moreover have "ethash_full_compute full (replicate 32 6) 8 = ethash_light_compute light (replicate 32 6) 8"
    by (rule full_client_equals_light [OF home_dirname sz(1) seed full_new_sound [OF new sound size] l(2) found])
  ultimately show ?thesis using l(1) full found by blast
qed

text \<open>
  C2. Start without a DAG file and let any number of processes open the full client one after the
  other, with any answers of the operating system, some of them killed while they fill the file. A
  process that then gets a full client gets exactly the dataset that the light client defines: a
  half-written file is never taken for a complete one. The dataset has fewer than \<open>2 ^ 32\<close> nodes, as those
  of the tables have.
\<close>

theorem dag_runs_give_dataset:
  assumes "(dag_step dir seed sz light)\<^sup>*\<^sup>* files files'" and "files (dag_path dir seed) = None"
    and "unat (sz div 64) < 2 ^ 32"
    and "ethash_full_new_internal env files' dir seed sz light callback = (Inr (Some full), files'')"
  shows "full = \<lparr>file_size = sz, data = keccak_dag sz light\<rparr>"
proof -
  have "memo_sound sz light (files (dag_path dir seed))" using assms(2) by (simp add: memo_sound_def)
  with assms(1,3) have "memo_sound sz light (files' (dag_path dir seed))" by (blast intro: dag_run_sound)
  with assms(3,4) show ?thesis by (blast intro: full_new_data)
qed

theorem dag_runs_give_dataset_witness:
  "\<exists>files' full files''. (dag_step ''/dag'' (replicate 32 0) 128 tiny_light)\<^sup>*\<^sup>* Map.empty files' \<and>
     files' (dag_path ''/dag'' (replicate 32 0)) \<noteq> None \<and>
     ethash_full_new_internal calm_env files' ''/dag'' (replicate 32 0) 128 tiny_light None = (Inr (Some full), files'') \<and>
     full = \<lparr>file_size = 128, data = keccak_dag 128 tiny_light\<rparr>"
proof -
  let ?path = "dag_path ''/dag'' (replicate 32 0)"
  obtain fs1 where p: "ethash_io_prepare calm_io Map.empty ''/dag'' (replicate 32 0) 128 True =
      (ETHASH_IO_MEMO_MISMATCH, fs1)"
    using prepare_ok [OF calm_ok(1), of 128 Map.empty "''/dag''" "replicate 32 0" True] by auto
  obtain c where c: "fs1 ?path = Some c" using prepare_mismatch [OF p] by blast
  let ?files = "fs1(?path \<mapsto> take 8 c @ [1, 2, 3])"
  have step: "dag_step ''/dag'' (replicate 32 0) 128 tiny_light Map.empty ?files"
    by (rule dag_step.killed [OF p c])
  obtain full files'' where full: "ethash_full_new_internal calm_env ?files ''/dag'' (replicate 32 0) 128 tiny_light None =
      (Inr (Some full), files'')"
    using full_new_succeeds [OF calm_ok(3), of 128 tiny_light None ?files "''/dag''" "replicate 32 0"] tiny_light_simps(2)
    by (auto simp: quiet_callback_def)
  have run: "(dag_step ''/dag'' (replicate 32 0) 128 tiny_light)\<^sup>*\<^sup>* Map.empty ?files" using step by blast
  have "full = \<lparr>file_size = 128, data = keccak_dag 128 tiny_light\<rparr>"
    by (rule dag_runs_give_dataset [OF run _ _ full]) simp_all
  with run full show ?thesis by (metis fun_upd_same option.distinct(1))
qed

text \<open>
  C3. When every call of the system succeeds and the callback, if there is one, never asks to stop,
  \<open>ethash_full_new\<close> returns a full client for every block of the tables and every well-formed light client,
  and says what is in it: if the file on disk has the expected length and starts with the magic
  number, it is used as it is and not checked any further; in every other case the client has the
  dataset of the light client, and the file is the magic number followed by that dataset.
\<close>

theorem full_new_completes:
  assumes "ethash_get_default_dirname ''.ethash/'' home_env home_pw 256 = Some dir"
    and "ethash_get_datasize (block_number light) = Inr sz" and "ethash_get_seedhash (block_number light) = Inr seed"
    and "os_ok env" and "wf_light light" and "callback = None \<or> (\<exists>cb. callback = Some cb \<and> (\<forall>n. cb n = 0))"
  shows "\<exists>c full files'. ethash_full_new home_env home_pw env files light callback = (Inr (Some full), files') \<and>
    files' (dag_path dir seed) = Some c \<and> file_size full = sz \<and>
    (if \<exists>old. files (dag_path dir seed) = Some old \<and> length old = 8 + unat sz \<and> take 8 old = magic_bytes
     then files (dag_path dir seed) = Some c \<and> data full = payload_nodes (drop 8 c)
     else c = magic_bytes @ payload_bytes (keccak_dag sz light) \<and> data full = keccak_dag sz light)"
proof -
  let ?c = "dag_left sz light (files (dag_path dir seed))"
  obtain files' where f: "ethash_full_new_internal env files dir seed sz light callback =
      (Inr (Some \<lparr>file_size = sz, data = payload_nodes (drop 8 ?c)\<rparr>), files')" "files' (dag_path dir seed) = Some ?c"
    using full_new_left [OF assms(2,4-6)] by blast
  let ?full = "\<lparr>file_size = sz, data = payload_nodes (drop 8 ?c)\<rparr>"
  have "ethash_full_new home_env home_pw env files light callback = (Inr (Some ?full), files')"
    using assms(1-3) f(1) by (simp add: ethash_full_new_def)
  then show ?thesis
    using f(2) by (intro exI [of _ ?c] exI [of _ ?full] exI [of _ files'])
      (auto simp: dag_left_def complete_dag_def payload_nodes_bytes wf_keccak_dag split: option.splits if_splits)
qed

theorem full_new_completes_witness:
  "\<exists>light sz seed full files'. ethash_light_new True True 0 = Inr light \<and>
     ethash_full_new (Some ''/home/pool'') None calm_env Map.empty light (Some (\<lambda>n. 0)) = (Inr (Some full), files') \<and>
     data full = keccak_dag sz light \<and>
     files' (dag_path ''/home/pool/.ethash/'' seed) = Some (magic_bytes @ payload_bytes (keccak_dag sz light))"
proof -
  obtain light where l: "ethash_light_new True True 0 = Inr light" "wf_light light" "block_number light = 0"
    using light_new_ok [of 0] by auto
  obtain sz where sz: "ethash_get_datasize (block_number light) = Inr sz"
    using datasize_ok [of "block_number light"] l(3) by auto
  obtain seed where seed: "ethash_get_seedhash (block_number light) = Inr seed"
    using seedhash_ok [of "block_number light"] l(3) by auto
  show ?thesis
    using full_new_completes [OF home_dirname sz seed calm_ok(3) l(2), of "Some (\<lambda>n. 0)" Map.empty] l(1) by auto
qed

text \<open>
  C4. Reopening is stable: once a full client was returned, every later call for the same epoch whose reads
  succeed returns the same client from the file, whatever its light client and its callback, and
  changes no file. The dataset has fewer than \<open>2 ^ 32\<close> nodes, as those of the tables have; what the file
  held before the first call does not matter.
\<close>

theorem full_new_stable:
  assumes "ethash_full_new_internal env files dir seed sz light callback = (Inr (Some full), files')"
    and "unat (sz div 64) < 2 ^ 32" and "calloc_ok env'" and "io_all_ok (prepare1 env')" and "mmap_ok env'"
  shows "ethash_full_new_internal env' files' dir seed sz light' callback' = (Inr (Some full), files')"
  using assms by (rule full_new_reopen)

theorem full_new_stable_witness:
  "\<exists>full files'. ethash_full_new_internal calm_env Map.empty ''/dag'' (replicate 32 0) 128 tiny_light None =
      (Inr (Some full), files') \<and>
    ethash_full_new_internal calm_env files' ''/dag'' (replicate 32 0) 128 tiny_light (Some (\<lambda>n. 1)) = (Inr (Some full), files')"
proof -
  obtain full files' where full: "ethash_full_new_internal calm_env Map.empty ''/dag'' (replicate 32 0) 128 tiny_light None =
      (Inr (Some full), files')"
    using full_new_succeeds [OF calm_ok(3), of 128 tiny_light None Map.empty "''/dag''" "replicate 32 0"] tiny_light_simps(2)
    by (auto simp: quiet_callback_def)
  have "ethash_full_new_internal calm_env files' ''/dag'' (replicate 32 0) 128 tiny_light (Some (\<lambda>n. 1)) = (Inr (Some full), files')"
    by (rule full_new_stable [OF full]) (simp_all add: calm_env_def calm_ok)
  with full show ?thesis by blast
qed

text \<open>
  C5. For every block of the 2048 epochs of the tables, a light client can be built when memory is
  available (\<open>calloc\<close> and \<open>malloc\<close> succeed), and then every proof-of-work computation returns: success, and 32-byte
  digests. No assertion fails, nothing is divided by zero, every loop ends, and no read of the cache misses its array.
\<close>

theorem light_client_total:
  assumes "unat b < 2048 * 30000"
  shows "\<exists>light. ethash_light_new True True b = Inr light \<and> wf_light light \<and>
    (\<forall>header nonce. \<exists>r. ethash_light_compute light header nonce = Inr r \<and> success r \<and>
       length (result r) = 32 \<and> length (mix_hash r) = 32)"
  using light_new_ok [OF assms] light_compute_ok assms by metis

theorem light_client_total_witness:
  "\<exists>light. ethash_light_new True True 15537393 = Inr light \<and> wf_light light \<and>
    (\<forall>header nonce. \<exists>r. ethash_light_compute light header nonce = Inr r \<and> success r \<and>
       length (result r) = 32 \<and> length (mix_hash r) = 32)"
  by (rule light_client_total) simp

text \<open>
  \<open>ethash_light_new\<close> does not test what \<open>ethash_light_new_internal\<close> returns: if one of the two
  allocations fails, it stores the block number through a null pointer.
\<close>

theorem light_new_without_memory:
  assumes "unat b < 2048 * 30000" and "\<not> (callocd \<and> mallocd)"
  shows "ethash_light_new callocd mallocd b = Inl NullDeref"
proof -
  obtain h where "ethash_get_seedhash b = Inr h" using seedhash_ok [OF assms(1)] by blast
  moreover obtain sz where "ethash_get_cachesize b = Inr sz" using cachesize_ok [OF assms(1)] by blast
  ultimately show ?thesis using assms(2) by (auto simp: ethash_light_new_def ethash_light_new_internal_def)
qed

text \<open>
  C6. The seed of a block is the Keccak-256 digest iterated once per epoch from 32 zero bytes, for
  every block number whose epoch fits 32 bits; beyond that the 32-bit loop counter never reaches
  the epoch and \<open>ethash_get_seedhash\<close> does not return.
\<close>

theorem seedhash_iterates:
  "ethash_get_seedhash b =
     (if unat (b div 30000) < 2 ^ 32 then Inr ((SHA3_256 ^^ unat (b div 30000)) (replicate 32 0)) else Inl Diverge)"
  using seedhash_closed [of b] seedhash_loop_diverges [of "b div 30000" 0 "replicate 32 0"]
  by (auto simp: ethash_get_seedhash_def)

text \<open>
  C7. The share check of the pool: when a light client computed \<open>r\<close>, the quick check on the mix it
  returned, which needs no cache, accepts exactly when the digest, read as a big-endian number, is
  at most the boundary.
\<close>

theorem quick_check_decides:
  assumes "ethash_light_compute light header nonce = Inr r" and "success r" and "length boundary = 32"
  shows "ethash_quick_check_difficulty header nonce (mix_hash r) boundary \<longleftrightarrow> be_nat (result r) \<le> be_nat boundary"
proof -
  obtain sz where "hash_with SHA3_512 SHA3_512 SHA3_256 None (Some light) sz header nonce = Inr (Some r)"
    using assms(1,2)
    by (auto simp: ethash_light_compute_def ethash_light_compute_internal_def ethash_hash_def
        split: sum.splits dest!: compute_result_success)
  then have q: "ethash_quick_hash header nonce (mix_hash r) = result r"
    unfolding ethash_quick_hash_def by (rule keccak_pair.quick_hash_hash_with)
  have "length (ethash_quick_hash header nonce (mix_hash r)) = 32"
    by (simp add: ethash_quick_hash_def quick_hash_def Let_def)
  then show ?thesis
    using check_difficulty_be_nat [of "result r" boundary] q assms(3)
    by (simp add: ethash_quick_check_difficulty_def)
qed

theorem quick_check_decides_witness:
  "\<exists>light r. ethash_light_new True True 30000 = Inr light \<and> ethash_light_compute light (replicate 32 1) 2 = Inr r \<and>
    (ethash_quick_check_difficulty (replicate 32 1) 2 (mix_hash r) (replicate 32 3) \<longleftrightarrow>
       be_nat (result r) \<le> be_nat (replicate 32 3))"
proof -
  obtain light where l: "ethash_light_new True True 30000 = Inr light" "wf_light light" "block_number light = 30000"
    using light_new_ok [of 30000] by auto
  then obtain r where r: "ethash_light_compute light (replicate 32 1) 2 = Inr r" "success r"
    using light_compute_ok [of light "replicate 32 1" 2] by auto
  from quick_check_decides [OF r, of "replicate 32 3"] l(1) r(1) show ?thesis by auto
qed

text \<open>\<open>ethash_check_difficulty\<close> compares two 32-byte strings as big-endian numbers.\<close>

theorem difficulty_big_endian:
  assumes "length h = 32" and "length boundary = 32"
  shows "ethash_check_difficulty h boundary \<longleftrightarrow> be_nat h \<le> be_nat boundary"
  using check_difficulty_be_nat [of h boundary] assms by simp

text \<open>
  C8. The cache: a size that is no multiple of a node is refused; an empty buffer is written out of bounds; and
  for every other size of up to \<open>2 ^ 37\<close> bytes \<open>ethash_compute_cache_nodes\<close> returns, and node \<open>i\<close> is the value of
  the recursive definition of strict memory-hard hashing after three rounds, although the code
  overwrites its array in place. (Beyond that size \<open>num_nodes - 1 + i\<close> can wrap.)
\<close>

theorem cache_nodes_outcomes:
  "(sz mod 64 \<noteq> 0 \<longrightarrow> ethash_compute_cache_nodes sz seed = Inr None) \<and>
   ethash_compute_cache_nodes 0 seed = Inl OutOfBounds \<and>
   (sz mod 64 = 0 \<and> 0 < sz \<and> unat sz \<le> 2 ^ 37 \<longrightarrow>
      ethash_compute_cache_nodes sz seed =
        Inr (Some (map (seq_memo SHA3_512 (unat sz div 64) seed 3) [0..<unat sz div 64])))"
  unfolding ethash_compute_cache_nodes_def by (simp add: compute_cache_nodes_refuses compute_cache_nodes_seq)

theorem cache_nodes_outcomes_witness:
  "ethash_compute_cache_nodes 100 (replicate 32 0) = Inr None \<and>
   ethash_compute_cache_nodes 192 (replicate 32 0) =
     Inr (Some [seq_memo SHA3_512 3 (replicate 32 0) 3 0, seq_memo SHA3_512 3 (replicate 32 0) 3 1,
       seq_memo SHA3_512 3 (replicate 32 0) 3 2])"
proof -
  have "[0..<3] = [0, 1, 2 :: nat]" by (simp add: upt_rec)
  then show ?thesis
    using cache_nodes_outcomes [of 100 "replicate 32 0"] cache_nodes_outcomes [of 192 "replicate 32 0"] by simp
qed



section \<open>DAG files\<close>

text \<open>
  Every branch of \<open>ethash_io_prepare\<close> when its system calls succeed: without
  \<open>force_create\<close>, a file of the expected length that starts with the magic number is a match, any
  other existing file is a size mismatch, and neither is touched; a missing file, or one that must
  be created, is created with the expected length, as a mismatch.
\<close>

theorem io_prepare_outcomes:
  assumes "io_ok env" and "unat (sz div 64) < 2 ^ 32"
  shows "ethash_io_prepare env files dir seed sz force =
    (case (if force then None else files (dag_path dir seed)) of
       Some c \<Rightarrow> (if length c = 8 + unat sz \<and> take 8 c = magic_bytes then ETHASH_IO_MEMO_MATCH
                  else ETHASH_IO_MEMO_SIZE_MISMATCH, files)
     | None \<Rightarrow> (ETHASH_IO_MEMO_MISMATCH, files(dag_path dir seed \<mapsto> replicate (7 + unat sz) 0 @ [10])))"
proof -
  have new: "new_dag_file (dag_offset sz) = replicate (7 + unat sz) 0 @ [10]"
    using length_new_dag_file [OF assms(2)] by (simp add: new_dag_file_def)
  have magic: "le_word (take 8 c) = ETHASH_DAG_MAGIC_NUM \<longleftrightarrow> take 8 c = magic_bytes" if "8 \<le> length c" for c
    using that le_bytes_le_word [where 'a = 64, of "take 8 c"] le_word_le_bytes [of 8 ETHASH_DAG_MAGIC_NUM]
    by (auto simp: magic_bytes_def)
  show ?thesis
    using assms(1) create_memo_ok [OF assms(1,2)] magic magic [of magic_bytes]
    by (auto simp: ethash_io_prepare_def io_ok_def io_all_ok_def check_memo_def Let_def new
        split: option.splits)
qed

text \<open>
  The DAG file of an epoch is the directory, a separator unless it ends in one, and a name that
  fits the 34-byte buffer; two seeds share a file exactly when their first eight bytes agree.
\<close>

theorem dag_file_names:
  assumes "8 \<le> length seed"
  shows "dag_path dir seed = (if needs_separator dir then dir @ ''/'' else dir) @ ethash_io_mutable_name seed \<and>
    length (ethash_io_mutable_name seed) + 1 \<le> 34 \<and>
    (dag_path dir seed = dag_path dir seed' \<longleftrightarrow> take 8 seed = take 8 seed')"
  using dag_path_closed dag_path_inj length_mutable_name [OF assms] by simp

section \<open>Keccak\<close>

text \<open>
  The permutation of the ProgPoW libraries, with 25 named lanes and two rounds per turn, is
  the looped permutation of the Ethash libraries.
\<close>

theorem keccakf1600_equals_keccakf:
  assumes "length state = 25"
  shows "ethash_keccakf1600 state = keccakf state"
  using assms by (rule ethash_keccakf1600_keccakf)

text \<open>
  C10. The two sponges compute the same digests of every message: the word-oriented one of the
  ProgPoW libraries and the byte-oriented one of the Ethash libraries, for 256 and for 512 bits, and
  the fixed-length entry points are theirs too.
\<close>

theorem keccak_libraries_agree:
  "SHA3_256 m = ethash_keccak256 m \<and> SHA3_512 m = ethash_keccak512 m \<and>
   ethash_keccak256_32 m = SHA3_256 (take 32 m) \<and> ethash_keccak512_64 m = SHA3_512 (take 64 m)"
  using ethash_keccak_sha3 [of m] ethash_keccak_sha3(1) [of "take 32 m"] ethash_keccak_sha3(2) [of "take 64 m"]
  by (simp add: SHA3_256_def SHA3_512_def ethash_keccak256_32_def ethash_keccak512_64_def
      ethash_keccak256_def ethash_keccak512_def)

text \<open>
  \<open>sha3_256\<close> and \<open>sha3_512\<close> refuse exactly the output lengths above their digest; otherwise
  they store as many bytes as were asked for.
\<close>

theorem sha3_outcomes:
  assumes "bits \<in> {256, 512}"
  shows "(sha3 bits outlen m = None \<longleftrightarrow> bits div 8 < outlen) \<and>
    (\<forall>out. sha3 bits outlen m = Some out \<longrightarrow> length out = outlen)"
proof
  show "sha3 bits outlen m = None \<longleftrightarrow> bits div 8 < outlen"
    using sha3_Some [of outlen bits m] assms by (auto simp: sha3_def)
  show "\<forall>out. sha3 bits outlen m = Some out \<longrightarrow> length out = outlen"
    using sha3_length [of bits outlen m] assms by auto
qed

section \<open>BLAKE2b\<close>

text \<open>
  \<open>blake2b\<close> stores the RFC 7693 digest, keyed or not, of every message at the start of the
  output buffer and leaves the rest of the buffer alone.
\<close>

theorem blake2b_computes_rfc:
  assumes "0 < nn" and "nn \<le> 64" and "length key \<le> 64"
  shows "blake2b (Some buffer) nn (Some m) (length m) (Some key) (length key) =
    Some (copy_at buffer 0 (blake2b_rfc nn key m))"
  using assms by (rule blake2b_one_shot)

text \<open>
  C11. The streaming interface: however a message is cut into pieces, initialising, updating with
  each piece and finalising gives the digest of the whole; the state is then final, and finalising
  it again is refused.
\<close>

theorem blake2b_streaming:
  assumes "0 < nn" and "nn \<le> 64" and "length key \<le> 64" and "nn \<le> outlen"
  shows "\<exists>S S'. (if key = [] then blake2b_init nn else blake2b_init_key nn (Some key) (length key)) = Some S \<and>
    blake2b_final (foldl blake2b_update S pieces) False outlen = Some (blake2b_rfc nn key (concat pieces), S') \<and>
    blake2b_final S' False outlen' = None"
  using start_updates_final [OF assms, where pieces = pieces] by (auto simp: blake2b_start_def final_refused)

theorem blake2b_streaming_witness:
  "\<exists>S S'. blake2b_init 64 = Some S \<and>
    blake2b_final (foldl blake2b_update S [replicate 100 1, [], replicate 100 2]) False 64 =
      Some (blake2b_rfc 64 [] (replicate 100 1 @ replicate 100 2), S') \<and> blake2b_final S' False 64 = None"
  using blake2b_streaming [of 64 "[]" 64 "[replicate 100 1, [], replicate 100 2]" 64] by simp

text \<open>\<open>blake2b\<close> returns \<open>-1\<close> exactly for the six faults of its arguments.\<close>

theorem blake2b_argument_errors:
  "blake2b out outlen inp inlen key keylen = None \<longleftrightarrow>
     inp = None \<and> 0 < inlen \<or> out = None \<or> key = None \<and> 0 < keylen \<or> outlen = 0 \<or> 64 < outlen \<or> 64 < keylen"
  by (rule blake2b_refused)

text \<open>The two counter words are one 128-bit counter: the carry is taken exactly when it is due.\<close>

theorem blake2b_counter_128:
  "unat (b2t0 (blake2b_increment_counter S inc)) + 2 ^ 64 * unat (b2t1 (blake2b_increment_counter S inc)) =
     (unat (b2t0 S) + 2 ^ 64 * unat (b2t1 S) + unat inc) mod 2 ^ 128"
proof -
  have "unat inc < 2 ^ 64" using unat_less [of inc] by simp
  from counter_value_counts [OF counts_increment [OF counts_value this, of S]] show ?thesis
    by (simp add: counter_value_def)
qed

section \<open>BLAKE3\<close>

text \<open>
  C12. \<open>blake3_hash_256\<close> and \<open>blake3_hash_512\<close> return, for every message below the limit of the
  64-bit length, the root output of the binary tree of 1024-byte chunks: the stack of chaining
  values and its lazy merging build the left-balanced tree.
\<close>

theorem blake3_one_shot_tree:
  assumes "length m < 2 ^ 64"
  shows "blake3_hash_256 m = Some (blake3_spec b3_IV 0 m 32) \<and> blake3_hash_512 m = Some (blake3_spec b3_IV 0 m 64)"
  using one_shot [OF assms] by blast

theorem blake3_one_shot_tree_witness:
  "blake3_hash_256 (replicate 3000 1) = Some (blake3_spec b3_IV 0 (replicate 3000 1) 32)"
  using blake3_one_shot_tree [of "replicate 3000 1"] by simp

text \<open>
  C13. The streaming interface in its three modes (plain, keyed, key derivation): however the
  input is cut into pieces, the result is the output of the tree over the whole input, with the key
  words and the flags of the mode.
\<close>

theorem blake3_streaming:
  assumes "length (hs_cv_stack h) = 432" and "length (hs_cv_stack h') = 432" and "length (concat pieces) < 2 ^ 64"
    and "length key = 32" and "length ctx < 2 ^ 64"
  shows "hash_pieces (Some (blake3_hasher_init h)) pieces n = Some (blake3_spec b3_IV 0 (concat pieces) n) \<and>
    hash_pieces (Some (blake3_hasher_init_keyed h key)) pieces n =
      Some (blake3_spec (words_from_little_endian_bytes key) KEYED_HASH (concat pieces) n) \<and>
    hash_pieces (blake3_hasher_init_derive_key h' h ctx) pieces n =
      Some (blake3_spec (words_from_little_endian_bytes (blake3_spec b3_IV DERIVE_KEY_CONTEXT ctx 32))
        DERIVE_KEY_MATERIAL (concat pieces) n)"
proof (intro conjI)
  show "hash_pieces (Some (blake3_hasher_init h)) pieces n = Some (blake3_spec b3_IV 0 (concat pieces) n)"
    by (rule hash_pieces_spec [OF init_plain [OF assms(1)] length_b3_IV assms(3)])
  show "hash_pieces (Some (blake3_hasher_init_keyed h key)) pieces n =
      Some (blake3_spec (words_from_little_endian_bytes key) KEYED_HASH (concat pieces) n)"
    by (rule hash_pieces_spec [OF init_keyed [OF assms(1,4)] length_key_words [OF assms(4)] assms(3)])
  obtain h'' where "blake3_hasher_init_derive_key h' h ctx = Some h''"
      "hashed_all (words_from_little_endian_bytes (blake3_spec b3_IV DERIVE_KEY_CONTEXT ctx 32)) DERIVE_KEY_MATERIAL [] h''"
    using init_derive_key [OF assms(2,1,5)] by blast
  then show "hash_pieces (blake3_hasher_init_derive_key h' h ctx) pieces n =
      Some (blake3_spec (words_from_little_endian_bytes (blake3_spec b3_IV DERIVE_KEY_CONTEXT ctx 32))
        DERIVE_KEY_MATERIAL (concat pieces) n)"
    by (simp only: hash_pieces_spec [OF _ length_key_words assms(3)] length_blake3_spec length_b3_IV)
qed

theorem blake3_streaming_witness:
  "hash_pieces (Some (blake3_hasher_init_keyed uninitialized_hasher (replicate 32 7))) [replicate 1024 1, [2], []] 64 =
     Some (blake3_spec (words_from_little_endian_bytes (replicate 32 7)) KEYED_HASH (replicate 1024 1 @ [2]) 64)"
proof -
  have "length (hs_cv_stack uninitialized_hasher) = 432" by (simp add: uninitialized_hasher_def)
  from blake3_streaming [OF this this, of "[replicate 1024 1, [2], []]" "replicate 32 7" "[]" 64]
  show ?thesis by simp
qed

section \<open>The variants of Ethash\<close>

text \<open>
  Ethereum Classic: before the fork block the sizes are those of \<open>libethhash\<close>; from it on an
  epoch has 60000 blocks; and an epoch beyond the tables is read out of bounds, since the assertion
  of \<open>libethhash\<close> is missing.
\<close>

theorem etchash_sizes:
  "(b < fork \<and> unat b < 2048 * 30000 \<longrightarrow>
      etchash_get_datasize b fork = ethash_get_datasize b \<and> etchash_get_cachesize b fork = ethash_get_cachesize b) \<and>
   (fork \<le> b \<and> unat b < 2048 * 60000 \<longrightarrow>
      etchash_get_datasize b fork = Inr (of_nat (dag_sizes ! (unat b div 60000))) \<and>
      etchash_get_cachesize b fork = Inr (of_nat (cache_sizes ! (unat b div 60000)))) \<and>
   (2048 * 60000 \<le> unat b \<longrightarrow>
      etchash_get_datasize b fork = Inl OutOfBounds \<and> etchash_get_cachesize b fork = Inl OutOfBounds)"
proof (intro conjI impI)
  show "etchash_get_datasize b fork = ethash_get_datasize b" "etchash_get_cachesize b fork = ethash_get_cachesize b"
    if "b < fork \<and> unat b < 2048 * 30000" using that etchash_sizes_before [of b fork] by simp_all
  show "etchash_get_datasize b fork = Inr (of_nat (dag_sizes ! (unat b div 60000)))"
    "etchash_get_cachesize b fork = Inr (of_nat (cache_sizes ! (unat b div 60000)))"
    if "fork \<le> b \<and> unat b < 2048 * 60000"
    using that less_mult_imp_div_less [of "unat b" 2048 60000]
    by (simp_all add: etchash_get_datasize_def etchash_get_cachesize_def etchash_calc_epoch_def Let_def unat_div
        length_sizes)
  show "etchash_get_datasize b fork = Inl OutOfBounds" "etchash_get_cachesize b fork = Inl OutOfBounds"
    if "2048 * 60000 \<le> unat b"
  proof -
    have "2048 \<le> unat b div 60000" "2048 \<le> unat b div 30000" using that by simp_all
    then show "etchash_get_datasize b fork = Inl OutOfBounds" "etchash_get_cachesize b fork = Inl OutOfBounds"
      by (simp_all add: etchash_get_datasize_def etchash_get_cachesize_def etchash_calc_epoch_def Let_def unat_div
          length_sizes)
  qed
qed

text \<open>
  Ethereum Classic: for every block whose epoch is in the tables, on either side of the fork, a
  light client can be built and every computation succeeds with 32-byte digests.
\<close>

theorem etchash_light_total:
  assumes "unat (etchash_calc_epoch b fork) < 2048"
  shows "\<exists>light. etchash_light_new True True b fork = Inr light \<and>
    (\<forall>header nonce. \<exists>r. etchash_light_compute light header nonce fork = Inr r \<and> success r \<and>
       length (result r) = 32 \<and> length (mix_hash r) = 32)"
  using etchash_light_new_ok [OF assms] etchash_light_compute_ok [where fork = fork] assms by metis

text \<open>
  Ubiq: before epoch 22 the light client is that of \<open>libethhash\<close>; from it on the cache is the
  one that BLAKE2b-512, as RFC 7693 defines it, generates; and in all 2048 epochs the client can be
  built and every computation succeeds.
\<close>

theorem ubqhash_light_total:
  assumes "unat b < 2048 * 30000"
  shows "(b < 660000 \<longrightarrow> ubqhash_light_new callocd mallocd b = ethash_light_new callocd mallocd b) \<and>
    (\<exists>light. ubqhash_light_new True True b = Inr light \<and>
       (660000 \<le> b \<longrightarrow> (\<exists>seed. ethash_get_seedhash b = Inr seed \<and>
          compute_cache_nodes (blake2b_rfc 64 []) (cache_size light) seed = Inr (Some (cache light)))) \<and>
       (\<forall>header nonce. \<exists>r. ethash_light_compute light header nonce = Inr r \<and> success r \<and>
          length (result r) = 32 \<and> length (mix_hash r) = 32))"
proof -
  have uip1: "(30000 :: u64) * UBQHASH_UIP1_EPOCH = 660000" by (simp add: UBQHASH_UIP1_EPOCH_def)
  have before: "ubqhash_light_new c m b = ethash_light_new c m b" if "b < 660000" for c m
    using that by (intro ubqhash_before_uip1) (simp add: uip1 not_le)
  have built: "\<exists>light. ubqhash_light_new True True b = Inr light \<and> wf_light light \<and> block_number light = b"
    using before light_new_ok [OF assms] ubqhash_uip1_ok [OF assms] by (cases "b < 660000") (auto simp: uip1 not_less)
  then obtain light where l: "ubqhash_light_new True True b = Inr light" "wf_light light" "block_number light = b"
    by blast
  have "\<exists>seed. ethash_get_seedhash b = Inr seed \<and>
      compute_cache_nodes (blake2b_rfc 64 []) (cache_size light) seed = Inr (Some (cache light))" if "660000 \<le> b"
  proof -
    have rfc: "BLAKE2B_512 = blake2b_rfc 64 []" by (intro ext) (rule BLAKE2B_512_rfc)
    show ?thesis
      using l(1) that
      by (auto simp: ubqhash_light_new_def ubqhash_light_new_internal_def ethash_compute_cache_nodes_uip1_def uip1 rfc
          split: sum.splits option.splits)
  qed
  with before l light_compute_ok assms show ?thesis by metis
qed

text \<open>
  Ethash-B3: in all 2048 epochs of 32000 blocks the light client can be built and every
  computation succeeds; the digest it returns is the quick hash of the mix it returns when that is
  taken with BLAKE3 (the function \<open>ethash_quick_hash\<close> of the library still uses Keccak).
\<close>

theorem b3_light_total:
  assumes "unat b < 2048 * 32000"
  shows "\<exists>light. b3_light_new True True b = Inr light \<and>
    (\<forall>header nonce. \<exists>r. b3_light_compute light header nonce = Inr r \<and> success r \<and>
       length (result r) = 32 \<and> length (mix_hash r) = 32 \<and>
       quick_hash (\<lambda>m. blake3_spec b3_IV 0 m 64) (\<lambda>m. blake3_spec b3_IV 0 m 32) header nonce (mix_hash r) = result r)"
proof -
  obtain light where l: "b3_light_new True True b = Inr light" "wf_light light" "block_number light = b"
    using b3_light_new_ok [OF assms] by blast
  have "quick_hash (\<lambda>m. blake3_spec b3_IV 0 m 64) (\<lambda>m. blake3_spec b3_IV 0 m 32) header nonce (mix_hash r) = result r"
    if r: "b3_light_compute light header nonce = Inr r" "success r" for header nonce r
  proof -
    obtain sz where "b3_hash None (Some light) sz header nonce = Inr (Some r)"
      using r by (auto simp: b3_light_compute_def split: sum.splits dest!: compute_result_success)
    then show ?thesis unfolding b3_hash_spec by (rule blake3_pair.quick_hash_hash_with)
  qed
  moreover have "\<exists>r. b3_light_compute light header nonce = Inr r \<and> success r \<and>
      length (result r) = 32 \<and> length (mix_hash r) = 32" for header nonce
    using b3_light_compute_ok [OF l(2)] l(3) assms by simp
  ultimately show ?thesis using l(1) by metis
qed

section \<open>CryptoNote: the fast hash and the Merkle tree\<close>

text \<open>
  C14. \<open>cn_fast_hash\<close> of \<open>libcryptonote\<close> and of \<open>libzanonote\<close>, with their own permutation and their
  own padding, is the Keccak-256 of the Ethash and ProgPoW libraries on every message whose length is
  an \<open>int\<close>; a length whose low 32 bits are a negative \<open>int\<close> makes both overrun their buffer.
\<close>

theorem cn_fast_hash_is_keccak:
  "(length inp < 2 ^ 31 \<longrightarrow>
      cn_fast_hash inp (length inp) = Some (SHA3_256 inp) \<and>
      zano_cn_fast_hash inp (length inp) = Some (SHA3_256 inp) \<and>
      cn_fast_hash inp (length inp) = Some (ethash_keccak256 inp)) \<and>
   (2 ^ 31 \<le> len mod 2 ^ 32 \<longrightarrow> cn_fast_hash inp len = None \<and> zano_cn_fast_hash inp len = None)"
proof -
  have "SHA3_256 inp = ethash_keccak256 inp"
    using ethash_keccak_sha3(1) [of inp] by (simp add: SHA3_256_def)
  then show ?thesis
    using cn_fast_hash_SHA3 [of inp] cn_fast_hash_negative [of len inp] by metis
qed

theorem cn_fast_hash_is_keccak_witness:
  "cn_fast_hash [1, 2, 3] 3 = Some (SHA3_256 [1, 2, 3]) \<and> cn_fast_hash [1, 2, 3] (2 ^ 31) = None"
  using cn_fast_hash_is_keccak [of "[1, 2, 3]" "2 ^ 31"] by (simp add: numeral_3_eq_3)



text \<open>
  Every leaf can be proved: when \<open>path\<close> has the directions to a leaf of a tree as its bits, lowest
  bit first, \<open>tree_hash_from_branch\<close> on that leaf and the siblings on its path is the root of the tree.
\<close>

theorem tree_path_gives_root:
  assumes "mbranch t p = Some (h, br)" and "\<And>i. i < length p \<Longrightarrow> bit (path ! (i div 8)) (i mod 8) = p ! i"
  shows "tree_hash_from_branch buf br (length p) h (Some path) = mroot t"
  using climb_mbranch [OF assms(1), of "path_right (Some path)"] assms(2)
  by (simp add: tree_hash_from_branch_climb path_right_Some)

text \<open>
  C16. A root binds its leaves: if two leaves with their branches give the same root for the same path,
  they are the same leaf with the same siblings, or at some level the two computations hash two
  different 64-byte strings to the same digest.
\<close>

theorem tree_branch_binding:
  assumes "tree_hash_from_branch buf br n x path = tree_hash_from_branch buf' cr n y path"
    and "length x = 32" and "length y = 32" and "\<forall>s \<in> set br \<union> set cr. length s = 32"
    and "n \<le> length br" and "n \<le> length cr"
  shows "x = y \<and> take n br = take n cr \<or>
     (\<exists>i < n. branch_input br (path_right path) n x i \<noteq> branch_input cr (path_right path) n y i \<and>
       cn_fast_hash (branch_input br (path_right path) n x i) 64 =
       cn_fast_hash (branch_input cr (path_right path) n y i) 64)"
  using climb_collision [OF assms(2-6), of "path_right path"] assms(1)
  unfolding tree_hash_from_branch_climb by blast

theorem tree_branch_binding_witness:
  "tree_hash_from_branch ([], []) [replicate 32 2] 1 (replicate 32 1) None =
     tree_hash_from_branch ([9], [7]) [replicate 32 2, replicate 32 8] 1 (replicate 32 1) None \<and>
   (replicate 32 (1 :: u8) = replicate 32 1 \<and> take 1 [replicate 32 (2 :: u8)] = take 1 [replicate 32 2, replicate 32 8] \<or>
     (\<exists>i < 1. branch_input [replicate 32 2] (path_right None) 1 (replicate 32 1) i \<noteq>
         branch_input [replicate 32 2, replicate 32 8] (path_right None) 1 (replicate 32 1) i \<and>
       cn_fast_hash (branch_input [replicate 32 2] (path_right None) 1 (replicate 32 1) i) 64 =
       cn_fast_hash (branch_input [replicate 32 2, replicate 32 8] (path_right None) 1 (replicate 32 1) i) 64)) \<and>
   (tree_hash_from_branch ([], []) [replicate 32 2] 1 (replicate 32 1) None =
      tree_hash_from_branch ([], []) [replicate 32 2] 1 (replicate 32 3) None \<longleftrightarrow>
    cn_fast_hash (replicate 32 1 @ replicate 32 2) 64 = cn_fast_hash (replicate 32 3 @ replicate 32 2) 64)"
proof (intro conjI)
  let ?s = "replicate 32 2 :: bytes" and ?t = "replicate 32 8 :: bytes" and ?x = "replicate 32 1 :: bytes" and ?y = "replicate 32 3 :: bytes"
  have input: "branch_input [?s] (path_right None) 1 z 0 = z @ ?s" for z
    by (simp add: branch_input_def climb_branch_def path_right_None)
  have top: "tree_hash_from_branch junk (?s # r) 1 z None = the (cn_fast_hash (z @ ?s) 64)" for junk r z
    by (simp add: tree_hash_from_branch_climb climb_branch_def branch_node_def hash_pair_def path_right_None HASH_SIZE_def)
  show same: "tree_hash_from_branch ([], []) [?s] 1 ?x None = tree_hash_from_branch ([9], [7]) [?s, ?t] 1 ?x None"
    by (simp only: top)
  show "?x = ?x \<and> take 1 [?s] = take 1 [?s, ?t] \<or>
     (\<exists>i < 1. branch_input [?s] (path_right None) 1 ?x i \<noteq> branch_input [?s, ?t] (path_right None) 1 ?x i \<and>
       cn_fast_hash (branch_input [?s] (path_right None) 1 ?x i) 64 =
       cn_fast_hash (branch_input [?s, ?t] (path_right None) 1 ?x i) 64)"
    by (rule tree_branch_binding [OF same]) simp_all
  show "tree_hash_from_branch ([], []) [?s] 1 ?x None = tree_hash_from_branch ([], []) [?s] 1 ?y None \<longleftrightarrow>
    cn_fast_hash (?x @ ?s) 64 = cn_fast_hash (?y @ ?s) 64"
  proof
    assume eq: "tree_hash_from_branch ([], []) [?s] 1 ?x None = tree_hash_from_branch ([], []) [?s] 1 ?y None"
    have "?x \<noteq> ?y" by (simp add: replicate_eq_replicate)
    with tree_branch_binding [OF eq] show "cn_fast_hash (?x @ ?s) 64 = cn_fast_hash (?y @ ?s) 64"
      using input by auto
  qed (simp only: top)
qed

section \<open>Zano: ChaCha8\<close>

text \<open>
  C17. The two ChaCha8 of \<open>libzanonote\<close> are the same cipher: \<open>chacha8\<close> on local variables gives what
  the ECRYPT interface gives after its key and nonce set-up, whatever the context and the temporary
  block held; both are the exclusive-or with the key stream whose byte \<open>i\<close> is byte \<open>i mod 64\<close> of the core
  at block \<open>i div 64\<close>, counted in 64 bits over two words.
\<close>

theorem chacha8_is_keystream:
  assumes "length tmp = 64" and "length (ctx_input x) = 16"
  shows "chacha8 tmp msg key iv = snd (ECRYPT_encrypt_bytes (ECRYPT_ivsetup (ECRYPT_keysetup x key 256) iv) msg) \<and>
     chacha8 tmp msg key iv = map (\<lambda>i. msg ! i XOR keystream_byte (chacha8_init key iv) i) [0..<length msg] \<and>
     snd (ECRYPT_keystream_bytes (ECRYPT_ivsetup (ECRYPT_keysetup x key 256) iv) n) =
       map (keystream_byte (chacha8_init key iv)) [0..<n]"
proof -
  let ?x = "ECRYPT_ivsetup (ECRYPT_keysetup x key 256) iv"
  have x: "ctx_input ?x = chacha8_init key iv" using assms(2) by (rule ECRYPT_setup)
  have "snd (ECRYPT_keystream_bytes ?x n) = map (keystream_byte (chacha8_init key iv)) [0..<n]"
    using ECRYPT_encrypt_keystream [of ?x "chacha8_init key iv" 0 "replicate n 0"] x
    by (simp add: ECRYPT_keystream_bytes_def at_block_0)
  then show ?thesis
    using chacha8_ECRYPT [OF assms(1) x, of msg] chacha8_keystream [OF assms(1)] by blast
qed

theorem chacha8_is_keystream_witness:
  "chacha8 (replicate 64 7) [1, 2, 3] (replicate 32 4) (replicate 8 5) =
     map (\<lambda>i. [1, 2, 3] ! i XOR keystream_byte (chacha8_init (replicate 32 4) (replicate 8 5)) i) [0..<length [1, 2, 3 :: u8]]"
  by (rule chacha8_is_keystream [of _ "\<lparr>ctx_input = replicate 16 9\<rparr>", THEN conjunct2, THEN conjunct1]) simp_all

text \<open>
  C18. Decryption undoes encryption, with either interface and from any state of a context; and a
  message may be encrypted in pieces, as long as every piece but the last is a whole number of blocks.
\<close>

theorem chacha8_roundtrip:
  assumes "length tmp = 64" and "length tmp' = 64" and "length (ctx_input x) = 16" and "64 dvd length a"
  shows "chacha8 tmp (chacha8 tmp' msg key iv) key iv = msg \<and>
     snd (ECRYPT_decrypt_bytes x (snd (ECRYPT_encrypt_bytes x msg))) = msg \<and>
     ECRYPT_encrypt_bytes x (a @ b) =
       (case ECRYPT_encrypt_bytes x a of (x1, c1) \<Rightarrow>
          case ECRYPT_encrypt_bytes x1 b of (x2, c2) \<Rightarrow> (x2, c1 @ c2))"
proof -
  obtain n where n: "ctx_input x = at_block (ctx_input x) n" using at_block_self [OF assms(3)] by blast
  note enc = ECRYPT_encrypt_keystream [OF n assms(3)]
  have "snd (ECRYPT_decrypt_bytes x (snd (ECRYPT_encrypt_bytes x msg))) = msg"
    by (simp only: ECRYPT_decrypt_bytes_def enc snd_conv length_map length_upt diff_zero xor_stream_twice)
  moreover have "chacha8 tmp (chacha8 tmp' msg key iv) key iv = msg"
    by (simp only: chacha8_keystream [OF assms(1)] chacha8_keystream [OF assms(2)] length_map length_upt
        diff_zero xor_stream_twice)
  ultimately show ?thesis using ECRYPT_encrypt_append [OF n assms(3,4)] by blast
qed

theorem chacha8_roundtrip_witness:
  "chacha8 (replicate 64 0) (chacha8 (replicate 64 1) (replicate 100 2) (replicate 32 3) (replicate 8 4))
     (replicate 32 3) (replicate 8 4) = replicate 100 2"
  using chacha8_roundtrip [of "replicate 64 0" "replicate 64 1" "\<lparr>ctx_input = replicate 16 9\<rparr>" "[]" "replicate 100 2"
      "replicate 32 3" "replicate 8 4" "[]"]
  by simp

section \<open>ProgPoW: the 800-bit permutation and the prime search\<close>

text \<open>
  C19. The permutation of 800 bits that ProgPoW hashes headers with, unrolled over 25 named lanes, is the
  reference of the Keccak team with all 22 rounds, whose tables are those its generators compute; and the
  reference on the bytes of the state, in either byte order of the machine, is the same function.
\<close>

theorem keccakf800_equals_reference:
  assumes "length s = 25" and "length state = 100"
  shows "ethash_keccakf800 s = KeccakP800OnWords s 22 \<and>
     InitializeRoundConstants = KeccakRoundConstants \<and> InitializeRhoOffsets = KeccakRhoOffsets \<and>
     KeccakP800_Permute_22rounds state = fromWordsToBytes (ethash_keccakf800 (fromBytesToWords state))"
proof -
  have "length (words32_of state) = 25" using assms(2) by (simp add: length_words32_of [of _ 25])
  moreover from this have "length (KeccakP800OnWords (words32_of state) 22) = 25"
    by (rule length_KeccakP800OnWords)
  ultimately show ?thesis
    using assms InitializeRoundConstants_table InitializeRhoOffsets_table
    by (simp add: KeccakP800_Permute_22rounds_def fromBytesToWords_words32_of fromWordsToBytes_bytes32_of
        ethash_keccakf800_reference)
qed

theorem keccakf800_equals_reference_witness:
  "ethash_keccakf800 (replicate 25 3) = KeccakP800OnWords (replicate 25 3) 22"
  using keccakf800_equals_reference [of "replicate 25 3" "replicate 100 0"] by simp

text \<open>
  Byte access to the state of the reference: adding bytes succeeds exactly inside the 100 bytes;
  what is then extracted is what \<open>ExtractAndAddBytes\<close> gives from the state before; adding the same bytes
  again restores the state; and extracting what was overwritten gives the bytes written.
\<close>

theorem p800_byte_access:
  assumes "length state = 100"
  shows "(KeccakP800_AddBytes state inp offset len = None \<longleftrightarrow> \<not> (offset < 100 \<and> offset + len \<le> 100)) \<and>
     (\<forall>s. KeccakP800_AddBytes state inp offset len = Some s \<longrightarrow>
        KeccakP800_ExtractBytes s offset len = KeccakP800_ExtractAndAddBytes state inp offset len \<and>
        KeccakP800_AddBytes s inp offset len = Some state) \<and>
     (\<forall>s. KeccakP800_OverwriteBytes state inp offset (length inp) = Some s \<longrightarrow>
        KeccakP800_ExtractBytes s offset (length inp) = Some inp)"
proof (intro conjI allI impI)
  show "KeccakP800_AddBytes state inp offset len = None \<longleftrightarrow> \<not> (offset < 100 \<and> offset + len \<le> 100)"
    by (simp add: KeccakP800_AddBytes_def)
next
  fix s
  assume s: "KeccakP800_AddBytes state inp offset len = Some s"
  then have "offset < 100" "offset + len \<le> 100" by (simp_all add: KeccakP800_AddBytes_def split: if_splits)
  from AddBytes_ExtractBytes [OF assms this s]
  show "KeccakP800_ExtractBytes s offset len = KeccakP800_ExtractAndAddBytes state inp offset len"
    "KeccakP800_AddBytes s inp offset len = Some state" by blast+
next
  fix s
  assume "KeccakP800_OverwriteBytes state inp offset (length inp) = Some s"
  then show "KeccakP800_ExtractBytes s offset (length inp) = Some inp"
    using assms by (auto simp: KeccakP800_OverwriteBytes_def KeccakP800_ExtractBytes_def copy_at_def split: if_splits)
qed

text \<open>
  C20. \<open>ethash_find_largest_prime\<close>, which sizes the ProgPoW dataset, always returns, with the largest prime
  not above its argument, or 0 when there is none.
\<close>

theorem find_largest_prime_spec:
  "(b < 2 \<longrightarrow> ethash_find_largest_prime b = 0) \<and>
   (2 \<le> b \<longrightarrow> prime_number (ethash_find_largest_prime b) \<and> ethash_find_largest_prime b \<le> b \<and>
      (\<forall>p. prime_number p \<and> p \<le> b \<longrightarrow> p \<le> ethash_find_largest_prime b))"
  using find_largest_prime [of b] by (simp add: ethash_find_largest_prime_def Let_def)

theorem find_largest_prime_spec_witness:
  "prime_number (ethash_find_largest_prime 8388593) \<and> ethash_find_largest_prime 8388593 \<le> 8388593 \<and>
   ethash_find_largest_prime 1 = 0"
  using find_largest_prime_spec [of 8388593] find_largest_prime_spec [of 1] by simp

section \<open>Chained digests\<close>

text \<open>
  The X family of \<open>libmultihash\<close> (x11, x13, x14, x15, x17) applies its digests one after the
  other, each to the 64 bytes of the one before, and returns the first 32 bytes, whatever the local
  buffers hold at entry; \<open>x14_hash\<close> ignores its length argument and reads 80 bytes.
\<close>

theorem x_family_chains:
  assumes "sph_ok H" and "length bufA = 64" and "length bufB = 64"
  shows "x11_hash H bufA bufB input len = take 32 (fold H
       [BLAKE512, BMW512, GROESTL512, SKEIN512, JH512, KECCAK512, LUFFA512, CUBEHASH512, SHAVITE512, SIMD512,
        ECHO512] (take len input)) \<and>
    x13_hash H bufA bufB input len = take 32 (fold H
       [BLAKE512, BMW512, GROESTL512, SKEIN512, JH512, KECCAK512, LUFFA512, CUBEHASH512, SHAVITE512, SIMD512,
        ECHO512, HAMSI512, FUGUE512] (take len input)) \<and>
    x14_hash H bufA bufB input len = take 32 (fold H
       [BLAKE512, BMW512, GROESTL512, SKEIN512, JH512, KECCAK512, LUFFA512, CUBEHASH512, SHAVITE512, SIMD512,
        ECHO512, HAMSI512, FUGUE512, SHABAL512] (take 80 input)) \<and>
    x15_hash H bufA bufB input len = take 32 (fold H
       [BLAKE512, BMW512, GROESTL512, SKEIN512, JH512, KECCAK512, LUFFA512, CUBEHASH512, SHAVITE512, SIMD512,
        ECHO512, HAMSI512, FUGUE512, SHABAL512, WHIRLPOOL] (take len input)) \<and>
    x17_hash H bufA input len = take 32 (fold H
       [BLAKE512, BMW512, GROESTL512, SKEIN512, JH512, KECCAK512, LUFFA512, CUBEHASH512, SHAVITE512, SIMD512,
        ECHO512, HAMSI512, FUGUE512, SHABAL512, WHIRLPOOL, SHA512, HAVAL256_5] (take len input))"
  by (intro conjI x11_chain x13_chain x14_chain x15_chain x17_chain assms)

text \<open>
  The shorter fixed chains (c11, qubit, nist5, phi, geek, fresh, s3) likewise; c11, geek and s3
  always read 80 bytes.
\<close>

theorem short_chains:
  assumes "sph_ok H" and "length bufA = 64" and "length bufB = 64"
  shows "c11_hash H bufA bufB input = take 32 (fold H
       [BLAKE512, BMW512, GROESTL512, JH512, KECCAK512, SKEIN512, LUFFA512, CUBEHASH512, SHAVITE512, SIMD512,
        ECHO512] (take 80 input)) \<and>
    qubit_hash H bufA bufB input len = take 32 (fold H
       [LUFFA512, CUBEHASH512, SHAVITE512, SIMD512, ECHO512] (take len input)) \<and>
    nist5_hash H bufA input len = take 32 (fold H
       [BLAKE512, GROESTL512, JH512, KECCAK512, SKEIN512] (take len input)) \<and>
    phi_hash H bufA input len = take 32 (fold H
       [SKEIN512, JH512, CUBEHASH512, FUGUE512, GOST512, ECHO512] (take len input)) \<and>
    geek_hash H bufA bufB input len = take 32 (fold H
       [BLAKE512, BMW512, ECHO512, SHABAL512, GROESTL512, CUBEHASH512, KECCAK512, HAMSI512, SIMD512]
       (take 80 input)) \<and>
    fresh_hash H bufA bufB input len = take 32 (fold H
       [SHAVITE512, SIMD512, SHAVITE512, SIMD512, ECHO512] (take len input)) \<and>
    s3_hash H bufA bufB input len = take 32 (fold H [SHAVITE512, SIMD512, SKEIN512] (take 80 input))"
  by (intro conjI c11_chain qubit_chain nist5_chain phi_chain geek_chain fresh_chain s3_chain assms)

text \<open>
  x13-bcd and skydoge have a 32-byte digest in the middle of the chain; the next digest reads
  that one followed by 32 zero bytes, never what the buffer held before.
\<close>

theorem padded_chains:
  assumes "sph_ok H" and "length bufA = 64" and "length bufB = 64"
  shows "x13_bcd_hash H bufA bufB input = take 32 (fold H
       [CUBEHASH512, SHAVITE512, SIMD512, ECHO512, HAMSI512, FUGUE512]
       (fold H [BLAKE512, BMW512, GROESTL512, SKEIN512, JH512, KECCAK512, SM3] (take 80 input) @ replicate 32 0)) \<and>
    skydoge_hash H bufA bufB input len = H HAVAL256_5 (fold H
       [BLAKE512, SKEIN512, BMW512, GROESTL512, JH512, LUFFA512, KECCAK512, SIMD512, ECHO512, CUBEHASH512,
        SHAVITE512, HAMSI512, FUGUE512, SHABAL512, WHIRLPOOL, SHA512, SIMD512, WHIRLPOOL, SHA256]
       (take len input) @ replicate 32 0)"
  by (intro conjI x13_bcd_chain skydoge_chain assms)

text \<open>
  The Lyra2 hashes (lyra2re, lyra2re2, lyra2re3, allium): the order of the 256-bit digests and
  the variant, rows and columns of each Lyra2 pass, which takes the running value both as password
  and as salt.
\<close>

theorem lyra_chains:
  assumes "sph_ok H" and "lyra_ok L" and "length bufA = 32" and "length bufB = 32"
  shows "lyra2re_hash H L bufA bufB input =
      (H GROESTL256 \<circ> H SKEIN256 \<circ> lyra_step L LYRA2_OLD 8 \<circ> H KECCAK256 \<circ> H BLAKE256) (take 80 input) \<and>
    lyra2re2_hash H L bufA bufB input =
      (H BMW256 \<circ> H CUBEHASH256 \<circ> H SKEIN256 \<circ> lyra_step L LYRA2 4 \<circ> H CUBEHASH256 \<circ> H KECCAK256 \<circ> H BLAKE256)
        (take 80 input) \<and>
    lyra2re3_hash H L bufA bufB input =
      (H BMW256 \<circ> lyra_step L LYRA2_3 4 \<circ> H CUBEHASH256 \<circ> lyra_step L LYRA2_3 4 \<circ> H BLAKE256) (take 80 input) \<and>
    allium_hash H L bufA bufB input len =
      (H GROESTL256 \<circ> H SKEIN256 \<circ> lyra_step L LYRA2 8 \<circ> H CUBEHASH256 \<circ> lyra_step L LYRA2 8 \<circ> H KECCAK256
       \<circ> H BLAKE256) (take len input)"
  by (intro conjI lyra2re_chain lyra2re2_chain lyra2re3_chain allium_chain assms)

text \<open>
  x16r and x16rv2 apply the digests named by the sixteen hexadecimal digits of the first eight
  bytes of the previous block hash, last byte first; in x16rv2 the Keccak, Luffa and SHA-512 digests
  are taken of a Tiger digest padded with zeros.
\<close>

theorem x16r_follows_block_hash:
  assumes "sph_ok H" and "length buf = 64" and "12 \<le> length input"
  shows "x16r_hash H buf input len =
      take 32 (fold H (map ((!) algos) (hex_digits (drop 4 input))) (take len input)) \<and>
    x16rv2_hash H buf input len =
      take 32 (fold (tiger_first H) (map ((!) algos) (hex_digits (drop 4 input))) (take len input))"
  by (intro conjI x16r_fold x16rv2_fold assms)

text \<open>
  C21. x16s applies all sixteen digests, each exactly once, in the order that the hexadecimal digits
  of the previous block hash give by moving the entry at their place to the front.
\<close>

theorem x16s_permutes_digests:
  assumes "sph_ok H" and "length buf = 64" and "12 \<le> length input"
  shows "\<exists>order. x16s_hash H buf input len = take 32 (fold H order (take len input)) \<and>
    mset order = mset algos \<and> order = map ((!) algos) (fold move_front (hex_digits (drop 4 input)) [0..<16])"
proof -
  let ?order = "map (\<lambda>c. algos ! algo_of_char c) (shuffle_order (drop 4 input))"
  have "?order = map ((!) algos) (map algo_of_char (shuffle_order (drop 4 input)))" by simp
  also have "\<dots> = map ((!) algos) (fold move_front (hex_digits (drop 4 input)) [0..<16])"
    using assms(3) by (subst shuffle_moves) simp_all
  finally show ?thesis
    using x16s_fold [OF assms(1,2), of input len] mset_shuffled_algos [of "drop 4 input"] by blast
qed

theorem x16s_permutes_digests_witness:
  "\<exists>order. x16s_hash sample_sph (replicate 64 1) (replicate 80 0x1F) 80 =
      take 32 (fold sample_sph order (take 80 (replicate 80 0x1F))) \<and>
    mset order = mset algos \<and>
    order = map ((!) algos) (fold move_front (hex_digits (drop 4 (replicate 80 0x1F))) [0..<16])"
  by (rule x16s_permutes_digests [OF sample_sph_ok]) simp_all

text \<open>
  x21s continues the shuffled chain of x16s with HAVAL, Tiger, Lyra2, GOST and SHA-256; the
  digests shorter than 64 bytes keep the tail of the value before them.
\<close>

theorem x21s_continues_x16s:
  assumes "sph_ok H" and "lyra_ok L" and "length buf = 64"
  shows "x21s_hash H L buf input len =
    (let h = fold H (map (\<lambda>c. algos ! algo_of_char c) (shuffle_order (drop 4 input))) (take len input);
         v = H HAVAL256_5 h @ drop 32 h;
         t = H TIGER v @ drop 24 v;
         l = L LYRA2 32 (take 32 t) (take 32 t) 1 4 4 @ drop 32 t
     in H SHA256 (H GOST512 l))"
  unfolding Let_def by (rule x21s_fold [OF assms])

text \<open>
  x22i: the thirteen digests of x13, three more, SWIFFTX over the last four values together,
  and then HAVAL, Tiger, Lyra2, GOST and SHA-256, the shorter digests padded with zeros.
\<close>

theorem x22i_chains:
  assumes "sph_ok H" and "lyra_ok L" and "\<forall>m. length (swifftx m) = 65"
  shows "x22i_hash H L swifftx input len =
    (let h12 = fold H [BLAKE512, BMW512, GROESTL512, SKEIN512, JH512, KECCAK512, LUFFA512, CUBEHASH512,
           SHAVITE512, SIMD512, ECHO512, HAMSI512, FUGUE512] (take len input);
         h13 = H SHABAL512 h12; h14 = H WHIRLPOOL h13; h15 = H SHA512 h14;
         s = take 64 (swifftx (h12 @ h13 @ h14 @ h15));
         v = H HAVAL256_5 s @ replicate 32 0;
         t = H TIGER v @ replicate 40 0;
         l = L LYRA2 32 (take 32 t) (take 32 t) 1 4 4 @ replicate 32 0
     in H SHA256 (H GOST512 l))"
  unfolding Let_def by (rule x22i_chain) (use assms in simp_all)

text \<open>
  quark and hmq17 choose at fixed places between two digests by bits of the first word of the
  running value (bit 3 in quark, bits 3 and 4 in hmq17); a 32-byte choice is padded with zeros.
\<close>

theorem branching_chains:
  assumes "sph_ok H" and "length bufA = 64" and "length bufB = 64" and "length buf = 128"
  shows "quark_hash H bufA bufB input len = take 32
      ((branch H 8 KECCAK512 JH512 \<circ> H SKEIN512 \<circ> H KECCAK512 \<circ> branch H 8 BLAKE512 BMW512 \<circ> H JH512
        \<circ> H GROESTL512 \<circ> branch H 8 GROESTL512 SKEIN512 \<circ> H BMW512 \<circ> H BLAKE512) (take len input)) \<and>
    hmq17_hash H buf input len = take 32
      ((H BMW512 \<circ> branch H 24 HAVAL256_5 WHIRLPOOL \<circ> H SHA512 \<circ> H GROESTL512 \<circ> branch H 24 FUGUE512 SHA512
        \<circ> H WHIRLPOOL \<circ> H SHABAL512 \<circ> branch H 24 ECHO512 SIMD512 \<circ> H FUGUE512 \<circ> H HAMSI512
        \<circ> branch H 24 SHAVITE512 LUFFA512 \<circ> H BLAKE512 \<circ> H ECHO512 \<circ> branch H 24 WHIRLPOOL HAVAL256_5
        \<circ> H SIMD512 \<circ> H SHAVITE512 \<circ> branch H 24 KECCAK512 JH512 \<circ> H CUBEHASH512 \<circ> H LUFFA512
        \<circ> branch H 24 BLAKE512 BMW512 \<circ> H KECCAK512 \<circ> H JH512 \<circ> branch H 24 GROESTL512 SKEIN512
        \<circ> H WHIRLPOOL \<circ> H BMW512) (take len input))"
  by (intro conjI quark_branches hmq17_branches assms)

text \<open>
  phi2: Lyra2 runs on the two halves of the CubeHash digest; the lowest bit of the JH digest
  chooses between GOST and two rounds of ECHO; the result is the exclusive-or of the two halves of
  the final Skein digest.
\<close>

theorem phi2_value_of_chain:
  assumes "sph_ok H" and "lyra_ok L" and "length buf = 64" and "length bufA = 64" and "length bufB = 64"
  shows "phi2_hash H L buf bufA bufB input len =
    (let b = H CUBEHASH512 (take len input);
         j = H JH512 (lyra_step L LYRA2 8 (take 32 b) @ lyra_step L LYRA2 8 (drop 32 b));
         s = H SKEIN512 (if j ! 0 AND 1 \<noteq> 0 then H GOST512 j else H ECHO512 (H ECHO512 j))
     in map2 (XOR) (take 32 s) (drop 32 s))"
  using assms by (rule phi2_value)

text \<open>
  C22. hefty1 interleaves bits: bit \<open>n\<close> of the 32-byte result, from the most significant bit of the
  first byte, is bit \<open>n / 4\<close> of the digest number \<open>n mod 4\<close> among SHA-256, Keccak, Groestl and BLAKE
  of the input followed by its hefty digest. The SHA-256 of \<open>sha256.h\<close> is computed in a local context, of which only
  the size of its buffer is known.
\<close>

theorem hefty1_interleaves:
  assumes "length (s256_buf ctx) = 64"
  shows "length (hefty1_hash H hefty ctx input len) = 32 \<and>
   (\<forall>n < 256. msb_bit (hefty1_hash H hefty ctx input len) n \<longleftrightarrow>
      (let m = take len input @ hefty (take len input)
       in msb_bit ([sha256_spec m, H KECCAK512 m, H GROESTL512 m, H BLAKE512 m] ! (n mod 4)) (n div 4)))"
  unfolding hefty1_digests [OF assms] Let_def
  using hefty_combine_bits by (intro conjI allI impI) blast+

theorem hefty1_interleaves_witness:
  "msb_bit (hefty1_hash sample_sph (\<lambda>m. replicate 32 1) SHA256_cleared (replicate 80 3) 80) 5 \<longleftrightarrow>
     msb_bit (sample_sph KECCAK512 (replicate 80 3 @ replicate 32 1)) 1"
  using spec [OF conjunct2 [OF hefty1_interleaves
      [of SHA256_cleared sample_sph "\<lambda>m. replicate 32 1" "replicate 80 3" 80]], of 5] by simp

section \<open>Multihash: megabtx\<close>

text \<open>
  C23. \<open>next_permutation\<close> keeps the elements of its range and, when they are distinct, moves to the next
  permutation in the lexicographic order, from the last one back to the first; so after \<open>n\<close> calls the
  place is \<open>n\<close> further, modulo the number of permutations.
\<close>

theorem next_permutation_enumerates:
  "mset (next_permutation xs) = mset xs \<and>
   (distinct xs \<longrightarrow>
      perm_rank (next_permutation xs) = Suc (perm_rank xs) mod fact (length xs) \<and>
      perm_rank ((next_permutation ^^ n) xs) = (perm_rank xs + n) mod fact (length xs))"
  using mset_next_permutation perm_rank_next perm_rank_iterate by blast

theorem next_permutation_enumerates_witness:
  "perm_rank ((next_permutation ^^ 5) [1, 2, 3]) = 5 \<and> next_permutation [1, 3, 2] = [2, 1, 3]"
  using next_permutation_enumerates [of "[1, 2, 3]" 5]
  by (simp add: next_permutation_def reverse_range.simps swap_at_def)

text \<open>
  C24. \<open>megabtx_hash\<close>: a BLAKE-512 of the header, then the digests of three groups, each group in the
  permutation whose place in the lexicographic order the time stamp gives (with the wrap-around of 32-bit
  arithmetic); a 32-byte digest keeps the upper half of the value before it. This holds whatever
  \<open>permutation_1[0]\<close> held, but only if none of the entries 8 to 15 of \<open>permutation_3\<close>, which are never
  written, happens to name a digest.
\<close>

theorem megabtx_follows_timestamp:
  assumes "sph_ok H" and "length buf = 92"
    and "length permutation_1 = 8" and "length permutation_2 = 16" and "length permutation_3 = 23"
    and "\<forall>c \<in> set (take 8 (drop 8 permutation_3)). c < 16 \<or> 22 < c"
  shows "\<exists>p1 p2 p3.
     mset p1 = mset [1, 2, 3, 4, 5, 6, 7] \<and> perm_rank p1 = steps_1 (mega_timestamp input) \<and>
     mset p2 = mset [8, 9, 10, 11, 12, 13, 14, 15] \<and> perm_rank p2 = steps_2 (mega_timestamp input) \<and>
     mset p3 = mset [16, 17, 18, 19, 20, 21, 22] \<and> perm_rank p3 = steps_3 (mega_timestamp input) \<and>
     megabtx_hash H buf permutation_1 permutation_2 permutation_3 input len =
       take 32 (fold (mega_digest H)
         (concat (map mega_switch_1 p1) @ concat (map mega_switch_2 p2) @ concat (map mega_switch_3 p3))
         (H BLAKE512 (take len input)))"
proof -
  let ?t = "mega_timestamp input"
  have junk: "concat (map mega_switch_3 (take 8 (drop 8 permutation_3))) = []"
    using assms(6) by (auto simp: mega_switch_3_def)
  show ?thesis
    using megabtx_chain [OF assms(1-5), of input len, unfolded junk append_Nil]
      mega_orders(1) [of ?t] mega_orders(2) [of ?t] mega_orders(3) [of ?t] by blast
qed

theorem megabtx_follows_timestamp_witness:
  "\<exists>p1 p2 p3. perm_rank p1 = 0 \<and> perm_rank p2 = 3333 \<and> perm_rank p3 = 2100 \<and>
     megabtx_hash sample_sph (replicate 92 0) (replicate 8 0) (replicate 16 0) (replicate 23 0)
       (replicate 68 0 @ le_bytes 4 (1492973331 :: u32) @ replicate 8 0) 80 =
     take 32 (fold (mega_digest sample_sph)
       (concat (map mega_switch_1 p1) @ concat (map mega_switch_2 p2) @ concat (map mega_switch_3 p3))
       (sample_sph BLAKE512 (take 80 (replicate 68 0 @ le_bytes 4 (1492973331 :: u32) @ replicate 8 0))))"
proof -
  let ?inp = "replicate 68 0 @ le_bytes 4 (1492973331 :: u32) @ replicate 8 0"
  have "mega_timestamp ?inp = 1492973331" by (simp add: mega_timestamp_def)
  then have steps: "steps_1 (mega_timestamp ?inp) = 0" "steps_2 (mega_timestamp ?inp) = 3333"
      "steps_3 (mega_timestamp ?inp) = 2100"
    by (simp_all add: steps_1_def steps_2_def steps_3_def mega_consts)
  have "\<forall>c \<in> set (take 8 (drop 8 (replicate 23 (0 :: int)))). c < 16 \<or> 22 < c" by simp
  from megabtx_follows_timestamp [OF sample_sph_ok _ _ _ _ this, of "replicate 92 0" "replicate 8 0" "replicate 16 0" ?inp 80] steps
  show ?thesis by (simp only: length_replicate) blast
qed

text \<open>
  C25. The third group is started at \<open>HASH_FUNC_COUNT_2\<close>, before the entries that were initialised: with
  the same header and the same digests, two calls whose stack held different values give different hashes.
\<close>

theorem megabtx_reads_uninitialised:
  "\<exists>H p p'. sph_ok H \<and> length p = 23 \<and> length p' = 23 \<and>
     megabtx_hash H (replicate 92 0) (replicate 8 0) (replicate 16 0) p input len \<noteq>
     megabtx_hash H (replicate 92 0) (replicate 8 0) (replicate 16 0) p' input len"
  using megabtx_uninitialised [of "replicate 92 0" "replicate 8 0" "replicate 16 0" input len] counting_sph_ok
  by (intro exI [of _ counting_sph] exI [of _ "replicate 23 0"] exI [of _ "replicate 8 0 @ 16 # replicate 14 0"]) simp

section \<open>sphlib: SHA-2\<close>

text \<open>
  C26. The compression functions of sphlib are those of FIPS 180-4: the one of SHA-256 with its 64 steps
  unrolled, the one for small footprints, which keeps sixteen schedule words and overwrites them, and the one
  of SHA-512, for every block and chaining value.
\<close>

theorem sha2_round_versions:
  assumes "length W = 16" and "length V = 80"
  shows "SHA2_ROUND_BODY M r = fips256_compress M r \<and> SHA2_ROUND_BODY_small M W r = fips256_compress M r \<and>
    SHA3_ROUND_BODY V N s = fips512_compress N s"
  by (simp add: ROUND_BODY_fips small_ROUND_BODY_fips [OF assms(1)] ROUND_BODY_fips512 [OF assms(2)])

theorem sha2_round_versions_witness:
  "SHA2_ROUND_BODY (\<lambda>t. of_nat t) H256 = fips256_compress (\<lambda>t. of_nat t) H256 \<and>
   SHA2_ROUND_BODY_small (\<lambda>t. of_nat t) (replicate 16 7) H256 = fips256_compress (\<lambda>t. of_nat t) H256 \<and>
   SHA3_ROUND_BODY (replicate 80 9) (\<lambda>t. of_nat t) H512 = fips512_compress (\<lambda>t. of_nat t) H512"
  by (rule sha2_round_versions) simp_all

text \<open>A message that comes in pieces.\<close>

definition sha256_feed :: "bytes list \<Rightarrow> sha224_context \<Rightarrow> sha224_context" where
  "sha256_feed ps = fold (\<lambda>p sc. sph_sha224 sc p) ps"

definition sha512_feed :: "u64 list \<Rightarrow> bytes list \<Rightarrow> sha384_context \<Rightarrow> sha384_context" where
  "sha512_feed W ps = fold (\<lambda>p sc. sph_sha384 W sc p) ps"

text \<open>
  C27. SHA-224 and SHA-256 of sphlib, for messages of fewer than \<open>2 ^ 64\<close> bits, the limit of the standard (which
  \<open>md_helper.c\<close> repeats: longer messages are hashed improperly): however a message is cut into pieces, and with up
  to seven further bits, closing the context returns the digest of the standard, and leaves the context ready for
  the next message, whose digest is right again.
\<close>

theorem sha256_streaming:
  assumes "length (md_buf sc) = 64" and "n < 8" and "k < 8"
    and "8 * length (concat ps) + n < 2 ^ 64" and "8 * length (concat qs) + k < 2 ^ 64"
  shows "(case sph_sha256_addbits_and_close (sha256_feed ps (sph_sha256_init sc)) ub n of (sc', digest) \<Rightarrow>
      digest = fips_sha256 H256 (concat ps) ub n \<and>
      snd (sph_sha256_addbits_and_close (sha256_feed qs sc') vb k) = fips_sha256 H256 (concat qs) vb k) \<and>
    (case sph_sha224_addbits_and_close (sha256_feed ps (sph_sha224_init sc)) ub n of (sc', digest) \<Rightarrow>
      digest = take 28 (fips_sha256 H224 (concat ps) ub n) \<and>
      snd (sph_sha224_addbits_and_close (sha256_feed qs sc') vb k) = take 28 (fips_sha256 H224 (concat qs) vb k))"
proof -
  have buf: "length (md_buf (sha256_feed ps (sc\<lparr>md_val := iv, md_count := 0\<rparr>))) = 64" for iv
    using absorbed_buf [OF fed_256 [OF assms(1), of iv ps]] by (simp add: sha256_feed_def)
  let ?a = "sha256_feed ps (sph_sha256_init sc)" and ?b = "sha256_feed ps (sph_sha224_init sc)"
  have a: "length (md_buf ?a) = 64" and b: "length (md_buf ?b) = 64"
    using buf by (simp_all add: sph_sha256_init_def sph_sha224_init_def)
  show ?thesis
    using digest_256 [OF assms(1,2), of ps ub] digest_256(2) [OF closed_256(2) [OF a] assms(3), of qs ub n vb]
      digest_256(1) [OF closed_256(1) [OF b] assms(3), of qs ub n vb] closed_256(4) [OF a] closed_256(3) [OF b]
    by (simp add: sha256_feed_def split_beta)
qed

theorem sha256_streaming_witness:
  "\<exists>sc' digest. sph_sha256_addbits_and_close
       (sha256_feed [[97], [98, 99]] (sph_sha256_init \<lparr>md_buf = replicate 64 0, md_val = [], md_count = 5\<rparr>)) 0 0 =
     (sc', digest) \<and>
     digest = fips_sha256 H256 [97, 98, 99] 0 0 \<and>
     snd (sph_sha256_addbits_and_close (sha256_feed [[1]] sc') 128 1) = fips_sha256 H256 [1] 128 1"
  using sha256_streaming [of "\<lparr>md_buf = replicate 64 0, md_val = [], md_count = 5\<rparr>" 0 1 "[[97], [98, 99]]" "[[1]]" 0 128]
  by (simp add: split_beta prod_eq_iff)

text \<open>
  The same for SHA-384 and SHA-512, for messages of fewer than \<open>2 ^ 64\<close> bytes, the range of the counter of
  the context.
\<close>

theorem sha512_streaming:
  assumes "length (md_buf sc) = 128" and "length W = 80" and "n < 8" and "k < 8"
    and "length (concat ps) < 2 ^ 64" and "length (concat qs) < 2 ^ 64"
  shows "(case sph_sha512_addbits_and_close W (sha512_feed W ps (sph_sha512_init sc)) ub n of (sc', digest) \<Rightarrow>
      digest = fips_sha512 H512 (concat ps) ub n \<and>
      snd (sph_sha512_addbits_and_close W (sha512_feed W qs sc') vb k) = fips_sha512 H512 (concat qs) vb k) \<and>
    (case sph_sha384_addbits_and_close W (sha512_feed W ps (sph_sha384_init sc)) ub n of (sc', digest) \<Rightarrow>
      digest = take 48 (fips_sha512 H384 (concat ps) ub n) \<and>
      snd (sph_sha384_addbits_and_close W (sha512_feed W qs sc') vb k) = take 48 (fips_sha512 H384 (concat qs) vb k))"
proof -
  have buf: "length (md_buf (sha512_feed W ps (sc\<lparr>md_val := iv, md_count := 0\<rparr>))) = 128" for iv
    using absorbed_buf [OF fed_512 [OF assms(1), of W iv ps]] by (simp add: sha512_feed_def)
  let ?a = "sha512_feed W ps (sph_sha512_init sc)" and ?b = "sha512_feed W ps (sph_sha384_init sc)"
  have a: "length (md_buf ?a) = 128" and b: "length (md_buf ?b) = 128"
    using buf by (simp_all add: sph_sha512_init_def sph_sha384_init_def)
  show ?thesis
    using digest_512 [OF assms(1,3,2,5), of ub]
      digest_512(2) [OF closed_512(2) [OF a] assms(4,2,6), of W ub n vb]
      digest_512(1) [OF closed_512(1) [OF b] assms(4,2,6), of W ub n vb]
      closed_512(4) [OF a, of W ub n] closed_512(3) [OF b, of W ub n]
    by (simp add: sha512_feed_def split_beta)
qed

text \<open>
  The SHA-512/256 of \<open>sha512_256.c\<close>: updates in pieces and the final call give the first half of the
  SHA-512 of the standard with the initial value of SHA-512/256, for messages whose length in bits fits into
  the 32 bits that the code writes.
\<close>

theorem sha512_256_streaming:
  assumes "length (ctx_block ctx) = 256" and "length w = 80" and "\<forall>p \<in> set pieces. length p < 2 ^ 32 - 128"
    and "length (concat pieces) < 2 ^ 29"
  shows "snd (sha512_256_final w (fold (\<lambda>p ctx. sha512_256_update w ctx p) pieces (sha512_256_init ctx))) =
    take 32 (fips_sha512 sha512_256_h0 (concat pieces) 0 0)"
  using final_digest [OF updates_fed_512_256 [OF init_fed_512_256 [OF assms(1), of w] assms(3)]] assms(2,4)
  by (simp add: sha512_256_h0_def)

section \<open>sphlib: Keccak\<close>

text \<open>
  C28. The permutation of sphlib keeps six lanes complemented and is written out for seven degrees of unrolling;
  each of them is, on complemented states, the permutation of \<open>libethhash\<close>.
\<close>

theorem keccak_f_unrollings:
  assumes "n \<in> {0, 1, 2, 4, 6, 8, 12}" and "length s = 25"
  shows "complement keccak_mask (keccak_f_unroll n (complement keccak_mask s)) = keccakf s"
  using assms by (simp add: keccak_f_unroll_complement complement_twice)

theorem keccak_f_unrollings_witness:
  "complement keccak_mask (keccak_f_unroll 6 (complement keccak_mask (replicate 25 1))) = keccakf (replicate 25 1)"
  by (rule keccak_f_unrollings) simp_all

definition keccak_feed :: "nat \<Rightarrow> bytes list \<Rightarrow> sph_keccak_context \<Rightarrow> sph_keccak_context" where
  "keccak_feed lim ps = fold (\<lambda>p kc. keccak_core kc p lim) ps"

text \<open>
  C29. Keccak of sphlib in its four sizes: however a message is cut into pieces, and with zero to seven further bits,
  closing returns the digest of the sponge over the message padded as a string of bits with \<open>10*1\<close> (in a
  further block when seven bits end a block), and leaves a context that is ready for the next
  message. With up to six further bits this is what \<open>hash\<close> of \<open>libethhash\<close> computes for the end mark that
  contains those bits.
\<close>

theorem sph_keccak_streaming:
  assumes "length (kc_buf kc) = 144" and "n < 8" and "k < 8"
    and "(d, lim) \<in> {(28, 144), (32, 136), (48, 104), (64, 72)}"
  shows "case keccak_close d lim (keccak_feed lim ps (keccak_init kc (8 * d))) ub n of (kc', digest) \<Rightarrow>
    digest = keccak_bits d lim (concat ps) ub n \<and>
    snd (keccak_close d lim (keccak_feed lim qs kc') vb k) = keccak_bits d lim (concat qs) vb k \<and>
    (n < 7 \<longrightarrow> hash d (concat ps) lim (keccak_eb ub n) = Some digest)"
proof -
  let ?kc = "fst (keccak_close d lim (keccak_feed lim ps (keccak_init kc (8 * d))) ub n)"
  have lim: "keccak_limit lim (lim div 8)" and d: "d < lim" "d \<le> 193" "1 < lim"
    using assms(4) by (auto simp: keccak_limit_def)
  have buf: "length (kc_buf ?kc) = 144" and init: "keccak_init ?kc (8 * d) = ?kc"
    using keccak_limit.close_buf(1) [OF lim assms(1) d(2) refl] by (simp_all add: keccak_feed_def close_init)
  note first = keccak_limit.close_bits [OF lim assms(1) d(2,3) assms(2) refl, folded keccak_feed_def, of ps "8 * d" ub]
  note second = keccak_limit.close_bits [OF lim buf d(2,3) assms(3) refl, folded keccak_feed_def, of qs "8 * d" vb]
  note same = keccak_limit.close_digest(1) [OF lim assms(1) d refl, folded keccak_feed_def, of n ps ub "8 * d"]
  show ?thesis using first second same by (auto simp: split_beta init)
qed

theorem sph_keccak_streaming_witness:
  "\<exists>kc' digest. keccak_close 32 136
       (keccak_feed 136 [[1, 2], [3]] (keccak_init \<lparr>kc_buf = replicate 144 0, kc_wide = [], kc_ptr = 0, kc_lim = 0\<rparr> (8 * 32))) 0 0 =
     (kc', digest) \<and>
     hash 32 [1, 2, 3] 136 (keccak_eb 0 0) = Some digest \<and>
     snd (keccak_close 32 136 (keccak_feed 136 [replicate 135 4] kc') 0xFE 7) = keccak_bits 32 136 (replicate 135 4) 0xFE 7"
  using sph_keccak_streaming [of "\<lparr>kc_buf = replicate 144 0, kc_wide = [], kc_ptr = 0, kc_lim = 0\<rparr>" 0 7 32 136 "[[1, 2], [3]]" 0 "[replicate 135 4]" "0xFE"]
  by (simp add: split_beta prod_eq_iff)

text \<open>
  The hashes that wrap one digest: \<open>keccak_hash\<close> and \<open>keccak512_hash\<close> are the Keccak digests that
  \<open>libethhash\<close> computes, and \<open>sha256csm_hash\<close> is the double SHA-256 of the 80 bytes of a header with 32
  zeros, whatever its local context held before.
\<close>

theorem wrapped_digests:
  assumes "length (kc_buf kc) = 144" and "length (md_buf sc) = 64"
  shows "hash 32 input 136 1 = Some (keccak_hash kc input) \<and> hash 64 input 72 1 = Some (keccak512_hash kc input) \<and>
    sha256csm_hash sc input =
      (if length input < 80 then None
       else Some (fips_sha256 H256 (fips_sha256 H256 (take 80 input @ replicate 32 0) 0 0) 0 0))"
  by (simp add: keccak_hash_value [OF assms(1)] sha256csm_hash_value [OF assms(2)])

section \<open>dcrypt\<close>

text \<open>
  C30. The SHA-256 of \<open>dcrypt.c\<close>, for a length of which no 32-bit position wraps (\<open>len + 69 < 2 ^ 32\<close>): a buffer
  that does not hold the padding is written behind its end, and otherwise the digits are those of the blocks of
  \<open>dc_padded\<close>, the message with a mark, zeros and a length of 32 bits in \<open>dc_N len\<close> blocks. For a message of fewer
  than \<open>2 ^ 29\<close> bytes whose length is not 56, 57 or 58 above a multiple of 64 they are the hexadecimal digits of the
  SHA-256 digest of the standard. For 56, 57 and 58 there is one block fewer than in the padding of the standard;
  from \<open>2 ^ 29\<close> bytes on nothing is claimed of the standard, as the 32-bit length word has lost bits.
\<close>

theorem dcrypt_sha256_padding:
  assumes "len + 69 < 2 ^ 32"
  shows "unat (dc_N (of_nat len)) = dc_blocks len \<and>
    (length instr < 64 * dc_blocks len \<longleftrightarrow> dc_sha256 instr (of_nat len) = None) \<and>
    (64 * dc_blocks len \<le> length instr \<longrightarrow>
      map_option snd (dc_sha256 instr (of_nat len)) = Some (dc_digest (take len instr)) \<and>
      (if len mod 64 \<in> {56, 57, 58}
       then 64 * dc_blocks len + 64 = length (fips_pad 64 8 (take len instr) 0 0)
       else 8 * len < 2 ^ 32 \<longrightarrow>
         map_option snd (dc_sha256 instr (of_nat len)) = Some (nibbles (fips_sha256 H256 (take len instr) 0 0))))"
proof -
  have small: "dc_small len" using assms by (simp add: dc_small_def)
  show ?thesis
  proof (cases "length instr < 64 * dc_blocks len")
    case False
    then have "length (take len instr) = len" using dc_blocks_bounds(1) [of len] by simp
    then show ?thesis
      using False dc_sha256_eq [OF small, of instr] unat_dc_N(1) [OF small] dc_padded_short [of "take len instr"]
        dc_digest_fips [of "take len instr"] length_dc_padded [of "take len instr"]
      by auto
  qed (simp add: dc_sha256_None [OF small] unat_dc_N(1) [OF small])
qed

theorem dcrypt_sha256_padding_witness:
  "map_option snd (dc_sha256 (replicate 128 7) 80) = Some (nibbles (fips_sha256 H256 (replicate 80 7) 0 0)) \<and>
   dc_sha256 (replicate 80 7) 80 = None \<and> 64 * dc_blocks 56 + 64 = length (fips_pad 64 8 (replicate 56 7) 0 0)"
  using dcrypt_sha256_padding [of 80 "replicate 128 7"] dcrypt_sha256_padding [of 80 "replicate 80 7"]
    dcrypt_sha256_padding [of 56 "replicate 64 7"]
  by (simp add: dc_blocks_def)

text \<open>
  C31. \<open>mix_hashed_num\<close> always returns and never leaves its buffers: after at most 16385 hashes it has
  produced the text of the walk over the digest, the hashes in the order of the steps, up to the first step that
  ends it or beyond the limit; the text has at most 1048640 bytes, so it fits into \<open>mixedHash\<close>.
\<close>

theorem dcrypt_walk_returns:
  assumes "length tmp_list = 128" and "length hashedData = 128" and "\<forall>x \<in> set (take 64 hashedData). unat x < 16"
  shows "\<exists>n. walk_length (take 64 hashedData) n \<and>
    mix_hashed_num tmp_list hashedData = Some (n \<le> 16384, walk_out (take 64 hashedData) n, 64 * n) \<and>
    length (walk_out (take 64 hashedData) n) = 64 * n \<and> 64 * n \<le> 1048640"
proof -
  obtain n where n: "walk_length (take 64 hashedData) n"
      "mix_hashed_num tmp_list hashedData = Some (n \<le> 16384, walk_out (take 64 hashedData) n, 64 * n)"
    using mix_hashed_num_walk [of tmp_list hashedData] assms by auto
  moreover have "length (walk_out (take 64 hashedData) n) = 64 * n"
    by (rule length_walk_out) (use assms in auto)
  moreover have "64 * n \<le> 1048640" using n(1) by (simp add: walk_length_def)
  ultimately show ?thesis by blast
qed

theorem dcrypt_walk_returns_witness:
  "\<exists>n. walk_length (replicate 64 5) n \<and>
     mix_hashed_num (replicate 128 0) (replicate 64 5 @ replicate 64 0) =
       Some (n \<le> 16384, walk_out (replicate 64 5) n, 64 * n)"
  using dcrypt_walk_returns [of "replicate 128 0" "replicate 64 5 @ replicate 64 0"] by auto

text \<open>
  C32. The whole of \<open>dcrypt_hash\<close>, for an input of fewer than \<open>2 ^ 31\<close> bytes (so that the 32-bit sums with its
  length, the size of \<open>finalToHash\<close> among them, do not wrap) and any allocator \<open>mem\<close> that returns at least as many
  bytes as asked for: the padding of the input must fit into the block of \<open>malloc(len)\<close> and the last padding into \<open>finalToHash\<close>; then
  the result is the digest of the text of the walk followed by the input. A block of exactly the size asked for
  never holds the padding, so every call writes behind the block.
\<close>

theorem dcrypt_hash_outcomes:
  assumes "\<forall>n. n \<le> length (mem n)" and "length input < 2 ^ 31"
  shows "(\<exists>n. walk_length (dc_digest input) n \<and> dcrypt_hash mem input =
      (if length (mem (length input)) < 64 * dc_blocks (length input) then None
       else if 16384 < n then Some None
       else if length (mem (64 * n + length input + 64)) < 64 * dc_blocks (length input + 64 * n) then None
       else Some (Some (dc_digest (walk_out (dc_digest input) n @ input))))) \<and>
    (length (mem (length input)) = length input \<longrightarrow> dcrypt_hash mem input = None)"
  using dcrypt_hash_eq [of mem input] dc_blocks_bounds(1) [of "length input"] assms by auto

theorem dcrypt_hash_outcomes_witness:
  "dcrypt_hash (\<lambda>n. replicate n 0) (replicate 80 1) = None \<and>
   (\<exists>n. walk_length (dc_digest (replicate 80 1)) n \<and> dcrypt_hash (\<lambda>n. replicate (n + 69) 0) (replicate 80 1) =
      Some (if n \<le> 16384 then Some (dc_digest (walk_out (dc_digest (replicate 80 1)) n @ replicate 80 1)) else None))"
proof -
  have fit: "64 * dc_blocks (80 + 64 * n) \<le> 64 * n + 213" for n using dc_blocks_bounds(2) [of "80 + 64 * n"] by simp
  show ?thesis
    using dcrypt_hash_outcomes [of "\<lambda>n. replicate n 0" "replicate 80 1"] fit
      dcrypt_hash_outcomes [of "\<lambda>n. replicate (n + 69) 0" "replicate 80 1"]
    by (auto simp: dc_blocks_def not_less)
qed

section \<open>SHA-256 contexts, HMAC, PBKDF2 and scrypt\<close>

definition fresh_hmac :: HMAC_SHA256_CTX where
  "fresh_hmac =
     (let c = \<lparr>s256_state = [], s256_count0 = 7, s256_count1 = 9, s256_buf = replicate 64 5\<rparr> in \<lparr>hmac_ictx = c, hmac_octx = c\<rparr>)"

lemma fresh_hmac_bufs: "hmac_bufs fresh_hmac"
  by (simp add: fresh_hmac_def hmac_bufs_def Let_def)

text \<open>
  C33. The header \<open>sha256.h\<close>: a SHA-256 context that was fed in pieces gives the digest of FIPS 180-4 and is wiped;
  HMAC fed in pieces gives the value of RFC 2104 for keys of any length; and PBKDF2 stores the derived key of
  RFC 8018 into the first \<open>dkLen\<close> bytes of its buffer and leaves the others. The contexts may hold anything before.
  The limits of the documents are assumed: an iteration count that is not 0, a derived key of at most
  \<open>32 * (2 ^ 32 - 1)\<close> bytes that the buffer can hold, and messages, keys, passwords and salts of fewer than
  \<open>2 ^ 60\<close> bytes, so that no bit count reaches \<open>2 ^ 64\<close>. The iteration count must also not be \<open>2 ^ 64 - 1\<close>: with
  that one the 64-bit loop counter wraps and PBKDF2 never returns.
\<close>

theorem hmac_pbkdf2_compute_rfc:
  assumes "length (s256_buf sc) = 64" and "hmac_bufs ctx" and "0 < c" and "c \<noteq> 2 ^ 64 - 1"
    and "dkLen \<le> length buf" and "dkLen \<le> 32 * (2 ^ 32 - 1)"
    and "length (concat pieces) < 2 ^ 60" and "length K < 2 ^ 60" and "length P < 2 ^ 60" and "length S < 2 ^ 60"
  shows "SHA256_Final (fold (\<lambda>p sc. SHA256_Update sc p) pieces (SHA256_Init sc)) =
      (SHA256_cleared, sha256_spec (concat pieces)) \<and>
    snd (HMAC_SHA256_Final (fold (\<lambda>p ctx. HMAC_SHA256_Update ctx p) pieces (HMAC_SHA256_Init ctx K))) =
      hmac_sha256 K (concat pieces) \<and>
    PBKDF2_SHA256 ctx P S c buf dkLen = Some (pbkdf2_spec P S (unat c) dkLen @ drop dkLen buf) \<and>
    (0 < dkLen \<longrightarrow> PBKDF2_SHA256 ctx P S (2 ^ 64 - 1) buf dkLen = None)"
proof -
  have m: "(2 ^ 64 - 1 :: u64) = - 1" by simp
  show ?thesis
    using sha256_ctx_pieces [OF assms(1)] hmac_value [OF assms(2)] PBKDF2_value [OF assms(2,3) _ assms(5)] assms(4)
      PBKDF2_forever unfolding m by simp
qed

theorem hmac_pbkdf2_compute_rfc_witness:
  "snd (HMAC_SHA256_Final (fold (\<lambda>p ctx. HMAC_SHA256_Update ctx p) [[1], [2, 3]] (HMAC_SHA256_Init fresh_hmac (replicate 70 4)))) =
     hmac_sha256 (replicate 70 4) [1, 2, 3] \<and>
   PBKDF2_SHA256 fresh_hmac [1, 2] [3] 5 (replicate 50 6) 40 = Some (pbkdf2_spec [1, 2] [3] 5 40 @ replicate 10 6) \<and>
   PBKDF2_SHA256 fresh_hmac [1, 2] [3] 0xFFFFFFFFFFFFFFFF (replicate 50 6) 40 = None"
  using hmac_pbkdf2_compute_rfc [of "hmac_ictx fresh_hmac" fresh_hmac 5 40 "replicate 50 6" "[[1], [2, 3]]" "replicate 70 4" "[1, 2]" "[3]"]
    fresh_hmac_bufs
  by (simp add: hmac_bufs_def)

text \<open>
  C34. scrypt: for every cost that is a power of two above one and every block size for which the memory fits into
  32 bits, \<open>scrypt_N_R_1_256\<close> stays inside its scratchpad and returns the 32 bytes that RFC 7914 defines (the
  parallelisation is one, the salt is the password), whatever memory and address \<open>malloc\<close> returns.
\<close>

theorem scrypt_computes_rfc:
  assumes "hmac_bufs ctx" and "unat N = 2 ^ k" and "0 < k" and "0 < R" and "scrypt_total N R < 2 ^ 32"
  shows "scrypt_N_R_1_256 ctx mem memw base input N R = Some (scrypt_spec input (unat N) (unat R)) \<and>
    length (scrypt_spec input (unat N) (unat R)) = 32"
  using scrypt_value [OF assms] by (simp add: scrypt_spec_def)

theorem scrypt_computes_rfc_witness:
  "scrypt_N_R_1_256 fresh_hmac (\<lambda>_. 7) (\<lambda>_. 9) 12345 (replicate 80 1) 1024 1 = Some (scrypt_spec (replicate 80 1) 1024 1)"
  using scrypt_computes_rfc [OF fresh_hmac_bufs, of 1024 10 1 "\<lambda>_. 7" "\<lambda>_. 9" 12345 "replicate 80 1"]
  by (simp add: scrypt_total_def)

text \<open>
  C35. For the other costs the scratchpad is too small: when the cost is odd (one, for instance), the loop that
  fills the rows works in pairs and writes a row behind the block; when the size does not fit into 32 bits,
  \<open>malloc\<close> is asked for what is left of it. In both cases \<open>scrypt_N_R_1_256\<close> writes behind its memory.
\<close>

theorem scrypt_writes_outside:
  assumes "hmac_bufs ctx" and "0 < R" and "0 < N" and "odd (unat N) \<or> 2 ^ 32 \<le> scrypt_total N R"
  shows "scrypt_N_R_1_256 ctx mem memw base input N R = None"
  using assms by (rule scrypt_outside)

theorem scrypt_writes_outside_witness:
  "scrypt_N_R_1_256 fresh_hmac (\<lambda>_. 7) (\<lambda>_. 9) 12345 (replicate 80 1) 1 8 = None \<and>
   scrypt_N_R_1_256 fresh_hmac (\<lambda>_. 7) (\<lambda>_. 9) 12345 (replicate 80 1) 0x400000 8 = None"
  using scrypt_writes_outside [of fresh_hmac 8 1 "\<lambda>_. 7" "\<lambda>_. 9" 12345 "replicate 80 1"]
    scrypt_writes_outside [of fresh_hmac 8 "0x400000" "\<lambda>_. 7" "\<lambda>_. 9" 12345 "replicate 80 1"]
    fresh_hmac_bufs
  by (simp add: scrypt_total_def)

section \<open>Lyra2\<close>

text \<open>The round of the sponge is the round of BLAKE2b without a message.\<close>

theorem lyra_round_is_blake2b:
  assumes "r < 12"
  shows "ROUND (replicate 16 0) r v = ROUND_LYRA v"
proof -
  have "\<forall>row \<in> set (take 12 blake2b_sigma). \<forall>j \<in> set row. j < 16" by (simp add: blake2b_sigma_def)
  moreover have "blake2b_sigma ! r \<in> set (take 12 blake2b_sigma)" "length (blake2b_sigma ! r) = 16"
    using assms by (auto simp: blake2b_sigma_def numeral_eq_Suc less_Suc_eq)
  ultimately have m: "replicate 16 (0 :: u64) ! (blake2b_sigma ! r ! j) = 0" if "j < 16" for j
    using that by (metis nth_mem nth_replicate)
  have "G (replicate 16 0) r i a b c d w = lyra_G a b c d w" if "i < 8" for i a b c d w
  proof -
    have "2 * i + 0 < 16" "2 * i + 1 < 16" using that by simp_all
    then show ?thesis by (simp only: G_def lyra_G_def m add_0_right)
  qed
  then show ?thesis by (simp only: ROUND_def ROUND_LYRA_def numeral_less_iff zero_less_numeral one_less_numeral_iff num.simps less_num_simps)
qed

text \<open>
  C36. Lyra2: when the sizes fit and the memory is there, \<open>LYRA2\<close> and \<open>LYRA2_3\<close> return 0 and store into the first bytes
  of the key buffer the value of the specification for the padded input, with the two phases on a matrix of
  blocks in closed form; no access leaves the matrix, although the rows of a step may be the same, and both phases
  end. The key has as many bytes as the lower 32 bits of \<open>kLen\<close> say.
\<close>

theorem lyra2_computes_spec:
  assumes "length fresh = 16" and "lyra_args_ok (unat nRows) (unat nCols) pwd slt"
    and "unat (ucast kLen :: u32) \<le> length K" and "unat timeCost + 1 < 2 ^ 63"
  shows "lyra2 (True, True, True) fresh K kLen pwd slt timeCost nRows nCols =
      Some (0, lyra_spec pick_first (input_blocks (lyra_message kLen pwd slt timeCost nRows nCols)) (unat timeCost)
        (unat nRows) (unat nCols) (unat (ucast kLen :: u32)) @ drop (unat (ucast kLen :: u32)) K) \<and>
    lyra2_3 (True, True, True) fresh K kLen pwd slt timeCost nRows nCols =
      Some (0, lyra_spec pick_index (input_blocks (lyra_message kLen pwd slt timeCost nRows nCols)) (unat timeCost)
        (unat nRows) (unat nCols) (unat (ucast kLen :: u32)) @ drop (unat (ucast kLen :: u32)) K)"
  unfolding lyra2_def lyra2_3_def using assms by (intro conjI lyra2_stride_8) simp_all

theorem lyra2_computes_spec_witness:
  "lyra2 (True, True, True) (replicate 16 9) (replicate 32 0) 32 (replicate 32 1) (replicate 32 1) 1 4 4 =
     Some (0, lyra_spec pick_first (input_blocks (lyra_message 32 (replicate 32 1) (replicate 32 1) 1 4 4)) 1 4 4 32)"
  using lyra2_computes_spec [of "replicate 16 9" 4 4 "replicate 32 1" "replicate 32 1" 32 "replicate 32 0" 1]
  by (simp add: lyra_args_ok_def lyra_blocks_def)

text \<open>
  C37. \<open>LYRA2_old\<close> moves by 64 words from one block of the input to the next, where a block has 8: of an input of at
  most eight blocks it absorbs the first, and blocks of zeros in place of the others. When password and salt
  have 64 bytes or more, the parameters and the padding are not absorbed at all: two inputs of 64 bytes or more that
  agree on the first 64 bytes and have the same number of blocks give the same result (a different number
  of blocks is a different number of blocks of zeros). Assumed: memory is available, the sizes fit
  (\<open>lyra_args_ok\<close>: three rows or more, one column or more and fewer than \<open>2 ^ 31\<close>, a matrix of fewer than \<open>2 ^ 63\<close>
  bytes that holds the padded input), the matrix also holds the last of the blocks read 64 words apart, the key
  buffer holds the key, and the time cost is below \<open>2 ^ 63 - 1\<close>.
\<close>

theorem lyra2_old_absorbs_first_block:
  assumes "length fresh = 16" and "lyra_args_ok (unat nRows) (unat nCols) pwd slt" and "lyra_blocks pwd slt \<le> 8"
    and "64 * (lyra_blocks pwd slt - 1) + 8 \<le> 12 * (unat nRows * unat nCols)" and "unat (ucast kLen :: u32) \<le> length K"
    and "unat timeCost + 1 < 2 ^ 63"
  shows "lyra2_old (True, True, True) fresh K kLen pwd slt timeCost nRows nCols =
      Some (0, lyra_spec pick_first (hd (input_blocks (lyra_message kLen pwd slt timeCost nRows nCols)) #
          replicate (lyra_blocks pwd slt - 1) (replicate 8 0)) (unat timeCost) (unat nRows) (unat nCols)
        (unat (ucast kLen :: u32)) @ drop (unat (ucast kLen :: u32)) K) \<and>
    (64 \<le> length pwd + length slt \<longrightarrow>
      hd (input_blocks (lyra_message kLen pwd slt timeCost nRows nCols)) = words_of (take 64 (pwd @ slt)) \<and>
      (\<forall>pwd' slt'. 64 \<le> length pwd' + length slt' \<and> take 64 (pwd' @ slt') = take 64 (pwd @ slt) \<and>
          lyra_blocks pwd' slt' = lyra_blocks pwd slt \<longrightarrow>
        lyra2_old (True, True, True) fresh K kLen pwd' slt' timeCost nRows nCols =
          lyra2_old (True, True, True) fresh K kLen pwd slt timeCost nRows nCols))"
proof (intro conjI impI allI)
  note run = lyra2_stride_64 [OF assms(1) _ _ _ refl assms(5,6), of _ _ _ _ pick_first, folded lyra2_old_def]
  show "lyra2_old (True, True, True) fresh K kLen pwd slt timeCost nRows nCols =
      Some (0, lyra_spec pick_first (hd (input_blocks (lyra_message kLen pwd slt timeCost nRows nCols)) #
          replicate (lyra_blocks pwd slt - 1) (replicate 8 0)) (unat timeCost) (unat nRows) (unat nCols)
        (unat (ucast kLen :: u32)) @ drop (unat (ucast kLen :: u32)) K)"
    by (rule run [OF assms(2-4)])
  assume long: "64 \<le> length pwd + length slt"
  then show "hd (input_blocks (lyra_message kLen pwd slt timeCost nRows nCols)) = words_of (take 64 (pwd @ slt))"
    by (rule first_input_block)
  fix pwd' slt'
  assume same: "64 \<le> length pwd' + length slt' \<and> take 64 (pwd' @ slt') = take 64 (pwd @ slt) \<and>
      lyra_blocks pwd' slt' = lyra_blocks pwd slt"
  then have "lyra_args_ok (unat nRows) (unat nCols) pwd' slt'" using assms(2) by (simp add: lyra_args_ok_def)
  with same show "lyra2_old (True, True, True) fresh K kLen pwd' slt' timeCost nRows nCols =
      lyra2_old (True, True, True) fresh K kLen pwd slt timeCost nRows nCols"
    using run [OF assms(2-4)] run [of nRows nCols pwd' slt'] assms(3,4) first_input_block [OF long] first_input_block [of pwd' slt']
    by simp
qed

theorem lyra2_old_absorbs_first_block_witness:
  "lyra2_old (True, True, True) (replicate 16 9) (replicate 32 0) 32 (replicate 32 1) (replicate 32 1) 1 8 8 =
     Some (0, lyra_spec pick_first [words_of (replicate 64 1), replicate 8 0] 1 8 8 32) \<and>
   lyra2_old (True, True, True) (replicate 16 9) (replicate 32 0) 32 (replicate 64 1) [2, 3] 1 8 8 =
     lyra2_old (True, True, True) (replicate 16 9) (replicate 32 0) 32 (replicate 32 1) (replicate 32 1) 1 8 8"
proof -
  have "(replicate 32 1 @ replicate 32 1 :: bytes) = replicate 64 1" by (simp flip: replicate_add)
  then show ?thesis
    using lyra2_old_absorbs_first_block [of "replicate 16 9" 8 8 "replicate 32 1" "replicate 32 1" 32 "replicate 32 0" 1]
    by (simp add: lyra_args_ok_def lyra_blocks_def)
qed

text \<open>
  C38. The rows of the phases. The bodies of both loops keep their invariants: in the setup phase, row \<open>row\<close> revisits
  \<open>setup_rowa row\<close>, with \<open>window\<close>, \<open>step\<close> and \<open>gap\<close> in closed form; in the wandering phase the next row is \<open>lyra_next\<close>.
  Row \<open>2 ^ k + t\<close> revisits a row below \<open>2 ^ k\<close>, other than the one before, and each of them once per window. A pass of the wandering phase starts at row 0 and, following the code's
  update of \<open>row\<close>, comes back to it after the rows of \<open>wander_rows\<close>, all different: all rows when their number is a
  power of two of at least four (as in every call of the library), but for 6 rows, say, an odd pass leaves half of
  them out, and an even one, where -1 is added to an unsigned number, goes from row 0 to row 3 and leaves out the last two.
\<close>

theorem lyra2_visits_rows:
  assumes "3 \<le> unat nRows" and "unat nRows < 2 ^ 63" and "0 < k" and "nCols < 2 ^ 31"
  shows "(\<forall>row t v. setup_inv (unat nRows) nCols row t v \<and> 2 \<le> row \<and> row < unat nRows \<longrightarrow>
      (\<exists>v'. lyra_setup_body (lyra_rows (unat nRows) nCols) nCols v = Some v' \<and>
        setup_inv (unat nRows) nCols (Suc row) (setup_spec_row nCols row t) v')) \<and>
    (\<forall>row st v. wander_inv (unat nRows) nCols st v \<and> ly_row v = int row \<and> row < unat nRows \<longrightarrow>
      (\<exists>v'. lyra_wander_body pick (lyra_rows (unat nRows) nCols) nCols v = Some v' \<and>
        wander_inv (unat nRows) nCols (wander_spec_row pick nCols (unat nRows) row st) v' \<and>
        ly_row v' = int (lyra_next (unat nRows) (ly_step v) row))) \<and>
    bij_betw (\<lambda>t. setup_rowa (2 ^ k + t)) {..<2 ^ k} {..<2 ^ k} \<and>
    (\<forall>row \<ge> 2. setup_rowa row < row \<and> setup_rowa row \<noteq> row - 1) \<and>
    lyra_visits (lyra_next (unat nRows) (lyra_time_step nRows tau)) (wander_rows (unat nRows) tau) \<and>
    hd (wander_rows (unat nRows) tau) = 0 \<and> distinct (wander_rows (unat nRows) tau) \<and>
    (\<forall>j \<ge> 2. unat nRows = 2 ^ j \<longrightarrow> set (wander_rows (unat nRows) tau) = {..<unat nRows}) \<and>
    set (wander_rows 6 1) = {0, 2, 4} \<and> wander_rows 6 2 = [0, 3, 2, 1]"
proof (intro conjI allI impI)
  fix row t v
  assume "setup_inv (unat nRows) nCols row t v \<and> 2 \<le> row \<and> row < unat nRows"
  then show "\<exists>v'. lyra_setup_body (lyra_rows (unat nRows) nCols) nCols v = Some v' \<and>
      setup_inv (unat nRows) nCols (Suc row) (setup_spec_row nCols row t) v'"
    using setup_body_inv assms(4) by blast
next
  fix row st v
  assume "wander_inv (unat nRows) nCols st v \<and> ly_row v = int row \<and> row < unat nRows"
  then show "\<exists>v'. lyra_wander_body pick (lyra_rows (unat nRows) nCols) nCols v = Some v' \<and>
      wander_inv (unat nRows) nCols (wander_spec_row pick nCols (unat nRows) row st) v' \<and>
      ly_row v' = int (lyra_next (unat nRows) (ly_step v) row)"
    using wander_body_inv [of "unat nRows" nCols st v row pick] assms(4) by blast
next
  fix j
  assume "2 \<le> j" and "unat nRows = 2 ^ j"
  then show "set (wander_rows (unat nRows) tau) = {..<unat nRows}" by (rule all_rows_visited [OF _ _ assms(2)])
qed (rule setup_window_bij setup_rowa_less(2) setup_rowa_not_prev wander_rows_visits distinct_wander_rows six_rows; use assms in simp)+

theorem lyra2_visits_rows_witness:
  "bij_betw (\<lambda>t. setup_rowa (2 ^ 3 + t)) {..<2 ^ 3} {..<2 ^ 3} \<and> set (wander_rows 8 5) = {..<8}"
proof -
  have u: "unat (8 :: u64) = 8" and "(8 :: nat) = 2 ^ 3" "(2 :: nat) \<le> 3" by simp_all
  moreover have "3 \<le> unat (8 :: u64)" "unat (8 :: u64) < 2 ^ 63" "0 < (3 :: nat)" "(4 :: nat) < 2 ^ 31" by simp_all
  note lyra2_visits_rows [OF this, of pick_first 5, unfolded u]
  ultimately show ?thesis by blast
qed

text \<open>
  C39. The failures of \<open>LYRA2\<close>, in all three versions: when the sizes fit (\<open>lyra_args_ok\<close>, as in C37) and an
  allocation fails, the functions return -1 and leave the key as it was; with fewer than three rows they read the table of rows behind its end; and an input that is longer
  than the matrix is written behind it, which no check prevents.
\<close>

theorem lyra2_failures:
  shows "(lyra_args_ok (unat nRows) (unat nCols) pwd slt \<longrightarrow> mallocs \<noteq> (True, True, True) \<longrightarrow>
      lyra2_with stride pick mallocs fresh K kLen pwd slt timeCost nRows nCols = Some (-1, K)) \<and>
    (unat nRows \<le> 2 \<or> 96 * (unat nRows * unat nCols) < min (64 * lyra_blocks pwd slt) (2 ^ 63) \<longrightarrow>
      lyra2_with stride pick (True, True, True) fresh K kLen pwd slt timeCost nRows nCols = None)"
proof (intro conjI impI)
  assume "lyra_args_ok (unat nRows) (unat nCols) pwd slt" and "mallocs \<noteq> (True, True, True)"
  then show "lyra2_with stride pick mallocs fresh K kLen pwd slt timeCost nRows nCols = Some (-1, K)" by (rule lyra2_no_memory)
next
  assume "unat nRows \<le> 2 \<or> 96 * (unat nRows * unat nCols) < min (64 * lyra_blocks pwd slt) (2 ^ 63)"
  then show "lyra2_with stride pick (True, True, True) fresh K kLen pwd slt timeCost nRows nCols = None"
    by (elim disjE) (intro lyra2_few_rows, assumption, intro lyra2_long_input, simp_all only: min_less_iff_conj)
qed

theorem lyra2_failures_witness:
  "lyra2 (True, False, True) [] [7] 1 [1] [2] 1 4 4 = Some (-1, [7]) \<and> lyra2 (True, True, True) [] [7] 1 [1] [2] 1 2 4 = None \<and>
   lyra2_3 (True, True, True) [] [7] 1 (replicate 2000 1) [2] 1 4 4 = None"
  using lyra2_failures [of 4 4 "[1]" "[2]" "(True, False, True)" 8 pick_first "[]" "[7]" 1 1]
    lyra2_failures [of 2 4 "[1]" "[2]" "(True, True, True)" 8 pick_first "[]" "[7]" 1 1]
    lyra2_failures [of 4 4 "replicate 2000 1" "[2]" "(True, True, True)" 8 pick_index "[]" "[7]" 1 1]
  by (simp add: lyra2_def lyra2_3_def lyra_args_ok_def lyra_blocks_def)

text \<open>
  C40. The chains lyra2re, lyra2re2, lyra2re3 and allium with the Lyra2 of the library in place of the parameter: the
  order of the digests, and between them the value of the specification of Lyra2 for the running value as password
  and salt. Memory is assumed to be available: then every call that the chains make (4 or 8 rows and columns,
  32 bytes as key, password and salt) returns 0 and stores that value, whatever the key buffer and the fresh state
  held. When one of the three allocations of a call fails, the call returns -1 and stores nothing; the chains do not
  look at the return value.
\<close>

theorem lyra_chains_computed:
  assumes "sph_ok H" and "length bufA = 32" and "length bufB = 32"
  shows "lyra2re_hash H lyra_native bufA bufB input =
      (H GROESTL256 \<circ> H SKEIN256 \<circ> lyra_call LYRA2_OLD 8 \<circ> H KECCAK256 \<circ> H BLAKE256) (take 80 input) \<and>
    lyra2re2_hash H lyra_native bufA bufB input =
      (H BMW256 \<circ> H CUBEHASH256 \<circ> H SKEIN256 \<circ> lyra_call LYRA2 4 \<circ> H CUBEHASH256 \<circ> H KECCAK256 \<circ> H BLAKE256)
        (take 80 input) \<and>
    lyra2re3_hash H lyra_native bufA bufB input =
      (H BMW256 \<circ> lyra_call LYRA2_3 4 \<circ> H CUBEHASH256 \<circ> lyra_call LYRA2_3 4 \<circ> H BLAKE256) (take 80 input) \<and>
    allium_hash H lyra_native bufA bufB input len =
      (H GROESTL256 \<circ> H SKEIN256 \<circ> lyra_call LYRA2 8 \<circ> H CUBEHASH256 \<circ> lyra_call LYRA2 8 \<circ> H KECCAK256
       \<circ> H BLAKE256) (take len input) \<and>
    (\<forall>v n x K fresh. lyra_chain_call n x K fresh \<longrightarrow>
      lyra_run v (True, True, True) fresh K 32 x x 1 n n = Some (0, lyra_call v n x) \<and>
      (\<forall>mallocs. mallocs \<noteq> (True, True, True) \<longrightarrow> lyra_run v mallocs fresh K 32 x x 1 n n = Some (-1, K)))"
  by (intro conjI native_chains assms allI impI lyra_run_chain)

theorem lyra_chains_computed_witness:
  "lyra2re2_hash sample_sph lyra_native (replicate 32 0) (replicate 32 0) (replicate 80 1) =
     (sample_sph BMW256 \<circ> sample_sph CUBEHASH256 \<circ> sample_sph SKEIN256 \<circ> lyra_call LYRA2 4 \<circ> sample_sph CUBEHASH256
      \<circ> sample_sph KECCAK256 \<circ> sample_sph BLAKE256) (replicate 80 1) \<and>
   lyra_run LYRA2_3 (True, True, True) (replicate 16 9) (replicate 32 7) 32 (replicate 32 1) (replicate 32 1) 1 4 4 =
     Some (0, lyra_call LYRA2_3 4 (replicate 32 1)) \<and>
   lyra_run LYRA2_3 (True, True, False) (replicate 16 9) (replicate 32 7) 32 (replicate 32 1) (replicate 32 1) 1 4 4 =
     Some (-1, replicate 32 7)"
proof -
  have "lyra_chain_call 4 (replicate 32 1) (replicate 32 7) (replicate 16 9)" by (simp add: lyra_chain_call_def)
  with lyra_chains_computed [of sample_sph "replicate 32 0" "replicate 32 0" "replicate 80 1"] sample_sph_ok
  show ?thesis by simp
qed

end
